(* ===== verification/Prelude.thy ===== *)
theory Prelude
  imports Main "HOL-Library.Monad_Syntax" "HOL-Library.AList" "HOL-Library.Multiset"
begin

text \<open>
  Shared vocabulary of the development.

  \<^item> A C++ function that may not return normally (a LOG_FATAL throws, an \<open>assert\<close> fails, a
    vector is read out of range, a null pointer is read) is a HOL function into \<open>'a option\<close>; \<open>None\<close> is
    that outcome.  No caller in the program catches these exceptions, so \<open>None\<close> stands for
    "the process dies here".  \<open>do\<close>-notation of \<open>Monad_Syntax\<close> sequences such calls.
  \<^item> \<open>uint64_t\<close> and \<open>uint32_t\<close> values are natural numbers, with the wrap-around of each
    addition and subtraction written out (\<open>add64\<close>, \<open>sub64\<close>, \<open>add32\<close>).
  \<^item> \<open>std::vector\<close> is a list; every indexed access, sub-range and erase goes through an
    operation that checks the range.
  \<^item> \<open>std::unordered_map\<close> is an association list with distinct keys, whose order is the
    (unspecified) iteration order of the container.
\<close>

named_theorems u64 \<open>removal of the wrap-around where the operands are in range\<close>
named_theorems vec \<open>checked vector operations\<close>

section \<open>Fixed-width arithmetic\<close>

definition W64 :: nat where
  "W64 = 2 ^ 64"

definition W32 :: nat where
  "W32 = 2 ^ 32"

lemma W64_num [code]: "W64 = 18446744073709551616"
  by (simp add: W64_def)

lemma W32_num [code]: "W32 = 4294967296"
  by (simp add: W32_def)

definition add64 :: "nat \<Rightarrow> nat \<Rightarrow> nat" where
  "add64 a b = (a + b) mod W64"

definition sub64 :: "nat \<Rightarrow> nat \<Rightarrow> nat" where
  "sub64 a b = (if b \<le> a then a - b else W64 - (b - a))"

definition add32 :: "nat \<Rightarrow> nat \<Rightarrow> nat" where
  "add32 a b = (a + b) mod W32"

lemma W64_pos [simp]: "0 < W64"
  by (simp add: W64_def)

lemma W32_pos [simp]: "0 < W32"
  by (simp add: W32_def)

lemma W64_gt_1 [simp]: "1 < W64" "Suc 0 < W64"
  by (simp_all add: W64_def)

lemma add64_lt [simp]: "add64 a b < W64"
  by (simp add: add64_def)

lemma add64_exact [u64]: "a + b < W64 \<Longrightarrow> add64 a b = a + b"
  by (simp add: add64_def)

lemma add64_0 [simp]: "a < W64 \<Longrightarrow> add64 a 0 = a"
  by (simp add: add64_def)

lemma sub64_exact [u64]: "b \<le> a \<Longrightarrow> sub64 a b = a - b"
  by (simp add: sub64_def)

lemma sub64_0 [simp]: "sub64 a 0 = a"
  by (simp add: sub64_def)

lemma sub64_add64: "a < W64 \<Longrightarrow> b < W64 \<Longrightarrow> sub64 (add64 a b) b = a"
  by (cases "a + b < W64") (auto simp: sub64_def add64_def le_mod_geq)

lemma add32_exact [u64]: "a + b < W32 \<Longrightarrow> add32 a b = a + b"
  by (simp add: add32_def)

lemma add32_lt [simp]: "add32 a b < W32"
  by (simp add: add32_def)

section \<open>Checks and checked vector accesses\<close>

definition check :: "bool \<Rightarrow> unit option" where
  "check b = (if b then Some () else None)"

lemma check_True [simp]: "check True = Some ()"
  by (simp add: check_def)

lemma check_False [simp]: "check False = None"
  by (simp add: check_def)

lemma check_eq_Some [simp]: "check b = Some u \<longleftrightarrow> b"
  by (simp add: check_def)

lemma check_eq_None [simp]: "check b = None \<longleftrightarrow> \<not> b"
  by (simp add: check_def)

definition vec_at :: "'a list \<Rightarrow> nat \<Rightarrow> 'a option" where
  "vec_at xs i = (if i < length xs then Some (xs ! i) else None)"

definition vec_range :: "'a list \<Rightarrow> nat \<Rightarrow> nat \<Rightarrow> 'a list option" where
  "vec_range xs i j = (if i \<le> j \<and> j \<le> length xs then Some (take (j - i) (drop i xs)) else None)"

definition vec_set :: "'a list \<Rightarrow> nat \<Rightarrow> 'a \<Rightarrow> 'a list option" where
  "vec_set xs i x = (if i < length xs then Some (xs[i := x]) else None)"

definition vec_resize :: "'a \<Rightarrow> nat \<Rightarrow> 'a list \<Rightarrow> 'a list" where
  "vec_resize d n xs = take n xs @ replicate (n - length xs) d"

lemma vec_at_eq_Some [vec]: "vec_at xs i = Some x \<longleftrightarrow> i < length xs \<and> x = xs ! i"
  by (auto simp: vec_at_def)

lemma vec_at_in [simp]: "i < length xs \<Longrightarrow> vec_at xs i = Some (xs ! i)"
  by (simp add: vec_at_def)

lemma vec_at_None [simp]: "vec_at xs i = None \<longleftrightarrow> length xs \<le> i"
  by (simp add: vec_at_def not_less)

lemma vec_at_Cons_0 [simp]: "vec_at (x # xs) 0 = Some x"
  by (simp add: vec_at_def)

lemma vec_range_in [simp]:
  "i \<le> j \<Longrightarrow> j \<le> length xs \<Longrightarrow> vec_range xs i j = Some (take (j - i) (drop i xs))"
  by (simp add: vec_range_def)

lemma vec_range_eq_Some [vec]:
  "vec_range xs i j = Some ys \<longleftrightarrow> i \<le> j \<and> j \<le> length xs \<and> ys = take (j - i) (drop i xs)"
  by (auto simp: vec_range_def)

lemma vec_set_in [simp]: "i < length xs \<Longrightarrow> vec_set xs i x = Some (xs[i := x])"
  by (simp add: vec_set_def)

lemma vec_set_eq_Some [vec]: "vec_set xs i x = Some ys \<longleftrightarrow> i < length xs \<and> ys = xs[i := x]"
  by (auto simp: vec_set_def)

lemma length_vec_resize [simp]: "length (vec_resize d n xs) = n"
  by (simp add: vec_resize_def)

lemma nth_vec_resize: "i < n \<Longrightarrow> i < length xs \<Longrightarrow> vec_resize d n xs ! i = xs ! i"
  by (simp add: vec_resize_def nth_append)

lemma take_drop_two_parts:
  assumes "i \<le> k" "k \<le> length xs"
  shows "take (h - i) (drop i (take k xs @ ys)) = take (min h k - i) (drop i xs) @ take (h - k) ys"
proof (cases "i \<le> h")
  case True
  then have "min (h - i) (k - i) = min h k - i" "h - i - (k - i) = h - k"
    using assms(1) by auto
  then show ?thesis using assms by (simp add: drop_take)
qed (use assms in auto)

section \<open>Loops over containers\<close>

text \<open>A \<open>for\<close> loop over a container whose body updates the state and may fault.\<close>

primrec each :: "('a \<Rightarrow> 's \<Rightarrow> 's option) \<Rightarrow> 'a list \<Rightarrow> 's \<Rightarrow> 's option" where
  "each f [] s = Some s"
| "each f (x # xs) s = do { s' \<leftarrow> f x s; each f xs s' }"

text \<open>
  A relation that every body execution establishes between the states before and after, and that
  is reflexive and transitive, holds between the states before and after the loop.
\<close>

lemma each_rel:
  assumes "each f xs s = Some t"
    and "\<And>s. R s s" and "\<And>a b c. R a b \<Longrightarrow> R b c \<Longrightarrow> R a c"
    and "\<And>x a b. x \<in> set xs \<Longrightarrow> f x a = Some b \<Longrightarrow> R a b"
  shows "R s t"
  using assms(1,4)
proof (induction xs arbitrary: s)
  case Nil
  then show ?case using assms(2) by simp
next
  case (Cons x xs)
  then obtain s' where "f x s = Some s'" and rest: "each f xs s' = Some t"
    by (auto split: Option.bind_splits)
  then have "R s s'" using Cons.prems(2) [of x s s'] by simp
  moreover have "R s' t"
    by (rule Cons.IH [OF rest]) (erule (1) Cons.prems(2) [OF list.set_intros(2)])
  ultimately show ?case by (rule assms(3))
qed

lemma each_total:
  assumes "I s" and "\<And>x a. x \<in> set xs \<Longrightarrow> I a \<Longrightarrow> \<exists>b. f x a = Some b \<and> I b"
  shows "\<exists>t. each f xs s = Some t \<and> I t"
  using assms
proof (induction xs arbitrary: s)
  case (Cons x xs)
  then obtain s' where "f x s = Some s'" "I s'" by fastforce
  with Cons show ?case by fastforce
qed simp

section \<open>Association lists\<close>

declare map_of_eq_Some_iff [simp del] Some_eq_map_of_iff [simp del]

lemma map_of_update [simp]: "map_of (AList.update k v al) = (map_of al)(k \<mapsto> v)"
  by (rule update_conv')

lemma map_of_delete [simp]: "map_of (AList.delete k al) = (map_of al)(k := None)"
  by (rule delete_conv')

lemma keys_update: "set (map fst (AList.update k v al)) = insert k (set (map fst al))"
  by (simp add: dom_update)

lemma fst_set_update [simp]: "fst ` set (AList.update k v al) = insert k (fst ` set al)"
  using keys_update [of k v al] by (simp only: set_map)

lemma map_fst_update_in:
  "k \<in> set (map fst al) \<Longrightarrow> map fst (AList.update k v al) = map fst al"
  by (simp add: update_keys)

lemma map_of_eq_None_iff': "map_of al k = None \<longleftrightarrow> k \<notin> set (map fst al)"
  by (induction al) auto

lemma map_of_some_in: "map_of al k = Some v \<Longrightarrow> k \<in> set (map fst al)"
  by (force dest: map_of_SomeD)

end
