(* ===== verification/Proto.thy ===== *)
theory Proto
  imports Prelude
begin

text \<open>
  The data of the protocol: \<open>raft/proto.h\<close>, \<open>raft/proto.cpp\<close> and \<open>common/status.h\<close>.
  Byte vectors (\<open>std::vector<uint8_t>\<close>) and \<open>std::string\<close> are both \<open>string\<close>, a list of
  8-bit characters.  The msgpack encoding of \<open>ConfChange\<close> is third-party code and therefore a
  parameter of the definitions that use it.
\<close>

section \<open>Status\<close>

text \<open>\<open>common/status.h\<close>: a status is OK or a code with a message.\<close>

datatype status =
    StatusOk
  | NotFound string
  | NotSupported string
  | InvalidArgument string
  | IOError string

fun is_ok :: "status \<Rightarrow> bool" where
  "is_ok StatusOk = True"
| "is_ok _ = False"

fun is_not_found :: "status \<Rightarrow> bool" where
  "is_not_found (NotFound _) = True"
| "is_not_found _ = False"

text \<open>\<open>Status::to_string\<close>; an empty message drops the colon of the prefix.\<close>

definition status_text :: "string \<Rightarrow> string \<Rightarrow> string" where
  "status_text prefix msg = (if length msg > 0 then prefix @ msg else butlast prefix)"

fun status_to_string :: "status \<Rightarrow> string" where
  "status_to_string StatusOk = ''ok''"
| "status_to_string (NotFound m) = status_text ''not found:'' m"
| "status_to_string (NotSupported m) = status_text ''not supported:'' m"
| "status_to_string (InvalidArgument m) = status_text ''invalid argument:'' m"
| "status_to_string (IOError m) = status_text ''io error:'' m"

lemma status_to_string_ok_iff: "status_to_string s = ''ok'' \<longleftrightarrow> s = StatusOk"
  by (cases s) (auto simp: status_text_def)

section \<open>Message and entry types\<close>

text \<open>
  \<open>MessageType\<close> is a byte with nineteen named values; the remaining byte values, which a peer may
  put on the wire, are \<open>MsgUnknown\<close>.
\<close>

datatype msg_type =
    MsgHup | MsgBeat | MsgProp | MsgApp | MsgAppResp | MsgVote | MsgVoteResp | MsgSnap
  | MsgHeartbeat | MsgHeartbeatResp | MsgUnreachable | MsgSnapStatus | MsgCheckQuorum
  | MsgTransferLeader | MsgTimeoutNow | MsgReadIndex | MsgReadIndexResp | MsgPreVote
  | MsgPreVoteResp | MsgUnknown nat

text \<open>\<open>msg_type_to_string\<close>: LOG_FATAL on any other byte.\<close>

fun msg_type_to_string :: "msg_type \<Rightarrow> string option" where
  "msg_type_to_string MsgHup = Some ''MsgHup''"
| "msg_type_to_string MsgBeat = Some ''MsgBeat''"
| "msg_type_to_string MsgProp = Some ''MsgProp''"
| "msg_type_to_string MsgApp = Some ''MsgApp''"
| "msg_type_to_string MsgAppResp = Some ''MsgAppResp''"
| "msg_type_to_string MsgVote = Some ''MsgVote''"
| "msg_type_to_string MsgVoteResp = Some ''MsgVoteResp''"
| "msg_type_to_string MsgSnap = Some ''MsgSnap''"
| "msg_type_to_string MsgHeartbeat = Some ''MsgHeartbeat''"
| "msg_type_to_string MsgHeartbeatResp = Some ''MsgHeartbeatResp''"
| "msg_type_to_string MsgUnreachable = Some ''MsgUnreachable''"
| "msg_type_to_string MsgSnapStatus = Some ''MsgSnapStatus''"
| "msg_type_to_string MsgCheckQuorum = Some ''MsgCheckQuorum''"
| "msg_type_to_string MsgTransferLeader = Some ''MsgTransferLeader''"
| "msg_type_to_string MsgTimeoutNow = Some ''MsgTimeoutNow''"
| "msg_type_to_string MsgReadIndex = Some ''MsgReadIndex''"
| "msg_type_to_string MsgReadIndexResp = Some ''MsgReadIndexResp''"
| "msg_type_to_string MsgPreVote = Some ''MsgPreVote''"
| "msg_type_to_string MsgPreVoteResp = Some ''MsgPreVoteResp''"
| "msg_type_to_string (MsgUnknown b) = None"

text \<open>
  \<open>EntryType\<close> is a byte as well; \<open>read_index\<close> stores a message type in it, so it stays a number.
\<close>

definition EntryNormal :: nat where
  "EntryNormal = 0"

definition EntryConfChange :: nat where
  "EntryConfChange = 1"

definition entry_type_to_string :: "nat \<Rightarrow> string option" where
  "entry_type_to_string t =
     (if t = EntryNormal then Some ''EntryNormal''
      else if t = EntryConfChange then Some ''EntryConfChange''
      else None)"

record entry =
  e_type :: nat
  e_term :: nat
  e_index :: nat
  e_data :: string

definition new_entry :: entry where
  "new_entry = \<lparr>e_type = EntryNormal, e_term = 0, e_index = 0, e_data = ''''\<rparr>"

definition payload_size :: "entry \<Rightarrow> nat" where
  "payload_size e = length (e_data e) mod W32"

record conf_state =
  cs_nodes :: "nat list"
  cs_learners :: "nat list"

definition empty_conf_state :: conf_state where
  "empty_conf_state = \<lparr>cs_nodes = [], cs_learners = []\<rparr>"

record snapshot_metadata =
  sm_conf_state :: conf_state
  sm_index :: nat
  sm_term :: nat

record snapshot =
  s_data :: string
  s_metadata :: snapshot_metadata

definition empty_snapshot :: snapshot where
  "empty_snapshot =
     \<lparr>s_data = '''', s_metadata = \<lparr>sm_conf_state = empty_conf_state, sm_index = 0, sm_term = 0\<rparr>\<rparr>"

abbreviation s_index :: "snapshot \<Rightarrow> nat" where
  "s_index s \<equiv> sm_index (s_metadata s)"

abbreviation s_term :: "snapshot \<Rightarrow> nat" where
  "s_term s \<equiv> sm_term (s_metadata s)"

abbreviation s_conf :: "snapshot \<Rightarrow> conf_state" where
  "s_conf s \<equiv> sm_conf_state (s_metadata s)"

definition snapshot_is_empty :: "snapshot \<Rightarrow> bool" where
  "snapshot_is_empty s \<longleftrightarrow> s_index s = 0"

record message =
  m_type :: msg_type
  m_to :: nat
  m_from :: nat
  m_term :: nat
  m_log_term :: nat
  m_index :: nat
  m_entries :: "entry list"
  m_commit :: nat
  m_snapshot :: snapshot
  m_reject :: bool
  m_reject_hint :: nat
  m_context :: string

definition new_message :: message where
  "new_message =
     \<lparr>m_type = MsgHup, m_to = 0, m_from = 0, m_term = 0, m_log_term = 0, m_index = 0,
      m_entries = [], m_commit = 0, m_snapshot = empty_snapshot, m_reject = False,
      m_reject_hint = 0, m_context = ''''\<rparr>"

definition msg_is_local :: "message \<Rightarrow> bool" where
  "msg_is_local m \<longleftrightarrow>
     m_type m = MsgHup \<or> m_type m = MsgBeat \<or> m_type m = MsgUnreachable \<or>
     m_type m = MsgSnapStatus \<or> m_type m = MsgCheckQuorum"

definition msg_is_response :: "message \<Rightarrow> bool" where
  "msg_is_response m \<longleftrightarrow>
     m_type m = MsgAppResp \<or> m_type m = MsgVoteResp \<or> m_type m = MsgHeartbeatResp \<or>
     m_type m = MsgUnreachable \<or> m_type m = MsgPreVoteResp"

record hard_state =
  hs_term :: nat
  hs_vote :: nat
  hs_commit :: nat

definition empty_hard_state :: hard_state where
  "empty_hard_state = \<lparr>hs_term = 0, hs_vote = 0, hs_commit = 0\<rparr>"

definition hs_is_empty :: "hard_state \<Rightarrow> bool" where
  "hs_is_empty h \<longleftrightarrow> hs_term h = 0 \<and> hs_vote h = 0 \<and> hs_commit h = 0"

text \<open>The four change types are the byte values 0 to 3; the switch on them has a default branch.\<close>

definition ConfChangeAddNode :: nat where
  "ConfChangeAddNode = 0"

definition ConfChangeRemoveNode :: nat where
  "ConfChangeRemoveNode = 1"

definition ConfChangeUpdateNode :: nat where
  "ConfChangeUpdateNode = 2"

definition ConfChangeAddLearnerNode :: nat where
  "ConfChangeAddLearnerNode = 3"

record conf_change =
  cc_id :: nat
  cc_type :: nat
  cc_node_id :: nat
  cc_context :: string

section \<open>Serialized sizes\<close>

definition u8_serialize_size :: "nat \<Rightarrow> nat" where
  "u8_serialize_size d = (if d < 2 ^ 7 then 1 else 2)"

definition u64_serialize_size :: "nat \<Rightarrow> nat" where
  "u64_serialize_size d =
     (if d < 2 ^ 8 then (if d < 2 ^ 7 then 1 else 2)
      else if d < 2 ^ 16 then 3
      else if d < 2 ^ 32 then 5
      else 9)"

definition data_serialize_size :: "nat \<Rightarrow> nat" where
  "data_serialize_size len =
     (if len \<le> 2 ^ 8 - 1 then add32 2 len
      else if len \<le> 2 ^ 16 - 1 then add32 3 len
      else add32 5 len)"

definition serialize_size :: "entry \<Rightarrow> nat" where
  "serialize_size e =
     add32 (1 + u8_serialize_size (e_type e) + u64_serialize_size (e_term e)
              + u64_serialize_size (e_index e))
           (data_serialize_size (length (e_data e) mod W32))"

text \<open>The size of an entry is never underestimated by less than its fixed part.\<close>

lemma u64_serialize_size_bounds: "1 \<le> u64_serialize_size d \<and> u64_serialize_size d \<le> 9"
  by (simp add: u64_serialize_size_def)

lemma u8_serialize_size_bounds: "1 \<le> u8_serialize_size d \<and> u8_serialize_size d \<le> 2"
  by (simp add: u8_serialize_size_def)

lemma serialize_size_bounds:
  assumes "length (e_data e) + 26 < W32"
  shows "length (e_data e) + 6 \<le> serialize_size e \<and> serialize_size e \<le> length (e_data e) + 26"
proof -
  have d: "data_serialize_size (length (e_data e)) \<ge> length (e_data e) + 2"
    "data_serialize_size (length (e_data e)) \<le> length (e_data e) + 5"
    using assms by (auto simp: data_serialize_size_def add32_exact)
  show ?thesis
    using assms d u64_serialize_size_bounds [of "e_term e"] u64_serialize_size_bounds [of "e_index e"]
      u8_serialize_size_bounds [of "e_type e"]
    by (simp add: serialize_size_def add32_exact)
qed

section \<open>Consecutive entries\<close>

text \<open>\<open>consec i es\<close>: the entries carry the indices \<open>i\<close>, \<open>i + 1\<close>, and so on.\<close>

definition consec :: "nat \<Rightarrow> entry list \<Rightarrow> bool" where
  "consec i es \<longleftrightarrow> map e_index es = [i ..< i + length es]"

lemma consec_Nil [simp]: "consec i []"
  by (simp add: consec_def)

lemma consec_Cons [simp]: "consec i (e # es) \<longleftrightarrow> e_index e = i \<and> consec (Suc i) es"
  by (simp add: consec_def upt_conv_Cons del: upt_Suc)

lemma consec_append [simp]:
  "consec i (xs @ ys) \<longleftrightarrow> consec i xs \<and> consec (i + length xs) ys"
  by (induction xs arbitrary: i) auto

lemma consec_nth: "consec i es \<Longrightarrow> k < length es \<Longrightarrow> e_index (es ! k) = i + k"
  by (induction es arbitrary: i k) (auto simp: nth_Cons split: nat.splits)

lemma consec_drop: "consec i es \<Longrightarrow> consec (i + n) (drop n es)"
proof (induction es arbitrary: i n)
  case (Cons e es)
  show ?case
  proof (cases n)
    case (Suc m)
    then show ?thesis using Cons.IH [of "Suc i" m] Cons.prems by simp
  qed (use Cons.prems in simp)
qed simp

lemma consec_take: "consec i es \<Longrightarrow> consec i (take n es)"
  by (induction es arbitrary: i n) (auto simp: take_Cons split: nat.splits)

lemma consec_hd: "consec i es \<Longrightarrow> es \<noteq> [] \<Longrightarrow> e_index (hd es) = i"
  by (cases es) auto

lemma consec_last: "consec i es \<Longrightarrow> es \<noteq> [] \<Longrightarrow> e_index (last es) = i + length es - 1"
  by (induction es arbitrary: i) auto

end
