(* ===== verification/Unstable.thy ===== *)
theory Unstable
  imports Proto
begin

text \<open>
  \<open>raft/util.cpp\<close> and \<open>raft/unstable.cpp\<close>: the part of the log that is not yet in storage,
  \<open>entries[i]\<close> having log position \<open>i + offset\<close>, and the snapshot not yet in storage.
\<close>

section \<open>Utilities\<close>

text \<open>
  \<open>entry_limit_size\<close>: the loop over \<open>limit\<close> keeps the longest prefix whose serialized size does
  not exceed \<open>max_size\<close>, and always the first entry.
\<close>

fun limit_loop :: "nat \<Rightarrow> nat \<Rightarrow> entry list \<Rightarrow> entry list" where
  "limit_loop max_size sz [] = []"
| "limit_loop max_size sz (e # es) =
     (let sz' = add64 sz (serialize_size e) in
      if sz' > max_size then [] else e # limit_loop max_size sz' es)"

definition entry_limit_size :: "nat \<Rightarrow> entry list \<Rightarrow> entry list" where
  "entry_limit_size max_size es =
     (case es of [] \<Rightarrow> [] | e # es' \<Rightarrow> e # limit_loop max_size (serialize_size e) es')"

definition vote_resp_msg_type :: "msg_type \<Rightarrow> msg_type option" where
  "vote_resp_msg_type t =
     (case t of MsgVote \<Rightarrow> Some MsgVoteResp | MsgPreVote \<Rightarrow> Some MsgPreVoteResp | _ \<Rightarrow> None)"

definition is_must_sync :: "hard_state \<Rightarrow> hard_state \<Rightarrow> nat \<Rightarrow> bool" where
  "is_must_sync st prevst entsnum \<longleftrightarrow>
     entsnum \<noteq> 0 \<or> hs_vote st \<noteq> hs_vote prevst \<or> hs_term st \<noteq> hs_term prevst"

lemma limit_loop_prefix: "\<exists>n. limit_loop m s es = take n es"
proof (induction m s es rule: limit_loop.induct)
  case (2 m s e es)
  show ?case
  proof (cases "add64 s (serialize_size e) > m")
    case True
    then show ?thesis by (intro exI [of _ 0]) simp
  next
    case False
    then obtain n where "limit_loop m (add64 s (serialize_size e)) es = take n es"
      using "2.IH" by (auto simp: Let_def)
    with False show ?thesis by (intro exI [of _ "Suc n"]) (simp add: Let_def)
  qed
qed simp

lemma entry_limit_size_prefix: "\<exists>n. entry_limit_size m es = take n es \<and> (es \<noteq> [] \<longrightarrow> 0 < n)"
proof (cases es)
  case (Cons e es')
  obtain n where "limit_loop m (serialize_size e) es' = take n es'"
    using limit_loop_prefix by blast
  with Cons show ?thesis by (intro exI [of _ "Suc n"]) (simp add: entry_limit_size_def)
qed (simp add: entry_limit_size_def)

lemma entry_limit_size_eq_Nil [simp]: "entry_limit_size m es = [] \<longleftrightarrow> es = []"
  by (simp add: entry_limit_size_def split: list.splits)

lemma entry_limit_size_Nil [simp]: "entry_limit_size m [] = []"
  by (simp add: entry_limit_size_def)

lemma length_entry_limit_size: "length (entry_limit_size m es) \<le> length es"
  using entry_limit_size_prefix [of m es] by (auto simp: min_def)

lemma consec_entry_limit_size: "consec i es \<Longrightarrow> consec i (entry_limit_size m es)"
  using entry_limit_size_prefix [of m es] by (auto intro: consec_take)

text \<open>
  The size of what is returned: either one entry, or within the bound, as long as the running
  total does not wrap around.
\<close>

lemma limit_loop_size:
  assumes "s + sum_list (map serialize_size es) < W64" "s \<le> m"
  shows "s + sum_list (map serialize_size (limit_loop m s es)) \<le> m"
  using assms
proof (induction m s es rule: limit_loop.induct)
  case (2 m s e es)
  then show ?case by (auto simp: Let_def add64_exact add.assoc)
qed simp

lemma limit_loop_id:
  assumes "s + sum_list (map serialize_size es) < W64" "s + sum_list (map serialize_size es) \<le> m"
  shows "limit_loop m s es = es"
  using assms
proof (induction m s es rule: limit_loop.induct)
  case (2 m s e es)
  then show ?case by (auto simp: Let_def add64_exact add.assoc)
qed simp

abbreviation total_size :: "entry list \<Rightarrow> nat" where
  "total_size es \<equiv> sum_list (map serialize_size es)"

text \<open>What is kept is the longest prefix within the bound, and at least the first entry.\<close>

lemma limit_loop_longest:
  assumes "s + total_size es < W64"
  shows "\<exists>n \<le> length es. limit_loop m s es = take n es \<and>
    (0 < n \<longrightarrow> s + total_size (take n es) \<le> m) \<and>
    (n < length es \<longrightarrow> m < s + total_size (take (Suc n) es))"
  using assms
proof (induction m s es rule: limit_loop.induct)
  case (2 m s e es)
  have a: "add64 s (serialize_size e) = s + serialize_size e"
    using 2(2) by (simp add: add64_exact)
  show ?case
  proof (cases "s + serialize_size e > m")
    case True
    then show ?thesis using a by (intro exI [of _ 0]) simp
  next
    case False
    then obtain n where n: "n \<le> length es" "limit_loop m (s + serialize_size e) es = take n es"
      "0 < n \<longrightarrow> s + serialize_size e + total_size (take n es) \<le> m"
      "n < length es \<longrightarrow> m < s + serialize_size e + total_size (take (Suc n) es)"
      using 2 a by (auto simp: Let_def add.assoc)
    then show ?thesis
      using False a by (intro exI [of _ "Suc n"]) (cases "n = 0"; simp add: Let_def add.assoc)
  qed
qed simp

lemma entry_limit_size_longest:
  assumes "total_size es < W64"
  shows "\<exists>n \<le> length es. entry_limit_size m es = take n es \<and> (es \<noteq> [] \<longrightarrow> 0 < n) \<and>
    (1 < n \<longrightarrow> total_size (take n es) \<le> m) \<and>
    (n < length es \<longrightarrow> m < total_size (take (Suc n) es))"
proof (cases es)
  case (Cons e es')
  then have "serialize_size e + total_size es' < W64" using assms by simp
  from limit_loop_longest [OF this, of m] obtain n where n: "n \<le> length es'"
    "limit_loop m (serialize_size e) es' = take n es'"
    "0 < n \<longrightarrow> serialize_size e + total_size (take n es') \<le> m"
    "n < length es' \<longrightarrow> m < serialize_size e + total_size (take (Suc n) es')"
    by blast
  then show ?thesis unfolding Cons
    by (intro exI [of _ "Suc n"]) (simp add: entry_limit_size_def)
qed simp

lemma serialize_size_lt [simp]: "serialize_size e < W32"
  by (simp add: serialize_size_def)

section \<open>The unstable part of the log\<close>

record unstable =
  u_snapshot :: "snapshot option"
  u_entries :: "entry list"
  u_offset :: nat

definition new_unstable :: "nat \<Rightarrow> unstable" where
  "new_unstable offset = \<lparr>u_snapshot = None, u_entries = [], u_offset = offset\<rparr>"

text \<open>The out-parameters \<open>index\<close> and \<open>ok\<close> are one optional result.\<close>

definition unstable_maybe_first_index :: "unstable \<Rightarrow> nat option" where
  "unstable_maybe_first_index u =
     (case u_snapshot u of Some s \<Rightarrow> Some (add64 (s_index s) 1) | None \<Rightarrow> None)"

definition unstable_maybe_last_index :: "unstable \<Rightarrow> nat option" where
  "unstable_maybe_last_index u =
     (if u_entries u \<noteq> [] then Some (sub64 (add64 (u_offset u) (length (u_entries u))) 1)
      else case u_snapshot u of Some s \<Rightarrow> Some (s_index s) | None \<Rightarrow> None)"

text \<open>The outer option is the fault of an access out of range, the inner one the \<open>ok\<close> flag.\<close>

definition unstable_maybe_term :: "unstable \<Rightarrow> nat \<Rightarrow> nat option option" where
  "unstable_maybe_term u index =
     (if index < u_offset u then
        (case u_snapshot u of
           None \<Rightarrow> Some None
         | Some s \<Rightarrow> if s_index s = index then Some (Some (s_term s)) else Some None)
      else
        (case unstable_maybe_last_index u of
           None \<Rightarrow> Some None
         | Some lst \<Rightarrow>
             if index > lst then Some None
             else do {
               e \<leftarrow> vec_at (u_entries u) (sub64 index (u_offset u));
               Some (Some (e_term e))
             }))"

definition unstable_stable_to :: "unstable \<Rightarrow> nat \<Rightarrow> nat \<Rightarrow> unstable option" where
  "unstable_stable_to u index tm = do {
     gt \<leftarrow> unstable_maybe_term u index;
     case gt of
       None \<Rightarrow> Some u
     | Some g \<Rightarrow>
         if g = tm \<and> index \<ge> u_offset u then do {
           es \<leftarrow> vec_range (u_entries u) (sub64 (add64 index 1) (u_offset u)) (length (u_entries u));
           Some (u\<lparr>u_entries := es, u_offset := add64 index 1\<rparr>)
         }
         else Some u
   }"

definition unstable_stable_snap_to :: "unstable \<Rightarrow> nat \<Rightarrow> unstable" where
  "unstable_stable_snap_to u index =
     (case u_snapshot u of
        Some s \<Rightarrow> if s_index s = index then u\<lparr>u_snapshot := None\<rparr> else u
      | None \<Rightarrow> u)"

definition unstable_restore :: "unstable \<Rightarrow> snapshot \<Rightarrow> unstable" where
  "unstable_restore u s =
     \<lparr>u_snapshot = Some s, u_entries = [], u_offset = add64 (s_index s) 1\<rparr>"

definition unstable_slice :: "unstable \<Rightarrow> nat \<Rightarrow> nat \<Rightarrow> entry list option" where
  "unstable_slice u low high = do {
     check (high > low);
     let upper = add64 (u_offset u) (length (u_entries u));
     check (\<not> (low < u_offset u \<or> high > upper));
     vec_range (u_entries u) (sub64 low (u_offset u)) (sub64 high (u_offset u))
   }"

definition unstable_truncate_and_append :: "unstable \<Rightarrow> entry list \<Rightarrow> unstable option" where
  "unstable_truncate_and_append u es =
     (case es of
        [] \<Rightarrow> Some u
      | e # _ \<Rightarrow>
          let after = e_index e in
          if after = add64 (u_offset u) (length (u_entries u)) then
            Some (u\<lparr>u_entries := u_entries u @ es\<rparr>)
          else if after \<le> u_offset u then
            Some (u\<lparr>u_offset := after, u_entries := es\<rparr>)
          else do {
            kept \<leftarrow> unstable_slice u (u_offset u) after;
            Some (u\<lparr>u_entries := kept @ es\<rparr>)
          })"

end
