(* ===== verification/Storage.thy ===== *)
theory Storage
  imports Unstable
begin

text \<open>
  \<open>raft/storage.cpp\<close>: \<open>MemoryStorage\<close>, the stable part of the log kept in memory.  \<open>entries[0]\<close>
  is a dummy that holds the index and term of the last compacted entry.  The mutex of the class
  makes each operation atomic, so an operation is one function; out-parameter vectors start
  empty at every call and are results here.
\<close>

record memory_storage =
  ms_hard_state :: hard_state
  ms_snapshot :: snapshot
  ms_entries :: "entry list"

definition new_memory_storage :: memory_storage where
  "new_memory_storage =
     \<lparr>ms_hard_state = empty_hard_state, ms_snapshot = empty_snapshot, ms_entries = [new_entry]\<rparr>"

definition compacted :: status where
  "compacted = InvalidArgument ''requested index is unavailable due to compaction''"

definition unavailable :: status where
  "unavailable = InvalidArgument ''requested entry at index is unavailable''"

definition older_snapshot :: status where
  "older_snapshot = InvalidArgument ''requested index is older than the existing snapshot''"

definition storage_initial_state :: "memory_storage \<Rightarrow> hard_state \<times> conf_state" where
  "storage_initial_state s = (ms_hard_state s, s_conf (ms_snapshot s))"

definition storage_set_hard_state :: "memory_storage \<Rightarrow> hard_state \<Rightarrow> memory_storage" where
  "storage_set_hard_state s hs = s\<lparr>ms_hard_state := hs\<rparr>"

definition storage_last_index :: "memory_storage \<Rightarrow> nat option" where
  "storage_last_index s = do {
     e0 \<leftarrow> vec_at (ms_entries s) 0;
     Some (sub64 (add64 (e_index e0) (length (ms_entries s))) 1)
   }"

definition storage_first_index :: "memory_storage \<Rightarrow> nat option" where
  "storage_first_index s = do {
     e0 \<leftarrow> vec_at (ms_entries s) 0;
     Some (add64 (e_index e0) 1)
   }"

definition storage_entries ::
  "memory_storage \<Rightarrow> nat \<Rightarrow> nat \<Rightarrow> nat \<Rightarrow> (status + entry list) option" where
  "storage_entries s low high max_size = do {
     check (low < high);
     e0 \<leftarrow> vec_at (ms_entries s) 0;
     let offset = e_index e0;
     if low \<le> offset then Some (Inl compacted)
     else do {
       lst \<leftarrow> storage_last_index s;
       check (\<not> high > add64 lst 1);
       if length (ms_entries s) = 1 then Some (Inl unavailable)
       else do {
         es \<leftarrow> vec_range (ms_entries s) (sub64 low offset) (sub64 high offset);
         Some (Inr (entry_limit_size max_size es))
       }
     }
   }"

definition storage_term :: "memory_storage \<Rightarrow> nat \<Rightarrow> (status + nat) option" where
  "storage_term s i = do {
     e0 \<leftarrow> vec_at (ms_entries s) 0;
     let offset = e_index e0;
     if i < offset then Some (Inl compacted)
     else if i - offset \<ge> length (ms_entries s) then Some (Inl unavailable)
     else do {
       e \<leftarrow> vec_at (ms_entries s) (i - offset);
       Some (Inr (e_term e))
     }
   }"

definition storage_snapshot :: "memory_storage \<Rightarrow> snapshot" where
  "storage_snapshot s = ms_snapshot s"

definition storage_compact :: "memory_storage \<Rightarrow> nat \<Rightarrow> (status \<times> memory_storage) option" where
  "storage_compact s compact_index = do {
     e0 \<leftarrow> vec_at (ms_entries s) 0;
     let offset = e_index e0;
     if compact_index \<le> offset then Some (compacted, s)
     else do {
       lst \<leftarrow> storage_last_index s;
       check (\<not> compact_index > lst);
       let i = compact_index - offset;
       ei \<leftarrow> vec_at (ms_entries s) i;
       let dummy = e0\<lparr>e_index := e_index ei, e_term := e_term ei\<rparr>;
       Some (StatusOk, s\<lparr>ms_entries := dummy # drop (i + 1) (ms_entries s)\<rparr>)
     }
   }"

definition storage_append :: "memory_storage \<Rightarrow> entry list \<Rightarrow> memory_storage option" where
  "storage_append s es =
     (case es of
        [] \<Rightarrow> Some s
      | e # _ \<Rightarrow> do {
          first \<leftarrow> storage_first_index s;
          let lst = sub64 (add64 (e_index e) (length es)) 1;
          if lst < first then Some s
          else do {
            es' \<leftarrow> (if first > e_index e
                   then vec_range es (first - e_index e) (length es)
                   else Some es);
            e' \<leftarrow> vec_at es' 0;
            e0 \<leftarrow> vec_at (ms_entries s) 0;
            let offset = sub64 (e_index e') (e_index e0);
            if length (ms_entries s) > offset then
              Some (s\<lparr>ms_entries := take offset (ms_entries s) @ es'\<rparr>)
            else if length (ms_entries s) = offset then
              Some (s\<lparr>ms_entries := ms_entries s @ es'\<rparr>)
            else None
          }
        })"

definition storage_create_snapshot ::
  "memory_storage \<Rightarrow> nat \<Rightarrow> conf_state option \<Rightarrow> string
     \<Rightarrow> ((status \<times> snapshot) \<times> memory_storage) option" where
  "storage_create_snapshot s index cs data =
     (if index \<le> s_index (ms_snapshot s) then Some ((older_snapshot, empty_snapshot), s)
      else do {
        e0 \<leftarrow> vec_at (ms_entries s) 0;
        let offset = e_index e0;
        lst \<leftarrow> storage_last_index s;
        check (\<not> index > lst);
        ei \<leftarrow> vec_at (ms_entries s) (sub64 index offset);
        let conf = (case cs of Some c \<Rightarrow> c | None \<Rightarrow> s_conf (ms_snapshot s));
        let snap = \<lparr>s_data = data,
                    s_metadata = \<lparr>sm_conf_state = conf, sm_index = index, sm_term = e_term ei\<rparr>\<rparr>;
        Some ((StatusOk, snap), s\<lparr>ms_snapshot := snap\<rparr>)
      })"

definition storage_apply_snapshot :: "memory_storage \<Rightarrow> snapshot \<Rightarrow> status \<times> memory_storage" where
  "storage_apply_snapshot s snap =
     (if s_index (ms_snapshot s) \<ge> s_index snap then (older_snapshot, s)
      else (StatusOk,
            s\<lparr>ms_snapshot := snap,
              ms_entries := [new_entry\<lparr>e_term := s_term snap, e_index := s_index snap\<rparr>]\<rparr>))"

end
