(* ===== verification/Raft_Log.thy ===== *)
theory Raft_Log
  imports Storage
begin

text \<open>
  \<open>raft/raft_log.cpp\<close>: the replicated log of a node, stored partly in \<open>storage\<close> and partly in
  \<open>unstable\<close>.
\<close>

record raft_log =
  l_storage :: memory_storage
  l_unstable :: unstable
  l_committed :: nat
  l_applied :: nat
  l_max_next_ents_size :: nat

definition unlimited :: nat where
  "unlimited = W64 - 1"

definition new_raft_log :: "memory_storage \<Rightarrow> nat \<Rightarrow> raft_log option" where
  "new_raft_log s max_next = do {
     first \<leftarrow> storage_first_index s;
     lst \<leftarrow> storage_last_index s;
     Some \<lparr>l_storage = s, l_unstable = new_unstable (add64 lst 1),
           l_committed = sub64 first 1, l_applied = sub64 first 1,
           l_max_next_ents_size = max_next\<rparr>
   }"

definition log_first_index :: "raft_log \<Rightarrow> nat option" where
  "log_first_index l =
     (case unstable_maybe_first_index (l_unstable l) of
        Some i \<Rightarrow> Some i
      | None \<Rightarrow> storage_first_index (l_storage l))"

definition log_last_index :: "raft_log \<Rightarrow> nat option" where
  "log_last_index l =
     (case unstable_maybe_last_index (l_unstable l) of
        Some i \<Rightarrow> Some i
      | None \<Rightarrow> storage_last_index (l_storage l))"

text \<open>
  \<open>RaftLog::term\<close>: outside \<open>[first_index - 1, last_index]\<close> the term is 0 with status OK.
\<close>

definition log_term :: "raft_log \<Rightarrow> nat \<Rightarrow> (status + nat) option" where
  "log_term l index = do {
     first \<leftarrow> log_first_index l;
     lst \<leftarrow> log_last_index l;
     if index < sub64 first 1 \<or> index > lst then Some (Inr 0)
     else do {
       t \<leftarrow> unstable_maybe_term (l_unstable l) index;
       case t of
         Some t' \<Rightarrow> Some (Inr t')
       | None \<Rightarrow> storage_term (l_storage l) index
     }
   }"

definition log_last_term :: "raft_log \<Rightarrow> nat option" where
  "log_last_term l = do {
     lst \<leftarrow> log_last_index l;
     t \<leftarrow> log_term l lst;
     case t of Inl _ \<Rightarrow> None | Inr t' \<Rightarrow> Some t'
   }"

definition log_match_term :: "raft_log \<Rightarrow> nat \<Rightarrow> nat \<Rightarrow> bool option" where
  "log_match_term l index t = do {
     r \<leftarrow> log_term l index;
     case r of Inl _ \<Rightarrow> Some False | Inr t' \<Rightarrow> Some (t = t')
   }"

definition log_is_up_to_date :: "raft_log \<Rightarrow> nat \<Rightarrow> nat \<Rightarrow> bool option" where
  "log_is_up_to_date l lasti tm = do {
     lt \<leftarrow> log_last_term l;
     lst \<leftarrow> log_last_index l;
     Some (tm > lt \<or> (tm = lt \<and> lasti \<ge> lst))
   }"

text \<open>
  \<open>find_conflict\<close>: the index of the first given entry whose term differs from the log's, 0 if
  there is none.
\<close>

fun log_find_conflict :: "raft_log \<Rightarrow> entry list \<Rightarrow> nat option" where
  "log_find_conflict l [] = Some 0"
| "log_find_conflict l (e # es) = do {
     ok \<leftarrow> log_match_term l (e_index e) (e_term e);
     if \<not> ok then Some (e_index e) else log_find_conflict l es
   }"

definition log_append :: "raft_log \<Rightarrow> entry list \<Rightarrow> (nat \<times> raft_log) option" where
  "log_append l es =
     (case es of
        [] \<Rightarrow> do { lst \<leftarrow> log_last_index l; Some (lst, l) }
      | e # _ \<Rightarrow> do {
          let after = sub64 (e_index e) 1;
          check (\<not> after < l_committed l);
          u \<leftarrow> unstable_truncate_and_append (l_unstable l) es;
          let l' = l\<lparr>l_unstable := u\<rparr>;
          lst \<leftarrow> log_last_index l';
          Some (lst, l')
        })"

definition log_commit_to :: "raft_log \<Rightarrow> nat \<Rightarrow> raft_log option" where
  "log_commit_to l to_commit =
     (if l_committed l < to_commit then do {
        lst \<leftarrow> log_last_index l;
        check (\<not> lst < to_commit);
        Some (l\<lparr>l_committed := to_commit\<rparr>)
      }
      else Some l)"

text \<open>\<open>maybe_append\<close>: the out-parameters \<open>last_new_index\<close> and \<open>ok\<close> are one optional result.\<close>

definition log_maybe_append ::
  "raft_log \<Rightarrow> nat \<Rightarrow> nat \<Rightarrow> nat \<Rightarrow> entry list \<Rightarrow> (nat option \<times> raft_log) option" where
  "log_maybe_append l index logterm committed es = do {
     m \<leftarrow> log_match_term l index logterm;
     if m then do {
       let lastnewi = add64 index (length es);
       ci \<leftarrow> log_find_conflict l es;
       l' \<leftarrow> (if ci = 0 then Some l
             else if ci \<le> l_committed l then None
             else do {
               let offset = add64 index 1;
               tl \<leftarrow> vec_range es (sub64 ci offset) (length es);
               (_, l1) \<leftarrow> log_append l tl;
               Some l1
             });
       l'' \<leftarrow> log_commit_to l' (min committed lastnewi);
       Some (Some lastnewi, l'')
     }
     else Some (None, l)
   }"

text \<open>
  \<open>maybe_commit\<close> reads the uninitialised local \<open>t\<close> when \<open>term\<close> fails; that is a fault here.
\<close>

definition log_maybe_commit :: "raft_log \<Rightarrow> nat \<Rightarrow> nat \<Rightarrow> (bool \<times> raft_log) option" where
  "log_maybe_commit l max_index tm =
     (if max_index > l_committed l then do {
        r \<leftarrow> log_term l max_index;
        case r of
          Inl _ \<Rightarrow> None
        | Inr t \<Rightarrow>
            if t = tm then do { l' \<leftarrow> log_commit_to l max_index; Some (True, l') }
            else Some (False, l)
      }
      else Some (False, l))"

definition log_restore :: "raft_log \<Rightarrow> snapshot \<Rightarrow> raft_log" where
  "log_restore l s = l\<lparr>l_committed := s_index s, l_unstable := unstable_restore (l_unstable l) s\<rparr>"

definition log_snapshot :: "raft_log \<Rightarrow> snapshot" where
  "log_snapshot l =
     (case u_snapshot (l_unstable l) of Some s \<Rightarrow> s | None \<Rightarrow> storage_snapshot (l_storage l))"

text \<open>\<open>applied_to\<close> only logs an error when the index is out of range.\<close>

definition log_applied_to :: "raft_log \<Rightarrow> nat \<Rightarrow> raft_log" where
  "log_applied_to l index = (if index = 0 then l else l\<lparr>l_applied := index\<rparr>)"

definition log_stable_to :: "raft_log \<Rightarrow> nat \<Rightarrow> nat \<Rightarrow> raft_log option" where
  "log_stable_to l index tm = do {
     u \<leftarrow> unstable_stable_to (l_unstable l) index tm;
     Some (l\<lparr>l_unstable := u\<rparr>)
   }"

definition log_stable_snap_to :: "raft_log \<Rightarrow> nat \<Rightarrow> raft_log" where
  "log_stable_snap_to l index = l\<lparr>l_unstable := unstable_stable_snap_to (l_unstable l) index\<rparr>"

definition log_must_check_out_of_bounds :: "raft_log \<Rightarrow> nat \<Rightarrow> nat \<Rightarrow> status option" where
  "log_must_check_out_of_bounds l low high = do {
     check (high \<ge> low);
     first \<leftarrow> log_first_index l;
     if low < first then Some compacted
     else do {
       lst \<leftarrow> log_last_index l;
       let len = sub64 (add64 lst 1) first;
       check (\<not> (low < first \<or> high > add64 first len));
       Some StatusOk
     }
   }"

definition log_slice ::
  "raft_log \<Rightarrow> nat \<Rightarrow> nat \<Rightarrow> nat \<Rightarrow> (status + entry list) option" where
  "log_slice l low high max_size = do {
     st \<leftarrow> log_must_check_out_of_bounds l low high;
     if \<not> is_ok st then Some (Inl st)
     else if low = high then Some (Inr [])
     else do {
       let offset = u_offset (l_unstable l);
       r \<leftarrow> (if low < offset then storage_entries (l_storage l) low (min high offset) max_size
            else Some (Inr []));
       case r of
         Inl e \<Rightarrow> Some (Inl e)
       | Inr es \<Rightarrow>
           if low < offset \<and> length es < min high offset - low then Some (Inr es)
           else do {
             us \<leftarrow> (if high > offset then unstable_slice (l_unstable l) (max low offset) high
                   else Some []);
             Some (Inr (entry_limit_size max_size (es @ us)))
           }
     }
   }"

definition log_entries :: "raft_log \<Rightarrow> nat \<Rightarrow> nat \<Rightarrow> (status + entry list) option" where
  "log_entries l index max_size = do {
     lst \<leftarrow> log_last_index l;
     if index > lst then Some (Inr [])
     else log_slice l index (add64 lst 1) max_size
   }"

definition log_next_entries :: "raft_log \<Rightarrow> entry list option" where
  "log_next_entries l = do {
     first \<leftarrow> log_first_index l;
     let off = max (add64 (l_applied l) 1) first;
     if add64 (l_committed l) 1 > off then do {
       r \<leftarrow> log_slice l off (add64 (l_committed l) 1) (l_max_next_ents_size l);
       case r of Inl _ \<Rightarrow> None | Inr es \<Rightarrow> Some es
     }
     else Some []
   }"

definition log_has_next_entries :: "raft_log \<Rightarrow> bool option" where
  "log_has_next_entries l = do {
     first \<leftarrow> log_first_index l;
     let off = max (add64 (l_applied l) 1) first;
     Some (add64 (l_committed l) 1 > off)
   }"

text \<open>
  \<open>all_entries\<close>: with the compaction status it calls itself on the same log, which cannot end,
  and every other status is fatal, so only the OK status returns.
\<close>

definition log_all_entries :: "raft_log \<Rightarrow> entry list option" where
  "log_all_entries l = do {
     first \<leftarrow> log_first_index l;
     r \<leftarrow> log_entries l first unlimited;
     case r of Inr es \<Rightarrow> Some es | Inl _ \<Rightarrow> None
   }"

end
