(* ===== verification/Progress.thy ===== *)
theory Progress
  imports Prelude
begin

text \<open>
  \<open>raft/progress.cpp\<close>: the leader's view of one follower, and the sliding window of messages in
  flight to it, a ring buffer that grows up to its capacity.
\<close>

section \<open>InFlights\<close>

record inflights =
  if_start :: nat
  if_count :: nat
  if_size :: nat
  if_buffer :: "nat list"

definition new_inflights :: "nat \<Rightarrow> inflights" where
  "new_inflights max_inflight_msgs =
     \<lparr>if_start = 0, if_count = 0, if_size = max_inflight_msgs mod W32, if_buffer = []\<rparr>"

definition inflights_reset :: "inflights \<Rightarrow> inflights" where
  "inflights_reset w = w\<lparr>if_start := 0, if_count := 0\<rparr>"

definition inflights_is_full :: "inflights \<Rightarrow> bool" where
  "inflights_is_full w \<longleftrightarrow> if_size w = if_count w"

text \<open>Indices of the ring rotate once past its capacity.\<close>

definition rotate_idx :: "nat \<Rightarrow> nat \<Rightarrow> nat" where
  "rotate_idx sz i = (if i \<ge> sz then i - sz else i)"

definition grown_size :: "nat \<Rightarrow> nat \<Rightarrow> nat" where
  "grown_size sz len =
     (let new_size = len * 2 mod W32
      in if new_size = 0 then 1 else if new_size > sz then sz else new_size)"

definition inflights_add :: "inflights \<Rightarrow> nat \<Rightarrow> inflights option" where
  "inflights_add w inflight = do {
     check (\<not> inflights_is_full w);
     let next = rotate_idx (if_size w) (add32 (if_start w) (if_count w));
     let len = length (if_buffer w);
     let buf = (if next \<ge> len then vec_resize 0 (grown_size (if_size w) len) (if_buffer w)
                else if_buffer w);
     buf' \<leftarrow> vec_set buf next inflight;
     Some (w\<lparr>if_buffer := buf', if_count := add32 (if_count w) 1\<rparr>)
   }"

text \<open>
  The loop of \<open>free_to\<close>: from position \<open>idx\<close> with \<open>n\<close> messages left, the number of messages
  passed and the position reached.
\<close>

fun free_scan :: "nat list \<Rightarrow> nat \<Rightarrow> nat \<Rightarrow> nat \<Rightarrow> nat \<Rightarrow> (nat \<times> nat) option" where
  "free_scan buf sz to idx 0 = Some (0, idx)"
| "free_scan buf sz to idx (Suc n) = do {
     v \<leftarrow> vec_at buf idx;
     if to < v then Some (0, idx)
     else do {
       (i, idx') \<leftarrow> free_scan buf sz to (rotate_idx sz (add32 idx 1)) n;
       Some (Suc i, idx')
     }
   }"

definition inflights_free_to :: "inflights \<Rightarrow> nat \<Rightarrow> inflights option" where
  "inflights_free_to w to =
     (if if_count w = 0 then Some w
      else do {
        b \<leftarrow> vec_at (if_buffer w) (if_start w);
        if to < b then Some w
        else do {
          (i, idx) \<leftarrow> free_scan (if_buffer w) (if_size w) to (if_start w) (if_count w);
          let count = sub64 (if_count w) i;
          Some (w\<lparr>if_count := count, if_start := (if count = 0 then 0 else idx)\<rparr>)
        }
      })"

definition inflights_free_first_one :: "inflights \<Rightarrow> inflights option" where
  "inflights_free_first_one w = do {
     b \<leftarrow> vec_at (if_buffer w) (if_start w);
     inflights_free_to w b
   }"

section \<open>The contract of a bounded window\<close>

text \<open>
  The users of the window see a queue of indices with a capacity: adding at the back unless it is
  full, freeing every index up to a given one at the front.
\<close>

locale window =
  fixes inv :: "'w \<Rightarrow> bool"
    and queue :: "'w \<Rightarrow> nat list"
    and cap :: "'w \<Rightarrow> nat"
    and is_full :: "'w \<Rightarrow> bool"
    and add :: "'w \<Rightarrow> nat \<Rightarrow> 'w option"
    and free_to :: "'w \<Rightarrow> nat \<Rightarrow> 'w option"
    and clear :: "'w \<Rightarrow> 'w"
  assumes within: "inv w \<Longrightarrow> length (queue w) \<le> cap w"
    and full: "inv w \<Longrightarrow> is_full w \<longleftrightarrow> length (queue w) = cap w"
    and add_full: "inv w \<Longrightarrow> is_full w \<Longrightarrow> add w x = None"
    and add_queue: "inv w \<Longrightarrow> \<not> is_full w \<Longrightarrow>
          \<exists>w'. add w x = Some w' \<and> inv w' \<and> cap w' = cap w \<and> queue w' = queue w @ [x]"
    and free_queue: "inv w \<Longrightarrow>
          \<exists>w'. free_to w x = Some w' \<and> inv w' \<and> cap w' = cap w \<and>
               queue w' = dropWhile (\<lambda>v. v \<le> x) (queue w)"
    and clear_queue: "inv w \<Longrightarrow> inv (clear w) \<and> queue (clear w) = [] \<and> cap (clear w) = cap w"
begin

text \<open>The leader adds increasing indices; then freeing keeps exactly the indices above the bound.\<close>

lemma free_sorted:
  assumes "inv w" "sorted (queue w)" "free_to w x = Some w'"
  shows "queue w' = filter (\<lambda>v. x < v) (queue w) \<and> sorted (queue w')"
proof -
  have "queue w' = dropWhile (\<lambda>v. v \<le> x) (queue w)" using free_queue [OF assms(1), of x] assms(3) by auto
  moreover have "sorted q \<Longrightarrow> dropWhile (\<lambda>v. v \<le> x) q = filter (\<lambda>v. x < v) q" for q
    by (induction q) (auto simp: not_le intro!: filter_True [symmetric])
  ultimately show ?thesis using assms(2) by (simp add: sorted_wrt_filter)
qed

lemma add_sorted:
  assumes "inv w" "sorted (queue w)" "\<forall>v \<in> set (queue w). v \<le> x" "add w x = Some w'"
  shows "sorted (queue w')"
proof -
  have "\<not> is_full w" using add_full assms(1,4) by force
  then have "queue w' = queue w @ [x]" using add_queue [OF assms(1), of x] assms(4) by auto
  then show ?thesis using assms(2,3) by (simp add: sorted_append)
qed

text \<open>Freeing the oldest index of a full window always makes room.\<close>

lemma free_oldest:
  assumes "inv w" "is_full w" "queue w \<noteq> []" "free_to w (hd (queue w)) = Some w'"
  shows "\<not> is_full w'"
proof -
  have w': "inv w'" "cap w' = cap w" "queue w' = dropWhile (\<lambda>v. v \<le> hd (queue w)) (queue w)"
    using free_queue [OF assms(1), of "hd (queue w)"] assms(4) by auto
  have "length (queue w') < length (queue w)"
    using w'(3) assms(3) by (cases "queue w") (auto intro: le_imp_less_Suc length_dropWhile_le)
  then show ?thesis using full [OF w'(1)] full [OF assms(1)] assms(2) w'(2) by simp
qed

end

section \<open>The ring buffer keeps the contract\<close>

definition ring_pos :: "nat \<Rightarrow> nat \<Rightarrow> nat \<Rightarrow> nat" where
  "ring_pos sz s i = rotate_idx sz (s + i)"

definition inflights_queue :: "inflights \<Rightarrow> nat list" where
  "inflights_queue w =
     map (\<lambda>i. if_buffer w ! ring_pos (if_size w) (if_start w) i) [0 ..< if_count w]"

definition inflights_ok :: "inflights \<Rightarrow> bool" where
  "inflights_ok w \<longleftrightarrow>
     if_size w < 2 ^ 31 \<and> if_count w \<le> if_size w \<and> length (if_buffer w) \<le> if_size w \<and>
     (if_count w = 0 \<longrightarrow> if_start w = 0) \<and> (if_count w > 0 \<longrightarrow> if_start w < if_size w) \<and>
     (length (if_buffer w) = if_size w \<or> if_start w + if_count w \<le> length (if_buffer w))"

lemma inflights_ok_new: "n < 2 ^ 31 \<Longrightarrow> inflights_ok (new_inflights n)"
  by (simp add: inflights_ok_def new_inflights_def W32_def)

lemma inflights_queue_new [simp]: "inflights_queue (new_inflights n) = []"
  by (simp add: inflights_queue_def new_inflights_def)

lemma ring_pos_lt: "inflights_ok w \<Longrightarrow> i < if_count w \<Longrightarrow>
    ring_pos (if_size w) (if_start w) i < length (if_buffer w)"
  by (auto simp: inflights_ok_def ring_pos_def rotate_idx_def)

lemma ring_pos_Suc:
  "s < sz \<Longrightarrow> i < sz \<Longrightarrow> ring_pos sz (ring_pos sz s 1) i = ring_pos sz s (Suc i)"
  by (auto simp: ring_pos_def rotate_idx_def)

lemma ring_pos_shift:
  "s < sz \<Longrightarrow> k + i < sz \<Longrightarrow> ring_pos sz (ring_pos sz s k) i = ring_pos sz s (k + i)"
  by (auto simp: ring_pos_def rotate_idx_def)

lemma ring_pos_inj:
  "s < sz \<Longrightarrow> i < sz \<Longrightarrow> j < sz \<Longrightarrow> ring_pos sz s i = ring_pos sz s j \<Longrightarrow> i = j"
  by (auto simp: ring_pos_def rotate_idx_def split: if_splits)

lemma inflights_add_queue:
  assumes ok: "inflights_ok w" and nf: "\<not> inflights_is_full w"
  shows "\<exists>w'. inflights_add w x = Some w' \<and> inflights_ok w' \<and> if_size w' = if_size w \<and>
              inflights_queue w' = inflights_queue w @ [x]"
proof -
  let ?sz = "if_size w" and ?c = "if_count w" and ?s = "if_start w" and ?b = "if_buffer w"
  let ?n = "ring_pos ?sz ?s ?c"
  have c: "?c < ?sz" "?sz < 2 ^ 31" "length ?b \<le> ?sz" using ok nf
    by (auto simp: inflights_ok_def inflights_is_full_def)
  have s: "?s < ?sz" using ok c by (cases "?c = 0") (auto simp: inflights_ok_def)
  have w32: "?s + ?c < W32" "?c + 1 < W32" "length ?b * 2 < W32" using c s by (auto simp: W32_def)
  let ?b' = "if ?n \<ge> length ?b then vec_resize 0 (grown_size ?sz (length ?b)) ?b else ?b"
  have n: "?n < ?sz" using s c by (auto simp: ring_pos_def rotate_idx_def)
  have grow: "?n = length ?b \<and> ?s + ?c = length ?b" if "?n \<ge> length ?b"
    using ok that c n s by (auto simp: inflights_ok_def ring_pos_def rotate_idx_def split: if_splits)
  have fits: "length ?b = ?sz \<or> ?s + ?c + 1 \<le> length ?b" if "\<not> ?n \<ge> length ?b"
    using ok that c n s by (auto simp: inflights_ok_def ring_pos_def rotate_idx_def split: if_splits)
  have size: "length ?b < grown_size ?sz (length ?b) \<and> grown_size ?sz (length ?b) \<le> ?sz"
    if "length ?b < ?sz"
    using that w32 by (auto simp: grown_size_def Let_def)
  have nb: "?n < length ?b'" using grow n size by auto
  have len': "length ?b' \<le> ?sz" using c n size grow by auto
  let ?w' = "w\<lparr>if_buffer := ?b'[?n := x], if_count := ?c + 1\<rparr>"
  have add: "inflights_add w x = Some ?w'"
    using nf nb w32 by (simp add: inflights_add_def Let_def ring_pos_def add32_exact)
  have ok': "inflights_ok ?w'"
    using ok s c len' grow fits size nb n by (auto simp: inflights_ok_def)
  have same: "?b' ! ring_pos ?sz ?s i = ?b ! ring_pos ?sz ?s i" if "i < ?c" for i
    using ring_pos_lt [OF ok that] nb by (auto intro: nth_vec_resize)
  have "inflights_queue ?w' = inflights_queue w @ [x]"
  proof (rule nth_equalityI)
    fix i assume "i < length (inflights_queue ?w')"
    then have i: "i < Suc ?c" by (simp add: inflights_queue_def)
    show "inflights_queue ?w' ! i = (inflights_queue w @ [x]) ! i"
    proof (cases "i < ?c")
      case True
      then have "ring_pos ?sz ?s i \<noteq> ?n"
        using ring_pos_inj [of ?s ?sz i ?c] s c by auto
      then show ?thesis
        using True same by (simp add: inflights_queue_def nth_append del: upt_Suc)
    next
      case False
      then have "i = ?c" using i by simp
      then show ?thesis using nb by (simp add: inflights_queue_def nth_append del: upt_Suc)
    qed
  qed (simp add: inflights_queue_def)
  with add ok' show ?thesis by simp
qed

lemma free_scan_eq:
  assumes "s < sz" "n \<le> sz" "sz < 2 ^ 31" "\<forall>i < n. ring_pos sz s i < length buf"
  shows "free_scan buf sz to s n =
    (let k = length (takeWhile (\<lambda>v. v \<le> to) (map (\<lambda>i. buf ! ring_pos sz s i) [0 ..< n]))
     in Some (k, ring_pos sz s k))"
  using assms
proof (induction n arbitrary: s)
  case 0
  then show ?case by (simp add: ring_pos_def rotate_idx_def)
next
  case (Suc n)
  let ?s1 = "ring_pos sz s 1"
  have s1: "?s1 < sz" "rotate_idx sz (add32 s 1) = ?s1"
    using Suc.prems by (auto simp: ring_pos_def rotate_idx_def add32_exact W32_def)
  have here: "ring_pos sz s 0 = s" "s < length buf"
    using Suc.prems(1) Suc.prems(4)[rule_format, of 0] by (auto simp: ring_pos_def rotate_idx_def)
  have shift: "map (\<lambda>i. buf ! ring_pos sz s i) [0 ..< Suc n]
      = buf ! s # map (\<lambda>i. buf ! ring_pos sz ?s1 i) [0 ..< n]"
    using Suc.prems here ring_pos_Suc [of s sz]
    by (simp add: upt_conv_Cons map_Suc_upt [symmetric] del: upt_Suc)
  have "\<forall>i < n. ring_pos sz ?s1 i < length buf"
    using Suc.prems ring_pos_Suc [of s sz] by auto
  then have IH: "free_scan buf sz to ?s1 n =
      (let k = length (takeWhile (\<lambda>v. v \<le> to) (map (\<lambda>i. buf ! ring_pos sz ?s1 i) [0 ..< n]))
       in Some (k, ring_pos sz ?s1 k))"
    using Suc.IH [OF s1(1)] Suc.prems by simp
  have kn: "length (takeWhile (\<lambda>v. v \<le> to) (map (\<lambda>i. buf ! ring_pos sz ?s1 i) [0 ..< n])) < sz"
    using Suc.prems(2) length_takeWhile_le [of "\<lambda>v. v \<le> to" "map (\<lambda>i. buf ! ring_pos sz ?s1 i) [0 ..< n]"]
    by simp
  show ?case
  proof (cases "buf ! s \<le> to")
    case True
    then show ?thesis
      using here s1(2) IH ring_pos_Suc [OF Suc.prems(1) kn] unfolding shift
      by (simp add: Let_def not_less del: upt_Suc)
  next
    case False
    then show ?thesis using here unfolding shift by (simp add: Let_def not_le del: upt_Suc)
  qed
qed

lemma inflights_free_queue:
  assumes ok: "inflights_ok w"
  shows "\<exists>w'. inflights_free_to w x = Some w' \<and> inflights_ok w' \<and> if_size w' = if_size w \<and>
              inflights_queue w' = dropWhile (\<lambda>v. v \<le> x) (inflights_queue w)"
proof (cases "if_count w = 0")
  case True
  then show ?thesis using ok by (simp add: inflights_free_to_def inflights_queue_def)
next
  case False
  let ?sz = "if_size w" and ?c = "if_count w" and ?s = "if_start w" and ?b = "if_buffer w"
  let ?k = "length (takeWhile (\<lambda>v. v \<le> x) (inflights_queue w))"
  have c: "0 < ?c" "?c \<le> ?sz" "?s < ?sz" "?sz < 2 ^ 31" using ok False by (auto simp: inflights_ok_def)
  have q: "length (inflights_queue w) = ?c" by (simp add: inflights_queue_def)
  have kc: "?k \<le> ?c" using length_takeWhile_le [of _ "inflights_queue w"] q by metis
  have scan: "free_scan ?b ?sz x ?s ?c = Some (?k, ring_pos ?sz ?s ?k)"
    using free_scan_eq [OF c(3,2,4)] ring_pos_lt [OF ok] by (simp add: inflights_queue_def Let_def)
  have s0: "?s < length ?b" "inflights_queue w ! 0 = ?b ! ?s"
    using ring_pos_lt [OF ok, of 0] c by (auto simp: inflights_queue_def ring_pos_def rotate_idx_def)
  show ?thesis
  proof (cases "x < ?b ! ?s")
    case True
    then have "dropWhile (\<lambda>v. v \<le> x) (inflights_queue w) = inflights_queue w"
      using s0(2) q c(1) by (cases "inflights_queue w") auto
    then show ?thesis using True s0 False ok by (simp add: inflights_free_to_def)
  next
    case le: False
    let ?w' = "w\<lparr>if_count := ?c - ?k, if_start := (if ?c - ?k = 0 then 0 else ring_pos ?sz ?s ?k)\<rparr>"
    have free: "inflights_free_to w x = Some ?w'"
      using False s0 le scan kc by (simp add: inflights_free_to_def Let_def u64)
    have ok': "inflights_ok ?w'"
      using ok c kc by (auto simp: inflights_ok_def ring_pos_def rotate_idx_def)
    have "inflights_queue ?w' = drop ?k (inflights_queue w)"
    proof (rule nth_equalityI)
      fix i assume "i < length (inflights_queue ?w')"
      then have i: "?k + i < ?c" by (simp add: inflights_queue_def)
      then show "inflights_queue ?w' ! i = drop ?k (inflights_queue w) ! i"
        using ring_pos_shift [of ?s ?sz ?k i] c q by (simp add: inflights_queue_def)
    qed (simp add: inflights_queue_def)
    then show ?thesis using free ok' by (simp add: dropWhile_eq_drop)
  qed
qed

interpretation ring: window inflights_ok inflights_queue if_size inflights_is_full
  inflights_add inflights_free_to inflights_reset
proof unfold_locales
  fix w assume ok: "inflights_ok w"
  show "length (inflights_queue w) \<le> if_size w"
    using ok by (simp add: inflights_queue_def inflights_ok_def)
  show "inflights_is_full w \<longleftrightarrow> length (inflights_queue w) = if_size w"
    by (auto simp: inflights_queue_def inflights_is_full_def)
  show "inflights_ok (inflights_reset w) \<and> inflights_queue (inflights_reset w) = [] \<and>
      if_size (inflights_reset w) = if_size w"
    using ok by (auto simp: inflights_ok_def inflights_reset_def inflights_queue_def)
qed (use inflights_add_queue inflights_free_queue in \<open>auto simp: inflights_add_def\<close>)

lemma inflights_free_first_one_eq:
  assumes ok: "inflights_ok w" and ne: "if_count w > 0"
  shows "inflights_free_first_one w = inflights_free_to w (hd (inflights_queue w))"
proof -
  have "inflights_queue w \<noteq> []" "hd (inflights_queue w) = if_buffer w ! if_start w"
    using ne ok by (auto simp: inflights_queue_def hd_map upt_conv_Cons ring_pos_def rotate_idx_def inflights_ok_def)
  then show ?thesis
    using ring_pos_lt [OF ok, of 0] ne ok
    by (auto simp: inflights_free_first_one_def ring_pos_def rotate_idx_def inflights_ok_def)
qed

section \<open>Progress\<close>

datatype progress_state = ProgressStateProbe | ProgressStateReplicate | ProgressStateSnapshot

record progress =
  pr_match :: nat
  pr_next :: nat
  pr_state :: progress_state
  pr_paused :: bool
  pr_pending_snapshot :: nat
  pr_recent_active :: bool
  pr_inflights :: inflights
  pr_is_learner :: bool

definition new_progress :: "nat \<Rightarrow> progress" where
  "new_progress max_inflight =
     \<lparr>pr_match = 0, pr_next = 0, pr_state = ProgressStateProbe, pr_paused = False,
      pr_pending_snapshot = 0, pr_recent_active = False,
      pr_inflights = new_inflights max_inflight, pr_is_learner = False\<rparr>"

fun progress_state_to_string :: "progress_state \<Rightarrow> string" where
  "progress_state_to_string ProgressStateProbe = ''ProgressStateProbe''"
| "progress_state_to_string ProgressStateReplicate = ''ProgressStateReplicate''"
| "progress_state_to_string ProgressStateSnapshot = ''ProgressStateSnapshot''"

definition progress_reset_state :: "progress \<Rightarrow> progress_state \<Rightarrow> progress" where
  "progress_reset_state p st =
     p\<lparr>pr_paused := False, pr_pending_snapshot := 0, pr_state := st,
       pr_inflights := inflights_reset (pr_inflights p)\<rparr>"

definition progress_become_replicate :: "progress \<Rightarrow> progress" where
  "progress_become_replicate p =
     (let p' = progress_reset_state p ProgressStateReplicate
      in p'\<lparr>pr_next := add64 (pr_match p') 1\<rparr>)"

definition progress_become_probe :: "progress \<Rightarrow> progress" where
  "progress_become_probe p =
     (if pr_state p = ProgressStateSnapshot then
        let pending = pr_pending_snapshot p;
            p' = progress_reset_state p ProgressStateProbe
        in p'\<lparr>pr_next := max (add64 (pr_match p') 1) (add64 pending 1)\<rparr>
      else
        let p' = progress_reset_state p ProgressStateProbe
        in p'\<lparr>pr_next := add64 (pr_match p') 1\<rparr>)"

definition progress_become_snapshot :: "progress \<Rightarrow> nat \<Rightarrow> progress" where
  "progress_become_snapshot p snapshoti =
     (progress_reset_state p ProgressStateSnapshot)\<lparr>pr_pending_snapshot := snapshoti\<rparr>"

definition progress_is_paused :: "progress \<Rightarrow> bool" where
  "progress_is_paused p =
     (case pr_state p of
        ProgressStateProbe \<Rightarrow> pr_paused p
      | ProgressStateReplicate \<Rightarrow> inflights_is_full (pr_inflights p)
      | ProgressStateSnapshot \<Rightarrow> True)"

definition progress_set_pause :: "progress \<Rightarrow> progress" where
  "progress_set_pause p = p\<lparr>pr_paused := True\<rparr>"

definition progress_resume :: "progress \<Rightarrow> progress" where
  "progress_resume p = p\<lparr>pr_paused := False\<rparr>"

definition progress_maybe_update :: "progress \<Rightarrow> nat \<Rightarrow> bool \<times> progress" where
  "progress_maybe_update p n =
     (let updated = (pr_match p < n);
          p1 = (if updated then progress_resume (p\<lparr>pr_match := n\<rparr>) else p);
          p2 = (if pr_next p1 < add64 n 1 then p1\<lparr>pr_next := add64 n 1\<rparr> else p1)
      in (updated, p2))"

definition progress_optimistic_update :: "progress \<Rightarrow> nat \<Rightarrow> progress" where
  "progress_optimistic_update p n = p\<lparr>pr_next := add64 n 1\<rparr>"

definition progress_maybe_decreases_to :: "progress \<Rightarrow> nat \<Rightarrow> nat \<Rightarrow> bool \<times> progress" where
  "progress_maybe_decreases_to p rejected lst =
     (if pr_state p = ProgressStateReplicate then
        if rejected \<le> pr_match p then (False, p)
        else (True, p\<lparr>pr_next := add64 (pr_match p) 1\<rparr>)
      else if sub64 (pr_next p) 1 \<noteq> rejected then (False, p)
      else
        let p1 = p\<lparr>pr_next := min rejected (add64 lst 1)\<rparr>;
            p2 = (if pr_next p1 < 1 then p1\<lparr>pr_next := 1\<rparr> else p1)
        in (True, progress_resume p2))"

definition progress_need_snapshot_abort :: "progress \<Rightarrow> bool" where
  "progress_need_snapshot_abort p \<longleftrightarrow>
     pr_state p = ProgressStateSnapshot \<and> pr_match p \<ge> pr_pending_snapshot p"

definition progress_snapshot_failure :: "progress \<Rightarrow> progress" where
  "progress_snapshot_failure p = p\<lparr>pr_pending_snapshot := 0\<rparr>"

section \<open>The progress invariant\<close>

text \<open>
  The next index to send is above the matched one, and the window is in order and below the next
  index while replicating.
\<close>

definition progress_ok :: "progress \<Rightarrow> bool" where
  "progress_ok p \<longleftrightarrow> pr_match p < pr_next p \<and> pr_next p < W64 \<and> inflights_ok (pr_inflights p)"

lemmas progress_defs =
  progress_reset_state_def progress_become_replicate_def progress_become_probe_def
  progress_become_snapshot_def progress_set_pause_def progress_resume_def
  progress_maybe_update_def progress_optimistic_update_def progress_maybe_decreases_to_def
  progress_snapshot_failure_def

lemma progress_ok_new:
  "m < 2 ^ 31 \<Longrightarrow> 0 < n \<Longrightarrow> n < W64 \<Longrightarrow> progress_ok ((new_progress m)\<lparr>pr_next := n\<rparr>)"
  by (simp add: progress_ok_def new_progress_def inflights_ok_new)

lemma progress_ok_become_replicate: "progress_ok p \<Longrightarrow> progress_ok (progress_become_replicate p)"
  using ring.clear_queue [of "pr_inflights p"]
  by (auto simp: progress_ok_def progress_defs Let_def u64)

lemma progress_ok_become_probe:
  "progress_ok p \<Longrightarrow> pr_pending_snapshot p + 1 < W64 \<Longrightarrow> progress_ok (progress_become_probe p)"
  using ring.clear_queue [of "pr_inflights p"]
  by (auto simp: progress_ok_def progress_defs Let_def u64)

lemma progress_ok_become_snapshot: "progress_ok p \<Longrightarrow> progress_ok (progress_become_snapshot p i)"
  using ring.clear_queue [of "pr_inflights p"]
  by (auto simp: progress_ok_def progress_defs)

lemma progress_ok_maybe_update:
  "progress_ok p \<Longrightarrow> n + 1 < W64 \<Longrightarrow> progress_ok (snd (progress_maybe_update p n))"
  by (auto simp: progress_ok_def progress_defs Let_def u64)

lemma progress_maybe_update_match [simp]:
  "pr_match (snd (progress_maybe_update p n)) = max (pr_match p) n"
  by (auto simp: progress_defs Let_def max_def)

lemma progress_maybe_update_result: "fst (progress_maybe_update p n) \<longleftrightarrow> pr_match p < n"
  by (simp add: progress_defs Let_def)

text \<open>A rejection never moves the matched index, and always lowers the next index when accepted.\<close>

lemma progress_maybe_decreases_match [simp]:
  "pr_match (snd (progress_maybe_decreases_to p rej lst)) = pr_match p"
  by (simp add: progress_defs Let_def)

lemma progress_maybe_decreases_stale:
  "\<not> fst (progress_maybe_decreases_to p rej lst) \<Longrightarrow> snd (progress_maybe_decreases_to p rej lst) = p"
  by (auto simp: progress_defs Let_def split: if_splits)

lemma progress_maybe_decreases_next:
  assumes "progress_ok p" "fst (progress_maybe_decreases_to p rej lst)" "lst + 1 < W64"
    and "pr_state p \<noteq> ProgressStateReplicate \<or> rej < pr_next p"
  shows "1 \<le> pr_next (snd (progress_maybe_decreases_to p rej lst)) \<and>
    pr_next (snd (progress_maybe_decreases_to p rej lst)) \<le> pr_next p \<and>
    (1 < pr_next p \<and> (pr_state p \<noteq> ProgressStateReplicate \<or> pr_match p + 1 < pr_next p) \<longrightarrow>
     pr_next (snd (progress_maybe_decreases_to p rej lst)) < pr_next p)"
  using assms by (auto simp: progress_ok_def progress_defs Let_def u64 split: if_splits)

end
