(* ===== verification/Readonly.thy ===== *)
theory Readonly
  imports Proto
begin

text \<open>
  \<open>raft/readonly.cpp\<close>: the read-only requests of a leader that wait for a quorum of
  acknowledgements, in the order of arrival.
\<close>

datatype read_only_option = ReadOnlySafe | ReadOnlyLeaseBased

record read_state =
  rs_index :: nat
  rs_request_ctx :: string

record read_index_status =
  ri_req :: message
  ri_index :: nat
  ri_acks :: "nat list"

record read_only =
  ro_option :: read_only_option
  ro_pending :: "(string \<times> read_index_status) list"
  ro_queue :: "string list"

definition new_read_only :: "read_only_option \<Rightarrow> read_only" where
  "new_read_only opt = \<lparr>ro_option = opt, ro_pending = [], ro_queue = []\<rparr>"

definition readonly_last_pending_request_ctx :: "read_only \<Rightarrow> string" where
  "readonly_last_pending_request_ctx ro = (if ro_queue ro = [] then '''' else last (ro_queue ro))"

definition readonly_recv_ack :: "read_only \<Rightarrow> message \<Rightarrow> nat \<times> read_only" where
  "readonly_recv_ack ro m =
     (case map_of (ro_pending ro) (m_context m) of
        None \<Rightarrow> (0, ro)
      | Some st \<Rightarrow>
          let st' = st\<lparr>ri_acks := List.insert (m_from m) (ri_acks st)\<rparr>
          in (length (ri_acks st') + 1,
              ro\<lparr>ro_pending := AList.update (m_context m) st' (ro_pending ro)\<rparr>))"

text \<open>
  The loop of \<open>advance\<close>: the statuses of the queue up to and including the context, how many
  they are, and whether the context was found; LOG_FATAL if one is missing in the map.
\<close>

fun readonly_collect ::
  "(string \<times> read_index_status) list \<Rightarrow> string \<Rightarrow> string list
     \<Rightarrow> (read_index_status list \<times> nat \<times> bool) option" where
  "readonly_collect pend ctx [] = Some ([], 0, False)"
| "readonly_collect pend ctx (okctx # q) =
     (case map_of pend okctx of
        None \<Rightarrow> None
      | Some st \<Rightarrow>
          if okctx = ctx then Some ([st], 1, True)
          else do {
            (rss, i, found) \<leftarrow> readonly_collect pend ctx q;
            Some (st # rss, Suc i, found)
          })"

definition readonly_erase ::
  "read_index_status \<Rightarrow> (string \<times> read_index_status) list \<Rightarrow> (string \<times> read_index_status) list option" where
  "readonly_erase rs pend = do {
     e \<leftarrow> vec_at (m_entries (ri_req rs)) 0;
     Some (AList.delete (e_data e) pend)
   }"

definition readonly_advance ::
  "read_only \<Rightarrow> message \<Rightarrow> (read_index_status list \<times> read_only) option" where
  "readonly_advance ro m = do {
     (rss, i, found) \<leftarrow> readonly_collect (ro_pending ro) (m_context m) (ro_queue ro);
     if found then do {
       pend \<leftarrow> each readonly_erase rss (ro_pending ro);
       Some (rss, ro\<lparr>ro_queue := drop i (ro_queue ro), ro_pending := pend\<rparr>)
     }
     else Some (rss, ro)
   }"

definition readonly_add_request :: "read_only \<Rightarrow> nat \<Rightarrow> message \<Rightarrow> read_only option" where
  "readonly_add_request ro index m = do {
     e \<leftarrow> vec_at (m_entries m) 0;
     let ctx = e_data e;
     if map_of (ro_pending ro) ctx \<noteq> None then Some ro
     else Some (ro\<lparr>ro_pending := AList.update ctx \<lparr>ri_req = m, ri_index = index, ri_acks = []\<rparr>
                                    (ro_pending ro),
                   ro_queue := ro_queue ro @ [ctx]\<rparr>)
   }"

definition readonly_clear :: "read_only \<Rightarrow> read_only" where
  "readonly_clear ro = ro\<lparr>ro_pending := [], ro_queue := []\<rparr>"

section \<open>The queue and the map agree\<close>

text \<open>
  Every queued context has its request in the map under the data of its first entry, and nothing
  else is there.
\<close>

definition request_key :: "read_index_status \<Rightarrow> string \<Rightarrow> bool" where
  "request_key st ctx \<longleftrightarrow> (\<exists>e es. m_entries (ri_req st) = e # es \<and> e_data e = ctx)"

definition readonly_ok :: "read_only \<Rightarrow> bool" where
  "readonly_ok ro \<longleftrightarrow>
     distinct (ro_queue ro) \<and> distinct (map fst (ro_pending ro)) \<and>
     set (ro_queue ro) = set (map fst (ro_pending ro)) \<and>
     (\<forall>ctx st. map_of (ro_pending ro) ctx = Some st \<longrightarrow> request_key st ctx \<and> distinct (ri_acks st))"

lemma readonly_ok_new [simp]: "readonly_ok (new_read_only opt)"
  by (simp add: readonly_ok_def new_read_only_def)

lemma readonly_ok_clear [simp]: "readonly_ok (readonly_clear ro)"
  by (simp add: readonly_ok_def readonly_clear_def)

lemma readonly_ok_add_request:
  assumes "readonly_ok ro" "readonly_add_request ro i m = Some ro'"
  shows "readonly_ok ro'"
proof -
  obtain e es where e: "m_entries m = e # es"
    using assms(2) by (cases "m_entries m") (auto simp: readonly_add_request_def vec_at_def)
  show ?thesis
  proof (cases "map_of (ro_pending ro) (e_data e)")
    case None
    let ?st = "\<lparr>ri_req = m, ri_index = i, ri_acks = []\<rparr>"
    have new: "e_data e \<notin> set (map fst (ro_pending ro))"
      using None by (simp add: map_of_eq_None_iff')
    have ro': "ro' = ro\<lparr>ro_pending := AList.update (e_data e) ?st (ro_pending ro),
        ro_queue := ro_queue ro @ [e_data e]\<rparr>"
      using assms(2) e None by (auto simp: readonly_add_request_def Let_def)
    have "request_key ?st (e_data e)" using e by (simp add: request_key_def)
    then show ?thesis
      using assms(1) new unfolding readonly_ok_def ro' by (simp add: distinct_update)
  next
    case (Some st)
    then show ?thesis using assms e by (simp add: readonly_add_request_def Let_def)
  qed
qed

lemma readonly_ok_recv_ack: "readonly_ok ro \<Longrightarrow> readonly_ok (snd (readonly_recv_ack ro m))"
  by (auto simp: readonly_ok_def readonly_recv_ack_def Let_def dom_update distinct_update
      request_key_def insert_absorb dest: map_of_some_in split: option.splits)

text \<open>The count returned is one more than the number of distinct nodes that acknowledged.\<close>

lemma readonly_recv_ack_count:
  assumes "readonly_ok ro" "map_of (ro_pending ro) (m_context m) = Some st"
  shows "fst (readonly_recv_ack ro m) = card (insert (m_from m) (set (ri_acks st))) + 1"
proof -
  have "distinct (List.insert (m_from m) (ri_acks st))"
    using assms by (auto simp: readonly_ok_def)
  then show ?thesis
    using assms(2) distinct_card [of "List.insert (m_from m) (ri_acks st)"]
    by (simp add: readonly_recv_ack_def Let_def)
qed

lemma readonly_recv_ack_unknown:
  "map_of (ro_pending ro) (m_context m) = None \<Longrightarrow> readonly_recv_ack ro m = (0, ro)"
  by (simp add: readonly_recv_ack_def)

text \<open>
  \<open>advance\<close>: on a waiting context it releases that request and every earlier one, in order of
  arrival, and forgets them.
\<close>

lemma readonly_collect_found:
  assumes "ctx \<in> set q" "\<forall>c \<in> set q. map_of pend c \<noteq> None"
  shows "\<exists>pre post. q = pre @ ctx # post \<and> ctx \<notin> set pre \<and>
    readonly_collect pend ctx q
      = Some (map (\<lambda>c. the (map_of pend c)) (pre @ [ctx]), length pre + 1, True)"
  using assms
proof (induction q)
  case (Cons c q)
  show ?case
  proof (cases "c = ctx")
    case True
    then show ?thesis using Cons.prems by (intro exI [of _ "[]"] exI [of _ q]) auto
  next
    case False
    then obtain pre post where "q = pre @ ctx # post" "ctx \<notin> set pre"
      "readonly_collect pend ctx q
         = Some (map (\<lambda>c. the (map_of pend c)) (pre @ [ctx]), length pre + 1, True)"
      using Cons by auto
    then show ?thesis
      using False Cons.prems(2) by (intro exI [of _ "c # pre"] exI [of _ post]) auto
  qed
qed simp

lemma readonly_erase_all:
  assumes "\<forall>c \<in> set cs. request_key (f c) c"
  shows "\<exists>p'. each readonly_erase (map f cs) p = Some p' \<and>
    map_of p' = map_of p |` (- set cs) \<and> (distinct (map fst p) \<longrightarrow> distinct (map fst p'))
    \<and> set (map fst p') = set (map fst p) - set cs"
  using assms
proof (induction cs arbitrary: p)
  case (Cons c cs)
  then have "readonly_erase (f c) p = Some (AList.delete c p)"
    by (auto simp: readonly_erase_def request_key_def)
  moreover obtain p' where "each readonly_erase (map f cs) (AList.delete c p) = Some p'"
    "map_of p' = map_of (AList.delete c p) |` (- set cs)"
    "distinct (map fst (AList.delete c p)) \<longrightarrow> distinct (map fst p')"
    "set (map fst p') = set (map fst (AList.delete c p)) - set cs"
    using Cons.IH [of "AList.delete c p"] Cons.prems unfolding list.set_map by fastforce
  moreover have "map_of (AList.delete c p) |` (- set cs) = map_of p |` (- set (c # cs))"
    by (auto simp: restrict_map_def)
  moreover have "set (map fst (AList.delete c p)) - set cs = set (map fst p) - set (c # cs)"
    by (auto simp: delete_keys)
  ultimately show ?case by (auto simp: distinct_delete)
qed (simp add: restrict_map_def)

lemma readonly_advance_found:
  assumes ok: "readonly_ok ro" and w: "map_of (ro_pending ro) (m_context m) \<noteq> None"
  shows "\<exists>pre post rss ro'. ro_queue ro = pre @ m_context m # post \<and> m_context m \<notin> set pre \<and>
    readonly_advance ro m = Some (rss, ro') \<and>
    rss = map (\<lambda>c. the (map_of (ro_pending ro) c)) (pre @ [m_context m]) \<and>
    ro_queue ro' = post \<and> readonly_ok ro' \<and>
    map_of (ro_pending ro') = map_of (ro_pending ro) |` (- set (pre @ [m_context m]))"
proof -
  let ?f = "\<lambda>c. the (map_of (ro_pending ro) c)" and ?ctx = "m_context m"
  have q: "set (ro_queue ro) = dom (map_of (ro_pending ro))"
    using ok by (simp add: readonly_ok_def dom_map_of_conv_image_fst)
  then have "?ctx \<in> set (ro_queue ro)" "\<forall>c \<in> set (ro_queue ro). map_of (ro_pending ro) c \<noteq> None"
    using w by auto
  from readonly_collect_found [OF this] obtain pre post where
    split: "ro_queue ro = pre @ ?ctx # post" "?ctx \<notin> set pre"
    and col: "readonly_collect (ro_pending ro) ?ctx (ro_queue ro)
      = Some (map ?f (pre @ [?ctx]), length pre + 1, True)" by blast
  have keys: "\<forall>c \<in> set (pre @ [?ctx]). request_key (?f c) c"
  proof
    fix c assume "c \<in> set (pre @ [?ctx])"
    then have "c \<in> dom (map_of (ro_pending ro))" using split(1) q by auto
    then show "request_key (?f c) c" using ok by (auto simp: readonly_ok_def)
  qed
  from readonly_erase_all [of "pre @ [?ctx]" ?f, OF keys]
  obtain p' where p': "each readonly_erase (map ?f (pre @ [?ctx])) (ro_pending ro) = Some p'"
    "map_of p' = map_of (ro_pending ro) |` (- set (pre @ [?ctx]))" "distinct (map fst p')"
    "set (map fst p') = set (map fst (ro_pending ro)) - set (pre @ [?ctx])"
    using ok unfolding readonly_ok_def by blast
  let ?ro' = "ro\<lparr>ro_queue := post, ro_pending := p'\<rparr>"
  have "readonly_advance ro m = Some (map ?f (pre @ [?ctx]), ?ro')"
    using col p'(1) split by (simp add: readonly_advance_def)
  moreover have "readonly_ok ?ro'"
    using ok p' split unfolding readonly_ok_def by (auto simp: restrict_map_def)
  ultimately show ?thesis
    using split p'(2)
    by (intro exI [of _ pre] exI [of _ post] exI [of _ "map ?f (pre @ [?ctx])"] exI [of _ ?ro'])
      simp
qed

end
