(* ===== verification/Config.thy ===== *)
theory Config
  imports Storage Readonly
begin

text \<open>
  \<open>raft/config.h\<close> and \<open>raft/config.cpp\<close>: the parameters a node starts with.  The storage is a
  pointer that may be null.
\<close>

record config =
  c_id :: nat
  c_peers :: "nat list"
  c_learners :: "nat list"
  c_election_tick :: nat
  c_heartbeat_tick :: nat
  c_storage :: "memory_storage option"
  c_applied :: nat
  c_max_size_per_msg :: nat
  c_max_committed_size_per_ready :: nat
  c_max_uncommitted_entries_size :: nat
  c_max_inflight_msgs :: nat
  c_check_quorum :: bool
  c_pre_vote :: bool
  c_read_only_option :: read_only_option
  c_disable_fwd :: bool

definition new_config :: config where
  "new_config =
     \<lparr>c_id = 0, c_peers = [], c_learners = [], c_election_tick = 0, c_heartbeat_tick = 0,
      c_storage = None, c_applied = 0, c_max_size_per_msg = 0, c_max_committed_size_per_ready = 0,
      c_max_uncommitted_entries_size = 0, c_max_inflight_msgs = 0, c_check_quorum = False,
      c_pre_vote = False, c_read_only_option = ReadOnlySafe, c_disable_fwd = False\<rparr>"

text \<open>The defaults are written into the configuration even when a later check fails.\<close>

definition config_validate :: "config \<Rightarrow> status \<times> config" where
  "config_validate c =
     (if c_id c = 0 then (InvalidArgument ''cannot use none as id'', c)
      else if c_heartbeat_tick c = 0 then
        (InvalidArgument ''heartbeat tick must be greater than 0'', c)
      else if c_election_tick c \<le> c_heartbeat_tick c then
        (InvalidArgument ''election tick must be greater than heartbeat tick'', c)
      else if c_storage c = None then (InvalidArgument ''storage cannot be nil'', c)
      else
        let c1 = (if c_max_uncommitted_entries_size c = 0
                  then c\<lparr>c_max_uncommitted_entries_size := W64 - 1\<rparr> else c);
            c2 = (if c_max_committed_size_per_ready c1 = 0
                  then c1\<lparr>c_max_committed_size_per_ready := c_max_size_per_msg c1\<rparr> else c1)
        in if c_max_inflight_msgs c2 = 0 then
             (InvalidArgument ''max inflight messages must be greater than 0'', c2)
           else if c_read_only_option c2 = ReadOnlyLeaseBased \<and> \<not> c_check_quorum c2 then
             (InvalidArgument
                ''check_quorum must be enabled when read_only_option is ReadOnlyLeaseBased'', c2)
           else (StatusOk, c2))"

text \<open>What an accepted configuration guarantees to the node built from it.\<close>

definition config_ok :: "config \<Rightarrow> bool" where
  "config_ok c \<longleftrightarrow>
     c_id c \<noteq> 0 \<and> 0 < c_heartbeat_tick c \<and> c_heartbeat_tick c < c_election_tick c \<and>
     c_storage c \<noteq> None \<and> 0 < c_max_uncommitted_entries_size c \<and> 0 < c_max_inflight_msgs c \<and>
     (c_max_committed_size_per_ready c = 0 \<longrightarrow> c_max_size_per_msg c = 0) \<and>
     (c_read_only_option c = ReadOnlyLeaseBased \<longrightarrow> c_check_quorum c)"

lemma config_validate_ok:
  assumes "config_validate c = (StatusOk, c')"
  shows "config_ok c'"
  using assms by (auto simp: config_validate_def config_ok_def Let_def split: if_splits)

lemma config_validate_id: "config_ok c \<Longrightarrow> c_max_committed_size_per_ready c \<noteq> 0 \<Longrightarrow>
    config_validate c = (StatusOk, c)"
  by (auto simp: config_validate_def config_ok_def Let_def)

end
