(* ===== verification/Raft_State.thy ===== *)
theory Raft_State
  imports Raft_Log Progress Config
begin

text \<open>
  The state of the class \<open>Raft\<close> (\<open>raft/raft.h\<close>) and the operations of \<open>raft/raft.cpp\<close> that do not
  send to other nodes: the progress maps, the message queue, the reset on a change of term, the
  size of the uncommitted tail and the commit index.  \<open>match_buf_\<close> is a scratch buffer and is not
  part of the state.
\<close>

section \<open>State\<close>

datatype raft_state = Follower | Candidate | Leader | PreCandidate

text \<open>The functions that the callbacks \<open>tick_\<close> and \<open>step_\<close> are bound to.\<close>

datatype tick_fn = TickElection | TickHeartbeat

datatype step_fn = StepFollower | StepCandidate | StepLeader

datatype campaign_type = CampaignPreElection | CampaignElection | CampaignTransfer

fun campaign_name :: "campaign_type \<Rightarrow> string" where
  "campaign_name CampaignPreElection = ''CampaignPreElection''"
| "campaign_name CampaignElection = ''CampaignElection''"
| "campaign_name CampaignTransfer = ''CampaignTransfer''"

record soft_state =
  ss_lead :: nat
  ss_state :: raft_state

record raft =
  r_id :: nat
  r_term :: nat
  r_vote :: nat
  r_read_states :: "read_state list"
  r_log :: raft_log
  r_max_msg_size :: nat
  r_max_uncommitted_size :: nat
  r_max_inflight :: nat
  r_prs :: "(nat \<times> progress) list"
  r_learner_prs :: "(nat \<times> progress) list"
  r_state :: raft_state
  r_is_learner :: bool
  r_votes :: "(nat \<times> bool) list"
  r_msgs :: "message list"
  r_lead :: nat
  r_lead_transferee :: nat
  r_pending_conf_index :: nat
  r_uncommitted_size :: nat
  r_read_only :: read_only
  r_election_elapsed :: nat
  r_heartbeat_elapsed :: nat
  r_check_quorum :: bool
  r_pre_vote :: bool
  r_heartbeat_timeout :: nat
  r_election_timeout :: nat
  r_rand_timeout :: nat
  r_disable_fwd :: bool
  r_tick_fn :: tick_fn
  r_step_fn :: step_fn
  r_rand :: "nat \<Rightarrow> nat"

text \<open>
  \<open>r_rand\<close> is the sequence of values that \<open>RandomDevice::gen\<close> will return; each draw consumes
  one.  The distribution is over \<open>[0, election_tick]\<close>.
\<close>

definition rand_gen :: "raft \<Rightarrow> nat \<times> raft" where
  "rand_gen r = (r_rand r 0, r\<lparr>r_rand := \<lambda>i. r_rand r (Suc i)\<rparr>)"

definition quorum :: "raft \<Rightarrow> nat" where
  "quorum r = (length (r_prs r) div 2 + 1) mod W32"

definition raft_soft_state :: "raft \<Rightarrow> soft_state" where
  "raft_soft_state r = \<lparr>ss_lead = r_lead r, ss_state = r_state r\<rparr>"

definition raft_hard_state :: "raft \<Rightarrow> hard_state" where
  "raft_hard_state r =
     \<lparr>hs_term = r_term r, hs_vote = r_vote r, hs_commit = l_committed (r_log r)\<rparr>"

definition load_state :: "raft \<Rightarrow> hard_state \<Rightarrow> raft option" where
  "load_state r hs = do {
     check (\<not> hs_commit hs < l_committed (r_log r));
     lst \<leftarrow> log_last_index (r_log r);
     check (\<not> hs_commit hs > lst);
     Some (r\<lparr>r_log := (r_log r)\<lparr>l_committed := hs_commit hs\<rparr>, r_term := hs_term hs,
             r_vote := hs_vote hs\<rparr>)
   }"

section \<open>The progress maps\<close>

definition get_progress :: "raft \<Rightarrow> nat \<Rightarrow> progress option" where
  "get_progress r i =
     (case map_of (r_prs r) i of Some p \<Rightarrow> Some p | None \<Rightarrow> map_of (r_learner_prs r) i)"

text \<open>A write through the pointer that \<open>get_progress\<close> returned.\<close>

definition put_progress :: "raft \<Rightarrow> nat \<Rightarrow> progress \<Rightarrow> raft" where
  "put_progress r i p =
     (if map_of (r_prs r) i \<noteq> None then r\<lparr>r_prs := AList.update i p (r_prs r)\<rparr>
      else r\<lparr>r_learner_prs := AList.update i p (r_learner_prs r)\<rparr>)"

definition set_progress :: "raft \<Rightarrow> nat \<Rightarrow> nat \<Rightarrow> nat \<Rightarrow> bool \<Rightarrow> raft option" where
  "set_progress r i mtch nxt is_learner =
     (if \<not> is_learner then
        Some (r\<lparr>r_learner_prs := AList.delete i (r_learner_prs r),
                r_prs := AList.update i
                  ((new_progress (r_max_inflight r))\<lparr>pr_next := nxt, pr_match := mtch\<rparr>) (r_prs r)\<rparr>)
      else do {
        check (map_of (r_prs r) i = None);
        Some (r\<lparr>r_learner_prs := AList.update i
                  ((new_progress (r_max_inflight r))
                     \<lparr>pr_next := nxt, pr_match := mtch, pr_is_learner := True\<rparr>) (r_learner_prs r)\<rparr>)
      })"

definition del_progress :: "raft \<Rightarrow> nat \<Rightarrow> raft" where
  "del_progress r i =
     r\<lparr>r_prs := AList.delete i (r_prs r), r_learner_prs := AList.delete i (r_learner_prs r)\<rparr>"

text \<open>The identifiers that \<open>for_each_progress\<close> visits, in its order.\<close>

definition progress_ids :: "raft \<Rightarrow> nat list" where
  "progress_ids r = map fst (r_prs r) @ map fst (r_learner_prs r)"

definition raft_nodes :: "raft \<Rightarrow> nat list" where
  "raft_nodes r = sort (map fst (r_prs r))"

text \<open>
  \<open>learner_nodes\<close> compares the iterator with the end of the other map; both ends are the null
  node in the standard library the program is built with, so the loop stops at the end.
\<close>

definition raft_learner_nodes :: "raft \<Rightarrow> nat list" where
  "raft_learner_nodes r = sort (map fst (r_learner_prs r))"

definition promotable :: "raft \<Rightarrow> bool" where
  "promotable r \<longleftrightarrow> map_of (r_prs r) (r_id r) \<noteq> None"

text \<open>
  \<open>restore_node\<close> logs the progress of the node itself after each node it sets, and reads it
  through the pointer of \<open>get_progress(id_)\<close>, which is null while the node has none.
\<close>

definition restore_one :: "bool \<Rightarrow> nat \<Rightarrow> raft \<Rightarrow> raft option" where
  "restore_one is_learner node r = do {
     lst \<leftarrow> log_last_index (r_log r);
     let nxt = add64 lst 1;
     let mtch = (if node = r_id r then sub64 nxt 1 else 0);
     let r1 = (if node = r_id r then r\<lparr>r_is_learner := is_learner\<rparr> else r);
     r2 \<leftarrow> set_progress r1 node mtch nxt is_learner;
     _ \<leftarrow> get_progress r2 (r_id r2);
     Some r2
   }"

definition restore_node :: "raft \<Rightarrow> nat list \<Rightarrow> bool \<Rightarrow> raft option" where
  "restore_node r nodes is_learner = each (restore_one is_learner) nodes r"

section \<open>Sending\<close>

definition is_vote_type :: "msg_type \<Rightarrow> bool" where
  "is_vote_type t \<longleftrightarrow> t = MsgVote \<or> t = MsgVoteResp \<or> t = MsgPreVote \<or> t = MsgPreVoteResp"

definition raft_send :: "raft \<Rightarrow> message \<Rightarrow> raft option" where
  "raft_send r m =
     (let m1 = m\<lparr>m_from := r_id r\<rparr>
      in if is_vote_type (m_type m) then do {
           check (m_term m \<noteq> 0);
           Some (r\<lparr>r_msgs := r_msgs r @ [m1]\<rparr>)
         }
         else do {
           check (m_term m = 0);
           let m2 = (if m_type m \<noteq> MsgProp \<and> m_type m \<noteq> MsgReadIndex
                     then m1\<lparr>m_term := r_term r\<rparr> else m1);
           Some (r\<lparr>r_msgs := r_msgs r @ [m2]\<rparr>)
         })"

definition read_messages :: "raft \<Rightarrow> message list \<times> raft" where
  "read_messages r = (r_msgs r, r\<lparr>r_msgs := []\<rparr>)"

definition send_timeout_now :: "raft \<Rightarrow> nat \<Rightarrow> raft option" where
  "send_timeout_now r to = raft_send r (new_message\<lparr>m_to := to, m_type := MsgTimeoutNow\<rparr>)"

section \<open>Timeouts and reset\<close>

definition past_election_timeout :: "raft \<Rightarrow> bool" where
  "past_election_timeout r \<longleftrightarrow> r_election_elapsed r \<ge> r_rand_timeout r"

definition reset_randomized_election_timeout :: "raft \<Rightarrow> raft option" where
  "reset_randomized_election_timeout r =
     (let (g, r1) = rand_gen r;
          r2 = r1\<lparr>r_rand_timeout := add32 (r_election_timeout r1) g\<rparr>
      in do {
        check (r_rand_timeout r2 \<le> (2 * r_election_timeout r2) mod W32);
        Some r2
      })"

definition abort_leader_transfer :: "raft \<Rightarrow> raft" where
  "abort_leader_transfer r = r\<lparr>r_lead_transferee := 0\<rparr>"

definition reset_progress :: "raft \<Rightarrow> nat \<Rightarrow> nat \<times> progress \<Rightarrow> nat \<times> progress" where
  "reset_progress r lst = (\<lambda>(i, p).
     (i, (new_progress (r_max_inflight r))
           \<lparr>pr_next := add64 lst 1, pr_is_learner := pr_is_learner p,
            pr_match := (if i = r_id r then lst else 0)\<rparr>))"

definition raft_reset :: "raft \<Rightarrow> nat \<Rightarrow> raft option" where
  "raft_reset r t = do {
     let r1 = (if r_term r \<noteq> t then r\<lparr>r_term := t, r_vote := 0\<rparr> else r);
     r2 \<leftarrow> reset_randomized_election_timeout
            (r1\<lparr>r_lead := 0, r_election_elapsed := 0, r_heartbeat_elapsed := 0\<rparr>);
     let r3 = (abort_leader_transfer r2)\<lparr>r_votes := []\<rparr>;
     lst \<leftarrow> (if progress_ids r3 = [] then Some 0 else log_last_index (r_log r3));
     Some (r3\<lparr>r_prs := map (reset_progress r3 lst) (r_prs r3),
              r_learner_prs := map (reset_progress r3 lst) (r_learner_prs r3),
              r_pending_conf_index := 0, r_uncommitted_size := 0,
              r_read_only := readonly_clear (r_read_only r3)\<rparr>)
   }"

section \<open>The uncommitted tail and the commit index\<close>

definition payload_sum :: "entry list \<Rightarrow> nat" where
  "payload_sum es = foldl (\<lambda>s e. add32 s (payload_size e)) 0 es"

definition increase_uncommitted_size :: "raft \<Rightarrow> entry list \<Rightarrow> bool \<times> raft" where
  "increase_uncommitted_size r es =
     (let s = payload_sum es
      in if r_uncommitted_size r > 0 \<and> add64 (r_uncommitted_size r) s > r_max_uncommitted_size r
         then (False, r)
         else (True, r\<lparr>r_uncommitted_size := add64 (r_uncommitted_size r) s\<rparr>))"

definition reduce_uncommitted_size :: "raft \<Rightarrow> entry list \<Rightarrow> raft" where
  "reduce_uncommitted_size r es =
     (if r_uncommitted_size r = 0 then r
      else let s = payload_sum es
           in if s > r_uncommitted_size r then r\<lparr>r_uncommitted_size := 0\<rparr>
              else r\<lparr>r_uncommitted_size := r_uncommitted_size r - s\<rparr>)"

definition raft_maybe_commit :: "raft \<Rightarrow> (bool \<times> raft) option" where
  "raft_maybe_commit r = do {
     let buf = sort (map (\<lambda>(_, p). pr_match p) (r_prs r));
     mci \<leftarrow> vec_at buf (sub64 (length buf) (quorum r));
     (b, l) \<leftarrow> log_maybe_commit (r_log r) mci (r_term r);
     Some (b, r\<lparr>r_log := l\<rparr>)
   }"

definition number_entries :: "nat \<Rightarrow> nat \<Rightarrow> entry list \<Rightarrow> entry list" where
  "number_entries t li es =
     map (\<lambda>(i, e). \<lparr>e_type = e_type e, e_term = t, e_index = add64 (add64 li 1) i,
                    e_data = e_data e\<rparr>) (List.enumerate 0 es)"

definition append_entry :: "raft \<Rightarrow> entry list \<Rightarrow> (bool \<times> raft) option" where
  "append_entry r es = do {
     li \<leftarrow> log_last_index (r_log r);
     let ents = number_entries (r_term r) li es;
     let (fits, r1) = increase_uncommitted_size r ents;
     if \<not> fits then Some (False, r1)
     else do {
       (li', l) \<leftarrow> log_append (r_log r1) ents;
       let r2 = r1\<lparr>r_log := l\<rparr>;
       pr \<leftarrow> get_progress r2 (r_id r2);
       (_, r3) \<leftarrow> raft_maybe_commit (put_progress r2 (r_id r2) (snd (progress_maybe_update pr li')));
       Some (True, r3)
     }
   }"

end
