(* ===== verification/Raft_Send.thy ===== *)
theory Raft_Send
  imports Raft_State
begin

text \<open>
  \<open>raft/raft.cpp\<close>: the changes of role, the campaign, and the messages that replicate the log and
  keep the followers alive.
\<close>

section \<open>Replication\<close>

text \<open>The entries branch of \<open>maybe_send_append\<close>.\<close>

definition send_entries :: "raft \<Rightarrow> nat \<Rightarrow> progress \<Rightarrow> nat \<Rightarrow> entry list \<Rightarrow> raft option" where
  "send_entries r to pr tm es = do {
     let m = new_message\<lparr>m_to := to, m_type := MsgApp, m_index := sub64 (pr_next pr) 1,
               m_log_term := tm, m_entries := es, m_commit := l_committed (r_log r)\<rparr>;
     pr' \<leftarrow> (if es = [] then Some pr
            else case pr_state pr of
              ProgressStateReplicate \<Rightarrow> do {
                let lst = e_index (last es);
                let pr1 = progress_optimistic_update pr lst;
                w \<leftarrow> inflights_add (pr_inflights pr1) lst;
                Some (pr1\<lparr>pr_inflights := w\<rparr>)
              }
            | ProgressStateProbe \<Rightarrow> Some (progress_set_pause pr)
            | ProgressStateSnapshot \<Rightarrow> None);
     raft_send (put_progress r to pr') m
   }"

text \<open>The snapshot branch of \<open>maybe_send_append\<close>.\<close>

definition send_snapshot :: "raft \<Rightarrow> nat \<Rightarrow> progress \<Rightarrow> (bool \<times> raft) option" where
  "send_snapshot r to pr =
     (if \<not> pr_recent_active pr then Some (False, r)
      else do {
        let snap = log_snapshot (r_log r);
        check (\<not> snapshot_is_empty snap);
        _ \<leftarrow> log_first_index (r_log r);
        r1 \<leftarrow> raft_send (put_progress r to (progress_become_snapshot pr (s_index snap)))
               (new_message\<lparr>m_to := to, m_type := MsgSnap, m_snapshot := snap\<rparr>);
        Some (True, r1)
      })"

definition maybe_send_append :: "raft \<Rightarrow> nat \<Rightarrow> bool \<Rightarrow> (bool \<times> raft) option" where
  "maybe_send_append r to send_if_empty = do {
     pr \<leftarrow> get_progress r to;
     if progress_is_paused pr then Some (False, r)
     else do {
       t \<leftarrow> log_term (r_log r) (sub64 (pr_next pr) 1);
       res \<leftarrow> log_entries (r_log r) (pr_next pr) (r_max_msg_size r);
       let es = (case res of Inr es \<Rightarrow> es | Inl _ \<Rightarrow> []);
       if es = [] \<and> \<not> send_if_empty then Some (False, r)
       else (case (t, res) of
               (Inr tm, Inr _) \<Rightarrow> do { r1 \<leftarrow> send_entries r to pr tm es; Some (True, r1) }
             | _ \<Rightarrow> send_snapshot r to pr)
     }
   }"

definition send_append :: "raft \<Rightarrow> nat \<Rightarrow> raft option" where
  "send_append r to = do { (_, r1) \<leftarrow> maybe_send_append r to True; Some r1 }"

text \<open>The loop \<open>while (maybe_send_append(to, false))\<close>.\<close>

partial_function (option) send_all :: "raft \<Rightarrow> nat \<Rightarrow> raft option" where
  "send_all r to = do {
     (sent, r1) \<leftarrow> maybe_send_append r to False;
     if sent then send_all r1 to else Some r1
   }"

declare send_all.simps [code]

definition send_heartbeat :: "nat \<Rightarrow> string \<Rightarrow> raft \<Rightarrow> raft option" where
  "send_heartbeat to ctx r = do {
     pr \<leftarrow> get_progress r to;
     raft_send r (new_message\<lparr>m_to := to, m_type := MsgHeartbeat,
                    m_commit := min (pr_match pr) (l_committed (r_log r)), m_context := ctx\<rparr>)
   }"

definition bcast_append :: "raft \<Rightarrow> raft option" where
  "bcast_append r =
     each (\<lambda>i r. if i = r_id r then Some r else send_append r i) (progress_ids r) r"

definition bcast_heartbeat_with_ctx :: "raft \<Rightarrow> string \<Rightarrow> raft option" where
  "bcast_heartbeat_with_ctx r ctx =
     each (\<lambda>i r. if i = r_id r then Some r else send_heartbeat i ctx r) (progress_ids r) r"

definition bcast_heartbeat :: "raft \<Rightarrow> raft option" where
  "bcast_heartbeat r =
     bcast_heartbeat_with_ctx r (readonly_last_pending_request_ctx (r_read_only r))"

definition check_quorum_active :: "raft \<Rightarrow> bool" where
  "check_quorum_active r \<longleftrightarrow>
     length (filter (\<lambda>(i, pr). i = r_id r \<or> (pr_recent_active pr \<and> \<not> pr_is_learner pr))
                    (r_prs r @ r_learner_prs r)) \<ge> quorum r"

section \<open>Roles\<close>

definition become_follower :: "raft \<Rightarrow> nat \<Rightarrow> nat \<Rightarrow> raft option" where
  "become_follower r t lead = do {
     r1 \<leftarrow> raft_reset (r\<lparr>r_step_fn := StepFollower\<rparr>) t;
     Some (r1\<lparr>r_tick_fn := TickElection, r_lead := lead, r_state := Follower\<rparr>)
   }"

definition become_candidate :: "raft \<Rightarrow> raft option" where
  "become_candidate r = do {
     check (r_state r \<noteq> Leader);
     r1 \<leftarrow> raft_reset (r\<lparr>r_step_fn := StepCandidate\<rparr>) (add64 (r_term r) 1);
     Some (r1\<lparr>r_tick_fn := TickElection, r_vote := r_id r1, r_state := Candidate\<rparr>)
   }"

definition become_pre_candidate :: "raft \<Rightarrow> raft option" where
  "become_pre_candidate r = do {
     check (r_state r \<noteq> Leader);
     Some (r\<lparr>r_step_fn := StepCandidate, r_votes := [], r_tick_fn := TickElection, r_lead := 0,
             r_state := PreCandidate\<rparr>)
   }"

definition become_leader :: "raft \<Rightarrow> raft option" where
  "become_leader r = do {
     check (r_state r \<noteq> Follower);
     r1 \<leftarrow> raft_reset (r\<lparr>r_step_fn := StepLeader\<rparr>) (r_term r);
     let r2 = r1\<lparr>r_tick_fn := TickHeartbeat, r_lead := r_id r1, r_state := Leader\<rparr>;
     pr \<leftarrow> map_of (r_prs r2) (r_id r2);
     let r3 = put_progress r2 (r_id r2) (progress_become_replicate pr);
     lst \<leftarrow> log_last_index (r_log r3);
     (fits, r4) \<leftarrow> append_entry (r3\<lparr>r_pending_conf_index := lst\<rparr>) [new_entry];
     check fits;
     Some (reduce_uncommitted_size r4 [new_entry])
   }"

section \<open>Elections\<close>

text \<open>\<open>poll\<close> records the first answer of each node and counts the grants.\<close>

definition poll :: "raft \<Rightarrow> nat \<Rightarrow> msg_type \<Rightarrow> bool \<Rightarrow> (nat \<times> raft) option" where
  "poll r i ty v = do {
     _ \<leftarrow> msg_type_to_string ty;
     let votes = (if map_of (r_votes r) i = None then AList.update i v (r_votes r)
                  else r_votes r);
     Some (length (filter snd votes), r\<lparr>r_votes := votes\<rparr>)
   }"

text \<open>The request for a vote that \<open>campaign\<close> sends to one node.\<close>

definition send_vote_request :: "campaign_type \<Rightarrow> msg_type \<Rightarrow> nat \<Rightarrow> nat \<Rightarrow> raft \<Rightarrow> raft option" where
  "send_vote_request ct vote_msg t i r =
     (if i = r_id r then Some r
      else do {
        lt \<leftarrow> log_last_term (r_log r);
        lst \<leftarrow> log_last_index (r_log r);
        raft_send r (new_message\<lparr>m_term := t, m_to := i, m_type := vote_msg, m_index := lst,
          m_log_term := lt,
          m_context := (if ct = CampaignTransfer then campaign_name CampaignTransfer else '''')\<rparr>)
      })"

definition send_vote_requests :: "raft \<Rightarrow> campaign_type \<Rightarrow> msg_type \<Rightarrow> nat \<Rightarrow> raft option" where
  "send_vote_requests r ct vote_msg t =
     each (send_vote_request ct vote_msg t) (map fst (r_prs r)) r"

text \<open>\<open>campaign\<close> calls itself once, from the pre-election of a single-node cluster.\<close>

function campaign :: "raft \<Rightarrow> campaign_type \<Rightarrow> raft option" where
  "campaign r ct =
     (if ct = CampaignPreElection then do {
        r1 \<leftarrow> become_pre_candidate r;
        let t = add64 (r_term r1) 1;
        ty \<leftarrow> vote_resp_msg_type MsgPreVote;
        (granted, r2) \<leftarrow> poll r1 (r_id r1) ty True;
        if quorum r2 = granted then campaign r2 CampaignElection
        else send_vote_requests r2 ct MsgPreVote t
      }
      else do {
        r1 \<leftarrow> become_candidate r;
        ty \<leftarrow> vote_resp_msg_type MsgVote;
        (granted, r2) \<leftarrow> poll r1 (r_id r1) ty True;
        if quorum r2 = granted then become_leader r2
        else send_vote_requests r2 ct MsgVote (r_term r2)
      })"
  by pat_completeness auto

termination campaign
  by (relation "measure (\<lambda>(r, ct). if ct = CampaignPreElection then 1 else 0)") auto

declare campaign.simps [simp del]

section \<open>Membership\<close>

definition add_node_or_learner :: "raft \<Rightarrow> nat \<Rightarrow> bool \<Rightarrow> raft option" where
  "add_node_or_learner r i is_learner = do {
     r1 \<leftarrow> (case get_progress r i of
             None \<Rightarrow> do {
               lst \<leftarrow> log_last_index (r_log r);
               r' \<leftarrow> set_progress r i 0 (add64 lst 1) is_learner;
               Some (Some r')
             }
           | Some pr \<Rightarrow>
               if is_learner \<and> \<not> pr_is_learner pr then Some None
               else if is_learner = pr_is_learner pr then Some None
               else Some (Some (r\<lparr>r_learner_prs := AList.delete i (r_learner_prs r),
                                  r_prs := AList.update i (pr\<lparr>pr_is_learner := False\<rparr>) (r_prs r)\<rparr>)));
     case r1 of
       None \<Rightarrow> Some r
     | Some r' \<Rightarrow> do {
         let r2 = (if r_id r' = i then r'\<lparr>r_is_learner := is_learner\<rparr> else r');
         pr \<leftarrow> get_progress r2 i;
         Some (put_progress r2 i (pr\<lparr>pr_recent_active := True\<rparr>))
       }
   }"

definition add_node :: "raft \<Rightarrow> nat \<Rightarrow> raft option" where
  "add_node r i = add_node_or_learner r i False"

definition remove_node :: "raft \<Rightarrow> nat \<Rightarrow> raft option" where
  "remove_node r i =
     (let r1 = del_progress r i
      in if r_prs r1 = [] \<and> r_learner_prs r1 = [] then Some r1
         else do {
           (c, r2) \<leftarrow> raft_maybe_commit r1;
           r3 \<leftarrow> (if c then bcast_append r2 else Some r2);
           Some (if r_state r3 = Leader \<and> r_lead_transferee r3 = i then abort_leader_transfer r3
                 else r3)
         })"

section \<open>Construction\<close>

definition add_peer :: "nat \<Rightarrow> raft \<Rightarrow> raft option" where
  "add_peer i r =
     Some (r\<lparr>r_prs := AList.update i ((new_progress (r_max_inflight r))\<lparr>pr_next := 1\<rparr>) (r_prs r)\<rparr>)"

definition add_learner_peer :: "nat \<Rightarrow> raft \<Rightarrow> raft option" where
  "add_learner_peer i r = do {
     check (map_of (r_prs r) i = None);
     Some (r\<lparr>r_learner_prs := AList.update i
               ((new_progress (r_max_inflight r))\<lparr>pr_next := 1, pr_is_learner := True\<rparr>)
               (r_learner_prs r),
             r_is_learner := (r_is_learner r \<or> r_id r = i)\<rparr>)
   }"

text \<open>
  The constructor.  \<open>rnd\<close> is the sequence of the random device.  The callbacks are unset until
  \<open>become_follower\<close> binds them.
\<close>

definition new_raft :: "config \<Rightarrow> (nat \<Rightarrow> nat) \<Rightarrow> raft option" where
  "new_raft c rnd = do {
     stor \<leftarrow> c_storage c;
     l \<leftarrow> new_raft_log stor (c_max_committed_size_per_ready c);
     let (hs, cs) = storage_initial_state stor;
     let r0 = \<lparr>r_id = c_id c, r_term = 0, r_vote = 0, r_read_states = [], r_log = l,
       r_max_msg_size = c_max_size_per_msg c,
       r_max_uncommitted_size = c_max_uncommitted_entries_size c,
       r_max_inflight = c_max_inflight_msgs c, r_prs = [], r_learner_prs = [],
       r_state = Follower, r_is_learner = False, r_votes = [], r_msgs = [], r_lead = 0,
       r_lead_transferee = 0, r_pending_conf_index = 0, r_uncommitted_size = 0,
       r_read_only = new_read_only (c_read_only_option c), r_election_elapsed = 0,
       r_heartbeat_elapsed = 0, r_check_quorum = c_check_quorum c, r_pre_vote = c_pre_vote c,
       r_heartbeat_timeout = c_heartbeat_tick c, r_election_timeout = c_election_tick c,
       r_rand_timeout = 0, r_disable_fwd = c_disable_fwd c, r_tick_fn = TickElection,
       r_step_fn = StepFollower, r_rand = rnd\<rparr>;
     let from_snap = (cs_nodes cs \<noteq> [] \<or> cs_learners cs \<noteq> []);
     check (\<not> (from_snap \<and> (c_peers c \<noteq> [] \<or> c_learners c \<noteq> [])));
     r1 \<leftarrow> each add_peer (if from_snap then cs_nodes cs else c_peers c) r0;
     r2 \<leftarrow> each add_learner_peer (if from_snap then cs_learners cs else c_learners c) r1;
     r3 \<leftarrow> (if \<not> hs_is_empty hs then load_state r2 hs else Some r2);
     let r4 = (if c_applied c > 0 then r3\<lparr>r_log := log_applied_to (r_log r3) (c_applied c)\<rparr>
               else r3);
     r5 \<leftarrow> become_follower r4 (r_term r4) 0;
     _ \<leftarrow> log_last_index (r_log r5);
     _ \<leftarrow> log_last_term (r_log r5);
     Some r5
   }"

end
