(* ===== verification/Raft_Step.thy ===== *)
theory Raft_Step
  imports Raft_Send
begin

text \<open>
  \<open>raft/raft.cpp\<close>: the handlers of messages and the clock.  Every handler returns the status of
  \<open>step\<close> with the new state.  The arguments of the log lines are evaluated by the program (it is
  built with \<open>DEBUG\<close>), so a log line that reads a missing progress or an unknown message type is a
  fault.
\<close>

definition dropped :: status where
  "dropped = InvalidArgument ''raft proposal dropped''"

definition num_of_pending_conf :: "entry list \<Rightarrow> nat" where
  "num_of_pending_conf es = length (filter (\<lambda>e. e_type e = EntryConfChange) es) mod W32"

text \<open>A log line that names the last entry of the log and the type of a message.\<close>

definition log_line :: "raft \<Rightarrow> msg_type \<Rightarrow> unit option" where
  "log_line r ty = do {
     _ \<leftarrow> log_last_term (r_log r);
     _ \<leftarrow> log_last_index (r_log r);
     _ \<leftarrow> msg_type_to_string ty;
     Some ()
   }"

section \<open>Followers\<close>

definition handle_append_entries :: "raft \<Rightarrow> message \<Rightarrow> raft option" where
  "handle_append_entries r m =
     (if m_index m < l_committed (r_log r) then
        raft_send r (new_message\<lparr>m_to := m_from m, m_type := MsgAppResp,
                       m_index := l_committed (r_log r)\<rparr>)
      else do {
        (res, l) \<leftarrow> log_maybe_append (r_log r) (m_index m) (m_log_term m) (m_commit m) (m_entries m);
        let r1 = r\<lparr>r_log := l\<rparr>;
        case res of
          Some last_index \<Rightarrow>
            raft_send r1 (new_message\<lparr>m_to := m_from m, m_type := MsgAppResp, m_index := last_index\<rparr>)
        | None \<Rightarrow> do {
            _ \<leftarrow> log_term (r_log r1) (m_index m);
            lst \<leftarrow> log_last_index (r_log r1);
            raft_send r1 (new_message\<lparr>m_to := m_from m, m_type := MsgAppResp, m_index := m_index m,
                            m_reject := True, m_reject_hint := lst\<rparr>)
          }
      })"

text \<open>The response of \<open>handle_heartbeat\<close> carries no context: the code moves the request's into itself.\<close>

definition handle_heartbeat :: "raft \<Rightarrow> message \<Rightarrow> raft option" where
  "handle_heartbeat r m = do {
     l \<leftarrow> log_commit_to (r_log r) (m_commit m);
     raft_send (r\<lparr>r_log := l\<rparr>) (new_message\<lparr>m_to := m_from m, m_type := MsgHeartbeatResp\<rparr>)
   }"

definition raft_restore :: "raft \<Rightarrow> snapshot \<Rightarrow> (bool \<times> raft) option" where
  "raft_restore r s =
     (if s_index s \<le> l_committed (r_log r) then Some (False, r)
      else do {
        same \<leftarrow> log_match_term (r_log r) (s_index s) (s_term s);
        if same then do {
          _ \<leftarrow> log_last_term (r_log r);
          l \<leftarrow> log_commit_to (r_log r) (s_index s);
          Some (False, r\<lparr>r_log := l\<rparr>)
        }
        else if \<not> r_is_learner r \<and> r_id r \<in> set (cs_learners (s_conf s)) then Some (False, r)
        else do {
          _ \<leftarrow> log_last_term (r_log r);
          let r1 = r\<lparr>r_log := log_restore (r_log r) s, r_prs := [], r_learner_prs := []\<rparr>;
          r2 \<leftarrow> restore_node r1 (cs_nodes (s_conf s)) False;
          r3 \<leftarrow> restore_node r2 (cs_learners (s_conf s)) True;
          Some (True, r3)
        }
      })"

text \<open>The index of the response stays 0: the code writes it into the request.\<close>

definition handle_snapshot :: "raft \<Rightarrow> message \<Rightarrow> raft option" where
  "handle_snapshot r m = do {
     (restored, r1) \<leftarrow> raft_restore r (m_snapshot m);
     _ \<leftarrow> (if restored then log_last_index (r_log r1) else Some 0);
     raft_send r1 (new_message\<lparr>m_to := m_from m, m_type := MsgAppResp\<rparr>)
   }"

text \<open>The follower has heard from the leader of its term.\<close>

definition heard_from :: "raft \<Rightarrow> message \<Rightarrow> raft" where
  "heard_from r m = r\<lparr>r_election_elapsed := 0, r_lead := m_from m\<rparr>"

definition forward_to_leader :: "raft \<Rightarrow> message \<Rightarrow> (status \<times> raft) option" where
  "forward_to_leader r m = do { r1 \<leftarrow> raft_send r (m\<lparr>m_to := r_lead r\<rparr>); Some (StatusOk, r1) }"

definition ok_with :: "raft option \<Rightarrow> (status \<times> raft) option" where
  "ok_with x = do { r \<leftarrow> x; Some (StatusOk, r) }"

definition step_follower :: "raft \<Rightarrow> message \<Rightarrow> (status \<times> raft) option" where
  "step_follower r m =
     (case m_type m of
        MsgProp \<Rightarrow>
          if r_lead r = 0 then Some (dropped, r)
          else if r_disable_fwd r then Some (dropped, r)
          else forward_to_leader r m
      | MsgApp \<Rightarrow> ok_with (handle_append_entries (heard_from r m) m)
      | MsgHeartbeat \<Rightarrow> ok_with (handle_heartbeat (heard_from r m) m)
      | MsgSnap \<Rightarrow> ok_with (handle_snapshot (heard_from r m) m)
      | MsgTransferLeader \<Rightarrow>
          if r_lead r = 0 then Some (StatusOk, r) else forward_to_leader r m
      | MsgTimeoutNow \<Rightarrow>
          if promotable r then ok_with (campaign r CampaignTransfer) else Some (StatusOk, r)
      | MsgReadIndex \<Rightarrow>
          if r_lead r = 0 then Some (StatusOk, r) else forward_to_leader r m
      | MsgReadIndexResp \<Rightarrow>
          (case m_entries m of
             [e] \<Rightarrow> Some (StatusOk, r\<lparr>r_read_states := r_read_states r @
                      [\<lparr>rs_index = m_index m, rs_request_ctx = e_data e\<rparr>]\<rparr>)
           | _ \<Rightarrow> Some (StatusOk, r))
      | _ \<Rightarrow> Some (StatusOk, r))"

section \<open>Candidates\<close>

definition candidate_vote_resp :: "raft \<Rightarrow> message \<Rightarrow> raft option" where
  "candidate_vote_resp r m = do {
     (gr, r1) \<leftarrow> poll r (m_from m) (m_type m) (\<not> m_reject m);
     if quorum r1 = gr then
       (if r_state r1 = PreCandidate then campaign r1 CampaignElection
        else do {
          check (r_state r1 = Candidate);
          r2 \<leftarrow> become_leader r1;
          bcast_append r2
        })
     else if quorum r1 = sub64 (length (r_votes r1)) gr then become_follower r1 (r_term r1) 0
     else Some r1
   }"

definition step_candidate :: "raft \<Rightarrow> message \<Rightarrow> (status \<times> raft) option" where
  "step_candidate r m =
     (case m_type m of
        MsgProp \<Rightarrow> Some (dropped, r)
      | MsgApp \<Rightarrow> ok_with (do {
          r1 \<leftarrow> become_follower r (m_term m) (m_from m);
          handle_append_entries r1 m
        })
      | MsgHeartbeat \<Rightarrow> ok_with (do {
          r1 \<leftarrow> become_follower r (m_term m) (m_from m);
          handle_heartbeat r1 m
        })
      | MsgSnap \<Rightarrow> ok_with (do {
          r1 \<leftarrow> become_follower r (m_term m) (m_from m);
          handle_snapshot r1 m
        })
      | MsgPreVoteResp \<Rightarrow> ok_with (candidate_vote_resp r m)
      | MsgVoteResp \<Rightarrow> ok_with (candidate_vote_resp r m)
      | _ \<Rightarrow> Some (StatusOk, r))"

section \<open>Leaders\<close>

text \<open>
  The loop of \<open>MsgProp\<close> over the proposed entries, at position \<open>i\<close>: a configuration change becomes
  an empty normal entry while another one may be pending.
\<close>

definition prop_one :: "raft \<Rightarrow> nat \<Rightarrow> entry \<Rightarrow> (raft \<times> entry) option" where
  "prop_one r i e =
     (if e_type e = EntryConfChange then
        (if r_pending_conf_index r > l_applied (r_log r) then
           Some (r, e\<lparr>e_type := EntryNormal, e_index := 0, e_term := 0, e_data := ''''\<rparr>)
         else do {
           lst \<leftarrow> log_last_index (r_log r);
           Some (r\<lparr>r_pending_conf_index := add64 (add64 lst i) 1\<rparr>, e)
         })
      else Some (r, e))"

fun prop_scan :: "raft \<Rightarrow> nat \<Rightarrow> entry list \<Rightarrow> (raft \<times> entry list) option" where
  "prop_scan r i [] = Some (r, [])"
| "prop_scan r i (e # es) = do {
     (r1, e1) \<leftarrow> prop_one r i e;
     (r2, es') \<leftarrow> prop_scan r1 (Suc i) es;
     Some (r2, e1 # es')
   }"

definition leader_prop :: "raft \<Rightarrow> message \<Rightarrow> (status \<times> raft) option" where
  "leader_prop r m = do {
     check (m_entries m \<noteq> []);
     if map_of (r_prs r) (r_id r) = None then Some (dropped, r)
     else if r_lead_transferee r \<noteq> 0 then Some (dropped, r)
     else do {
       (r1, es) \<leftarrow> prop_scan r 0 (m_entries m);
       (ok, r2) \<leftarrow> append_entry r1 es;
       if \<not> ok then Some (dropped, r2) else ok_with (bcast_append r2)
     }
   }"

definition push_read_state :: "raft \<Rightarrow> nat \<Rightarrow> string \<Rightarrow> raft" where
  "push_read_state r i ctx =
     r\<lparr>r_read_states := r_read_states r @ [\<lparr>rs_index = i, rs_request_ctx = ctx\<rparr>]\<rparr>"

text \<open>The answer to a read request: a local one becomes a read state, a remote one a message.\<close>

definition answer_read :: "raft \<Rightarrow> message \<Rightarrow> nat \<Rightarrow> raft option" where
  "answer_read r req i =
     (if m_from req = 0 \<or> m_from req = r_id r then do {
        e \<leftarrow> vec_at (m_entries req) 0;
        Some (push_read_state r i (e_data e))
      }
      else raft_send r (new_message\<lparr>m_to := m_from req, m_type := MsgReadIndexResp, m_index := i,
                          m_entries := m_entries req\<rparr>))"

definition leader_read_index :: "raft \<Rightarrow> message \<Rightarrow> raft option" where
  "leader_read_index r m =
     (if quorum r > 1 then do {
        t \<leftarrow> log_term (r_log r) (l_committed (r_log r));
        if (case t of Inr t' \<Rightarrow> t' | Inl _ \<Rightarrow> 0) \<noteq> r_term r then Some r
        else (case ro_option (r_read_only r) of
            ReadOnlySafe \<Rightarrow> do {
              ro \<leftarrow> readonly_add_request (r_read_only r) (l_committed (r_log r)) m;
              e \<leftarrow> vec_at (m_entries m) 0;
              bcast_heartbeat_with_ctx (r\<lparr>r_read_only := ro\<rparr>) (e_data e)
            }
          | ReadOnlyLeaseBased \<Rightarrow> answer_read r m (l_committed (r_log r)))
      }
      else do {
        e \<leftarrow> vec_at (m_entries m) 0;
        Some (push_read_state r (l_committed (r_log r)) (e_data e))
      })"

text \<open>The change of the follower's progress on an accepted append, and what it triggers.\<close>

definition ack_progress :: "progress \<Rightarrow> nat \<Rightarrow> progress option" where
  "ack_progress pr i =
     (if pr_state pr = ProgressStateProbe then Some (progress_become_replicate pr)
      else if pr_state pr = ProgressStateSnapshot \<and> progress_need_snapshot_abort pr then
        Some (progress_become_probe pr)
      else if pr_state pr = ProgressStateReplicate then do {
        w \<leftarrow> inflights_free_to (pr_inflights pr) i;
        Some (pr\<lparr>pr_inflights := w\<rparr>)
      }
      else Some pr)"

definition leader_app_accepted :: "raft \<Rightarrow> message \<Rightarrow> progress \<Rightarrow> raft option" where
  "leader_app_accepted r m pr = do {
     let old_paused = progress_is_paused pr;
     let (updated, pr1) = progress_maybe_update pr (m_index m);
     if \<not> updated then Some (put_progress r (m_from m) pr1)
     else do {
       pr2 \<leftarrow> ack_progress pr1 (m_index m);
       (c, r1) \<leftarrow> raft_maybe_commit (put_progress r (m_from m) pr2);
       r2 \<leftarrow> (if c then bcast_append r1
             else if old_paused then send_append r1 (m_from m)
             else Some r1);
       r3 \<leftarrow> send_all r2 (m_from m);
       pr3 \<leftarrow> get_progress r3 (m_from m);
       if m_from m = r_lead_transferee r3 then do {
         lst \<leftarrow> log_last_index (r_log r3);
         if pr_match pr3 = lst then send_timeout_now r3 (m_from m) else Some r3
       }
       else Some r3
     }
   }"

definition leader_app_resp :: "raft \<Rightarrow> message \<Rightarrow> progress \<Rightarrow> raft option" where
  "leader_app_resp r m pr0 =
     (let pr = pr0\<lparr>pr_recent_active := True\<rparr>
      in if m_reject m then
           (let (decreased, pr1) = progress_maybe_decreases_to pr (m_index m) (m_reject_hint m)
            in if decreased then
                 send_append (put_progress r (m_from m)
                   (if pr_state pr1 = ProgressStateReplicate then progress_become_probe pr1 else pr1))
                   (m_from m)
               else Some (put_progress r (m_from m) pr1))
         else leader_app_accepted (put_progress r (m_from m) pr) m pr)"

text \<open>The three parts of \<open>MsgHeartbeatResp\<close>: the window, the missing entries, the waiting reads.\<close>

definition heard_progress :: "progress \<Rightarrow> progress option" where
  "heard_progress pr0 =
     (let pr = progress_resume (pr0\<lparr>pr_recent_active := True\<rparr>)
      in if pr_state pr = ProgressStateReplicate \<and> inflights_is_full (pr_inflights pr) then do {
           w \<leftarrow> inflights_free_first_one (pr_inflights pr);
           Some (pr\<lparr>pr_inflights := w\<rparr>)
         }
         else Some pr)"

definition leader_read_acks :: "raft \<Rightarrow> message \<Rightarrow> raft option" where
  "leader_read_acks r m =
     (if ro_option (r_read_only r) \<noteq> ReadOnlySafe \<or> m_context m = '''' then Some r
      else
        let (acks, ro) = readonly_recv_ack (r_read_only r) m;
            r1 = r\<lparr>r_read_only := ro\<rparr>
        in if acks < quorum r1 then Some r1
           else do {
             (rss, ro') \<leftarrow> readonly_advance ro m;
             each (\<lambda>rs r. answer_read r (ri_req rs) (ri_index rs)) rss (r1\<lparr>r_read_only := ro'\<rparr>)
           })"

definition leader_heartbeat_resp :: "raft \<Rightarrow> message \<Rightarrow> progress \<Rightarrow> raft option" where
  "leader_heartbeat_resp r m pr0 = do {
     pr \<leftarrow> heard_progress pr0;
     let r1 = put_progress r (m_from m) pr;
     lst \<leftarrow> log_last_index (r_log r1);
     r2 \<leftarrow> (if pr_match pr < lst then send_append r1 (m_from m) else Some r1);
     leader_read_acks r2 m
   }"

definition leader_snap_status :: "raft \<Rightarrow> message \<Rightarrow> progress \<Rightarrow> raft" where
  "leader_snap_status r m pr =
     (if pr_state pr \<noteq> ProgressStateSnapshot then r
      else put_progress r (m_from m) (progress_set_pause
             (progress_become_probe (if m_reject m then progress_snapshot_failure pr else pr))))"

definition leader_unreachable :: "raft \<Rightarrow> message \<Rightarrow> progress \<Rightarrow> raft" where
  "leader_unreachable r m pr =
     (if pr_state pr = ProgressStateReplicate
      then put_progress r (m_from m) (progress_become_probe pr) else r)"

definition leader_transfer :: "raft \<Rightarrow> message \<Rightarrow> progress \<Rightarrow> raft option" where
  "leader_transfer r m pr =
     (if pr_is_learner pr then Some r
      else if r_lead_transferee r \<noteq> 0 \<and> r_lead_transferee r = m_from m then Some r
      else
        let r1 = (if r_lead_transferee r \<noteq> 0 then abort_leader_transfer r else r)
        in if m_from m = r_id r1 then Some r1
           else do {
             let r2 = r1\<lparr>r_election_elapsed := 0, r_lead_transferee := m_from m\<rparr>;
             lst \<leftarrow> log_last_index (r_log r2);
             if pr_match pr = lst then send_timeout_now r2 (m_from m)
             else send_append r2 (m_from m)
           })"

text \<open>The second switch of \<open>step_leader\<close>, for messages that need the progress of their sender.\<close>

definition step_leader_progress :: "raft \<Rightarrow> message \<Rightarrow> progress \<Rightarrow> raft option" where
  "step_leader_progress r m pr =
     (case m_type m of
        MsgAppResp \<Rightarrow> leader_app_resp r m pr
      | MsgHeartbeatResp \<Rightarrow> leader_heartbeat_resp r m pr
      | MsgSnapStatus \<Rightarrow> Some (leader_snap_status r m pr)
      | MsgUnreachable \<Rightarrow> Some (leader_unreachable r m pr)
      | MsgTransferLeader \<Rightarrow> leader_transfer r m pr
      | _ \<Rightarrow> Some r)"

definition step_leader :: "raft \<Rightarrow> message \<Rightarrow> (status \<times> raft) option" where
  "step_leader r m =
     (case m_type m of
        MsgBeat \<Rightarrow> ok_with (bcast_heartbeat r)
      | MsgCheckQuorum \<Rightarrow>
          ok_with (if \<not> check_quorum_active r then become_follower r (r_term r) 0 else Some r)
      | MsgProp \<Rightarrow> leader_prop r m
      | MsgReadIndex \<Rightarrow> ok_with (leader_read_index r m)
      | _ \<Rightarrow>
          (case get_progress r (m_from m) of
             None \<Rightarrow> Some (StatusOk, r)
           | Some pr \<Rightarrow> ok_with (step_leader_progress r m pr)))"

section \<open>The entry point\<close>

definition in_lease :: "raft \<Rightarrow> bool" where
  "in_lease r \<longleftrightarrow> r_check_quorum r \<and> r_lead r \<noteq> 0 \<and> r_election_elapsed r < r_election_timeout r"

text \<open>
  The first part of \<open>step\<close>, on the term of the message: the new state, and whether the message has
  been dealt with.
\<close>

definition step_higher_term :: "raft \<Rightarrow> message \<Rightarrow> (bool \<times> raft) option" where
  "step_higher_term r m =
     (if (m_type m = MsgVote \<or> m_type m = MsgPreVote) \<and>
         m_context m \<noteq> campaign_name CampaignTransfer \<and> in_lease r then do {
        _ \<leftarrow> log_line r (m_type m);
        Some (True, r)
      }
      else if m_type m = MsgPreVote then Some (False, r)
      else if m_type m = MsgPreVoteResp \<and> \<not> m_reject m then Some (False, r)
      else do {
        _ \<leftarrow> msg_type_to_string (m_type m);
        r1 \<leftarrow> become_follower r (m_term m)
               (if m_type m = MsgApp \<or> m_type m = MsgHeartbeat \<or> m_type m = MsgSnap
                then m_from m else 0);
        Some (False, r1)
      })"

definition step_lower_term :: "raft \<Rightarrow> message \<Rightarrow> raft option" where
  "step_lower_term r m =
     (if (r_check_quorum r \<or> r_pre_vote r) \<and> (m_type m = MsgHeartbeat \<or> m_type m = MsgApp) then
        raft_send r (new_message\<lparr>m_to := m_from m, m_type := MsgAppResp\<rparr>)
      else if m_type m = MsgPreVote then do {
        _ \<leftarrow> log_line r (m_type m);
        raft_send r (new_message\<lparr>m_to := m_from m, m_type := MsgPreVoteResp, m_reject := True,
                       m_term := r_term r\<rparr>)
      }
      else do {
        _ \<leftarrow> msg_type_to_string (m_type m);
        Some r
      })"

definition step_term :: "raft \<Rightarrow> message \<Rightarrow> (bool \<times> raft) option" where
  "step_term r m =
     (if m_term m = 0 then Some (False, r)
      else if m_term m > r_term r then step_higher_term r m
      else if m_term m < r_term r then do { r1 \<leftarrow> step_lower_term r m; Some (True, r1) }
      else Some (False, r))"

definition step_hup :: "raft \<Rightarrow> raft option" where
  "step_hup r =
     (if r_state r = Leader then Some r
      else do {
        res \<leftarrow> log_slice (r_log r) (add64 (l_applied (r_log r)) 1)
                 (add64 (l_committed (r_log r)) 1) unlimited;
        case res of
          Inl _ \<Rightarrow> None
        | Inr es \<Rightarrow>
            if num_of_pending_conf es > 0 \<and> l_committed (r_log r) > l_applied (r_log r) then Some r
            else campaign r (if r_pre_vote r then CampaignPreElection else CampaignElection)
      })"

definition can_vote :: "raft \<Rightarrow> message \<Rightarrow> bool" where
  "can_vote r m \<longleftrightarrow>
     r_vote r = m_from m \<or> (r_vote r = 0 \<and> r_lead r = 0) \<or>
     (m_type m = MsgPreVote \<and> m_term m > r_term r)"

definition step_vote :: "raft \<Rightarrow> message \<Rightarrow> raft option" where
  "step_vote r m =
     (if r_is_learner r then do { _ \<leftarrow> log_line r (m_type m); Some r }
      else do {
        grant \<leftarrow> (if can_vote r m then log_is_up_to_date (r_log r) (m_index m) (m_log_term m)
                else Some False);
        _ \<leftarrow> log_line r (m_type m);
        ty \<leftarrow> vote_resp_msg_type (m_type m);
        if grant then do {
          r1 \<leftarrow> raft_send r (new_message\<lparr>m_to := m_from m, m_term := m_term m, m_type := ty\<rparr>);
          Some (if m_type m = MsgVote then r1\<lparr>r_election_elapsed := 0, r_vote := m_from m\<rparr> else r1)
        }
        else raft_send r (new_message\<lparr>m_to := m_from m, m_term := r_term r, m_type := ty,
                            m_reject := True\<rparr>)
      })"

definition raft_step :: "raft \<Rightarrow> message \<Rightarrow> (status \<times> raft) option" where
  "raft_step r m = do {
     (finished, r1) \<leftarrow> step_term r m;
     if finished then Some (StatusOk, r1)
     else (case m_type m of
         MsgHup \<Rightarrow> ok_with (step_hup r1)
       | MsgVote \<Rightarrow> ok_with (step_vote r1 m)
       | MsgPreVote \<Rightarrow> ok_with (step_vote r1 m)
       | _ \<Rightarrow>
           (case r_step_fn r1 of
              StepFollower \<Rightarrow> step_follower r1 m
            | StepCandidate \<Rightarrow> step_candidate r1 m
            | StepLeader \<Rightarrow> step_leader r1 m))
   }"

section \<open>The clock\<close>

definition tick_election :: "raft \<Rightarrow> raft option" where
  "tick_election r = do {
     let r1 = r\<lparr>r_election_elapsed := add32 (r_election_elapsed r) 1\<rparr>;
     if promotable r1 \<and> past_election_timeout r1 then do {
       (_, r2) \<leftarrow> raft_step (r1\<lparr>r_election_elapsed := 0\<rparr>)
                   (new_message\<lparr>m_from := r_id r1, m_type := MsgHup\<rparr>);
       Some r2
     }
     else Some r1
   }"

text \<open>What \<open>tick_heartbeat\<close> does once per election timeout.\<close>

definition tick_check_quorum :: "raft \<Rightarrow> raft option" where
  "tick_check_quorum r = do {
     let ra = r\<lparr>r_election_elapsed := 0\<rparr>;
     rb \<leftarrow> (if r_check_quorum ra then do {
             (_, rc) \<leftarrow> raft_step ra (new_message\<lparr>m_from := r_id ra, m_type := MsgCheckQuorum\<rparr>);
             Some rc
           }
           else Some ra);
     Some (if r_state rb = Leader \<and> r_lead_transferee rb \<noteq> 0
           then abort_leader_transfer rb else rb)
   }"

definition tick_heartbeat :: "raft \<Rightarrow> raft option" where
  "tick_heartbeat r = do {
     let r1 = r\<lparr>r_heartbeat_elapsed := add32 (r_heartbeat_elapsed r) 1,
                r_election_elapsed := add32 (r_election_elapsed r) 1\<rparr>;
     r2 \<leftarrow> (if r_election_elapsed r1 \<ge> r_election_timeout r1 then tick_check_quorum r1 else Some r1);
     if r_state r2 \<noteq> Leader then Some r2
     else if r_heartbeat_elapsed r2 \<ge> r_heartbeat_timeout r2 then do {
       (_, r3) \<leftarrow> raft_step (r2\<lparr>r_heartbeat_elapsed := 0\<rparr>)
                   (new_message\<lparr>m_from := r_id r2, m_type := MsgBeat\<rparr>);
       Some r3
     }
     else Some r2
   }"

definition raft_tick :: "raft \<Rightarrow> raft option" where
  "raft_tick r = (case r_tick_fn r of TickElection \<Rightarrow> tick_election r | TickHeartbeat \<Rightarrow> tick_heartbeat r)"

end
