(* ===== verification/Node.thy ===== *)
theory Node
  imports Raft_Step
begin

text \<open>
  \<open>raft/ready.h\<close>, \<open>raft/ready.cpp\<close>, \<open>raft/node.h\<close> and \<open>raft/node.cpp\<close>: the batches of work that a
  node hands to its application, and \<open>RawNode\<close>, the interface the application drives.  The msgpack
  encoding of a configuration change is the parameter \<open>ser\<close>.
\<close>

section \<open>Ready\<close>

record ready =
  rd_soft_state :: "soft_state option"
  rd_hard_state :: hard_state
  rd_read_states :: "read_state list"
  rd_entries :: "entry list"
  rd_snapshot :: snapshot
  rd_committed :: "entry list"
  rd_messages :: "message list"
  rd_must_sync :: bool

text \<open>
  The constructor moves the messages out of the node.  \<open>must_sync\<close> is computed from the field
  \<open>hard_state\<close> of the new object, not from the previous hard state.
\<close>

definition new_ready :: "raft \<Rightarrow> soft_state \<Rightarrow> hard_state \<Rightarrow> (ready \<times> raft) option" where
  "new_ready r pre_soft pre_hard = do {
     committed \<leftarrow> log_next_entries (r_log r);
     let st = raft_soft_state r;
     let hs = raft_hard_state r;
     let rd_hs = (if hs \<noteq> pre_hard then hs else empty_hard_state);
     let es = u_entries (l_unstable (r_log r));
     Some (\<lparr>rd_soft_state = (if st \<noteq> pre_soft then Some st else None),
            rd_hard_state = rd_hs,
            rd_read_states = r_read_states r,
            rd_entries = es,
            rd_snapshot = (case u_snapshot (l_unstable (r_log r)) of
                             Some s \<Rightarrow> s | None \<Rightarrow> empty_snapshot),
            rd_committed = committed,
            rd_messages = r_msgs r,
            rd_must_sync = is_must_sync hs rd_hs (length es)\<rparr>,
           r\<lparr>r_msgs := []\<rparr>)
   }"

definition ready_contains_updates :: "ready \<Rightarrow> bool" where
  "ready_contains_updates rd \<longleftrightarrow>
     rd_soft_state rd \<noteq> None \<or> \<not> hs_is_empty (rd_hard_state rd) \<or>
     \<not> snapshot_is_empty (rd_snapshot rd) \<or> rd_entries rd \<noteq> [] \<or>
     rd_committed rd \<noteq> [] \<or> rd_messages rd \<noteq> [] \<or> rd_read_states rd = []"

definition ready_applied_cursor :: "ready \<Rightarrow> nat" where
  "ready_applied_cursor rd =
     (if rd_committed rd \<noteq> [] then e_index (last (rd_committed rd))
      else if s_index (rd_snapshot rd) > 0 then s_index (rd_snapshot rd)
      else 0)"

text \<open>
  The loop over the read states compares against the other vector without a check of its length;
  reading past its end is a fault.
\<close>

fun equal_read_states :: "read_state list \<Rightarrow> read_state list \<Rightarrow> bool option" where
  "equal_read_states [] ys = Some True"
| "equal_read_states (x # xs) [] = None"
| "equal_read_states (x # xs) (y # ys) = (if x \<noteq> y then Some False else equal_read_states xs ys)"

definition ready_equal :: "ready \<Rightarrow> ready \<Rightarrow> bool option" where
  "ready_equal a b =
     (if rd_soft_state a \<noteq> rd_soft_state b then Some False
      else if rd_hard_state a \<noteq> rd_hard_state b then Some False
      else do {
        same \<leftarrow> equal_read_states (rd_read_states a) (rd_read_states b);
        if \<not> same then Some False
        else if rd_entries a \<noteq> rd_entries b then Some False
        else if rd_snapshot a \<noteq> rd_snapshot b then Some False
        else if rd_committed a \<noteq> rd_committed b then Some False
        else Some (rd_must_sync a = rd_must_sync b)
      })"

section \<open>RawNode\<close>

record raw_node =
  n_raft :: raft
  n_prev_soft :: soft_state
  n_prev_hard :: hard_state

definition bootstrap_entry :: "(conf_change \<Rightarrow> string) \<Rightarrow> nat \<Rightarrow> nat \<times> string \<Rightarrow> entry" where
  "bootstrap_entry ser i peer =
     \<lparr>e_type = EntryConfChange, e_term = 1, e_index = i + 1,
      e_data = ser \<lparr>cc_id = 0, cc_type = ConfChangeAddNode, cc_node_id = fst peer,
                    cc_context = snd peer\<rparr>\<rparr>"

text \<open>
  The constructor with peers: an empty log is given one membership entry for every peer, all of
  them committed at once.
\<close>

definition bootstrap :: "(conf_change \<Rightarrow> string) \<Rightarrow> raft \<Rightarrow> (nat \<times> string) list \<Rightarrow> raft option" where
  "bootstrap ser r peers = do {
     r1 \<leftarrow> become_follower r 1 0;
     let es = map (\<lambda>(i, p). bootstrap_entry ser i p) (List.enumerate 0 peers);
     (_, l) \<leftarrow> log_append (r_log r1) es;
     let r2 = r1\<lparr>r_log := l\<lparr>l_committed := length es\<rparr>\<rparr>;
     each (\<lambda>p r. add_node r (fst p)) peers r2
   }"

definition new_raw_node ::
  "(conf_change \<Rightarrow> string) \<Rightarrow> config \<Rightarrow> (nat \<Rightarrow> nat) \<Rightarrow> (nat \<times> string) list \<Rightarrow> raw_node option" where
  "new_raw_node ser c rnd peers = do {
     r \<leftarrow> new_raft c rnd;
     stor \<leftarrow> c_storage c;
     lst \<leftarrow> storage_last_index stor;
     r1 \<leftarrow> (if lst = 0 then bootstrap ser r peers else Some r);
     Some \<lparr>n_raft = r1, n_prev_soft = raft_soft_state r1,
           n_prev_hard = (if lst = 0 then empty_hard_state else raft_hard_state r1)\<rparr>
   }"

definition restart_raw_node :: "config \<Rightarrow> (nat \<Rightarrow> nat) \<Rightarrow> raw_node option" where
  "restart_raw_node c rnd = do {
     stor \<leftarrow> c_storage c;
     lst \<leftarrow> storage_last_index stor;
     r \<leftarrow> new_raft c rnd;
     Some \<lparr>n_raft = r, n_prev_soft = raft_soft_state r,
           n_prev_hard = (if lst = 0 then empty_hard_state else raft_hard_state r)\<rparr>
   }"

text \<open>Every input of the application is a message to \<open>Raft::step\<close>.\<close>

definition node_input :: "raw_node \<Rightarrow> message \<Rightarrow> (status \<times> raw_node) option" where
  "node_input n m = do {
     (st, r) \<leftarrow> raft_step (n_raft n) m;
     Some (st, n\<lparr>n_raft := r\<rparr>)
   }"

definition node_tick :: "raw_node \<Rightarrow> raw_node option" where
  "node_tick n = do { r \<leftarrow> raft_tick (n_raft n); Some (n\<lparr>n_raft := r\<rparr>) }"

definition node_campaign :: "raw_node \<Rightarrow> (status \<times> raw_node) option" where
  "node_campaign n = node_input n (new_message\<lparr>m_type := MsgHup\<rparr>)"

definition node_propose :: "raw_node \<Rightarrow> string \<Rightarrow> (status \<times> raw_node) option" where
  "node_propose n d =
     node_input n (new_message\<lparr>m_type := MsgProp, m_from := r_id (n_raft n),
       m_entries := [\<lparr>e_type = EntryNormal, e_term = 0, e_index = 0, e_data = d\<rparr>]\<rparr>)"

definition node_propose_conf_change ::
  "(conf_change \<Rightarrow> string) \<Rightarrow> raw_node \<Rightarrow> conf_change \<Rightarrow> (status \<times> raw_node) option" where
  "node_propose_conf_change ser n cc =
     node_input n (new_message\<lparr>m_type := MsgProp,
       m_entries := [\<lparr>e_type = EntryConfChange, e_term = 0, e_index = 0, e_data = ser cc\<rparr>]\<rparr>)"

definition node_step :: "raw_node \<Rightarrow> message \<Rightarrow> (status \<times> raw_node) option" where
  "node_step n m =
     (if msg_is_local m then
        Some (InvalidArgument ''raft: cannot step raft local message'', n)
      else if get_progress (n_raft n) (m_from m) \<noteq> None \<or> \<not> msg_is_response m then node_input n m
      else Some (InvalidArgument ''raft: cannot step as peer not found'', n))"

definition node_ready :: "raw_node \<Rightarrow> (ready \<times> raw_node) option" where
  "node_ready n = do {
     (rd, r) \<leftarrow> new_ready (n_raft n) (n_prev_soft n) (n_prev_hard n);
     Some (rd, n\<lparr>n_raft := reduce_uncommitted_size (r\<lparr>r_msgs := []\<rparr>) (rd_committed rd)\<rparr>)
   }"

definition node_has_ready :: "raw_node \<Rightarrow> bool option" where
  "node_has_ready n =
     (let r = n_raft n; hs = raft_hard_state r
      in if raft_soft_state r \<noteq> n_prev_soft n then Some True
         else if \<not> hs_is_empty hs \<and> hs \<noteq> n_prev_hard n then Some True
         else if (case u_snapshot (l_unstable (r_log r)) of
                    Some s \<Rightarrow> \<not> snapshot_is_empty s | None \<Rightarrow> False) then Some True
         else if r_msgs r \<noteq> [] \<or> u_entries (l_unstable (r_log r)) \<noteq> [] then Some True
         else do {
           next \<leftarrow> log_has_next_entries (r_log r);
           Some (next \<or> r_read_states r \<noteq> [])
         })"

definition node_advance :: "raw_node \<Rightarrow> ready \<Rightarrow> raw_node option" where
  "node_advance n rd = do {
     let n1 = (case rd_soft_state rd of Some ss \<Rightarrow> n\<lparr>n_prev_soft := ss\<rparr> | None \<Rightarrow> n);
     let n2 = (if \<not> hs_is_empty (rd_hard_state rd) then n1\<lparr>n_prev_hard := rd_hard_state rd\<rparr> else n1);
     let index = ready_applied_cursor rd;
     let l1 = (if index > 0 then log_applied_to (r_log (n_raft n2)) index else r_log (n_raft n2));
     l2 \<leftarrow> (if rd_entries rd \<noteq> []
           then log_stable_to l1 (e_index (last (rd_entries rd))) (e_term (last (rd_entries rd)))
           else Some l1);
     let l3 = (if \<not> snapshot_is_empty (rd_snapshot rd)
               then log_stable_snap_to l2 (s_index (rd_snapshot rd)) else l2);
     let r = (n_raft n2)\<lparr>r_log := l3\<rparr>;
     Some (n2\<lparr>n_raft := (if rd_read_states rd \<noteq> [] then r\<lparr>r_read_states := []\<rparr> else r)\<rparr>)
   }"

definition conf_state_of :: "raft \<Rightarrow> conf_state" where
  "conf_state_of r = \<lparr>cs_nodes = raft_nodes r, cs_learners = raft_learner_nodes r\<rparr>"

definition node_apply_conf_change :: "raw_node \<Rightarrow> conf_change \<Rightarrow> (conf_state \<times> raw_node) option" where
  "node_apply_conf_change n cc =
     (if cc_node_id cc = 0 then Some (conf_state_of (n_raft n), n)
      else do {
        r \<leftarrow> (if cc_type cc = ConfChangeAddNode then add_node_or_learner (n_raft n) (cc_node_id cc) False
             else if cc_type cc = ConfChangeAddLearnerNode then
               add_node_or_learner (n_raft n) (cc_node_id cc) True
             else if cc_type cc = ConfChangeRemoveNode then remove_node (n_raft n) (cc_node_id cc)
             else if cc_type cc = ConfChangeUpdateNode then Some (n_raft n)
             else None);
        Some (conf_state_of r, n\<lparr>n_raft := r\<rparr>)
      })"

definition node_transfer_leadership :: "raw_node \<Rightarrow> nat \<Rightarrow> nat \<Rightarrow> raw_node option" where
  "node_transfer_leadership n lead transferee = do {
     (_, n1) \<leftarrow> node_input n
       (new_message\<lparr>m_type := MsgTransferLeader, m_from := transferee, m_to := lead\<rparr>);
     Some n1
   }"

text \<open>The entry of a read request carries the message type \<open>MsgReadIndex\<close>, which is 15, as its type.\<close>

definition node_read_index :: "raw_node \<Rightarrow> string \<Rightarrow> (status \<times> raw_node) option" where
  "node_read_index n rctx =
     node_input n (new_message\<lparr>m_type := MsgReadIndex,
       m_entries := [\<lparr>e_type = 15, e_term = 0, e_index = 0, e_data = rctx\<rparr>]\<rparr>)"

definition node_report_unreachable :: "raw_node \<Rightarrow> nat \<Rightarrow> raw_node option" where
  "node_report_unreachable n i = do {
     (_, n1) \<leftarrow> node_input n (new_message\<lparr>m_type := MsgUnreachable, m_from := i\<rparr>);
     Some n1
   }"

definition SnapshotFinish :: nat where
  "SnapshotFinish = 1"

definition SnapshotFailure :: nat where
  "SnapshotFailure = 2"

definition node_report_snapshot :: "raw_node \<Rightarrow> nat \<Rightarrow> nat \<Rightarrow> raw_node option" where
  "node_report_snapshot n i st = do {
     (_, n1) \<leftarrow> node_input n
       (new_message\<lparr>m_type := MsgSnapStatus, m_from := i, m_reject := (st = SnapshotFailure)\<rparr>);
     Some n1
   }"

end
