(* ===== verification/Raft_Frame.thy ===== *)
theory Raft_Frame
  imports Node
begin

text \<open>
  What the operations of \<open>Raft\<close> leave alone.  \<open>sends_only\<close> describes the operations that only send
  messages and move the progress of followers; everything a node says and keeps at such a step is
  known from its state before.
\<close>

section \<open>Progress maps\<close>

lemma get_put_same: "get_progress r i \<noteq> None \<Longrightarrow> get_progress (put_progress r i p) i = Some p"
  by (auto simp: get_progress_def put_progress_def split: option.splits)

lemma get_put_other: "j \<noteq> i \<Longrightarrow> get_progress (put_progress r i p) j = get_progress r j"
  by (auto simp: get_progress_def put_progress_def split: option.splits)

lemma update_keys_in: "map_of al k \<noteq> None \<Longrightarrow> map fst (AList.update k v al) = map fst al"
  by (rule map_fst_update_in) (simp add: map_of_eq_None_iff')

lemma put_progress_keys:
  assumes "get_progress r i \<noteq> None"
  shows "map fst (r_prs (put_progress r i p)) = map fst (r_prs r)"
    "map fst (r_learner_prs (put_progress r i p)) = map fst (r_learner_prs r)"
proof -
  consider "map_of (r_prs r) i \<noteq> None" | "map_of (r_prs r) i = None" "map_of (r_learner_prs r) i \<noteq> None"
    using assms by (cases "map_of (r_prs r) i") (auto simp: get_progress_def)
  then show "map fst (r_prs (put_progress r i p)) = map fst (r_prs r)"
    "map fst (r_learner_prs (put_progress r i p)) = map fst (r_learner_prs r)"
    by (cases; simp add: put_progress_def update_keys_in)+
qed

lemma put_progress_eq:
  "put_progress r i p =
     r\<lparr>r_prs := r_prs (put_progress r i p), r_learner_prs := r_learner_prs (put_progress r i p)\<rparr>"
  by (cases "map_of (r_prs r) i = None") (simp_all add: put_progress_def)

lemma put_progress_sel [simp]:
  "r_id (put_progress r i p) = r_id r" "r_log (put_progress r i p) = r_log r"
  "r_term (put_progress r i p) = r_term r" "r_msgs (put_progress r i p) = r_msgs r"
  "r_state (put_progress r i p) = r_state r" "r_vote (put_progress r i p) = r_vote r"
  "r_read_only (put_progress r i p) = r_read_only r"
  "r_lead_transferee (put_progress r i p) = r_lead_transferee r"
  "r_max_msg_size (put_progress r i p) = r_max_msg_size r"
  by (simp_all add: put_progress_def)

lemma length_eq_keys: "map fst xs = map fst ys \<Longrightarrow> length xs = length ys"
  by (drule arg_cong [of _ _ length]) simp

lemma quorum_keys: "map fst (r_prs r') = map fst (r_prs r) \<Longrightarrow> quorum r' = quorum r"
  unfolding quorum_def by (drule length_eq_keys) simp

section \<open>Operations that only send\<close>

definition snap_of_log :: "raft_log \<Rightarrow> message \<Rightarrow> bool" where
  "snap_of_log l m \<longleftrightarrow> m_type m = MsgSnap \<longrightarrow> m_snapshot m = log_snapshot l"

definition plain_type :: "msg_type \<Rightarrow> bool" where
  "plain_type t \<longleftrightarrow> \<not> is_vote_type t \<and> t \<noteq> MsgProp \<and> t \<noteq> MsgReadIndex"

definition sent_ok :: "raft \<Rightarrow> message \<Rightarrow> bool" where
  "sent_ok r m \<longleftrightarrow>
     m_from m = r_id r \<and> m_term m = r_term r \<and> plain_type (m_type m) \<and> snap_of_log (r_log r) m"

definition sends_only :: "raft \<Rightarrow> raft \<Rightarrow> bool" where
  "sends_only r r' \<longleftrightarrow>
     (\<exists>ms ps ls. r' = r\<lparr>r_msgs := r_msgs r @ ms, r_prs := ps, r_learner_prs := ls\<rparr> \<and>
        map fst ps = map fst (r_prs r) \<and> map fst ls = map fst (r_learner_prs r) \<and>
        (\<forall>m \<in> set ms. sent_ok r m))"

lemma sends_onlyI:
  "r' = r\<lparr>r_msgs := r_msgs r @ ms, r_prs := ps, r_learner_prs := ls\<rparr> \<Longrightarrow>
   map fst ps = map fst (r_prs r) \<Longrightarrow> map fst ls = map fst (r_learner_prs r) \<Longrightarrow>
   (\<And>m. m \<in> set ms \<Longrightarrow> sent_ok r m) \<Longrightarrow> sends_only r r'"
  by (auto simp: sends_only_def)

lemma sends_only_refl [simp]: "sends_only r r"
  by (rule sends_onlyI [where ms = "[]" and ps = "r_prs r" and ls = "r_learner_prs r"]) auto

lemma sends_only_trans [trans]:
  assumes "sends_only a b" "sends_only b c"
  shows "sends_only a c"
proof -
  obtain ms ps ls where b: "b = a\<lparr>r_msgs := r_msgs a @ ms, r_prs := ps, r_learner_prs := ls\<rparr>"
      "map fst ps = map fst (r_prs a)" "map fst ls = map fst (r_learner_prs a)"
      "\<forall>m \<in> set ms. sent_ok a m"
    using assms(1) by (auto simp: sends_only_def)
  obtain ms' ps' ls' where c: "c = b\<lparr>r_msgs := r_msgs b @ ms', r_prs := ps', r_learner_prs := ls'\<rparr>"
      "map fst ps' = map fst (r_prs b)" "map fst ls' = map fst (r_learner_prs b)"
      "\<forall>m \<in> set ms'. sent_ok b m"
    using assms(2) by (auto simp: sends_only_def)
  show ?thesis
  proof (rule sends_onlyI)
    show "c = a\<lparr>r_msgs := r_msgs a @ (ms @ ms'), r_prs := ps', r_learner_prs := ls'\<rparr>"
      using b(1) c(1) by simp
    show "sent_ok a m" if "m \<in> set (ms @ ms')" for m
      using that b(1,4) c(4) by (auto simp: sent_ok_def)
  qed (use b c in simp_all)
qed

lemma sends_only_sel:
  assumes "sends_only r r'"
  shows "r_id r' = r_id r" "r_term r' = r_term r" "r_vote r' = r_vote r" "r_state r' = r_state r"
    "r_votes r' = r_votes r" "r_log r' = r_log r" "r_lead r' = r_lead r"
    "r_step_fn r' = r_step_fn r" "r_pre_vote r' = r_pre_vote r" "r_read_only r' = r_read_only r"
    "r_lead_transferee r' = r_lead_transferee r" "r_max_inflight r' = r_max_inflight r"
    "r_max_msg_size r' = r_max_msg_size r"
    "map fst (r_prs r') = map fst (r_prs r)" "map fst (r_learner_prs r') = map fst (r_learner_prs r)"
    "progress_ids r' = progress_ids r" "quorum r' = quorum r"
  using assms by (auto simp: sends_only_def progress_ids_def intro: quorum_keys)

lemma sends_only_put: "get_progress r i \<noteq> None \<Longrightarrow> sends_only r (put_progress r i p)"
  by (rule sends_onlyI [where ms = "[]" and ps = "r_prs (put_progress r i p)"
        and ls = "r_learner_prs (put_progress r i p)"])
    (use put_progress_eq [of r i p] put_progress_keys [of r i p] in simp_all)

lemma raft_send_eq:
  assumes "raft_send r m = Some r'" "plain_type (m_type m)"
  shows "r' = r\<lparr>r_msgs := r_msgs r @ [m\<lparr>m_from := r_id r, m_term := r_term r\<rparr>]\<rparr>"
  using assms by (auto simp: raft_send_def plain_type_def Let_def split: Option.bind_splits)

lemma raft_send_total:
  "plain_type (m_type m) \<Longrightarrow> m_term m = 0 \<Longrightarrow>
   raft_send r m = Some (r\<lparr>r_msgs := r_msgs r @ [m\<lparr>m_from := r_id r, m_term := r_term r\<rparr>]\<rparr>)"
  by (auto simp: raft_send_def plain_type_def Let_def)

lemma sends_only_send:
  assumes "raft_send r m = Some r'" "plain_type (m_type m)" "snap_of_log (r_log r) m"
  shows "sends_only r r'"
  by (rule sends_onlyI [where ms = "[m\<lparr>m_from := r_id r, m_term := r_term r\<rparr>]"
        and ps = "r_prs r" and ls = "r_learner_prs r"])
    (use assms raft_send_eq [OF assms(1,2)] in \<open>auto simp: sent_ok_def snap_of_log_def\<close>)

lemma plain_types [simp]:
  "plain_type MsgApp" "plain_type MsgAppResp" "plain_type MsgSnap" "plain_type MsgHeartbeat"
  "plain_type MsgHeartbeatResp" "plain_type MsgTimeoutNow" "plain_type MsgReadIndexResp"
  "\<not> plain_type MsgVote" "\<not> plain_type MsgVoteResp" "\<not> plain_type MsgPreVote"
  "\<not> plain_type MsgPreVoteResp" "\<not> plain_type MsgProp" "\<not> plain_type MsgReadIndex"
  by (simp_all add: plain_type_def is_vote_type_def)

lemma send_entries_sends:
  assumes "send_entries r to pr tm es = Some r'" "get_progress r to \<noteq> None"
  shows "sends_only r r'"
proof -
  obtain pr' where "raft_send (put_progress r to pr') (new_message\<lparr>m_to := to, m_type := MsgApp,
      m_index := sub64 (pr_next pr) 1, m_log_term := tm, m_entries := es,
      m_commit := l_committed (r_log r)\<rparr>) = Some r'"
    using assms(1) by (auto simp: send_entries_def Let_def split: Option.bind_splits)
  then have "sends_only (put_progress r to pr') r'"
    by (rule sends_only_send) (simp_all add: snap_of_log_def)
  then show ?thesis using sends_only_put [OF assms(2)] sends_only_trans by blast
qed

lemma send_snapshot_sends:
  assumes "send_snapshot r to pr = Some (b, r')" "get_progress r to \<noteq> None"
  shows "sends_only r r'"
proof (cases "pr_recent_active pr")
  case True
  then obtain p where "raft_send (put_progress r to p)
      (new_message\<lparr>m_to := to, m_type := MsgSnap, m_snapshot := log_snapshot (r_log r)\<rparr>) = Some r'"
    using assms(1) by (auto simp: send_snapshot_def Let_def split: Option.bind_splits)
  then have "sends_only (put_progress r to p) r'"
    by (rule sends_only_send) (simp_all add: snap_of_log_def)
  then show ?thesis using sends_only_put [OF assms(2)] sends_only_trans by blast
qed (use assms in \<open>simp add: send_snapshot_def\<close>)

lemma maybe_send_append_sends:
  assumes "maybe_send_append r to b = Some (c, r')"
  shows "sends_only r r'"
proof -
  obtain pr where pr: "get_progress r to = Some pr"
    using assms by (auto simp: maybe_send_append_def split: Option.bind_splits)
  show ?thesis
    using assms pr
    by (auto simp: maybe_send_append_def Let_def split: Option.bind_splits if_splits sum.splits
        dest: send_entries_sends send_snapshot_sends)
qed

lemma send_append_sends: "send_append r to = Some r' \<Longrightarrow> sends_only r r'"
  by (auto simp: send_append_def split: Option.bind_splits dest: maybe_send_append_sends)

lemma send_all_sends:
  assumes "send_all r to = Some r'"
  shows "sends_only r r'"
proof (rule send_all.raw_induct [where P = "\<lambda>r to r'. sends_only r r'", OF _ assms])
  fix loop r to r'
  assume IH: "\<And>r to r'. loop r to = Some r' \<Longrightarrow> sends_only r r'"
    and s: "maybe_send_append r to False \<bind> (\<lambda>(sent, r1). if sent then loop r1 to else Some r1) = Some r'"
  then obtain c r1 where r1: "maybe_send_append r to False = Some (c, r1)"
      and rest: "(if c then loop r1 to else Some r1) = Some r'"
    by (auto split: Option.bind_splits)
  have "sends_only r r1" using r1 by (auto dest: maybe_send_append_sends)
  moreover have "sends_only r1 r'" using rest IH by (cases c) simp_all
  ultimately show "sends_only r r'" by (rule sends_only_trans)
qed

text \<open>Every message that is sent takes a place in the window of its receiver, or pauses it.\<close>

definition window_left :: "progress \<Rightarrow> nat" where
  "window_left pr = (if progress_is_paused pr then 0
     else Suc (if_size (pr_inflights pr) - if_count (pr_inflights pr)))"

lemma get_progress_send: "raft_send r m = Some r' \<Longrightarrow> get_progress r' i = get_progress r i"
  by (auto simp: raft_send_def get_progress_def Let_def cong: option.case_cong split: if_splits Option.bind_splits)

lemma sent_progress:
  assumes pr: "get_progress r to = Some pr" "inflights_ok (pr_inflights pr)"
    and s: "maybe_send_append r to False = Some (True, r')"
  shows "\<exists>pr'. get_progress r' to = Some pr' \<and> inflights_ok (pr_inflights pr') \<and> window_left pr' < window_left pr"
proof -
  have open': "\<not> progress_is_paused pr" using s pr(1) by (auto simp: maybe_send_append_def)
  have reset: "inflights_ok (inflights_reset w)" if "inflights_ok w" for w
    using that by (auto simp: inflights_ok_def inflights_reset_def)
  consider "send_snapshot r to pr = Some (True, r')"
    | t es where "es \<noteq> []" "send_entries r to pr t es = Some r'"
    using s pr(1) open'
    by (auto simp: maybe_send_append_def Let_def split: if_splits Option.bind_splits sum.splits)
  then show ?thesis
  proof cases
    case 1
    let ?pr = "progress_become_snapshot pr (s_index (log_snapshot (r_log r)))"
    have "get_progress r' to = Some ?pr"
      using 1 pr(1) get_progress_send [of "put_progress r to ?pr" _ r' to]
      by (auto simp: send_snapshot_def Let_def get_put_same split: if_splits Option.bind_splits)
    moreover have "inflights_ok (pr_inflights ?pr)" "progress_is_paused ?pr"
      using reset pr(2) by (simp_all add: progress_become_snapshot_def progress_reset_state_def progress_is_paused_def)
    ultimately show ?thesis using open' by (simp add: window_left_def)
  next
    case (2 t es)
    show ?thesis
    proof (cases "pr_state pr")
      case ProgressStateReplicate
      then have nf: "\<not> inflights_is_full (pr_inflights pr)" using open' by (simp add: progress_is_paused_def)
      then obtain w where w: "inflights_add (pr_inflights pr) (e_index (last es)) = Some w" "inflights_ok w"
        "if_size w = if_size (pr_inflights pr)"
        using inflights_add_queue [OF pr(2)] by blast
      have c: "if_count (pr_inflights pr) < if_size (pr_inflights pr)" "if_size (pr_inflights pr) < 2 ^ 31"
        using nf pr(2) by (auto simp: inflights_is_full_def inflights_ok_def)
      then have "if_count w = if_count (pr_inflights pr) + 1"
        using w(1) by (auto simp: inflights_add_def Let_def add32_exact W32_def split: Option.bind_splits)
      moreover have "get_progress r' to =
          Some (progress_optimistic_update pr (e_index (last es))\<lparr>pr_inflights := w\<rparr>)"
        using 2 pr(1) w(1) ProgressStateReplicate
        by (auto simp: send_entries_def Let_def progress_optimistic_update_def get_put_same
            dest!: get_progress_send [of _ _ r' to] split: Option.bind_splits)
      moreover have "a - Suc b < a - b" if "b < a" for a b :: nat using that by simp
      ultimately show ?thesis
        using w(2,3) c(1) open' ProgressStateReplicate
        by (simp add: window_left_def progress_is_paused_def progress_optimistic_update_def)
    next
      case ProgressStateProbe
      then show ?thesis
        using 2 pr open'
        by (auto simp: send_entries_def Let_def get_put_same window_left_def progress_is_paused_def progress_set_pause_def
            dest!: get_progress_send [of _ _ r' to] split: Option.bind_splits)
    qed (use open' in \<open>simp add: progress_is_paused_def\<close>)
  qed
qed

text \<open>
  The loop of \<open>send_all\<close> ends: it takes at most one iteration for every free place in the window and one
  more, and is fatal only where an iteration is.
\<close>

lemma send_all_returns:
  assumes "get_progress r to = Some pr" "inflights_ok (pr_inflights pr)" "send_all r to = None"
  shows "\<exists>r'. (\<lambda>a b. maybe_send_append a to False = Some (True, b))\<^sup>*\<^sup>* r r' \<and> maybe_send_append r' to False = None"
  using assms
proof (induction "window_left pr" arbitrary: r pr rule: less_induct)
  case less
  show ?case
  proof (cases "maybe_send_append r to False")
    case (Some x)
    then obtain r1 where r1: "maybe_send_append r to False = Some (True, r1)" "send_all r1 to = None"
      using less(4) by (cases x) (auto simp: send_all.simps [of r] split: if_splits)
    obtain pr1 where "get_progress r1 to = Some pr1" "inflights_ok (pr_inflights pr1)" "window_left pr1 < window_left pr"
      using sent_progress [OF less(2,3) r1(1)] by blast
    then show ?thesis using less(1) r1 by (meson converse_rtranclp_into_rtranclp)
  qed blast
qed

lemma send_heartbeat_sends: "send_heartbeat to ctx r = Some r' \<Longrightarrow> sends_only r r'"
  by (auto simp: send_heartbeat_def snap_of_log_def split: Option.bind_splits dest!: sends_only_send)

lemma send_timeout_now_sends: "send_timeout_now r to = Some r' \<Longrightarrow> sends_only r r'"
  by (auto simp: send_timeout_now_def snap_of_log_def dest!: sends_only_send)

lemma bcast_append_sends: "bcast_append r = Some r' \<Longrightarrow> sends_only r r'"
  unfolding bcast_append_def
  by (erule each_rel [where R = sends_only])
    (auto split: if_splits intro: sends_only_trans send_append_sends)

lemma bcast_heartbeat_with_ctx_sends: "bcast_heartbeat_with_ctx r ctx = Some r' \<Longrightarrow> sends_only r r'"
  unfolding bcast_heartbeat_with_ctx_def
  by (erule each_rel [where R = sends_only])
    (auto split: if_splits intro: sends_only_trans send_heartbeat_sends)

lemmas sends = send_append_sends send_all_sends send_timeout_now_sends bcast_append_sends
  bcast_heartbeat_with_ctx_sends

end
