(* ===== verification/Raft_Stays.thy ===== *)
theory Raft_Stays
  imports Raft_Frame
begin

text \<open>
  The steps at which a node keeps its term, its vote, its role and its membership: it may change its
  log, its clocks and its queues, and it says nothing about elections.  All of replication,
  proposals, reads and leadership transfer is of this kind.
\<close>

section \<open>The log keeps its snapshots\<close>

definition same_snap :: "raft_log \<Rightarrow> raft_log \<Rightarrow> bool" where
  "same_snap l l' \<longleftrightarrow>
     l_storage l' = l_storage l \<and> u_snapshot (l_unstable l') = u_snapshot (l_unstable l)"

lemma same_snap_refl [simp]: "same_snap l l"
  by (simp add: same_snap_def)

lemma same_snap_trans: "same_snap a b \<Longrightarrow> same_snap b c \<Longrightarrow> same_snap a c"
  by (simp add: same_snap_def)

lemma same_snap_committed [simp]: "same_snap l (l\<lparr>l_committed := c\<rparr>)"
  by (simp add: same_snap_def)

lemma log_snapshot_same: "same_snap l l' \<Longrightarrow> log_snapshot l' = log_snapshot l"
  by (auto simp: same_snap_def log_snapshot_def split: option.split)

lemma log_append_same_snap: "log_append l es = Some (i, l') \<Longrightarrow> same_snap l l'"
  by (auto simp: log_append_def same_snap_def unstable_truncate_and_append_def Let_def
      split: list.splits Option.bind_splits if_splits)

lemma log_commit_to_same_snap: "log_commit_to l i = Some l' \<Longrightarrow> same_snap l l'"
  by (auto simp: log_commit_to_def same_snap_def split: if_splits Option.bind_splits)

lemma log_maybe_commit_same_snap: "log_maybe_commit l i t = Some (b, l') \<Longrightarrow> same_snap l l'"
  by (auto simp: log_maybe_commit_def split: if_splits Option.bind_splits sum.splits
      dest: log_commit_to_same_snap)

lemma log_maybe_append_same_snap:
  "log_maybe_append l i t c es = Some (x, l') \<Longrightarrow> same_snap l l'"
  by (auto simp: log_maybe_append_def Let_def split: if_splits Option.bind_splits
      dest!: log_commit_to_same_snap log_append_same_snap intro: same_snap_trans)

section \<open>The relation\<close>

definition said_ok :: "raft \<Rightarrow> message \<Rightarrow> bool" where
  "said_ok r m \<longleftrightarrow>
     m_from m = r_id r \<and> \<not> is_vote_type (m_type m) \<and> snap_of_log (r_log r) m \<and>
     (m_type m \<noteq> MsgProp \<and> m_type m \<noteq> MsgReadIndex \<longrightarrow> m_term m = r_term r)"

definition stays :: "raft \<Rightarrow> raft \<Rightarrow> bool" where
  "stays r r' \<longleftrightarrow>
     r_id r' = r_id r \<and> r_term r' = r_term r \<and> r_vote r' = r_vote r \<and> r_state r' = r_state r \<and>
     r_votes r' = r_votes r \<and> r_step_fn r' = r_step_fn r \<and> r_pre_vote r' = r_pre_vote r \<and>
     map fst (r_prs r') = map fst (r_prs r) \<and>
     map fst (r_learner_prs r') = map fst (r_learner_prs r) \<and>
     same_snap (r_log r) (r_log r') \<and>
     (\<exists>ms. r_msgs r' = r_msgs r @ ms \<and> (\<forall>m \<in> set ms. said_ok r m))"

lemma stays_refl [simp]: "stays r r"
  by (simp add: stays_def)

lemma stays_trans [trans]:
  assumes "stays a b" "stays b c"
  shows "stays a c"
proof -
  have said: "said_ok b m \<Longrightarrow> said_ok a m" for m
    using assms(1) by (auto simp: stays_def said_ok_def snap_of_log_def log_snapshot_same)
  obtain ms ms' where "r_msgs b = r_msgs a @ ms" "\<forall>m \<in> set ms. said_ok a m"
      "r_msgs c = r_msgs b @ ms'" "\<forall>m \<in> set ms'. said_ok b m"
    using assms by (auto simp: stays_def)
  then have "r_msgs c = r_msgs a @ (ms @ ms') \<and> (\<forall>m \<in> set (ms @ ms'). said_ok a m)"
    using said by auto
  then have "\<exists>ms. r_msgs c = r_msgs a @ ms \<and> (\<forall>m \<in> set ms. said_ok a m)" by blast
  moreover have "same_snap (r_log a) (r_log c)"
    using assms same_snap_trans by (auto simp: stays_def)
  ultimately show ?thesis using assms by (simp add: stays_def)
qed

lemma sends_only_stays:
  assumes "sends_only r r'"
  shows "stays r r'"
proof -
  have "\<exists>ms. r_msgs r' = r_msgs r @ ms \<and> (\<forall>m \<in> set ms. said_ok r m)"
    using assms by (auto simp: sends_only_def sent_ok_def said_ok_def plain_type_def)
  then show ?thesis
    using assms sends_only_sel [OF assms] by (simp add: stays_def)
qed

text \<open>Updates of the fields that \<open>stays\<close> does not mention.\<close>

lemma stays_update [simp]:
  "stays r (r\<lparr>r_read_states := a\<rparr>)" "stays r (r\<lparr>r_lead := b\<rparr>)" "stays r (r\<lparr>r_lead_transferee := c\<rparr>)"
  "stays r (r\<lparr>r_pending_conf_index := d\<rparr>)" "stays r (r\<lparr>r_uncommitted_size := e\<rparr>)"
  "stays r (r\<lparr>r_read_only := f\<rparr>)" "stays r (r\<lparr>r_election_elapsed := g\<rparr>)"
  "stays r (r\<lparr>r_heartbeat_elapsed := h\<rparr>)" "stays r (r\<lparr>r_tick_fn := i\<rparr>)"
  "stays r (r\<lparr>r_is_learner := j\<rparr>)"
  "stays r (r\<lparr>r_election_elapsed := g, r_lead := b\<rparr>)"
  "stays r (r\<lparr>r_election_elapsed := g, r_lead_transferee := c\<rparr>)"
  "stays r (r\<lparr>r_heartbeat_elapsed := h, r_election_elapsed := g\<rparr>)"
  by (simp_all add: stays_def)

lemma stays_log: "same_snap (r_log r) l \<Longrightarrow> stays r (r\<lparr>r_log := l\<rparr>)"
  by (simp add: stays_def)

lemma stays_put: "get_progress r i \<noteq> None \<Longrightarrow> stays r (put_progress r i p)"
  by (rule sends_only_stays [OF sends_only_put])

lemma stays_send:
  assumes "raft_send r m = Some r'" "\<not> is_vote_type (m_type m)" "snap_of_log (r_log r) m"
  shows "stays r r'"
  using assms by (auto simp: raft_send_def stays_def said_ok_def snap_of_log_def Let_def
      split: Option.bind_splits)

lemma is_vote_type_simps [simp]:
  "is_vote_type MsgVote" "is_vote_type MsgVoteResp" "is_vote_type MsgPreVote"
  "is_vote_type MsgPreVoteResp" "\<not> is_vote_type MsgApp" "\<not> is_vote_type MsgAppResp"
  "\<not> is_vote_type MsgSnap" "\<not> is_vote_type MsgHeartbeat" "\<not> is_vote_type MsgHeartbeatResp"
  "\<not> is_vote_type MsgTimeoutNow" "\<not> is_vote_type MsgReadIndexResp" "\<not> is_vote_type MsgProp"
  "\<not> is_vote_type MsgReadIndex" "\<not> is_vote_type MsgTransferLeader"
  by (simp_all add: is_vote_type_def)

section \<open>Replication, proposals and reads\<close>

lemma raft_maybe_commit_stays: "raft_maybe_commit r = Some (b, r') \<Longrightarrow> stays r r'"
  by (auto simp: raft_maybe_commit_def Let_def split: Option.bind_splits
      intro: stays_log log_maybe_commit_same_snap)

lemma increase_stays: "increase_uncommitted_size r es = (b, r') \<Longrightarrow> stays r r'"
  by (auto simp: increase_uncommitted_size_def Let_def split: if_splits)

lemma reduce_stays [simp]: "stays r (reduce_uncommitted_size r es)"
  by (simp add: reduce_uncommitted_size_def Let_def)

lemma append_entry_stays:
  assumes "append_entry r es = Some (b, r')"
  shows "stays r r'"
proof -
  obtain li where li: "log_last_index (r_log r) = Some li"
    using assms by (auto simp: append_entry_def split: Option.bind_splits)
  let ?ents = "number_entries (r_term r) li es"
  obtain fits r1 where inc: "increase_uncommitted_size r ?ents = (fits, r1)" by fastforce
  have s1: "stays r r1" by (rule increase_stays [OF inc])
  show ?thesis
  proof (cases fits)
    case False
    then show ?thesis using assms li inc s1 by (simp add: append_entry_def Let_def)
  next
    case True
    then obtain li' l pr c where l: "log_append (r_log r1) ?ents = Some (li', l)"
        and pr: "get_progress (r1\<lparr>r_log := l\<rparr>) (r_id r1) = Some pr"
        and mc: "raft_maybe_commit (put_progress (r1\<lparr>r_log := l\<rparr>) (r_id r1)
              (snd (progress_maybe_update pr li'))) = Some (c, r')"
      using assms li inc by (auto simp: append_entry_def Let_def split: Option.bind_splits)
    have "stays r1 (r1\<lparr>r_log := l\<rparr>)" by (rule stays_log [OF log_append_same_snap [OF l]])
    also have "stays \<dots> (put_progress (r1\<lparr>r_log := l\<rparr>) (r_id r1) (snd (progress_maybe_update pr li')))"
      by (rule stays_put) (simp add: pr)
    also have "stays \<dots> r'" by (rule raft_maybe_commit_stays [OF mc])
    finally show ?thesis using s1 stays_trans by blast
  qed
qed

lemma handle_append_entries_stays:
  assumes "handle_append_entries r m = Some r'"
  shows "stays r r'"
proof (cases "m_index m < l_committed (r_log r)")
  case True
  then show ?thesis
    using assms by (auto simp: handle_append_entries_def snap_of_log_def intro: stays_send)
next
  case False
  then obtain x l where l: "log_maybe_append (r_log r) (m_index m) (m_log_term m) (m_commit m)
      (m_entries m) = Some (x, l)"
    using assms by (auto simp: handle_append_entries_def split: Option.bind_splits)
  have "stays r (r\<lparr>r_log := l\<rparr>)" by (rule stays_log [OF log_maybe_append_same_snap [OF l]])
  moreover have "stays (r\<lparr>r_log := l\<rparr>) r'"
    using assms False l
    by (auto simp: handle_append_entries_def Let_def snap_of_log_def
        split: Option.bind_splits option.splits intro: stays_send)
  ultimately show ?thesis by (rule stays_trans)
qed

lemma handle_heartbeat_stays: "handle_heartbeat r m = Some r' \<Longrightarrow> stays r r'"
  by (auto simp: handle_heartbeat_def snap_of_log_def split: Option.bind_splits
      intro: stays_trans [OF stays_log [OF log_commit_to_same_snap] stays_send])

lemma prop_one_stays: "prop_one r i e = Some (r', e') \<Longrightarrow> stays r r'"
  by (auto simp: prop_one_def split: if_splits Option.bind_splits)

lemma prop_scan_stays: "prop_scan r i es = Some (r', es') \<Longrightarrow> stays r r'"
proof (induction es arbitrary: r i es')
  case (Cons e es)
  then obtain r1 e1 es1 where "prop_one r i e = Some (r1, e1)" "prop_scan r1 (Suc i) es = Some (r', es1)"
    by (auto split: Option.bind_splits)
  then show ?case using Cons.IH prop_one_stays stays_trans by blast
qed simp

lemma leader_prop_stays:
  assumes "leader_prop r m = Some (st, r')"
  shows "stays r r'"
proof -
  have "r' = r \<or> (\<exists>r1 es ok r2. prop_scan r 0 (m_entries m) = Some (r1, es) \<and>
      append_entry r1 es = Some (ok, r2) \<and> (r' = r2 \<or> bcast_append r2 = Some r'))"
    using assms by (auto simp: leader_prop_def ok_with_def split: Option.bind_splits if_splits)
  then show ?thesis
    by (auto dest!: prop_scan_stays append_entry_stays bcast_append_sends sends_only_stays
        intro: stays_trans)
qed

lemma push_read_state_stays [simp]: "stays r (push_read_state r i ctx)"
  by (simp add: push_read_state_def)

lemma answer_read_stays: "answer_read r req i = Some r' \<Longrightarrow> stays r r'"
  by (auto simp: answer_read_def snap_of_log_def split: Option.bind_splits if_splits
      intro: stays_send)

lemma leader_read_index_stays:
  assumes "leader_read_index r m = Some r'"
  shows "stays r r'"
  using assms
  by (auto simp: leader_read_index_def split: Option.bind_splits if_splits read_only_option.splits
      dest!: bcast_heartbeat_with_ctx_sends sends_only_stays
      intro: stays_trans [OF stays_update(6)] answer_read_stays)

section \<open>The leader and its followers\<close>

lemma stays_put_send:
  assumes "get_progress r i \<noteq> None" "sends_only (put_progress r i p) r'"
  shows "stays r r'"
  using sends_only_stays [OF sends_only_trans [OF sends_only_put [OF assms(1)] assms(2)]] .

lemma leader_app_accepted_stays:
  assumes "leader_app_accepted r m pr = Some r'" "get_progress r (m_from m) \<noteq> None"
  shows "stays r r'"
proof -
  obtain updated pr1 where u: "progress_maybe_update pr (m_index m) = (updated, pr1)" by fastforce
  show ?thesis
  proof (cases updated)
    case False
    then show ?thesis
      using assms u by (auto simp: leader_app_accepted_def Let_def intro: stays_put)
  next
    case True
    then obtain pr2 c r1 r2 r3 where
        mc: "raft_maybe_commit (put_progress r (m_from m) pr2) = Some (c, r1)"
      and r2: "(if c then bcast_append r1
             else if progress_is_paused pr then send_append r1 (m_from m) else Some r1) = Some r2"
      and r3: "send_all r2 (m_from m) = Some r3"
      and rest: "r3 = r' \<or> send_timeout_now r3 (m_from m) = Some r'"
      using assms(1) u
      by (auto simp: leader_app_accepted_def Let_def split: Option.bind_splits if_splits)
    have "stays r (put_progress r (m_from m) pr2)" by (rule stays_put [OF assms(2)])
    also have "stays \<dots> r1" by (rule raft_maybe_commit_stays [OF mc])
    also have "sends_only r1 r2" using r2 by (auto split: if_splits dest: sends)
    then have "stays r1 r2" by (rule sends_only_stays)
    also have "stays r2 r3" by (rule sends_only_stays [OF send_all_sends [OF r3]])
    also have "stays r3 r'" using rest by (auto dest: send_timeout_now_sends sends_only_stays)
    finally show ?thesis .
  qed
qed

lemma leader_app_resp_stays:
  assumes "leader_app_resp r m pr = Some r'" "get_progress r (m_from m) \<noteq> None"
  shows "stays r r'"
proof (cases "m_reject m")
  case True
  then show ?thesis
    using assms
    by (auto simp: leader_app_resp_def Let_def split: prod.splits if_splits
        intro: stays_put stays_put_send send_append_sends)
next
  case False
  let ?pr = "pr\<lparr>pr_recent_active := True\<rparr>"
  have "leader_app_accepted (put_progress r (m_from m) ?pr) m ?pr = Some r'"
    using assms(1) False by (simp add: leader_app_resp_def Let_def)
  then have "stays (put_progress r (m_from m) ?pr) r'"
    by (rule leader_app_accepted_stays) (simp add: get_put_same [OF assms(2)])
  then show ?thesis by (rule stays_trans [OF stays_put [OF assms(2)]])
qed

lemma answer_reads_stay:
  "each (\<lambda>rs r. answer_read r (ri_req rs) (ri_index rs)) rss r = Some r' \<Longrightarrow> stays r r'"
  by (erule each_rel [where R = stays]) (auto intro: stays_trans answer_read_stays)

lemma leader_read_acks_stays: "leader_read_acks r m = Some r' \<Longrightarrow> stays r r'"
  by (auto simp: leader_read_acks_def Let_def split: Option.bind_splits if_splits prod.splits
      dest!: answer_reads_stay intro: stays_trans [OF stays_update(6)])

lemma leader_heartbeat_resp_stays:
  assumes "leader_heartbeat_resp r m pr = Some r'" "get_progress r (m_from m) \<noteq> None"
  shows "stays r r'"
proof -
  obtain pr2 r2 where r2: "r2 = put_progress r (m_from m) pr2 \<or>
        send_append (put_progress r (m_from m) pr2) (m_from m) = Some r2"
      and rest: "leader_read_acks r2 m = Some r'"
    using assms(1) by (auto simp: leader_heartbeat_resp_def Let_def split: Option.bind_splits if_splits)
  have "stays r r2"
    using r2 assms(2) by (auto intro: stays_put stays_put_send dest: send_append_sends)
  then show ?thesis using leader_read_acks_stays [OF rest] by (rule stays_trans)
qed

lemma leader_transfer_stays:
  assumes "leader_transfer r m pr = Some r'"
  shows "stays r r'"
proof -
  let ?a = "if r_lead_transferee r \<noteq> 0 then abort_leader_transfer r else r"
  let ?b = "?a\<lparr>r_election_elapsed := 0, r_lead_transferee := m_from m\<rparr>"
  have a: "stays r ?a" by (simp add: abort_leader_transfer_def)
  have b: "stays r ?b" by (rule stays_trans [OF a]) simp
  have "r' = r \<or> r' = ?a \<or> sends_only ?b r'"
    using assms by (auto simp: leader_transfer_def Let_def split: if_splits Option.bind_splits
        dest: sends)
  then show ?thesis using a b by (auto intro: stays_trans sends_only_stays)
qed

lemma step_leader_progress_stays:
  assumes "step_leader_progress r m pr = Some r'" "get_progress r (m_from m) \<noteq> None"
  shows "stays r r'"
  using assms
  by (auto simp: step_leader_progress_def leader_snap_status_def leader_unreachable_def
      split: msg_type.splits if_splits
      intro: leader_app_resp_stays leader_heartbeat_resp_stays leader_transfer_stays stays_put)

lemma ok_with_eq [simp]: "ok_with x = Some (st, r) \<longleftrightarrow> st = StatusOk \<and> x = Some r"
  by (auto simp: ok_with_def split: Option.bind_splits)

lemma ok_with_None [simp]: "ok_with x = None \<longleftrightarrow> x = None"
  by (auto simp: ok_with_def split: Option.bind_splits)

lemma step_leader_stays:
  assumes "step_leader r m = Some (st, r')"
  shows "stays r r' \<or> m_type m = MsgCheckQuorum \<and> become_follower r (r_term r) 0 = Some r'"
proof (cases "m_type m = MsgCheckQuorum")
  case True
  then show ?thesis using assms by (auto simp: step_leader_def split: if_splits)
next
  case False
  then have "m_type m = MsgBeat \<and> bcast_heartbeat r = Some r' \<or>
      m_type m = MsgProp \<and> leader_prop r m = Some (st, r') \<or>
      m_type m = MsgReadIndex \<and> leader_read_index r m = Some r' \<or>
      (\<exists>pr. get_progress r (m_from m) = Some pr \<and> step_leader_progress r m pr = Some r') \<or> r' = r"
    using assms by (auto simp: step_leader_def split: msg_type.splits option.splits)
  then show ?thesis
    by (auto simp: bcast_heartbeat_def dest: leader_prop_stays leader_read_index_stays
        step_leader_progress_stays bcast_heartbeat_with_ctx_sends sends_only_stays)
qed

lemma forward_stays:
  assumes "forward_to_leader r m = Some (st, r')" "\<not> is_vote_type (m_type m)" "m_type m \<noteq> MsgSnap"
  shows "stays r r'"
  using assms by (auto simp: forward_to_leader_def snap_of_log_def split: Option.bind_splits
      intro: stays_send)

end
