(* ===== verification/Quorum.thy ===== *)
theory Quorum
  imports Prelude
begin

text \<open>
  What an election needs of its quorums, and the majorities of a set of voters as quorums.
\<close>

locale quorum_system =
  fixes is_quorum :: "'p set \<Rightarrow> bool"
  assumes meet: "is_quorum P \<Longrightarrow> is_quorum Q \<Longrightarrow> P \<inter> Q \<noteq> {}"
begin

text \<open>Two candidates that a quorum each has chosen are one, if nobody chooses twice.\<close>

lemma one_winner:
  assumes once: "\<And>p a b. chose p a \<Longrightarrow> chose p b \<Longrightarrow> a = b"
    and P: "is_quorum P" "\<forall>p \<in> P. chose p a" and Q: "is_quorum Q" "\<forall>p \<in> Q. chose p b"
  shows "a = b"
proof -
  obtain p where "p \<in> P" "p \<in> Q" using meet [OF P(1) Q(1)] by blast
  then show ?thesis using P(2) Q(2) once by blast
qed

text \<open>A property of a quorum and a property of another quorum hold together somewhere.\<close>

lemma witness:
  assumes "is_quorum P" "\<forall>p \<in> P. A p" "is_quorum Q" "\<forall>p \<in> Q. B p"
  shows "\<exists>p. A p \<and> B p"
  using meet [OF assms(1,3)] assms(2,4) by blast

end

definition majority :: "nat set \<Rightarrow> nat set \<Rightarrow> bool" where
  "majority M Q \<longleftrightarrow> finite M \<and> Q \<subseteq> M \<and> card M < 2 * card Q"

lemma majority_meet:
  assumes "majority M P" "majority M Q"
  shows "P \<inter> Q \<noteq> {}"
proof
  assume disjoint: "P \<inter> Q = {}"
  have "finite P" "finite Q" using assms by (auto simp: majority_def intro: finite_subset)
  then have "card P + card Q = card (P \<union> Q)" using disjoint by (simp add: card_Un_disjoint)
  also have "\<dots> \<le> card M" using assms by (auto simp: majority_def intro: card_mono)
  finally show False using assms by (simp add: majority_def)
qed

interpretation maj: quorum_system "majority M" for M
  by unfold_locales (rule majority_meet)

end
