(* ===== verification/Raft_Vote.thy ===== *)
theory Raft_Vote
  imports Raft_Stays Quorum
begin

text \<open>
  What one node guarantees about elections, whatever it receives: its term never falls, in one term
  it casts at most one vote, every grant it sends is the vote of its term, and it is a candidate or
  a leader only on votes that were sent to it.  \<open>M\<close> is the set of voters, \<open>G\<close> the set of grants
  \<open>(voter, candidate, term)\<close> that are known to have been sent.
\<close>

section \<open>The guarantee\<close>

definition is_grant :: "message \<Rightarrow> bool" where
  "is_grant m \<longleftrightarrow> m_type m = MsgVoteResp \<and> \<not> m_reject m"

definition snap_conf :: "nat set \<Rightarrow> snapshot \<Rightarrow> bool" where
  "snap_conf M s \<longleftrightarrow> snapshot_is_empty s \<or> set (cs_nodes (s_conf s)) = M"

definition log_snaps :: "nat set \<Rightarrow> raft_log \<Rightarrow> bool" where
  "log_snaps M l \<longleftrightarrow>
     snap_conf M (ms_snapshot (l_storage l)) \<and>
     (\<forall>s. u_snapshot (l_unstable l) = Some s \<longrightarrow> snap_conf M s)"

definition backed :: "(nat \<times> nat \<times> nat) set \<Rightarrow> raft \<Rightarrow> nat \<Rightarrow> bool" where
  "backed G r v \<longleftrightarrow> v = r_id r \<or> (v, r_id r, r_term r) \<in> G"

definition cand_ok :: "nat set \<Rightarrow> (nat \<times> nat \<times> nat) set \<Rightarrow> raft \<Rightarrow> bool" where
  "cand_ok M G r \<longleftrightarrow>
     r_id r \<noteq> 0 \<and> r_id r \<in> M \<and> finite M \<and> card M < W32 \<and>
     distinct (map fst (r_prs r)) \<and> set (map fst (r_prs r)) = M \<and>
     r_pre_vote r = False \<and> r_state r \<noteq> PreCandidate \<and>
     (r_step_fn r = StepCandidate \<longleftrightarrow> r_state r = Candidate) \<and>
     distinct (map fst (r_votes r)) \<and> set (map fst (r_votes r)) \<subseteq> M \<and>
     (r_state r = Candidate \<or> r_state r = Leader \<longrightarrow> r_vote r = r_id r) \<and>
     (r_state r = Candidate \<longrightarrow> (\<forall>v. map_of (r_votes r) v = Some True \<longrightarrow> backed G r v)) \<and>
     (r_state r = Leader \<longrightarrow> (\<exists>Q. majority M Q \<and> (\<forall>v \<in> Q. backed G r v)))"

definition msg_fine :: "raft \<Rightarrow> raft \<Rightarrow> message \<Rightarrow> bool" where
  "msg_fine r r' m \<longleftrightarrow>
     m_from m = r_id r \<and> m_type m \<noteq> MsgPreVote \<and> m_type m \<noteq> MsgPreVoteResp \<and>
     (m_type m \<noteq> MsgProp \<and> m_type m \<noteq> MsgReadIndex \<longrightarrow> r_term r \<le> m_term m) \<and>
     (is_grant m \<longrightarrow> m_to m \<noteq> 0 \<and> r_term r \<le> m_term m \<and> m_term m \<le> r_term r' \<and>
        (m_term m = r_term r' \<longrightarrow> r_vote r' = m_to m) \<and>
        (m_term m = r_term r \<and> r_vote r \<noteq> 0 \<longrightarrow> m_to m = r_vote r))"

text \<open>Two grants of the same term name the same candidate.\<close>

definition one_grant :: "message set \<Rightarrow> bool" where
  "one_grant A \<longleftrightarrow>
     (\<forall>m \<in> A. \<forall>m' \<in> A. is_grant m \<and> is_grant m' \<and> m_term m = m_term m' \<longrightarrow> m_to m = m_to m')"

lemma one_grant_simps [simp]: "one_grant {}" "one_grant {x}"
  by (simp_all add: one_grant_def)

definition safe_step :: "nat set \<Rightarrow> (nat \<times> nat \<times> nat) set \<Rightarrow> raft \<Rightarrow> raft \<Rightarrow> bool" where
  "safe_step M G r r' \<longleftrightarrow>
     r_id r' = r_id r \<and> r_pre_vote r' = r_pre_vote r \<and> r_term r \<le> r_term r' \<and>
     (r_term r' = r_term r \<and> r_vote r \<noteq> 0 \<longrightarrow> r_vote r' = r_vote r) \<and>
     (log_snaps M (r_log r) \<longrightarrow> log_snaps M (r_log r')) \<and>
     (cand_ok M G r \<longrightarrow> cand_ok M G r') \<and>
     (\<exists>ms. r_msgs r' = r_msgs r @ ms \<and> one_grant (set ms) \<and>
        (\<forall>m \<in> set ms. msg_fine r r' m \<and>
           (log_snaps M (r_log r) \<and> m_type m = MsgSnap \<longrightarrow> snap_conf M (m_snapshot m))))"

lemma safe_step_refl [simp]: "safe_step M G r r"
  by (simp add: safe_step_def)

lemma safe_stepD:
  assumes "safe_step M G a b"
  shows "r_id b = r_id a" "r_pre_vote b = r_pre_vote a" "r_term a \<le> r_term b"
    "r_term b = r_term a \<Longrightarrow> r_vote a \<noteq> 0 \<Longrightarrow> r_vote b = r_vote a"
    "log_snaps M (r_log a) \<Longrightarrow> log_snaps M (r_log b)" "cand_ok M G a \<Longrightarrow> cand_ok M G b"
  using assms by (auto simp: safe_step_def)

lemma msg_fine_later:
  assumes m: "msg_fine a b m" and bc: "safe_step M G b c"
  shows "msg_fine a c m"
proof -
  note b = safe_stepD [OF bc]
  have "r_vote c = m_to m \<and> m_term m \<le> r_term c"
    if "is_grant m" "m_term m = r_term c" "m_term m \<le> r_term b"
  proof -
    have t: "r_term c = r_term b" using b(3) that by simp
    then have "r_vote b = m_to m" "m_to m \<noteq> 0" using m that by (auto simp: msg_fine_def)
    then show ?thesis using b(4) t that by simp
  qed
  then show ?thesis using m b(3) by (auto simp: msg_fine_def)
qed

lemma msg_fine_earlier:
  assumes m: "msg_fine b c m" and ab: "safe_step M G a b"
  shows "msg_fine a c m"
proof -
  note a = safe_stepD [OF ab]
  have "m_to m = r_vote a" if "is_grant m" "m_term m = r_term a" "r_vote a \<noteq> 0"
  proof -
    have t: "r_term b = r_term a" using m a(3) that by (auto simp: msg_fine_def)
    then have "r_vote b = r_vote a" using a(4) that by simp
    then show ?thesis using m that t by (auto simp: msg_fine_def)
  qed
  then show ?thesis using m a(1,3) by (auto simp: msg_fine_def)
qed

lemma one_grant_append:
  assumes x: "one_grant X" "\<forall>m \<in> X. msg_fine a b m" and y: "one_grant Y" "\<forall>m \<in> Y. msg_fine b c m"
  shows "one_grant (X \<union> Y)"
proof -
  have xy: "m_to m = m_to m'"
    if "m \<in> X" "m' \<in> Y" "is_grant m" "is_grant m'" "m_term m = m_term m'" for m m'
  proof -
    have "m_term m \<le> r_term b" "r_term b \<le> m_term m'" using x y that by (auto simp: msg_fine_def)
    then have t: "m_term m = r_term b" "m_term m' = r_term b" using that by auto
    then have "r_vote b = m_to m" "m_to m \<noteq> 0" using x(2) that by (auto simp: msg_fine_def)
    then show ?thesis using y(2) that t by (auto simp: msg_fine_def)
  qed
  show ?thesis
    using x(1) y(1) xy unfolding one_grant_def by (metis Un_iff)
qed

lemma safe_step_trans [trans]:
  assumes ab: "safe_step M G a b" and bc: "safe_step M G b c"
  shows "safe_step M G a c"
proof -
  obtain ms where ms: "r_msgs b = r_msgs a @ ms" "one_grant (set ms)" "\<forall>m \<in> set ms. msg_fine a b m \<and>
      (log_snaps M (r_log a) \<and> m_type m = MsgSnap \<longrightarrow> snap_conf M (m_snapshot m))"
    using ab unfolding safe_step_def by blast
  obtain ms' where ms': "r_msgs c = r_msgs b @ ms'" "one_grant (set ms')" "\<forall>m \<in> set ms'. msg_fine b c m \<and>
      (log_snaps M (r_log b) \<and> m_type m = MsgSnap \<longrightarrow> snap_conf M (m_snapshot m))"
    using bc unfolding safe_step_def by blast
  note b = safe_stepD [OF ab] and c = safe_stepD [OF bc]
  have "r_msgs c = r_msgs a @ (ms @ ms')" using ms ms' by simp
  moreover have "one_grant (set (ms @ ms'))"
    using one_grant_append [of "set ms" a b "set ms'" c] ms ms' by simp
  moreover have "\<forall>m \<in> set (ms @ ms'). msg_fine a c m \<and>
      (log_snaps M (r_log a) \<and> m_type m = MsgSnap \<longrightarrow> snap_conf M (m_snapshot m))"
    using ms(3) ms'(3) b(5) msg_fine_later [OF _ bc] msg_fine_earlier [OF _ ab] by auto
  ultimately have msgs: "\<exists>ms. r_msgs c = r_msgs a @ ms \<and> one_grant (set ms) \<and>
      (\<forall>m \<in> set ms. msg_fine a c m \<and>
      (log_snaps M (r_log a) \<and> m_type m = MsgSnap \<longrightarrow> snap_conf M (m_snapshot m)))" by blast
  have vote: "r_vote c = r_vote a" if "r_term c = r_term a" "r_vote a \<noteq> 0"
  proof -
    have "r_term b = r_term a" "r_term c = r_term b" using that b(3) c(3) by auto
    then show ?thesis using that b(4) c(4) by simp
  qed
  show ?thesis using b c msgs vote unfolding safe_step_def by simp
qed

text \<open>A step that keeps the messages and what \<open>cand_ok\<close> reads.\<close>

lemma snap_conf_log_snapshot: "log_snaps M l \<Longrightarrow> snap_conf M (log_snapshot l)"
  by (simp add: log_snaps_def log_snapshot_def storage_snapshot_def split: option.splits)

lemma backed_cong: "r_id r' = r_id r \<Longrightarrow> r_term r' = r_term r \<Longrightarrow> backed G r' v = backed G r v"
  by (simp add: backed_def)

lemma stays_safe:
  assumes "stays r r'"
  shows "safe_step M G r r'"
proof -
  have eqs: "r_id r' = r_id r" "r_term r' = r_term r" "r_vote r' = r_vote r" "r_state r' = r_state r"
      "r_votes r' = r_votes r" "r_step_fn r' = r_step_fn r" "r_pre_vote r' = r_pre_vote r"
      "map fst (r_prs r') = map fst (r_prs r)" "same_snap (r_log r) (r_log r')"
    using assms by (auto simp: stays_def)
  have "log_snaps M (r_log r') = log_snaps M (r_log r)"
    using eqs(9) by (simp add: log_snaps_def same_snap_def)
  moreover have "cand_ok M G r' = cand_ok M G r"
    unfolding cand_ok_def eqs backed_cong [OF eqs(1,2)] by simp
  moreover obtain ms where "r_msgs r' = r_msgs r @ ms" "\<forall>m \<in> set ms. said_ok r m"
    using assms by (auto simp: stays_def)
  moreover have "msg_fine r r' m \<and>
      (log_snaps M (r_log r) \<and> m_type m = MsgSnap \<longrightarrow> snap_conf M (m_snapshot m))"
    if "said_ok r m" for m
    using that snap_conf_log_snapshot
    by (auto simp: said_ok_def msg_fine_def is_vote_type_def is_grant_def snap_of_log_def)
  moreover have "one_grant (set ms)" if "\<forall>m \<in> set ms. said_ok r m" for ms
    using that by (auto simp: one_grant_def said_ok_def is_vote_type_def is_grant_def)
  ultimately show ?thesis using eqs unfolding safe_step_def by auto
qed

section \<open>The reset and the change to follower\<close>

lemma raft_reset_sel:
  assumes "raft_reset r t = Some r'"
  shows "r_id r' = r_id r" "r_term r' = t" "r_vote r' = (if r_term r = t then r_vote r else 0)"
    "r_state r' = r_state r" "r_votes r' = []" "r_step_fn r' = r_step_fn r"
    "r_pre_vote r' = r_pre_vote r" "map fst (r_prs r') = map fst (r_prs r)"
    "map fst (r_learner_prs r') = map fst (r_learner_prs r)" "r_log r' = r_log r"
    "r_msgs r' = r_msgs r" "r_is_learner r' = r_is_learner r" "r_lead r' = 0"
    "r_check_quorum r' = r_check_quorum r" "r_election_timeout r' = r_election_timeout r"
    "r_lead_transferee r' = 0" "r_max_inflight r' = r_max_inflight r"
    "r_max_uncommitted_size r' = r_max_uncommitted_size r" "r_uncommitted_size r' = 0"
    "r_election_elapsed r' = 0" "r_pending_conf_index r' = 0"
    "r_read_only r' = readonly_clear (r_read_only r)"
  using assms
  by (auto simp: raft_reset_def reset_randomized_election_timeout_def rand_gen_def Let_def
      abort_leader_transfer_def reset_progress_def split: Option.bind_splits if_splits)

lemma become_follower_sel:
  assumes "become_follower r t lead = Some r'"
  shows "r_id r' = r_id r" "r_term r' = t" "r_vote r' = (if r_term r = t then r_vote r else 0)"
    "r_state r' = Follower" "r_votes r' = []" "r_step_fn r' = StepFollower"
    "r_pre_vote r' = r_pre_vote r" "map fst (r_prs r') = map fst (r_prs r)"
    "map fst (r_learner_prs r') = map fst (r_learner_prs r)" "r_log r' = r_log r"
    "r_msgs r' = r_msgs r" "r_is_learner r' = r_is_learner r" "r_lead r' = lead"
    "r_check_quorum r' = r_check_quorum r" "r_tick_fn r' = TickElection"
  using assms by (auto simp: become_follower_def raft_reset_sel split: Option.bind_splits)

lemma become_follower_safe:
  assumes "become_follower r t lead = Some r'" "r_term r \<le> t"
  shows "safe_step M G r r'"
  using assms(2) become_follower_sel [OF assms(1)]
  by (auto simp: safe_step_def cand_ok_def)

end
