(* ===== verification/Raft_Elect.thy ===== *)
theory Raft_Elect
  imports Raft_Vote
begin

text \<open>
  Campaigns, votes and snapshots keep the guarantee of \<open>Raft_Vote\<close>, and therefore \<open>step\<close>, the clock
  and every call of the application do.
\<close>

section \<open>Becoming leader\<close>

lemma quorum_majority:
  assumes "cand_ok M G r" "Q \<subseteq> M" "card Q = quorum r"
  shows "majority M Q"
proof -
  have "length (r_prs r) = card M"
    using assms(1) distinct_card [of "map fst (r_prs r)"] by (simp add: cand_ok_def)
  moreover have "card M < W32" using assms(1) by (simp add: cand_ok_def)
  moreover have "card M div 2 + 1 < W32" using \<open>card M < W32\<close> by (simp add: W32_def)
  ultimately have "quorum r = card M div 2 + 1" by (simp add: quorum_def)
  then show ?thesis using assms by (simp add: majority_def cand_ok_def)
qed

lemma filter_grants:
  assumes "distinct (map fst votes)"
  shows "card {v. map_of votes v = Some True} = length (filter snd votes)"
proof -
  have "{v. map_of votes v = Some True} = fst ` set (filter snd votes)"
    using assms by (force simp: map_of_eq_Some_iff image_iff)
  moreover have "distinct (map fst (filter snd votes))"
    using assms by (simp add: distinct_map_filter)
  ultimately show ?thesis by (metis distinct_card length_map list.set_map)
qed

text \<open>The votes of a quorum are a majority.\<close>

lemma elected_majority:
  assumes c: "cand_ok M G r" and st: "r_state r = Candidate" and q: "length (filter snd (r_votes r)) = quorum r"
  shows "\<exists>Q. majority M Q \<and> (\<forall>v \<in> Q. backed G r v)"
proof -
  let ?Q = "{v. map_of (r_votes r) v = Some True}"
  have d: "distinct (map fst (r_votes r))" "set (map fst (r_votes r)) \<subseteq> M"
    using c unfolding cand_ok_def by blast+
  have "?Q \<subseteq> M" using d(2) by (blast dest: map_of_some_in)
  moreover have "card ?Q = quorum r" using filter_grants [OF d(1)] q by simp
  ultimately have "majority M ?Q" by (rule quorum_majority [OF c])
  moreover have "\<forall>v \<in> ?Q. backed G r v" using c st unfolding cand_ok_def by blast
  ultimately show ?thesis by blast
qed

lemma become_leader_split:
  assumes "become_leader r = Some r'"
  shows "\<exists>r1 pr. r_state r \<noteq> Follower \<and> raft_reset (r\<lparr>r_step_fn := StepLeader\<rparr>) (r_term r) = Some r1 \<and>
     map_of (r_prs r1) (r_id r1) = Some pr \<and>
     stays (r1\<lparr>r_tick_fn := TickHeartbeat, r_lead := r_id r1, r_state := Leader\<rparr>) r'"
proof -
  obtain r1 where r1: "r_state r \<noteq> Follower"
      "raft_reset (r\<lparr>r_step_fn := StepLeader\<rparr>) (r_term r) = Some r1"
    using assms by (auto simp: become_leader_def split: Option.bind_splits)
  let ?r2 = "r1\<lparr>r_tick_fn := TickHeartbeat, r_lead := r_id r1, r_state := Leader\<rparr>"
  obtain pr lst r4 where pr: "map_of (r_prs r1) (r_id r1) = Some pr"
      and ap: "append_entry ((put_progress ?r2 (r_id r1) (progress_become_replicate pr))
                 \<lparr>r_pending_conf_index := lst\<rparr>) [new_entry] = Some (True, r4)"
      and r': "r' = reduce_uncommitted_size r4 [new_entry]"
    using assms r1 by (auto simp: become_leader_def Let_def split: Option.bind_splits)
  have "stays ?r2 (put_progress ?r2 (r_id r1) (progress_become_replicate pr))"
    by (rule stays_put) (simp add: get_progress_def pr)
  also have "stays \<dots> ((put_progress ?r2 (r_id r1) (progress_become_replicate pr))
      \<lparr>r_pending_conf_index := lst\<rparr>)" by simp
  also have "stays \<dots> r4" by (rule append_entry_stays [OF ap])
  also have "stays r4 r'" by (simp add: r')
  finally show ?thesis using r1 pr by blast
qed

lemma become_leader_safe:
  assumes "become_leader r = Some r'"
    and votes: "cand_ok M G r \<Longrightarrow> r_state r = Candidate \<and> length (filter snd (r_votes r)) = quorum r"
  shows "safe_step M G r r'"
proof -
  obtain r1 pr where r1: "raft_reset (r\<lparr>r_step_fn := StepLeader\<rparr>) (r_term r) = Some r1"
      and st: "stays (r1\<lparr>r_tick_fn := TickHeartbeat, r_lead := r_id r1, r_state := Leader\<rparr>) r'"
    using become_leader_split [OF assms(1)] by (elim exE conjE) (rule that)
  let ?r2 = "r1\<lparr>r_tick_fn := TickHeartbeat, r_lead := r_id r1, r_state := Leader\<rparr>"
  note sel = raft_reset_sel [OF r1, simplified]
  have "cand_ok M G ?r2" if ok: "cand_ok M G r"
  proof -
    obtain Q where "majority M Q" "\<forall>v \<in> Q. backed G r v"
      using elected_majority [OF ok] votes [OF ok] by blast
    then have "\<exists>Q. majority M Q \<and> (\<forall>v \<in> Q. backed G ?r2 v)" by (auto simp: backed_def sel)
    moreover have "r_vote r = r_id r" using ok votes [OF ok] unfolding cand_ok_def by blast
    moreover have "r_id r \<noteq> 0 \<and> r_id r \<in> M \<and> finite M \<and> card M < W32 \<and>
        distinct (map fst (r_prs r)) \<and> set (map fst (r_prs r)) = M \<and> r_pre_vote r = False"
      using ok unfolding cand_ok_def by blast
    ultimately show ?thesis unfolding cand_ok_def by (simp add: sel del: set_map)
  qed
  then have "safe_step M G r ?r2" by (simp add: safe_step_def sel)
  then show ?thesis by (rule safe_step_trans) (rule stays_safe [OF st])
qed

section \<open>Campaigns\<close>

lemma become_candidate_sel:
  assumes "become_candidate r = Some r'"
  shows "r_id r' = r_id r" "r_term r' = add64 (r_term r) 1" "r_vote r' = r_id r"
    "r_state r' = Candidate" "r_votes r' = []" "r_step_fn r' = StepCandidate"
    "r_pre_vote r' = r_pre_vote r" "map fst (r_prs r') = map fst (r_prs r)"
    "r_log r' = r_log r" "r_msgs r' = r_msgs r" "r_state r \<noteq> Leader"
  using assms by (auto simp: become_candidate_def raft_reset_sel split: Option.bind_splits)

lemma become_candidate_safe:
  assumes "become_candidate r = Some r'" "r_term r + 1 < W64"
  shows "safe_step M G r r'"
  using assms(2) become_candidate_sel [OF assms(1)]
  by (auto simp: safe_step_def cand_ok_def add64_exact)

lemma poll_sel:
  assumes "poll r i ty v = Some (n, r')"
  shows "n = length (filter snd (r_votes r'))"
    "r' = r\<lparr>r_votes := if map_of (r_votes r) i = None then AList.update i v (r_votes r) else r_votes r\<rparr>"
  using assms by (auto simp: poll_def Let_def split: Option.bind_splits)

lemma poll_safe:
  assumes p: "poll r i ty v = Some (n, r')" and i: "i \<in> M"
    and backed: "r_state r = Candidate \<Longrightarrow> v \<Longrightarrow> backed G r i"
  shows "safe_step M G r r'"
proof -
  note r' = poll_sel(2) [OF p]
  have b: "backed G r' w = backed G r w" for w by (simp add: r' backed_def)
  have "cand_ok M G r'" if ok: "cand_ok M G r"
  proof (cases "map_of (r_votes r) i = None")
    case True
    then have "map_of (r_votes r') w = Some True \<Longrightarrow> r_state r = Candidate \<Longrightarrow> backed G r w" for w
      using ok backed by (auto simp: r' cand_ok_def split: if_splits)
    moreover have "distinct (map fst (r_votes r'))" "set (map fst (r_votes r')) \<subseteq> M"
      using ok i True by (auto simp: r' cand_ok_def distinct_update)
    moreover have "quorum r' = quorum r" by (simp add: r' quorum_def)
    ultimately show ?thesis using ok b by (simp add: cand_ok_def r')
  next
    case False
    then have "r' = r\<lparr>r_votes := r_votes r\<rparr>" using r' by (simp only: if_False)
    then show ?thesis using ok by simp
  qed
  then show ?thesis by (simp add: safe_step_def r')
qed

lemma send_vote_request_safe:
  assumes "send_vote_request ct MsgVote t i r = Some r'" "r_term r = t"
  shows "safe_step M G r r' \<and> r_term r' = t"
proof (cases "i = r_id r")
  case False
  then obtain m where m: "r' = r\<lparr>r_msgs := r_msgs r @ [m]\<rparr>" "m_type m = MsgVote" "m_from m = r_id r"
      "m_term m = t"
    using assms(1) by (auto simp: send_vote_request_def raft_send_def Let_def split: Option.bind_splits)
  have "cand_ok M G r' = cand_ok M G r" using m(1) by (simp add: cand_ok_def backed_def)
  then show ?thesis using m assms(2) by (simp add: safe_step_def msg_fine_def is_grant_def)
qed (use assms in \<open>simp add: send_vote_request_def\<close>)

lemma send_vote_requests_safe:
  assumes "send_vote_requests r ct MsgVote (r_term r) = Some r'"
  shows "safe_step M G r r'"
proof -
  have "r_term r = r_term r \<longrightarrow> safe_step M G r r' \<and> r_term r' = r_term r"
    using assms unfolding send_vote_requests_def
    by (rule each_rel [where R = "\<lambda>a b. r_term a = r_term r \<longrightarrow> safe_step M G a b \<and> r_term b = r_term r"])
      (auto intro: safe_step_trans dest: send_vote_request_safe)
  then show ?thesis by simp
qed

text \<open>\<open>campaign\<close> of a real election, as one equation.\<close>

lemma campaign_real:
  "ct \<noteq> CampaignPreElection \<Longrightarrow> campaign r ct = do {
     r1 \<leftarrow> become_candidate r;
     (granted, r2) \<leftarrow> poll r1 (r_id r1) MsgVoteResp True;
     if quorum r2 = granted then become_leader r2
     else send_vote_requests r2 ct MsgVote (r_term r2)
   }"
  by (subst campaign.simps) (simp add: vote_resp_msg_type_def)

lemma campaign_safe:
  assumes c: "campaign r ct = Some r'" and ct: "ct \<noteq> CampaignPreElection"
    and t: "r_term r + 1 < W64" and me: "r_id r \<in> M"
  shows "safe_step M G r r'"
proof -
  obtain r1 granted r2 where r1: "become_candidate r = Some r1"
      and r2: "poll r1 (r_id r1) MsgVoteResp True = Some (granted, r2)"
      and rest: "(if quorum r2 = granted then become_leader r2
                  else send_vote_requests r2 ct MsgVote (r_term r2)) = Some r'"
    using c campaign_real [OF ct] by (auto split: Option.bind_splits)
  have "safe_step M G r r1" by (rule become_candidate_safe [OF r1 t])
  also have "safe_step M G r1 r2"
    by (rule poll_safe [OF r2]) (use me become_candidate_sel(1) [OF r1] in \<open>simp_all add: backed_def\<close>)
  also have "safe_step M G r2 r'"
  proof (cases "quorum r2 = granted")
    case True
    then have "become_leader r2 = Some r'" using rest by simp
    then show ?thesis
      by (rule become_leader_safe)
        (use True poll_sel [OF r2] become_candidate_sel(4) [OF r1] in simp)
  next
    case False
    then show ?thesis using rest send_vote_requests_safe by simp
  qed
  finally show ?thesis .
qed

section \<open>Votes\<close>

lemma step_vote_safe:
  assumes s: "step_vote r m = Some r'" and ty: "m_type m = MsgVote" and src: "m_from m \<noteq> 0"
    and mt: "m_term m = 0 \<or> m_term m = r_term r"
  shows "safe_step M G r r'"
proof -
  have resp: "vote_resp_msg_type MsgVote = Some MsgVoteResp" by (simp add: vote_resp_msg_type_def)
  have cases: "r' = r \<or>
      (\<exists>x. r' = r\<lparr>r_msgs := r_msgs r @ [x]\<rparr> \<and> m_type x = MsgVoteResp \<and> m_reject x \<and> m_from x = r_id r \<and>
         m_term x = r_term r) \<or>
      (\<exists>x. r' = r\<lparr>r_msgs := r_msgs r @ [x], r_election_elapsed := 0, r_vote := m_from m\<rparr> \<and>
         can_vote r m \<and> m_type x = MsgVoteResp \<and> \<not> m_reject x \<and> m_from x = r_id r \<and>
         m_to x = m_from m \<and> m_term x = r_term r)"
    using s ty resp mt
    by (auto simp: step_vote_def raft_send_def Let_def new_message_def
        split: if_splits Option.bind_splits)
  then consider (same) "r' = r"
    | (no) x where "r' = r\<lparr>r_msgs := r_msgs r @ [x]\<rparr>" "m_type x = MsgVoteResp" "m_reject x"
        "m_from x = r_id r" "m_term x = r_term r"
    | (yes) x where "r' = r\<lparr>r_msgs := r_msgs r @ [x], r_election_elapsed := 0, r_vote := m_from m\<rparr>"
        "can_vote r m" "m_type x = MsgVoteResp" "\<not> m_reject x" "m_from x = r_id r"
        "m_to x = m_from m" "m_term x = r_term r"
    by blast
  then show ?thesis
  proof cases
    case no
    then have "cand_ok M G r' = cand_ok M G r" by (simp add: cand_ok_def backed_def)
    then show ?thesis using no by (simp add: safe_step_def msg_fine_def is_grant_def)
  next
    case yes
    have v: "r_vote r = m_from m \<or> r_vote r = 0" using yes(2) ty by (auto simp: can_vote_def)
    have "cand_ok M G r'" if "cand_ok M G r"
    proof -
      have "r_vote r = r_id r \<Longrightarrow> r_vote r' = r_id r" using v that yes(1) by (auto simp: cand_ok_def)
      then show ?thesis using that yes(1) by (auto simp: cand_ok_def backed_def)
    qed
    then show ?thesis using yes v src by (auto simp: safe_step_def msg_fine_def is_grant_def)
  qed simp
qed

section \<open>Snapshots\<close>

text \<open>What \<open>restore_node\<close> may change: the membership, and for voters only by adding the nodes.\<close>

definition restores :: "bool \<Rightarrow> nat set \<Rightarrow> raft \<Rightarrow> raft \<Rightarrow> bool" where
  "restores b N r r' \<longleftrightarrow>
     (\<exists>ps ls il. r' = r\<lparr>r_is_learner := il, r_prs := ps, r_learner_prs := ls\<rparr> \<and>
       (if b then ps = r_prs r
        else (distinct (map fst (r_prs r)) \<longrightarrow> distinct (map fst ps)) \<and>
             set (map fst ps) = N \<union> set (map fst (r_prs r))))"

lemma restoresI:
  assumes "r' = r\<lparr>r_is_learner := il, r_prs := ps, r_learner_prs := ls\<rparr>"
    and "b \<Longrightarrow> ps = r_prs r" and "\<not> b \<Longrightarrow> distinct (map fst (r_prs r)) \<Longrightarrow> distinct (map fst ps)"
    and "\<not> b \<Longrightarrow> set (map fst ps) = N \<union> set (map fst (r_prs r))"
  shows "restores b N r r'"
  unfolding restores_def
  by (rule exI [of _ ps], rule exI [of _ ls], rule exI [of _ il])
    (use assms in \<open>cases b; simp del: set_map\<close>)

lemma set_progress_restores:
  assumes "set_progress r i mt nx b = Some r'"
  shows "restores b {i} r r'"
proof (cases b)
  case True
  then have "r' = r\<lparr>r_is_learner := r_is_learner r, r_prs := r_prs r, r_learner_prs := r_learner_prs r'\<rparr>"
    using assms by (auto simp: set_progress_def split: Option.bind_splits)
  then show ?thesis by (rule restoresI) (use True in simp_all)
next
  case False
  let ?p = "(new_progress (r_max_inflight r))\<lparr>pr_next := nx, pr_match := mt\<rparr>"
  have "r' = r\<lparr>r_is_learner := r_is_learner r, r_prs := AList.update i ?p (r_prs r),
      r_learner_prs := AList.delete i (r_learner_prs r)\<rparr>"
    using assms False by (auto simp: set_progress_def)
  then show ?thesis
    by (rule restoresI) (use False in \<open>simp_all add: distinct_update keys_update del: set_map\<close>)
qed

lemma restores_learner:
  assumes "restores b N (r\<lparr>r_is_learner := x\<rparr>) r'"
  shows "restores b N r r'"
proof -
  obtain ps ls il where "r' = r\<lparr>r_is_learner := x, r_is_learner := il, r_prs := ps, r_learner_prs := ls\<rparr>"
      "if b then ps = r_prs (r\<lparr>r_is_learner := x\<rparr>)
       else (distinct (map fst (r_prs (r\<lparr>r_is_learner := x\<rparr>))) \<longrightarrow> distinct (map fst ps)) \<and>
            set (map fst ps) = N \<union> set (map fst (r_prs (r\<lparr>r_is_learner := x\<rparr>)))"
    using assms unfolding restores_def by (elim exE conjE) (rule that)
  then show ?thesis
    by (intro restoresI [where il = il and ps = ps and ls = ls]) (simp_all split: if_splits)
qed

lemma restores_trans:
  assumes "restores b A r r1" "restores b B r1 r2"
  shows "restores b (A \<union> B) r r2"
proof -
  obtain ps ls il where 1: "r1 = r\<lparr>r_is_learner := il, r_prs := ps, r_learner_prs := ls\<rparr>"
      "if b then ps = r_prs r
       else (distinct (map fst (r_prs r)) \<longrightarrow> distinct (map fst ps)) \<and>
            set (map fst ps) = A \<union> set (map fst (r_prs r))"
    using assms(1) by (auto simp: restores_def)
  obtain ps' ls' il' where 2: "r2 = r1\<lparr>r_is_learner := il', r_prs := ps', r_learner_prs := ls'\<rparr>"
      "if b then ps' = r_prs r1
       else (distinct (map fst (r_prs r1)) \<longrightarrow> distinct (map fst ps')) \<and>
            set (map fst ps') = B \<union> set (map fst (r_prs r1))"
    using assms(2) by (auto simp: restores_def)
  show ?thesis
    by (rule restoresI [where il = il' and ps = ps' and ls = ls'])
      (use 1 2 in \<open>auto split: if_splits\<close>)
qed

lemma restore_one_restores: "restore_one b i r = Some r' \<Longrightarrow> restores b {i} r r'"
  by (auto simp: restore_one_def Let_def split: Option.bind_splits if_splits
      dest!: set_progress_restores intro: restores_learner)

lemma restore_node_restores: "restore_node r ns b = Some r' \<Longrightarrow> restores b (set ns) r r'"
proof (induction ns arbitrary: r)
  case Nil
  then have "r' = r\<lparr>r_is_learner := r_is_learner r, r_prs := r_prs r, r_learner_prs := r_learner_prs r\<rparr>"
    by (simp add: restore_node_def)
  then show ?case by (rule restoresI) simp_all
next
  case (Cons i ns)
  then obtain r1 where "restore_one b i r = Some r1" "restore_node r1 ns b = Some r'"
    by (auto simp: restore_node_def split: Option.bind_splits)
  then have "restores b ({i} \<union> set ns) r r'"
    using Cons.IH restore_one_restores restores_trans by blast
  then show ?case by simp
qed

lemma raft_restore_cases:
  assumes s: "raft_restore r s = Some (b, r')"
  obtains (kept) l where "same_snap (r_log r) l" "r' = r\<lparr>r_log := l\<rparr>" "\<not> b"
  | (restored) r2 where "b" "s_index s > l_committed (r_log r)"
      "restore_node (r\<lparr>r_log := log_restore (r_log r) s, r_prs := [], r_learner_prs := []\<rparr>)
         (cs_nodes (s_conf s)) False = Some r2"
      "restore_node r2 (cs_learners (s_conf s)) True = Some r'"
proof (cases "s_index s \<le> l_committed (r_log r)")
  case True
  then have "r' = r\<lparr>r_log := r_log r\<rparr>" "\<not> b" using s by (simp_all add: raft_restore_def)
  then show ?thesis using kept [of "r_log r"] by simp
next
  case False
  then obtain same where same: "log_match_term (r_log r) (s_index s) (s_term s) = Some same"
    using s by (auto simp: raft_restore_def split: Option.bind_splits)
  show ?thesis
  proof (cases same)
    case True
    then obtain l where "log_commit_to (r_log r) (s_index s) = Some l" "r' = r\<lparr>r_log := l\<rparr>" "\<not> b"
      using s False same by (auto simp: raft_restore_def split: Option.bind_splits)
    then show ?thesis using kept [of l] log_commit_to_same_snap by blast
  next
    case ns: False
    show ?thesis
    proof (cases "\<not> r_is_learner r \<and> r_id r \<in> set (cs_learners (s_conf s))")
      case True
      then have "r' = r\<lparr>r_log := r_log r\<rparr>" "\<not> b"
        using s False same ns by (simp_all add: raft_restore_def)
      then show ?thesis using kept [of "r_log r"] by simp
    next
      case nl: False
      have "b \<and> (\<exists>r2. restore_node (r\<lparr>r_log := log_restore (r_log r) s, r_prs := [], r_learner_prs := []\<rparr>)
         (cs_nodes (s_conf s)) False = Some r2 \<and>
         restore_node r2 (cs_learners (s_conf s)) True = Some r')"
        using s False same ns nl by (auto simp: raft_restore_def Let_def split: Option.bind_splits)
      then show ?thesis using restored False by auto
    qed
  qed
qed

lemma raft_restore_safe:
  assumes s: "raft_restore r s = Some (b, r')" and conf: "snap_conf M s"
  shows "safe_step M G r r'"
  using s
proof (cases rule: raft_restore_cases)
  case (kept l)
  then show ?thesis using stays_log stays_safe by blast
next
  case (restored r2)
  let ?r1 = "r\<lparr>r_log := log_restore (r_log r) s, r_prs := [], r_learner_prs := []\<rparr>"
  have nonempty: "s_index s > 0" using restored(2) by simp
  note r2 = restored(3) and r' = restored(4)
  have M: "set (cs_nodes (s_conf s)) = M"
    using conf nonempty by (simp add: snap_conf_def snapshot_is_empty_def)
  obtain ps2 ls2 il2 where e2: "r2 = ?r1\<lparr>r_is_learner := il2, r_prs := ps2, r_learner_prs := ls2\<rparr>"
      "distinct (map fst ps2)" "set (map fst ps2) = M"
    using restore_node_restores [OF r2] M by (auto simp: restores_def)
  obtain ls il where e: "r' = r2\<lparr>r_is_learner := il, r_prs := ps2, r_learner_prs := ls\<rparr>"
    using restore_node_restores [OF r'] e2(1) by (auto simp: restores_def)
  have eq: "r' = r\<lparr>r_log := log_restore (r_log r) s, r_is_learner := il, r_prs := ps2,
      r_learner_prs := ls\<rparr>"
    using e e2(1) by simp
  have "log_snaps M (r_log r) \<Longrightarrow> log_snaps M (r_log r')"
    using conf by (simp add: eq log_snaps_def log_restore_def unstable_restore_def)
  moreover have "cand_ok M G r \<Longrightarrow> cand_ok M G r'"
    using e2(2,3) by (simp add: eq cand_ok_def backed_def)
  ultimately show ?thesis by (simp add: safe_step_def eq)
qed

lemma handle_snapshot_safe:
  assumes "handle_snapshot r m = Some r'" "snap_conf M (m_snapshot m)"
  shows "safe_step M G r r'"
proof -
  obtain b r1 where r1: "raft_restore r (m_snapshot m) = Some (b, r1)"
      and "raft_send r1 (new_message\<lparr>m_to := m_from m, m_type := MsgAppResp\<rparr>) = Some r'"
    using assms(1) by (auto simp: handle_snapshot_def split: Option.bind_splits)
  then have "stays r1 r'" by (auto intro: stays_send simp: snap_of_log_def)
  then show ?thesis
    using raft_restore_safe [OF r1 assms(2)] stays_safe safe_step_trans by blast
qed

section \<open>The entry points\<close>

text \<open>What is known of a message that reaches a node.\<close>

definition msg_known :: "nat set \<Rightarrow> (nat \<times> nat \<times> nat) set \<Rightarrow> nat \<Rightarrow> message \<Rightarrow> bool" where
  "msg_known M G me m \<longleftrightarrow>
     m_type m \<noteq> MsgPreVote \<and> m_type m \<noteq> MsgPreVoteResp \<and> m_term m + 1 < W64 \<and>
     (is_vote_type (m_type m) \<longrightarrow> m_from m \<in> M) \<and>
     (is_vote_type (m_type m) \<or> m_type m = MsgApp \<or> m_type m = MsgHeartbeat \<or> m_type m = MsgSnap
        \<longrightarrow> m_term m \<noteq> 0) \<and>
     (is_grant m \<longrightarrow> (m_from m, me, m_term m) \<in> G) \<and>
     (m_type m = MsgSnap \<longrightarrow> snap_conf M (m_snapshot m))"

lemma heard_from_stays [simp]: "stays r (heard_from r m)"
  by (simp add: heard_from_def)

lemma step_follower_cases:
  assumes "step_follower r m = Some (st, r')"
  shows "stays r r' \<or> m_type m = MsgSnap \<and> handle_snapshot (heard_from r m) m = Some r' \<or>
      m_type m = MsgTimeoutNow \<and> promotable r \<and> campaign r CampaignTransfer = Some r'"
proof -
  have app: "handle_append_entries (heard_from r m) m = Some r' \<Longrightarrow> stays r r'"
    and hb: "handle_heartbeat (heard_from r m) m = Some r' \<Longrightarrow> stays r r'"
    using stays_trans [OF heard_from_stays] handle_append_entries_stays handle_heartbeat_stays by blast+
  show ?thesis
    using assms app hb forward_stays [of r m st r']
    by (cases "m_type m") (auto simp: step_follower_def split: if_splits list.splits)
qed

lemma step_follower_safe:
  assumes s: "step_follower r m = Some (st, r')" and m: "msg_known M G (r_id r) m"
    and t: "r_term r + 1 < W64" and me: "r_id r \<in> M"
  shows "safe_step M G r r'"
  using step_follower_cases [OF s]
proof (elim disjE conjE)
  assume "handle_snapshot (heard_from r m) m = Some r'" "m_type m = MsgSnap"
  then have "safe_step M G (heard_from r m) r'"
    using m by (auto simp: msg_known_def intro: handle_snapshot_safe)
  then show ?thesis using stays_safe [OF heard_from_stays] safe_step_trans by blast
next
  assume "campaign r CampaignTransfer = Some r'"
  then show ?thesis by (rule campaign_safe) (use t me in simp_all)
qed (rule stays_safe)

lemma candidate_vote_resp_cases:
  assumes s: "candidate_vote_resp r m = Some r'"
    and p: "poll r (m_from m) (m_type m) (\<not> m_reject m) = Some (gr, r1)"
  obtains (next_campaign) "quorum r1 = gr" "r_state r1 = PreCandidate"
      "campaign r1 CampaignElection = Some r'"
  | (won) r2 where "quorum r1 = gr" "r_state r1 = Candidate" "become_leader r1 = Some r2"
      "bcast_append r2 = Some r'"
  | (lost) "quorum r1 = sub64 (length (r_votes r1)) gr" "become_follower r1 (r_term r1) 0 = Some r'"
  | (waiting) "r' = r1"
proof -
  have s': "(if quorum r1 = gr then
        (if r_state r1 = PreCandidate then campaign r1 CampaignElection
         else do { check (r_state r1 = Candidate); r2 \<leftarrow> become_leader r1; bcast_append r2 })
      else if quorum r1 = sub64 (length (r_votes r1)) gr then become_follower r1 (r_term r1) 0
      else Some r1) = Some r'"
    using s p by (simp add: candidate_vote_resp_def)
  show ?thesis
  proof (cases "quorum r1 = gr")
    case q: True
    show ?thesis
    proof (cases "r_state r1 = PreCandidate")
      case True
      then show ?thesis using s' q next_campaign by simp
    next
      case False
      then have "do { check (r_state r1 = Candidate); r2 \<leftarrow> become_leader r1; bcast_append r2 } = Some r'"
        using s' q by simp
      then show ?thesis using won q by (cases "become_leader r1") (auto simp: bind_eq_Some_conv)
    qed
  next
    case False
    then show ?thesis using s' lost waiting
      by (cases "quorum r1 = sub64 (length (r_votes r1)) gr") simp_all
  qed
qed

lemma candidate_vote_resp_safe:
  assumes s: "candidate_vote_resp r m = Some r'" and m: "msg_known M G (r_id r) m"
    and ty: "m_type m = MsgVoteResp"
    and mt: "m_term m = r_term r" and t: "r_term r + 1 < W64" and me: "r_id r \<in> M"
  shows "safe_step M G r r'"
proof -
  obtain gr r1 where p: "poll r (m_from m) (m_type m) (\<not> m_reject m) = Some (gr, r1)"
    using s by (auto simp: candidate_vote_resp_def split: Option.bind_splits)
  note r1 = poll_sel [OF p]
  have same: "r_id r1 = r_id r" "r_term r1 = r_term r" by (simp_all add: r1(2))
  have "safe_step M G r r1"
    by (rule poll_safe [OF p]) (use m ty mt in \<open>auto simp: msg_known_def is_grant_def backed_def\<close>)
  also have "safe_step M G r1 r'"
    using s p
  proof (cases rule: candidate_vote_resp_cases)
    case next_campaign
    show ?thesis
      by (rule campaign_safe [OF next_campaign(3)]) (use t me same in simp_all)
  next
    case (won r2)
    have "safe_step M G r1 r2"
      by (rule become_leader_safe [OF won(3)]) (use won(1,2) r1(1) in \<open>simp (no_asm_simp)\<close>)
    also have "safe_step M G r2 r'"
      by (rule stays_safe [OF sends_only_stays [OF bcast_append_sends [OF won(4)]]])
    finally show ?thesis .
  next
    case lost
    show ?thesis by (rule become_follower_safe [OF lost(2)]) simp
  next
    case waiting
    then show ?thesis by simp
  qed
  finally show ?thesis .
qed

end
