(* ===== verification/Log_View.thy ===== *)
theory Log_View
  imports Raft_Log
begin

text \<open>
  The abstract log.  A reader of a log promises a base (the index and term of the last compacted
  entry) and the list of entries after it; its \<open>first_index\<close>, \<open>last_index\<close> and \<open>term\<close> answer
  from that view.  \<open>MemoryStorage\<close> and \<open>RaftLog\<close> both keep this contract, and so does the
  contract of a writer, whose append replaces the suffix of the view.
\<close>

section \<open>The contract\<close>

definition term_at :: "nat \<Rightarrow> nat \<Rightarrow> entry list \<Rightarrow> nat \<Rightarrow> nat" where
  "term_at b bt es i = (if i = b then bt else e_term (es ! (i - b - 1)))"

text \<open>Replace the entries of a view from index \<open>a\<close> on.\<close>

definition splice :: "nat \<Rightarrow> entry list \<Rightarrow> nat \<Rightarrow> entry list \<Rightarrow> entry list" where
  "splice b es a new = take (a - b - 1) es @ new"

locale log_reader =
  fixes inv :: "'s \<Rightarrow> bool"
    and base :: "'s \<Rightarrow> nat"
    and bterm :: "'s \<Rightarrow> nat"
    and ents :: "'s \<Rightarrow> entry list"
    and first_of :: "'s \<Rightarrow> nat option"
    and last_of :: "'s \<Rightarrow> nat option"
    and term_of :: "'s \<Rightarrow> nat \<Rightarrow> (status + nat) option"
  assumes view_consec: "inv s \<Longrightarrow> consec (base s + 1) (ents s)"
    and view_bound: "inv s \<Longrightarrow> base s + length (ents s) + 1 < W64"
    and view_first: "inv s \<Longrightarrow> first_of s = Some (base s + 1)"
    and view_last: "inv s \<Longrightarrow> last_of s = Some (base s + length (ents s))"
    and view_term: "inv s \<Longrightarrow> base s \<le> i \<Longrightarrow> i \<le> base s + length (ents s) \<Longrightarrow>
                      term_of s i = Some (Inr (term_at (base s) (bterm s) (ents s) i))"
begin

lemma first_le_last: "inv s \<Longrightarrow> first_of s = Some f \<Longrightarrow> last_of s = Some l \<Longrightarrow> f \<le> l + 1"
  by (simp add: view_first view_last)

lemma index_in_range:
  assumes "inv s" "e \<in> set (ents s)"
  shows "base s < e_index e \<and> e_index e \<le> base s + length (ents s)"
proof -
  obtain k where k: "k < length (ents s)" "e = ents s ! k"
    using assms(2) by (auto simp: in_set_conv_nth)
  then have "e_index e = base s + 1 + k"
    using consec_nth [OF view_consec [OF assms(1)]] by simp
  with k show ?thesis by simp
qed

lemma term_of_entry:
  assumes "inv s" "e \<in> set (ents s)"
  shows "term_of s (e_index e) = Some (Inr (e_term e))"
proof -
  obtain k where k: "k < length (ents s)" "e = ents s ! k"
    using assms(2) by (auto simp: in_set_conv_nth)
  then have "e_index e = base s + 1 + k"
    using consec_nth [OF view_consec [OF assms(1)]] by simp
  with k show ?thesis using assms(1) by (simp add: view_term term_at_def)
qed

lemma term_of_base: "inv s \<Longrightarrow> term_of s (base s) = Some (Inr (bterm s))"
  by (simp add: view_term term_at_def)

lemma view_ext:
  assumes "inv s" "inv t" "base s = base t" "bterm s = bterm t" "ents s = ents t"
  shows "first_of s = first_of t" "last_of s = last_of t"
    and "base s \<le> i \<Longrightarrow> i \<le> base s + length (ents s) \<Longrightarrow> term_of s i = term_of t i"
  using assms by (simp_all add: view_first view_last view_term)

end

text \<open>
  A writer: appending entries that start at an index \<open>a\<close> of the log or right behind it keeps the
  entries before \<open>a\<close> and drops what followed.
\<close>

locale log_writer = log_reader inv base bterm ents first_of last_of term_of
  for inv :: "'s \<Rightarrow> bool" and base bterm ents first_of last_of term_of +
  fixes app :: "'s \<Rightarrow> entry list \<Rightarrow> 's option"
    and can_append :: "'s \<Rightarrow> nat \<Rightarrow> bool"
  assumes can_append_range: "inv s \<Longrightarrow> can_append s a \<Longrightarrow> base s < a"
    and append_view: "inv s \<Longrightarrow> can_append s a \<Longrightarrow> a \<le> base s + length (ents s) + 1 \<Longrightarrow>
           es \<noteq> [] \<Longrightarrow> consec a es \<Longrightarrow> a + length es < W64 \<Longrightarrow>
           \<exists>s'. app s es = Some s' \<and> inv s' \<and> base s' = base s \<and> bterm s' = bterm s \<and>
                ents s' = splice (base s) (ents s) a es"
begin

lemma append_last:
  assumes "inv s" "can_append s a" "a \<le> base s + length (ents s) + 1"
    and "es \<noteq> []" "consec a es" "a + length es < W64" "app s es = Some s'"
  shows "last_of s' = Some (a + length es - 1)"
proof -
  have "inv s'" "base s' = base s" "ents s' = splice (base s) (ents s) a es"
    using append_view [OF assms(1-6)] assms(7) by auto
  moreover have "base s < a" using can_append_range assms(1,2) by blast
  ultimately show ?thesis using assms(3) by (simp add: view_last splice_def min_def) arith
qed

text \<open>Read after write: old terms below \<open>a\<close>, the new terms from \<open>a\<close> on.\<close>

lemma append_term_below:
  assumes "inv s" "can_append s a" "a \<le> base s + length (ents s) + 1"
    and "es \<noteq> []" "consec a es" "a + length es < W64" "app s es = Some s'"
    and "base s \<le> i" "i < a"
  shows "term_of s' i = term_of s i"
proof -
  have s': "inv s'" "base s' = base s" "bterm s' = bterm s"
      "ents s' = splice (base s) (ents s) a es"
    using append_view [OF assms(1-6)] assms(7) by auto
  have "term_at (base s) (bterm s) (ents s') i = term_at (base s) (bterm s) (ents s) i"
  proof (cases "i = base s")
    case False
    then have "ents s' ! (i - base s - 1) = ents s ! (i - base s - 1)"
      using s'(4) assms(3,8,9) by (simp add: splice_def nth_append)
    then show ?thesis by (simp add: term_at_def)
  qed (simp add: term_at_def)
  then show ?thesis
    using s' assms by (simp add: view_term splice_def)
qed

lemma append_term_new:
  assumes "inv s" "can_append s a" "a \<le> base s + length (ents s) + 1"
    and "es \<noteq> []" "consec a es" "a + length es < W64" "app s es = Some s'" "e \<in> set es"
  shows "term_of s' (e_index e) = Some (Inr (e_term e))"
proof -
  have "inv s'" "ents s' = splice (base s) (ents s) a es"
    using append_view [OF assms(1-6)] assms(7) by auto
  then show ?thesis using assms(8) by (intro term_of_entry) (auto simp: splice_def)
qed

end

section \<open>MemoryStorage keeps the contract\<close>

definition storage_ok :: "memory_storage \<Rightarrow> bool" where
  "storage_ok s \<longleftrightarrow>
     ms_entries s \<noteq> [] \<and> consec (e_index (hd (ms_entries s))) (ms_entries s) \<and>
     e_index (hd (ms_entries s)) + length (ms_entries s) < W64"

definition storage_base :: "memory_storage \<Rightarrow> nat" where
  "storage_base s = e_index (hd (ms_entries s))"

definition storage_bterm :: "memory_storage \<Rightarrow> nat" where
  "storage_bterm s = e_term (hd (ms_entries s))"

definition storage_ents :: "memory_storage \<Rightarrow> entry list" where
  "storage_ents s = tl (ms_entries s)"

lemma storage_okE:
  assumes "storage_ok s"
  obtains d es where "ms_entries s = d # es" "consec (e_index d + 1) es"
    "e_index d + length es + 1 < W64" "storage_base s = e_index d" "storage_bterm s = e_term d"
    "storage_ents s = es"
  using assms by (cases "ms_entries s")
    (auto simp: storage_ok_def storage_base_def storage_bterm_def storage_ents_def)

lemma storage_ok_new: "storage_ok new_memory_storage"
  by (simp add: storage_ok_def new_memory_storage_def new_entry_def W64_def)

lemma storage_append_view:
  assumes ok: "storage_ok s" and a: "storage_base s < a"
    "a \<le> storage_base s + length (storage_ents s) + 1"
    and es: "es \<noteq> []" "consec a es" "a + length es < W64"
  shows "\<exists>s'. storage_append s es = Some s' \<and> storage_ok s' \<and> storage_base s' = storage_base s \<and>
              storage_bterm s' = storage_bterm s \<and>
              storage_ents s' = splice (storage_base s) (storage_ents s) a es"
proof -
  obtain d ds where s: "ms_entries s = d # ds" "consec (e_index d + 1) ds"
      "e_index d + length ds + 1 < W64" and v: "storage_base s = e_index d"
      "storage_bterm s = e_term d" "storage_ents s = ds"
    using ok by (rule storage_okE)
  obtain e es' where e: "es = e # es'" "e_index e = a" using es by (cases es) auto
  have first: "storage_first_index s = Some (e_index d + 1)"
    using s by (simp add: storage_first_index_def u64)
  have lst: "sub64 (add64 a (length es)) 1 = a + length es - 1"
    using es a by (simp add: u64)
  let ?s' = "s\<lparr>ms_entries := take (a - e_index d) (d # ds) @ es\<rparr>"
  have app: "storage_append s es = Some ?s'"
    using a v s(1) es e first lst
    by (auto simp: storage_append_def Let_def u64)
  obtain k where k: "a = e_index d + Suc k" "k \<le> length ds"
    using a v by (metis add_Suc_right less_iff_Suc_add add_le_cancel_left Suc_eq_plus1
        Suc_le_mono)
  have ents: "ms_entries ?s' = d # take k ds @ es" using k by simp
  have "storage_ok ?s'"
    using s(2,3) es k unfolding storage_ok_def ents
    by (simp add: consec_take)
  then show ?thesis
    using app k v ents by (simp add: storage_base_def storage_bterm_def storage_ents_def splice_def)
qed

interpretation stor: log_writer storage_ok storage_base storage_bterm storage_ents
  storage_first_index storage_last_index storage_term storage_append
  "\<lambda>s a. storage_base s < a"
proof unfold_locales
  fix s assume "storage_ok s"
  then show "consec (storage_base s + 1) (storage_ents s)"
    "storage_base s + length (storage_ents s) + 1 < W64"
    "storage_first_index s = Some (storage_base s + 1)"
    "storage_last_index s = Some (storage_base s + length (storage_ents s))"
    by (auto elim!: storage_okE simp: storage_first_index_def storage_last_index_def u64)
next
  fix s i assume "storage_ok s" "storage_base s \<le> i"
    "i \<le> storage_base s + length (storage_ents s)"
  then show "storage_term s i =
      Some (Inr (term_at (storage_base s) (storage_bterm s) (storage_ents s) i))"
    by (elim storage_okE) (auto simp: storage_term_def Let_def term_at_def nth_Cons')
qed (use storage_append_view in auto)

text \<open>What the storage keeps when it is compacted or replaced by a snapshot.\<close>

lemma storage_compact_view:
  assumes ok: "storage_ok s" and i: "storage_base s < i" "i \<le> storage_base s + length (storage_ents s)"
  shows "\<exists>s'. storage_compact s i = Some (StatusOk, s') \<and> storage_ok s' \<and> storage_base s' = i \<and>
           storage_bterm s' = term_at (storage_base s) (storage_bterm s) (storage_ents s) i \<and>
           storage_ents s' = drop (i - storage_base s) (storage_ents s)"
proof -
  obtain d ds where s: "ms_entries s = d # ds" "consec (e_index d + 1) ds"
      "e_index d + length ds + 1 < W64" and v: "storage_base s = e_index d"
      "storage_bterm s = e_term d" "storage_ents s = ds"
    using ok by (rule storage_okE)
  obtain k where k: "i = e_index d + Suc k" "k < length ds"
    using i v by (metis add_Suc_right less_iff_Suc_add add_le_cancel_left Suc_le_eq)
  have lst: "storage_last_index s = Some (e_index d + length ds)"
    using stor.view_last [OF ok] v by simp
  have idx: "e_index (ds ! k) = i" using consec_nth [OF s(2) k(2)] k(1) by simp
  let ?dum = "d\<lparr>e_index := i, e_term := e_term (ds ! k)\<rparr>"
  let ?s' = "s\<lparr>ms_entries := ?dum # drop (Suc k) ds\<rparr>"
  have c: "storage_compact s i = Some (StatusOk, ?s')"
    using s(1) k lst idx by (simp add: storage_compact_def Let_def)
  have "consec (e_index d + 1 + Suc k) (drop (Suc k) ds)"
    using s(2) by (rule consec_drop)
  then have "storage_ok ?s'"
    using s(3) k by (simp add: storage_ok_def)
  with c k v show ?thesis
    by (simp add: storage_base_def storage_bterm_def storage_ents_def term_at_def)
qed

lemma storage_apply_snapshot_view:
  assumes "s_index (ms_snapshot s) < s_index snap" "s_index snap + 1 < W64"
  shows "\<exists>s'. storage_apply_snapshot s snap = (StatusOk, s') \<and> storage_ok s' \<and>
           storage_base s' = s_index snap \<and> storage_bterm s' = s_term snap \<and> storage_ents s' = [] \<and>
           ms_snapshot s' = snap"
  using assms
  by (simp add: storage_apply_snapshot_def storage_ok_def storage_base_def storage_bterm_def
      storage_ents_def)

text \<open>Reading a range of the storage.\<close>

lemma storage_entries_view:
  assumes ok: "storage_ok s" and r: "storage_base s < low" "low < high"
    "high \<le> storage_base s + length (storage_ents s) + 1"
  shows "storage_entries s low high m =
    Some (Inr (entry_limit_size m
      (take (high - low) (drop (low - storage_base s - 1) (storage_ents s)))))"
proof -
  obtain d ds where s: "ms_entries s = d # ds" "e_index d + length ds + 1 < W64"
      and v: "storage_base s = e_index d" "storage_ents s = ds"
    using ok by (rule storage_okE)
  obtain k where k: "low = e_index d + Suc k"
    using r v by (metis add_Suc_right less_iff_Suc_add)
  have lst: "storage_last_index s = Some (e_index d + length ds)"
    using stor.view_last [OF ok] v by simp
  have ds: "ds \<noteq> []" using r v k by auto
  show ?thesis
    using s v k lst r ds by (simp add: storage_entries_def Let_def u64)
qed

end
