(* ===== verification/Log_Correct.thy ===== *)
theory Log_Correct
  imports Log_View
begin

text \<open>
  \<open>RaftLog\<close> keeps the log contract: its view is the storage up to the unstable offset followed by
  the unstable entries, or, with a snapshot pending, the unstable entries on top of the snapshot.
  From the contract follow the specifications of append, conflict search, commit, slicing and of
  moving entries from the unstable part to storage.
\<close>

section \<open>The view of the two-part log\<close>

definition unstable_ok :: "unstable \<Rightarrow> bool" where
  "unstable_ok u \<longleftrightarrow>
     consec (u_offset u) (u_entries u) \<and> u_offset u + length (u_entries u) < W64"

lemma unstable_ok_snapshot [simp]: "unstable_ok (u\<lparr>u_snapshot := x\<rparr>) = unstable_ok u"
  by (simp add: unstable_ok_def)

definition log_base :: "raft_log \<Rightarrow> nat" where
  "log_base l =
     (case u_snapshot (l_unstable l) of Some s \<Rightarrow> s_index s | None \<Rightarrow> storage_base (l_storage l))"

definition log_bterm :: "raft_log \<Rightarrow> nat" where
  "log_bterm l =
     (case u_snapshot (l_unstable l) of Some s \<Rightarrow> s_term s | None \<Rightarrow> storage_bterm (l_storage l))"

definition log_ents :: "raft_log \<Rightarrow> entry list" where
  "log_ents l =
     (case u_snapshot (l_unstable l) of
        Some s \<Rightarrow> u_entries (l_unstable l)
      | None \<Rightarrow>
          take (u_offset (l_unstable l) - storage_base (l_storage l) - 1) (storage_ents (l_storage l))
          @ u_entries (l_unstable l))"

abbreviation log_end :: "raft_log \<Rightarrow> nat" where
  "log_end l \<equiv> log_base l + length (log_ents l)"

definition storage_end :: "memory_storage \<Rightarrow> nat" where
  "storage_end s = storage_base s + length (storage_ents s)"

definition log_shape :: "raft_log \<Rightarrow> bool" where
  "log_shape l \<longleftrightarrow>
     storage_ok (l_storage l) \<and> unstable_ok (l_unstable l) \<and>
     (case u_snapshot (l_unstable l) of
        Some s \<Rightarrow> u_offset (l_unstable l) = s_index s + 1
      | None \<Rightarrow>
          storage_base (l_storage l) < u_offset (l_unstable l) \<and>
          u_offset (l_unstable l) \<le> storage_end (l_storage l) + 1 \<and>
          (u_entries (l_unstable l) = [] \<longrightarrow>
             u_offset (l_unstable l) = storage_end (l_storage l) + 1))"

definition log_ok :: "raft_log \<Rightarrow> bool" where
  "log_ok l \<longleftrightarrow> log_shape l \<and> log_base l \<le> l_committed l \<and> l_committed l \<le> log_end l"

lemmas log_view_defs = log_base_def log_bterm_def log_ents_def

text \<open>The two shapes of a well-formed log.\<close>

lemma log_shape_cases:
  assumes "log_shape l"
  obtains
    (snap) s where "u_snapshot (l_unstable l) = Some s" "u_offset (l_unstable l) = s_index s + 1"
      "log_base l = s_index s" "log_bterm l = s_term s" "log_ents l = u_entries (l_unstable l)"
      "unstable_ok (l_unstable l)" "storage_ok (l_storage l)"
  | (plain) k where "u_snapshot (l_unstable l) = None" "unstable_ok (l_unstable l)"
      "storage_ok (l_storage l)" "log_base l = storage_base (l_storage l)"
      "log_bterm l = storage_bterm (l_storage l)"
      "u_offset (l_unstable l) = storage_base (l_storage l) + 1 + k"
      "k \<le> length (storage_ents (l_storage l))"
      "u_entries (l_unstable l) = [] \<Longrightarrow> k = length (storage_ents (l_storage l))"
      "log_ents l = take k (storage_ents (l_storage l)) @ u_entries (l_unstable l)"
proof (cases "u_snapshot (l_unstable l)")
  case None
  then obtain k where "u_offset (l_unstable l) = storage_base (l_storage l) + 1 + k"
    using assms by (auto simp: log_shape_def dest: less_imp_Suc_add)
  with None assms show ?thesis
    by (intro plain [of k]) (auto simp: log_shape_def log_view_defs storage_end_def)
next
  case (Some s)
  with assms show ?thesis by (intro snap [of s]) (auto simp: log_shape_def log_view_defs)
qed

lemma log_shape_first: "log_shape l \<Longrightarrow> log_first_index l = Some (log_base l + 1)"
proof (erule log_shape_cases, goal_cases)
  case (1 s)
  then show ?case
    by (simp add: log_first_index_def unstable_maybe_first_index_def unstable_ok_def u64)
next
  case (2 k)
  then show ?case
    by (simp add: log_first_index_def unstable_maybe_first_index_def stor.view_first)
qed

lemma log_shape_last: "log_shape l \<Longrightarrow> log_last_index l = Some (log_end l)"
proof (erule log_shape_cases, goal_cases)
  case (1 s)
  then show ?case
    by (simp add: log_last_index_def unstable_maybe_last_index_def unstable_ok_def u64)
next
  case (2 k)
  then show ?case
    by (cases "u_entries (l_unstable l) = []")
      (simp_all add: log_last_index_def unstable_maybe_last_index_def stor.view_last
        unstable_ok_def u64)
qed

lemma log_shape_consec: "log_shape l \<Longrightarrow> consec (log_base l + 1) (log_ents l)"
proof (erule log_shape_cases, goal_cases)
  case (2 k)
  then have "consec (log_base l + 1) (take k (storage_ents (l_storage l)))"
    using stor.view_consec by (auto intro: consec_take)
  with 2 show ?case by (simp add: unstable_ok_def)
qed (simp add: unstable_ok_def)

lemma log_shape_bound: "log_shape l \<Longrightarrow> log_end l + 1 < W64"
  by (erule log_shape_cases) (auto simp: unstable_ok_def)

lemma log_shape_term:
  assumes "log_shape l" "log_base l \<le> i" "i \<le> log_end l"
  shows "log_term l i = Some (Inr (term_at (log_base l) (log_bterm l) (log_ents l) i))"
proof -
  let ?u = "l_unstable l"
  have f: "log_first_index l = Some (log_base l + 1)" "log_last_index l = Some (log_end l)"
    using assms(1) by (simp_all add: log_shape_first log_shape_last)
  have off: "log_base l < u_offset ?u" "u_offset ?u + length (u_entries ?u) = log_end l + 1"
    using assms(1) by (auto elim!: log_shape_cases)
  have ents: "log_ents l ! (i - log_base l - 1) = u_entries ?u ! (i - u_offset ?u)"
    if "u_offset ?u \<le> i"
    by (rule log_shape_cases [OF assms(1)]) (use that in \<open>auto simp: nth_append\<close>)
  show ?thesis
  proof (cases "u_offset ?u \<le> i")
    case True
    then have "u_entries ?u \<noteq> []" using assms(3) off by auto
    then have lst: "unstable_maybe_last_index ?u = Some (log_end l)"
      using off log_shape_bound [OF assms(1)]
      by (simp add: unstable_maybe_last_index_def u64)
    have "i - u_offset ?u < length (u_entries ?u)" using True assms(3) off by linarith
    then have "unstable_maybe_term ?u i = Some (Some (e_term (u_entries ?u ! (i - u_offset ?u))))"
      using True assms(3) lst by (simp add: unstable_maybe_term_def u64)
    then show ?thesis
      using f assms True off ents by (simp add: log_term_def u64 term_at_def)
  next
    case False
    from assms(1) show ?thesis
    proof (cases rule: log_shape_cases)
      case (snap s)
      then show ?thesis
        using f assms False by (auto simp: log_term_def u64 unstable_maybe_term_def term_at_def)
    next
      case (plain k)
      have ut: "unstable_maybe_term ?u i = Some None"
        using False plain(1) by (simp add: unstable_maybe_term_def)
      have "storage_term (l_storage l) i = Some (Inr (term_at (storage_base (l_storage l))
          (storage_bterm (l_storage l)) (storage_ents (l_storage l)) i))"
        using plain False assms by (intro stor.view_term) auto
      moreover have "i = log_base l \<or> i - log_base l - 1 < k"
        using plain False assms(2) by auto
      then have "i = log_base l \<or> log_ents l ! (i - log_base l - 1)
          = storage_ents (l_storage l) ! (i - log_base l - 1)"
        using plain(7,9) by (auto simp: nth_append)
      ultimately show ?thesis
        using f assms ut plain(4,5) by (auto simp: log_term_def u64 term_at_def)
    qed
  qed
qed

text \<open>Outside the view the term reads as 0.\<close>

lemma log_shape_term_outside:
  assumes "log_shape l" "i < log_base l \<or> log_end l < i"
  shows "log_term l i = Some (Inr 0)"
  using assms log_shape_first [OF assms(1)] log_shape_last [OF assms(1)]
  by (auto simp: log_term_def u64)

section \<open>Append\<close>

lemma unstable_slice_in:
  assumes "unstable_ok u" "u_offset u \<le> low" "low < high"
    "high \<le> u_offset u + length (u_entries u)"
  shows "unstable_slice u low high
    = Some (take (high - low) (drop (low - u_offset u) (u_entries u)))"
  using assms by (simp add: unstable_slice_def unstable_ok_def Let_def u64)

text \<open>
  \<open>truncate_and_append\<close>: the three cases of the code are the same splice, seen from the offset.
\<close>

lemma truncate_and_append_eq:
  assumes u: "unstable_ok u" and es: "es \<noteq> []" "consec a es"
    and a: "a \<le> u_offset u + length (u_entries u)"
  shows "unstable_truncate_and_append u es =
    Some (u\<lparr>u_offset := min a (u_offset u),
            u_entries := take (a - u_offset u) (u_entries u) @ es\<rparr>)"
proof -
  obtain e es' where e: "es = e # es'" "e_index e = a" using es by (cases es) auto
  have fin: "add64 (u_offset u) (length (u_entries u)) = u_offset u + length (u_entries u)"
    using u by (simp add: unstable_ok_def u64)
  consider "a = u_offset u + length (u_entries u)"
    | "a \<noteq> u_offset u + length (u_entries u)" "a \<le> u_offset u"
    | "u_offset u < a" "a < u_offset u + length (u_entries u)"
    using a by linarith
  then show ?thesis
  proof cases
    case 1
    then show ?thesis using e fin by (simp add: unstable_truncate_and_append_def)
  next
    case 2
    then show ?thesis using e fin by (simp add: unstable_truncate_and_append_def)
  next
    case 3
    then show ?thesis
      using e fin unstable_slice_in [OF u, of "u_offset u" a]
      by (simp add: unstable_truncate_and_append_def)
  qed
qed

lemma log_append_eq:
  assumes ok: "log_shape l" and a: "l_committed l < a" "log_base l < a" "a \<le> log_end l + 1"
    and es: "es \<noteq> []" "consec a es" "a + length es < W64"
  shows "\<exists>l'. log_append l es = Some (a + length es - 1, l') \<and> log_shape l' \<and>
    log_base l' = log_base l \<and> log_bterm l' = log_bterm l \<and>
    log_ents l' = splice (log_base l) (log_ents l) a es \<and>
    l_committed l' = l_committed l \<and> l_applied l' = l_applied l \<and> l_storage l' = l_storage l"
proof -
  let ?u = "l_unstable l"
  have uok: "unstable_ok ?u" using ok by (simp add: log_shape_def)
  have fin: "u_offset ?u + length (u_entries ?u) = log_end l + 1"
    using ok by (auto elim!: log_shape_cases)
  let ?u' = "?u\<lparr>u_offset := min a (u_offset ?u), u_entries := take (a - u_offset ?u) (u_entries ?u) @ es\<rparr>"
  let ?l' = "l\<lparr>l_unstable := ?u'\<rparr>"
  have t: "unstable_truncate_and_append ?u es = Some ?u'"
    using truncate_and_append_eq [OF uok es(1,2)] a(3) fin by simp
  have uok': "unstable_ok ?u'"
  proof (cases "a \<le> u_offset ?u")
    case True
    then show ?thesis using es by (simp add: unstable_ok_def)
  next
    case False
    then obtain j where "a = u_offset ?u + j" "j \<le> length (u_entries ?u)"
      using a(3) fin by (metis add_le_cancel_left le_Suc_ex linear)
    then show ?thesis
      using uok es consec_take [of "u_offset ?u" "u_entries ?u" j] by (simp add: unstable_ok_def)
  qed
  have shape: "log_shape ?l' \<and> log_base ?l' = log_base l \<and> log_bterm ?l' = log_bterm l \<and>
      log_ents ?l' = splice (log_base l) (log_ents l) a es"
    using ok
  proof (cases rule: log_shape_cases)
    case (snap s)
    then show ?thesis
      using uok' a es by (auto simp: log_shape_def log_view_defs splice_def min_def)
  next
    case (plain k)
    obtain j where j: "a = storage_base (l_storage l) + Suc j"
      using a(2) plain(4) by (auto dest: less_imp_Suc_add)
    have "take (min a (u_offset ?u) - storage_base (l_storage l) - 1) (storage_ents (l_storage l))
        @ take (a - u_offset ?u) (u_entries ?u) = take j (log_ents l)"
      using plain j by (auto simp: min_def)
    then show ?thesis
      using uok' plain es j
      by (auto simp: log_shape_def log_view_defs splice_def storage_end_def)
  qed
  then have "log_last_index ?l' = Some (a + length es - 1)"
    using log_shape_last [of ?l'] a es by (auto simp: splice_def)
  moreover have "\<not> sub64 a 1 < l_committed l" using a by (simp add: u64)
  moreover have "\<exists>e es'. es = e # es' \<and> e_index e = a" using es by (cases es) auto
  ultimately show ?thesis
    using t shape by (auto simp: log_append_def Let_def)
qed

interpretation rlog: log_writer log_ok log_base log_bterm log_ents
  log_first_index log_last_index log_term
  "\<lambda>l es. map_option snd (log_append l es)" "\<lambda>l a. l_committed l < a"
proof unfold_locales
  fix l a es
  assume l: "log_ok l" "l_committed l < a" "a \<le> log_base l + length (log_ents l) + 1"
    and es: "es \<noteq> []" "consec a es" "a + length es < W64"
  have "log_shape l" "log_base l < a" "l_committed l \<le> log_end l" using l by (auto simp: log_ok_def)
  from log_append_eq [OF this(1) l(2) this(2) l(3) es] this(2,3) l
  show "\<exists>s'. map_option snd (log_append l es) = Some s' \<and> log_ok s' \<and> log_base s' = log_base l \<and>
      log_bterm s' = log_bterm l \<and> log_ents s' = splice (log_base l) (log_ents l) a es"
    by (force simp: log_ok_def splice_def)
qed (auto simp: log_ok_def log_shape_consec [simplified] log_shape_bound [simplified]
      log_shape_first log_shape_last log_shape_term)

end
