(* ===== verification/Log_Spec.thy ===== *)
theory Log_Spec
  imports Log_Correct
begin

text \<open>
  Specifications of the operations of \<open>RaftLog\<close> over its view: conflict search and
  \<open>maybe_append\<close>, the commit index, ranges of entries, and moving entries to storage.
\<close>

section \<open>Matching terms and conflicts\<close>

lemma log_match_term_view:
  assumes "log_ok l" "log_base l \<le> i" "i \<le> log_end l"
  shows "log_match_term l i t = Some (t = term_at (log_base l) (log_bterm l) (log_ents l) i)"
  using rlog.view_term [OF assms] by (simp add: log_match_term_def)

lemma log_match_term_outside:
  assumes "log_ok l" "i < log_base l \<or> log_end l < i"
  shows "log_match_term l i t = Some (t = 0)"
  using assms log_shape_term_outside [of l i] by (simp add: log_match_term_def log_ok_def)

lemma log_match_term_total: "log_ok l \<Longrightarrow> \<exists>b. log_match_term l i t = Some b"
  by (cases "log_base l \<le> i \<and> i \<le> log_end l")
    (auto simp: log_match_term_view log_match_term_outside not_le)

text \<open>An entry is in the log when the log has its term at its index.\<close>

definition log_has :: "raft_log \<Rightarrow> entry \<Rightarrow> bool" where
  "log_has l e \<longleftrightarrow> log_match_term l (e_index e) (e_term e) = Some True"

lemma log_has_range:
  assumes "log_ok l" "log_has l e" "e_term e \<noteq> 0"
  shows "log_base l \<le> e_index e \<and> e_index e \<le> log_end l"
proof (rule ccontr)
  assume "\<not> ?thesis"
  then have "log_match_term l (e_index e) (e_term e) = Some (e_term e = 0)"
    using assms(1) by (intro log_match_term_outside) auto
  with assms(2,3) show False by (simp add: log_has_def)
qed

lemma log_has_iff:
  assumes "log_ok l" "log_base l < e_index e" "e_index e \<le> log_end l"
  shows "log_has l e \<longleftrightarrow> e_term e = e_term (log_ents l ! (e_index e - log_base l - 1))"
  using assms by (auto simp: log_has_def log_match_term_view term_at_def)

text \<open>The number of leading entries the log already has.\<close>

definition known :: "raft_log \<Rightarrow> entry list \<Rightarrow> nat" where
  "known l es = length (takeWhile (log_has l) es)"

lemma known_le: "known l es \<le> length es"
  by (simp add: known_def length_takeWhile_le)

lemma known_has: "e \<in> set (take (known l es) es) \<Longrightarrow> log_has l e"
  by (metis known_def set_takeWhileD takeWhile_eq_take)

lemma known_not: "known l es < length es \<Longrightarrow> \<not> log_has l (es ! known l es)"
  by (simp add: known_def nth_length_takeWhile)

lemma log_find_conflict_eq:
  assumes "log_ok l" "consec a es" "0 < a"
  shows "log_find_conflict l es = Some (if known l es = length es then 0 else a + known l es)"
  using assms(2,3)
proof (induction es arbitrary: a)
  case (Cons e es)
  obtain b where b: "log_match_term l (e_index e) (e_term e) = Some b"
    using log_match_term_total [OF assms(1)] by blast
  then show ?case
    using Cons.IH [of "Suc a"] Cons.prems by (simp add: known_def log_has_def)
qed (simp add: known_def)

section \<open>The commit index\<close>

lemma log_commit_to_eq:
  assumes "log_ok l"
  shows "log_commit_to l c =
    (if log_end l < c then None else Some (l\<lparr>l_committed := max (l_committed l) c\<rparr>))"
  using assms rlog.view_last [OF assms]
  by (auto simp: log_commit_to_def log_ok_def max_def)

lemma log_view_committed [simp]:
  "log_base (l\<lparr>l_committed := c\<rparr>) = log_base l" "log_bterm (l\<lparr>l_committed := c\<rparr>) = log_bterm l"
  "log_ents (l\<lparr>l_committed := c\<rparr>) = log_ents l" "log_shape (l\<lparr>l_committed := c\<rparr>) = log_shape l"
  by (simp_all add: log_view_defs log_shape_def cong: option.case_cong)

lemma log_view_applied [simp]:
  "log_base (l\<lparr>l_applied := c\<rparr>) = log_base l" "log_bterm (l\<lparr>l_applied := c\<rparr>) = log_bterm l"
  "log_ents (l\<lparr>l_applied := c\<rparr>) = log_ents l" "log_shape (l\<lparr>l_applied := c\<rparr>) = log_shape l"
  "log_ok (l\<lparr>l_applied := c\<rparr>) = log_ok l"
  by (simp_all add: log_view_defs log_shape_def log_ok_def cong: option.case_cong)

lemma log_commit_to_ok:
  assumes "log_ok l" "log_commit_to l c = Some l'"
  shows "log_ok l' \<and> log_base l' = log_base l \<and> log_bterm l' = log_bterm l \<and>
    log_ents l' = log_ents l \<and> l_committed l' = max (l_committed l) c \<and>
    l_applied l' = l_applied l \<and> l_storage l' = l_storage l \<and> l_unstable l' = l_unstable l"
  using assms by (auto simp: log_commit_to_eq log_ok_def split: if_splits)

text \<open>
  \<open>maybe_commit\<close> advances to \<open>i\<close> exactly when \<open>i\<close> is beyond the commit index and the log holds the
  given term there; a term other than 0 is never found beyond the end of the log.
\<close>

lemma log_maybe_commit_eq:
  assumes "log_ok l" "tm \<noteq> 0"
  shows "log_maybe_commit l i tm =
    (if l_committed l < i \<and> i \<le> log_end l \<and> log_term l i = Some (Inr tm)
     then Some (True, l\<lparr>l_committed := i\<rparr>) else Some (False, l))"
proof (cases "l_committed l < i")
  case True
  then have b: "log_base l \<le> i" using assms(1) by (simp add: log_ok_def)
  show ?thesis
  proof (cases "i \<le> log_end l")
    case True
    then show ?thesis
      using \<open>l_committed l < i\<close> b assms(1) rlog.view_term [OF assms(1) b True]
      by (simp add: log_maybe_commit_def log_commit_to_eq max_def)
  next
    case False
    then show ?thesis
      using \<open>l_committed l < i\<close> log_shape_term_outside [of l i] assms
      by (simp add: log_maybe_commit_def log_ok_def)
  qed
qed (simp add: log_maybe_commit_def)

section \<open>maybe_append\<close>

text \<open>
  What the follower's log is after the leader's entries \<open>es\<close>, which start at \<open>index + 1\<close>, were
  offered: unchanged if all are present, else spliced at the first that is not.
\<close>

definition merged :: "raft_log \<Rightarrow> nat \<Rightarrow> entry list \<Rightarrow> entry list" where
  "merged l index es =
     (if known l es = length es then log_ents l
      else splice (log_base l) (log_ents l) (index + 1 + known l es) (drop (known l es) es))"

text \<open>The hypotheses on an offer: consecutive entries of proper terms, no wrap-around.\<close>

definition offer_ok :: "nat \<Rightarrow> entry list \<Rightarrow> bool" where
  "offer_ok index es \<longleftrightarrow>
     consec (index + 1) es \<and> index + length es + 1 < W64 \<and> (\<forall>e \<in> set es. e_term e \<noteq> 0)"

lemma offer_index:
  "offer_ok index es \<Longrightarrow> k < length es \<Longrightarrow> e_index (es ! k) = index + 1 + k"
  using consec_nth [of "index + 1" es k] by (simp add: offer_ok_def)

lemma known_in_range:
  assumes "log_ok l" "offer_ok index es" "log_base l \<le> index"
  shows "known l es = 0 \<or> index + known l es \<le> log_end l"
proof (cases "known l es")
  case (Suc k)
  then have k: "k < length es" "es ! k \<in> set (take (known l es) es)"
    using known_le [of l es] by (auto simp: in_set_conv_nth intro: exI [of _ k])
  then have "log_has l (es ! k)" "e_term (es ! k) \<noteq> 0"
    using known_has assms(2) by (auto simp: offer_ok_def)
  from log_has_range [OF assms(1) this] show ?thesis
    using offer_index [OF assms(2) k(1)] Suc by simp
qed simp

text \<open>
  The accepting case of \<open>maybe_append\<close>, in full: it faults exactly when an entry that differs is
  already committed; otherwise the log becomes \<open>merged\<close> and the commit index advances to the
  leader's, capped by the last new index, without ever moving back.
\<close>

lemma log_maybe_append_accept:
  assumes ok: "log_ok l" and off: "offer_ok index es"
    and i: "log_base l \<le> index" "index \<le> log_end l" and m: "log_match_term l index lt = Some True"
    and c: "known l es = length es \<or> l_committed l < index + 1 + known l es"
  shows "\<exists>l'. log_maybe_append l index lt committed es = Some (Some (index + length es), l') \<and>
    log_ok l' \<and> log_base l' = log_base l \<and> log_bterm l' = log_bterm l \<and>
    log_ents l' = merged l index es \<and> l_storage l' = l_storage l \<and> l_applied l' = l_applied l \<and>
    l_committed l' = max (l_committed l) (min committed (index + length es))"
proof -
  let ?k = "known l es"
  have fc: "log_find_conflict l es = Some (if ?k = length es then 0 else index + 1 + ?k)"
    using log_find_conflict_eq [OF ok, of "index + 1" es] off by (simp add: offer_ok_def)
  have w: "add64 index (length es) = index + length es" "add64 index 1 = index + 1"
    using off by (simp_all add: offer_ok_def u64)
  show ?thesis
  proof (cases "?k = length es")
    case True
    have "index + length es \<le> log_end l"
      using known_in_range [OF ok off i(1)] True i(2) by auto
    then have "log_commit_to l (min committed (index + length es))
        = Some (l\<lparr>l_committed := max (l_committed l) (min committed (index + length es))\<rparr>)"
      using ok by (simp add: log_commit_to_eq)
    then show ?thesis
      using True fc w m ok i \<open>index + length es \<le> log_end l\<close>
      by (simp add: log_maybe_append_def Let_def merged_def log_ok_def le_max_iff_disj
          min_le_iff_disj)
  next
    case False
    let ?a = "index + 1 + ?k" and ?new = "drop ?k es"
    have k: "?k < length es" using known_le [of l es] False by simp
    have new: "?new \<noteq> []" "consec ?a ?new" "?a + length ?new < W64"
      using off k consec_drop [of "index + 1" es ?k] by (auto simp: offer_ok_def)
    have a: "l_committed l < ?a" "log_base l < ?a" "?a \<le> log_end l + 1"
      using c False i known_in_range [OF ok off i(1)] by auto
    obtain l1 where l1: "log_append l ?new = Some (?a + length ?new - 1, l1)" "log_shape l1"
      "log_base l1 = log_base l" "log_bterm l1 = log_bterm l"
      "log_ents l1 = splice (log_base l) (log_ents l) ?a ?new"
      "l_committed l1 = l_committed l" "l_applied l1 = l_applied l" "l_storage l1 = l_storage l"
      using log_append_eq [OF _ a new] ok by (auto simp: log_ok_def)
    have ends: "log_end l1 = index + length es"
      using l1(3,5) a k by (auto simp: splice_def min_def)
    have ok1: "log_ok l1"
      using ok l1 a ends k by (auto simp: log_ok_def)
    have "log_commit_to l1 (min committed (index + length es))
        = Some (l1\<lparr>l_committed := max (l_committed l) (min committed (index + length es))\<rparr>)"
      using log_commit_to_eq [OF ok1] ends l1(6) by simp
    moreover have "log_ok (l1\<lparr>l_committed := max (l_committed l) (min committed (index + length es))\<rparr>)"
      using ok1 ends l1(6) by (auto simp: log_ok_def)
    ultimately show ?thesis
      using False fc w m l1 a k by (simp add: log_maybe_append_def Let_def merged_def u64)
  qed
qed

lemma log_maybe_append_conflict:
  assumes ok: "log_ok l" and off: "offer_ok index es" and m: "log_match_term l index lt = Some True"
    and c: "known l es < length es" "index + 1 + known l es \<le> l_committed l"
  shows "log_maybe_append l index lt committed es = None"
  using assms log_find_conflict_eq [OF ok, of "index + 1" es]
  by (simp add: log_maybe_append_def Let_def offer_ok_def)

lemma log_maybe_append_reject:
  "log_match_term l index lt = Some False \<Longrightarrow> log_maybe_append l index lt committed es = Some (None, l)"
  by (simp add: log_maybe_append_def)

text \<open>The merged log holds every offered entry, and its committed part is the old one.\<close>

lemma merged_committed:
  assumes "log_ok l" "known l es = length es \<or> l_committed l < index + 1 + known l es"
  shows "take (l_committed l - log_base l) (merged l index es)
       = take (l_committed l - log_base l) (log_ents l)"
  using assms by (auto simp: merged_def splice_def log_ok_def min_def)

lemma merged_has:
  assumes ok: "log_ok l" and off: "offer_ok index es" and i: "log_base l \<le> index" "index \<le> log_end l"
    and e: "k < length es"
  shows "index + k - log_base l < length (merged l index es) \<and>
    e_term (merged l index es ! (index + k - log_base l)) = e_term (es ! k)"
proof (cases "k < known l es")
  case True
  then have "log_has l (es ! k)"
    using known_has e by (metis in_set_conv_nth length_take min_less_iff_conj nth_take)
  moreover have "e_index (es ! k) = index + 1 + k" using offer_index [OF off e] .
  moreover have r: "index + 1 + k \<le> log_end l" "index + known l es \<le> log_end l"
    using known_in_range [OF ok off i(1)] True by auto
  ultimately have "e_term (es ! k) = e_term (log_ents l ! (index + k - log_base l))"
    using ok i log_has_iff [of l "es ! k"] by (simp add: Suc_diff_le)
  with True r i show ?thesis
    by (auto simp: merged_def splice_def nth_append min_def)
next
  case False
  then have n: "known l es < length es" using e by linarith
  have r: "index + known l es \<le> log_end l" using known_in_range [OF ok off i(1)] i(2) by auto
  obtain j where j: "index + known l es = log_base l + j" "j \<le> length (log_ents l)"
    using r i(1) by (intro that [of "index + known l es - log_base l"]) auto
  obtain m where m: "k = known l es + m" using False by (intro that [of "k - known l es"]) auto
  have "index + k - log_base l = j + m" "index + 1 + known l es - log_base l - 1 = j"
    using j m by auto
  then show ?thesis
    using n j m e by (simp add: merged_def splice_def nth_append min_def)
qed

end
