(* ===== verification/Log_Persist.thy ===== *)
theory Log_Persist
  imports Log_Spec
begin

text \<open>
  Reading ranges of the log across storage and unstable part, and the steps that move the log
  between the two: persisting the unstable entries, installing a snapshot, compacting.
\<close>

section \<open>Ranges\<close>

lemma take_length_take: "take (length (take k xs)) xs = take k xs"
  by (simp add: min_def)

lemma limit_loop_shorter:
  "length (limit_loop m s xs) < length xs \<Longrightarrow> limit_loop m s (xs @ ys) = limit_loop m s xs"
  by (induction m s xs rule: limit_loop.induct) (auto simp: Let_def)

lemma limit_loop_idem: "limit_loop m s (limit_loop m s xs) = limit_loop m s xs"
  by (induction m s xs rule: limit_loop.induct) (auto simp: Let_def)

lemma limit_shorter:
  "length (entry_limit_size m xs) < length xs \<Longrightarrow>
     entry_limit_size m (xs @ ys) = entry_limit_size m xs"
  by (auto simp: entry_limit_size_def limit_loop_shorter split: list.splits)

lemma limit_idem [simp]: "entry_limit_size m (entry_limit_size m xs) = entry_limit_size m xs"
  by (auto simp: entry_limit_size_def limit_loop_idem split: list.splits)

lemma limit_full:
  "\<not> length (entry_limit_size m xs) < length xs \<Longrightarrow> entry_limit_size m xs = xs"
  using entry_limit_size_prefix [of m xs] by auto

definition log_range :: "raft_log \<Rightarrow> nat \<Rightarrow> nat \<Rightarrow> entry list" where
  "log_range l low high = take (high - low) (drop (low - log_base l - 1) (log_ents l))"

lemma length_log_range:
  "log_base l < low \<Longrightarrow> low \<le> high \<Longrightarrow> high \<le> log_end l + 1 \<Longrightarrow> length (log_range l low high) = high - low"
  by (simp add: log_range_def)

lemma log_range_refl [simp]: "log_range l i i = []"
  by (simp add: log_range_def)

lemma log_must_check_eq:
  assumes "log_ok l" "low \<le> high"
  shows "log_must_check_out_of_bounds l low high =
    (if low \<le> log_base l then Some compacted
     else if high > log_end l + 1 then None else Some StatusOk)"
  using assms log_shape_bound [of l]
  by (auto simp: log_must_check_out_of_bounds_def rlog.view_first rlog.view_last log_ok_def u64)

text \<open>\<open>RaftLog::slice\<close> over the two parts is one limited range of the view.\<close>

lemma log_slice_eq:
  assumes ok: "log_ok l" and r: "log_base l < low" "low \<le> high" "high \<le> log_end l + 1"
  shows "log_slice l low high m = Some (Inr (entry_limit_size m (log_range l low high)))"
proof (cases "low = high")
  case True
  then show ?thesis using log_must_check_eq [OF ok r(2)] r by (simp add: log_slice_def)
next
  case False
  then have lt: "low < high" using r by simp
  have chk: "log_must_check_out_of_bounds l low high = Some StatusOk"
    using log_must_check_eq [OF ok r(2)] r by simp
  let ?u = "l_unstable l"
  have uok: "unstable_ok ?u" and shape: "log_shape l" using ok by (auto simp: log_ok_def log_shape_def)
  have fin: "u_offset ?u + length (u_entries ?u) = log_end l + 1"
    using shape by (auto elim!: log_shape_cases)
  have us: "unstable_slice ?u (max low (u_offset ?u)) high
      = Some (take (high - max low (u_offset ?u)) (drop (max low (u_offset ?u) - u_offset ?u) (u_entries ?u)))"
    if "u_offset ?u < high"
    using unstable_slice_in [OF uok, of "max low (u_offset ?u)" high] that lt r fin by simp
  show ?thesis
  proof (cases "low < u_offset ?u")
    case False
    have "drop (low - u_offset ?u) (u_entries ?u) = drop (low - log_base l - 1) (log_ents l)"
      by (rule log_shape_cases [OF shape]) (use False in auto)
    then show ?thesis
      using chk lt us False by (simp add: log_slice_def log_range_def Let_def max_def)
  next
    case low: True
    then obtain k where p: "storage_ok (l_storage l)" "log_base l = storage_base (l_storage l)"
      "u_offset ?u = storage_base (l_storage l) + 1 + k" "k \<le> length (storage_ents (l_storage l))"
      "log_ents l = take k (storage_ents (l_storage l)) @ u_entries ?u"
      using r(1) by (auto intro: log_shape_cases [OF shape])
    let ?h = "min high (u_offset ?u)"
    let ?st = "take (?h - low) (drop (low - log_base l - 1) (storage_ents (l_storage l)))"
    have st: "storage_entries (l_storage l) low ?h m = Some (Inr (entry_limit_size m ?st))"
      using storage_entries_view [of "l_storage l" low ?h] p r low lt by simp
    have len: "length ?st = ?h - low" using p r by auto
    have range: "log_range l low high = ?st @ take (high - u_offset ?u) (u_entries ?u)"
    proof -
      obtain i h where ih: "low = storage_base (l_storage l) + 1 + i"
          "high = storage_base (l_storage l) + 1 + h"
        using p(2) r(1,2) by (intro that [of "low - log_base l - 1" "high - log_base l - 1"]) auto
      then show ?thesis
        using take_drop_two_parts [of i k "storage_ents (l_storage l)" h "u_entries ?u"] p low
        by (simp add: log_range_def min_def split: if_splits)
    qed
    show ?thesis
    proof (cases "length (entry_limit_size m ?st) < ?h - low")
      case True
      then show ?thesis
        using chk lt low st len range limit_shorter [of m ?st] by (simp add: log_slice_def Let_def)
    next
      case False
      then have "entry_limit_size m ?st = ?st" using limit_full len by metis
      then show ?thesis
        using chk lt low st range us len by (simp add: log_slice_def Let_def max_def)
    qed
  qed
qed

lemma log_entries_eq:
  assumes "log_ok l" "log_base l < i"
  shows "log_entries l i m = Some (Inr (entry_limit_size m (log_range l i (log_end l + 1))))"
proof (cases "log_end l < i")
  case True
  then show ?thesis
    using assms by (simp add: log_entries_def rlog.view_last log_range_def)
next
  case False
  then show ?thesis
    using assms log_slice_eq [of l i "log_end l + 1" m] log_shape_bound [of l]
    by (simp add: log_entries_def rlog.view_last log_ok_def u64)
qed

lemma log_all_entries_eq:
  assumes "log_ok l" "sum_list (map serialize_size (log_ents l)) < W64"
  shows "log_all_entries l = Some (log_ents l)"
proof -
  have "entry_limit_size unlimited (log_ents l) = log_ents l"
  proof (cases "log_ents l")
    case (Cons e es)
    then show ?thesis
      using assms(2) limit_loop_id [of "serialize_size e" es unlimited]
      by (simp add: entry_limit_size_def unlimited_def)
  qed simp
  then show ?thesis
    using assms(1) log_entries_eq [OF assms(1), of "log_base l + 1" unlimited]
    by (simp add: log_all_entries_def rlog.view_first log_range_def)
qed

text \<open>
  What is handed to the application: the committed entries after the applied index, cut by size but
  never empty when there are any.
\<close>

lemma log_next_off:
  assumes "log_ok l" "l_applied l \<le> l_committed l"
  shows "max (add64 (l_applied l) 1) (log_base l + 1) = max (l_applied l) (log_base l) + 1"
    "add64 (l_committed l) 1 = l_committed l + 1"
  using assms log_shape_bound [of l] by (auto simp: log_ok_def u64)

lemma log_next_entries_unfold:
  assumes "log_ok l" "l_applied l \<le> l_committed l"
  shows "log_next_entries l =
    (if max (l_applied l) (log_base l) < l_committed l
     then (case log_slice l (max (l_applied l) (log_base l) + 1) (l_committed l + 1)
             (l_max_next_ents_size l) of
             Some (Inr es) \<Rightarrow> Some es | _ \<Rightarrow> None)
     else Some [])"
proof -
  have "max (l_applied l) (log_base l) + 1 < l_committed l + 1
      \<longleftrightarrow> max (l_applied l) (log_base l) < l_committed l" by linarith
  then show ?thesis
    unfolding log_next_entries_def rlog.view_first [OF assms(1)] Let_def bind.bind_lunit
      log_next_off [OF assms]
    by (simp split: option.splits sum.splits bind_splits del: max_Suc_Suc max_less_iff_conj)
qed

lemma log_next_entries_eq:
  assumes ok: "log_ok l" and a: "l_applied l \<le> l_committed l"
  shows "log_next_entries l = Some (entry_limit_size (l_max_next_ents_size l)
    (log_range l (max (l_applied l) (log_base l) + 1) (l_committed l + 1)))"
proof (cases "max (l_applied l) (log_base l) < l_committed l")
  case True
  have "log_slice l (max (l_applied l) (log_base l) + 1) (l_committed l + 1) (l_max_next_ents_size l)
    = Some (Inr (entry_limit_size (l_max_next_ents_size l)
        (log_range l (max (l_applied l) (log_base l) + 1) (l_committed l + 1))))"
    using True ok by (intro log_slice_eq) (auto simp: log_ok_def)
  then show ?thesis
    using True log_next_entries_unfold [OF assms] by simp
next
  case False
  then have "max (l_applied l) (log_base l) = l_committed l"
    using a ok by (auto simp: log_ok_def)
  then show ?thesis
    using log_next_entries_unfold [OF assms] by simp
qed

lemma log_has_next_entries_eq:
  assumes ok: "log_ok l" and a: "l_applied l \<le> l_committed l"
  shows "log_has_next_entries l = Some (max (l_applied l) (log_base l) < l_committed l)"
  unfolding log_has_next_entries_def rlog.view_first [OF ok] Let_def bind.bind_lunit
    log_next_off [OF assms] by simp

section \<open>Moving entries to storage\<close>

text \<open>\<open>stable_to\<close> with the last unstable entry empties the unstable entries.\<close>

lemma stable_to_last:
  assumes u: "unstable_ok u" and ne: "u_entries u \<noteq> []"
  shows "unstable_stable_to u (e_index (last (u_entries u))) (e_term (last (u_entries u)))
    = Some (u\<lparr>u_entries := [], u_offset := u_offset u + length (u_entries u)\<rparr>)"
proof -
  let ?es = "u_entries u" and ?i = "e_index (last (u_entries u))"
  obtain m where m: "length ?es = Suc m" using ne by (cases ?es) auto
  have "?i = u_offset u + length ?es - 1"
    using u ne by (intro consec_last) (auto simp: unstable_ok_def)
  then have i: "?i = u_offset u + m" using m by simp
  have b: "u_offset u + Suc m < W64" using u m by (simp add: unstable_ok_def)
  have lst: "unstable_maybe_last_index u = Some ?i"
    using ne i b m by (simp add: unstable_maybe_last_index_def u64)
  have "unstable_maybe_term u ?i = Some (Some (e_term (last ?es)))"
    using lst i m ne by (simp add: unstable_maybe_term_def u64 last_conv_nth)
  then show ?thesis
    using i b m by (simp add: unstable_stable_to_def u64)
qed

text \<open>
  A mismatching term leaves the unstable part alone: a late confirmation of entries that have been
  replaced meanwhile is ignored.
\<close>

lemma stable_to_mismatch:
  "unstable_maybe_term u i = Some (Some t') \<Longrightarrow> t' \<noteq> t \<Longrightarrow> unstable_stable_to u i t = Some u"
  by (simp add: unstable_stable_to_def)

text \<open>One round of persisting, as the node does it: append the unstable entries, confirm the last.\<close>

definition log_persist :: "raft_log \<Rightarrow> raft_log option" where
  "log_persist l =
     (if u_entries (l_unstable l) = [] then Some l
      else do {
        s \<leftarrow> storage_append (l_storage l) (u_entries (l_unstable l));
        let e = last (u_entries (l_unstable l));
        log_stable_to (l\<lparr>l_storage := s\<rparr>) (e_index e) (e_term e)
      })"

lemma log_persist_plain:
  assumes ok: "log_ok l" and ns: "u_snapshot (l_unstable l) = None"
  shows "\<exists>l'. log_persist l = Some l' \<and> log_ok l' \<and> log_base l' = log_base l \<and>
    log_bterm l' = log_bterm l \<and> log_ents l' = log_ents l \<and> u_entries (l_unstable l') = [] \<and>
    u_snapshot (l_unstable l') = None \<and> storage_ents (l_storage l') = log_ents l \<and>
    l_committed l' = l_committed l \<and> l_applied l' = l_applied l"
proof -
  let ?u = "l_unstable l" and ?s = "l_storage l"
  have shape: "log_shape l" and uok: "unstable_ok ?u" using ok by (auto simp: log_ok_def log_shape_def)
  obtain k where p: "storage_ok ?s" "log_base l = storage_base ?s" "log_bterm l = storage_bterm ?s"
      "u_offset ?u = storage_base ?s + 1 + k" "k \<le> length (storage_ents ?s)"
      "u_entries ?u = [] \<Longrightarrow> k = length (storage_ents ?s)"
      "log_ents l = take k (storage_ents ?s) @ u_entries ?u"
    using ns by (auto intro: log_shape_cases [OF shape])
  show ?thesis
  proof (cases "u_entries ?u = []")
    case True
    then show ?thesis using p ok ns by (auto simp: log_persist_def)
  next
    case False
    obtain s' where s': "storage_append ?s (u_entries ?u) = Some s'" "storage_ok s'"
      "storage_base s' = storage_base ?s" "storage_bterm s' = storage_bterm ?s"
      "storage_ents s' = splice (storage_base ?s) (storage_ents ?s) (u_offset ?u) (u_entries ?u)"
      using stor.append_view [OF p(1), of "u_offset ?u" "u_entries ?u"] p uok False
      by (auto simp: unstable_ok_def)
    have ents': "storage_ents s' = log_ents l" using s'(5) p by (simp add: splice_def)
    let ?u' = "?u\<lparr>u_entries := [], u_offset := u_offset ?u + length (u_entries ?u)\<rparr>"
    let ?l' = "l\<lparr>l_storage := s', l_unstable := ?u'\<rparr>"
    have "log_persist l = Some ?l'"
      using False s'(1) stable_to_last [OF uok False] by (simp add: log_persist_def log_stable_to_def)
    moreover have "log_shape ?l' \<and> log_base ?l' = log_base l \<and> log_bterm ?l' = log_bterm l \<and>
        log_ents ?l' = log_ents l"
      using s'(2,3,4) ents' p ns uok by (auto simp: log_shape_def log_view_defs unstable_ok_def storage_end_def)
    ultimately show ?thesis
      using ok ns ents' by (auto simp: log_ok_def)
  qed
qed

text \<open>
  The same round with a snapshot pending: the storage is replaced by the snapshot, the unstable
  entries are appended, and both are confirmed.
\<close>

definition log_persist_snapshot :: "raft_log \<Rightarrow> snapshot \<Rightarrow> raft_log option" where
  "log_persist_snapshot l snap = do {
     let s = snd (storage_apply_snapshot (l_storage l) snap);
     l' \<leftarrow> log_persist (l\<lparr>l_storage := s\<rparr>);
     Some (log_stable_snap_to l' (s_index snap))
   }"

lemma log_persist_with_snapshot:
  assumes ok: "log_ok l" and sn: "u_snapshot (l_unstable l) = Some snap"
    and newer: "s_index (ms_snapshot (l_storage l)) < s_index snap"
  shows "\<exists>l'. log_persist_snapshot l snap = Some l' \<and> log_ok l' \<and> log_base l' = log_base l \<and>
    log_bterm l' = log_bterm l \<and> log_ents l' = log_ents l \<and> u_entries (l_unstable l') = [] \<and>
    u_snapshot (l_unstable l') = None \<and> storage_ents (l_storage l') = log_ents l \<and>
    l_committed l' = l_committed l \<and> l_applied l' = l_applied l"
proof -
  let ?u = "l_unstable l"
  have shape: "log_shape l" and uok: "unstable_ok ?u" using ok by (auto simp: log_ok_def log_shape_def)
  have p: "u_offset ?u = s_index snap + 1" "log_base l = s_index snap" "log_bterm l = s_term snap"
      "log_ents l = u_entries ?u"
    using sn by (auto intro: log_shape_cases [OF shape])
  have w: "s_index snap + 1 < W64" using log_shape_bound [OF shape] p by simp
  obtain s0 where s0: "storage_apply_snapshot (l_storage l) snap = (StatusOk, s0)" "storage_ok s0"
      "storage_base s0 = s_index snap" "storage_bterm s0 = s_term snap" "storage_ents s0 = []"
    using storage_apply_snapshot_view [OF newer w] by blast
  show ?thesis
  proof (cases "u_entries ?u = []")
    case True
    then show ?thesis
      using s0 sn p uok ok
      by (auto simp: log_persist_snapshot_def log_persist_def log_stable_snap_to_def
          unstable_stable_snap_to_def log_ok_def log_shape_def log_view_defs storage_end_def)
  next
    case False
    obtain s' where s': "storage_append s0 (u_entries ?u) = Some s'" "storage_ok s'"
      "storage_base s' = s_index snap" "storage_bterm s' = s_term snap"
      "storage_ents s' = u_entries ?u"
      using stor.append_view [OF s0(2), of "u_offset ?u" "u_entries ?u"] s0 p uok False
      by (auto simp: unstable_ok_def splice_def)
    let ?u' = "?u\<lparr>u_entries := [], u_offset := u_offset ?u + length (u_entries ?u)\<rparr>"
    have "log_persist_snapshot l snap
      = Some (l\<lparr>l_storage := s', l_unstable := ?u'\<lparr>u_snapshot := None\<rparr>\<rparr>)"
      using False s0(1) s'(1) stable_to_last [OF uok False] sn
      by (simp add: log_persist_snapshot_def log_persist_def log_stable_to_def
          log_stable_snap_to_def unstable_stable_snap_to_def)
    then show ?thesis
      using ok p uok s'
      by (auto simp: log_ok_def log_shape_def log_view_defs unstable_ok_def storage_end_def)
  qed
qed

text \<open>Installing a snapshot makes it the base of an empty log, committed up to its index.\<close>

lemma log_restore_view:
  assumes "log_shape l" "s_index snap + 1 < W64"
  shows "log_ok (log_restore l snap) \<and> log_base (log_restore l snap) = s_index snap \<and>
    log_bterm (log_restore l snap) = s_term snap \<and> log_ents (log_restore l snap) = [] \<and>
    l_committed (log_restore l snap) = s_index snap"
  using assms
  by (auto simp: log_restore_def unstable_restore_def log_ok_def log_shape_def log_view_defs
      unstable_ok_def u64)

text \<open>
  Compaction of entries that are in storage only moves the base: every term from the new base on
  reads as before.
\<close>

lemma log_compact_view:
  assumes ok: "log_ok l" and ns: "u_snapshot (l_unstable l) = None"
    and i: "log_base l < i" "i \<le> l_committed l" "i < u_offset (l_unstable l)"
  shows "\<exists>s. storage_compact (l_storage l) i = Some (StatusOk, s) \<and> log_ok (l\<lparr>l_storage := s\<rparr>) \<and>
    log_base (l\<lparr>l_storage := s\<rparr>) = i \<and>
    log_bterm (l\<lparr>l_storage := s\<rparr>) = term_at (log_base l) (log_bterm l) (log_ents l) i \<and>
    log_ents (l\<lparr>l_storage := s\<rparr>) = drop (i - log_base l) (log_ents l)"
proof -
  let ?u = "l_unstable l" and ?s = "l_storage l"
  have shape: "log_shape l" and uok: "unstable_ok ?u" using ok by (auto simp: log_ok_def log_shape_def)
  obtain k where p: "storage_ok ?s" "log_base l = storage_base ?s" "log_bterm l = storage_bterm ?s"
      "u_offset ?u = storage_base ?s + 1 + k" "k \<le> length (storage_ents ?s)"
      "u_entries ?u = [] \<Longrightarrow> k = length (storage_ents ?s)"
      "log_ents l = take k (storage_ents ?s) @ u_entries ?u"
    using ns by (auto intro: log_shape_cases [OF shape])
  obtain j where j: "i = storage_base ?s + Suc j" "j < k"
    using i p by (intro that [of "i - storage_base ?s - 1"]) auto
  obtain s' where s': "storage_compact ?s i = Some (StatusOk, s')" "storage_ok s'"
    "storage_base s' = i"
    "storage_bterm s' = term_at (storage_base ?s) (storage_bterm ?s) (storage_ents ?s) i"
    "storage_ents s' = drop (i - storage_base ?s) (storage_ents ?s)"
    using storage_compact_view [OF p(1), of i] i p by auto
  have bt: "storage_bterm s' = term_at (log_base l) (log_bterm l) (log_ents l) i"
    using s'(4) p j by (simp add: term_at_def nth_append)
  have "log_ents (l\<lparr>l_storage := s'\<rparr>) = drop (i - log_base l) (log_ents l)"
    using s' p j ns by (simp add: log_view_defs drop_take)
  moreover have "log_shape (l\<lparr>l_storage := s'\<rparr>)"
    using s' p j ns uok by (auto simp: log_shape_def storage_end_def)
  moreover have "log_base (l\<lparr>l_storage := s'\<rparr>) = i" "log_bterm (l\<lparr>l_storage := s'\<rparr>) = storage_bterm s'"
    using s' ns by (simp_all add: log_view_defs)
  ultimately show ?thesis
    using s' bt ok i by (auto simp: log_ok_def)
qed

text \<open>
  A fresh log over a well-formed storage: its view is the storage, nothing is unstable, and the
  commit and applied indices stand at the base.
\<close>

lemma new_raft_log_view:
  assumes "storage_ok s"
  shows "\<exists>l. new_raft_log s m = Some l \<and> log_ok l \<and> log_base l = storage_base s \<and>
    log_bterm l = storage_bterm s \<and> log_ents l = storage_ents s \<and>
    l_committed l = storage_base s \<and> l_applied l = storage_base s"
  using assms stor.view_bound [OF assms]
  by (simp add: new_raft_log_def stor.view_first stor.view_last u64 new_unstable_def log_ok_def
      log_shape_def log_view_defs unstable_ok_def storage_end_def)

end
