(* ===== verification/Raft_Logs.thy ===== *)
theory Raft_Logs
  imports Raft_Elect Log_Persist
begin

text \<open>
  What the operations of \<open>Raft\<close> do to the log of the node, whatever message arrives: the log stays
  well-formed, the commit index never falls, and a committed entry is never changed or lost; the log
  of a leader only grows at its end.
\<close>

section \<open>The relations\<close>

definition log_grows :: "raft_log \<Rightarrow> raft_log \<Rightarrow> bool" where
  "log_grows l l' \<longleftrightarrow>
     log_ok l' \<and> log_base l' = log_base l \<and> log_bterm l' = log_bterm l \<and>
     (\<exists>xs. log_ents l' = log_ents l @ xs) \<and>
     l_committed l \<le> l_committed l' \<and> l_applied l' = l_applied l \<and> same_snap l l'"

text \<open>A committed entry stays in its place, or a snapshot beyond the old commit index covers it.\<close>

definition log_keeps :: "raft_log \<Rightarrow> raft_log \<Rightarrow> bool" where
  "log_keeps l l' \<longleftrightarrow>
     log_ok l' \<and> l_committed l \<le> l_committed l' \<and> l_applied l' = l_applied l \<and>
     l_storage l' = l_storage l \<and>
     (log_base l' = log_base l \<and> log_bterm l' = log_bterm l \<and>
      u_snapshot (l_unstable l') = u_snapshot (l_unstable l) \<and>
      take (l_committed l - log_base l) (log_ents l') = take (l_committed l - log_base l) (log_ents l)
      \<or> l_committed l < log_base l' \<and>
        map_option (\<lambda>s. s_index s) (u_snapshot (l_unstable l')) = Some (log_base l'))"

lemma log_grows_refl [simp]: "log_ok l \<Longrightarrow> log_grows l l"
  by (simp add: log_grows_def)

lemma log_grows_trans [trans]: "log_grows a b \<Longrightarrow> log_grows b c \<Longrightarrow> log_grows a c"
  unfolding log_grows_def by (metis append.assoc order_trans same_snap_trans)

lemma log_growsD: "log_grows l l' \<Longrightarrow> log_ok l'"
  by (simp add: log_grows_def)

lemma log_grows_keeps: "log_ok l \<Longrightarrow> log_grows l l' \<Longrightarrow> log_keeps l l'"
  by (auto simp: log_grows_def log_keeps_def log_ok_def same_snap_def)

lemma log_keeps_refl [simp]: "log_ok l \<Longrightarrow> log_keeps l l"
  by (simp add: log_keeps_def)

lemma log_keeps_trans [trans]:
  assumes "log_keeps a b" "log_keeps b c"
  shows "log_keeps a c"
proof (cases "l_committed a < log_base b \<or> l_committed b < log_base c")
  case True
  moreover have "log_base b \<le> l_committed b" using assms(1) by (simp add: log_keeps_def log_ok_def)
  ultimately show ?thesis using assms unfolding log_keeps_def by auto
next
  case False
  then have b: "log_base b = log_base a" "log_bterm b = log_bterm a" "log_base c = log_base b"
      "log_bterm c = log_bterm b"
      "take (l_committed a - log_base a) (log_ents b) = take (l_committed a - log_base a) (log_ents a)"
      "take (l_committed b - log_base b) (log_ents c) = take (l_committed b - log_base b) (log_ents b)"
      "l_committed a \<le> l_committed b"
      "u_snapshot (l_unstable b) = u_snapshot (l_unstable a)"
      "u_snapshot (l_unstable c) = u_snapshot (l_unstable b)"
    using assms by (auto simp: log_keeps_def)
  have "take (l_committed a - log_base a) (log_ents c)
      = take (l_committed a - log_base a) (take (l_committed b - log_base b) (log_ents c))"
    using b(1,7) by (simp add: min_def)
  also have "\<dots> = take (l_committed a - log_base a) (log_ents a)"
    using b(1,5,6,7) by (simp add: min_def)
  finally show ?thesis using assms b unfolding log_keeps_def by simp
qed

lemma log_keeps_ok: "log_keeps l l' \<Longrightarrow> log_ok l'"
  by (simp add: log_keeps_def)

section \<open>Log operations\<close>

lemma log_commit_to_grows:
  assumes "log_ok l" "log_commit_to l c = Some l'"
  shows "log_grows l l'"
  using log_commit_to_ok [OF assms] by (simp add: log_grows_def same_snap_def)

lemma log_maybe_commit_grows:
  assumes "log_ok l" "log_maybe_commit l i t = Some (b, l')"
  shows "log_grows l l'"
  using assms log_commit_to_grows
  by (auto simp: log_maybe_commit_def split: if_splits Option.bind_splits sum.splits)

lemma log_append_end:
  assumes ok: "log_ok l" and es: "es \<noteq> []" "consec (log_end l + 1) es"
    and room: "log_end l + length es + 1 < W64" and a: "log_append l es = Some (i, l')"
  shows "i = log_end l + length es \<and> log_grows l l' \<and> log_ents l' = log_ents l @ es \<and>
    l_committed l' = l_committed l"
proof -
  have l: "log_shape l" "l_committed l < log_end l + 1" "log_base l < log_end l + 1"
    using ok by (auto simp: log_ok_def)
  obtain l2 where l2: "log_append l es = Some (log_end l + 1 + length es - 1, l2)" "log_shape l2"
      "log_base l2 = log_base l" "log_bterm l2 = log_bterm l"
      "log_ents l2 = splice (log_base l) (log_ents l) (log_end l + 1) es"
      "l_committed l2 = l_committed l" "l_applied l2 = l_applied l" "l_storage l2 = l_storage l"
    using log_append_eq [OF l(1-3) order_refl es] room by auto
  have "log_ents l2 = log_ents l @ es" using l2(5) by (simp add: splice_def)
  moreover have "same_snap l l2" by (rule log_append_same_snap [OF l2(1)])
  ultimately show ?thesis using l2 a ok by (auto simp: log_grows_def log_ok_def)
qed

section \<open>A conflict-free or overwriting append\<close>

lemma log_maybe_append_keeps:
  assumes ok: "log_ok l" and off: "offer_ok index es" and i: "l_committed l \<le> index"
    and a: "log_maybe_append l index lt c es = Some (x, l')"
  shows "log_keeps l l'"
proof -
  obtain b where b: "log_match_term l index lt = Some b" using log_match_term_total [OF ok] by blast
  consider (reject) "\<not> b" | (inside) "b" "index \<le> log_end l" | (empty) "b" "log_end l < index" "es = []"
    | (gap) "b" "log_end l < index" "es \<noteq> []" by fastforce
  then show ?thesis
  proof cases
    case reject
    then show ?thesis using a b ok log_maybe_append_reject by fastforce
  next
    case inside
    have bi: "log_base l \<le> index" using ok i by (simp add: log_ok_def)
    have k: "known l es = length es \<or> l_committed l < index + 1 + known l es" using i by linarith
    have bt: "log_match_term l index lt = Some True" using b inside(1) by simp
    from log_maybe_append_accept [OF ok off bi inside(2) bt k, of c] a
    have "log_ok l'" "log_base l' = log_base l" "log_bterm l' = log_bterm l"
        "log_ents l' = merged l index es" "l_storage l' = l_storage l" "l_applied l' = l_applied l"
        "l_committed l' = max (l_committed l) (min c (index + length es))" by auto
    moreover have "same_snap l l'" by (rule log_maybe_append_same_snap [OF a])
    ultimately show ?thesis using merged_committed [OF ok k] by (simp add: log_keeps_def same_snap_def)
  next
    case empty
    then have "log_commit_to l (min c (add64 index 0)) = Some l'"
      using a b by (auto simp: log_maybe_append_def Let_def split: Option.bind_splits)
    then show ?thesis using log_grows_keeps [OF ok log_commit_to_grows [OF ok]] by simp
  next
    case gap
    have "\<not> log_has l (hd es)"
    proof
      assume h: "log_has l (hd es)"
      have "e_term (hd es) \<noteq> 0" using off gap(3) by (simp add: offer_ok_def)
      then have "e_index (hd es) \<le> log_end l" using log_has_range [OF ok h] by simp
      moreover have "e_index (hd es) = index + 1" using off gap(3) consec_hd by (simp add: offer_ok_def)
      ultimately show False using gap(2) by simp
    qed
    then have "known l es = 0" using gap(3) by (cases es) (simp_all add: known_def)
    then have "log_find_conflict l es = Some (index + 1)"
      using log_find_conflict_eq [OF ok, of "index + 1" es] off gap(3) by (simp add: offer_ok_def)
    moreover have "log_append l es = None"
    proof -
      obtain e es' where es: "es = e # es'" "e_index e = index + 1"
        using gap(3) off by (cases es) (auto simp: offer_ok_def)
      have sh: "log_shape l" using ok by (simp add: log_ok_def)
      have "u_offset (l_unstable l) + length (u_entries (l_unstable l)) < index + 1"
        by (rule log_shape_cases [OF sh]) (use gap(2) in \<open>auto simp: min_def split: if_splits\<close>)
      moreover have "u_offset (l_unstable l) + length (u_entries (l_unstable l)) < W64"
        using sh by (rule log_shape_cases) (auto simp: unstable_ok_def)
      ultimately have "unstable_truncate_and_append (l_unstable l) es = None"
        using es by (auto simp: unstable_truncate_and_append_def unstable_slice_def add64_exact
            Let_def check_def)
      then show ?thesis using es by (auto simp: log_append_def Let_def)
    qed
    moreover have "index + length es + 1 < W64" using off by (simp add: offer_ok_def)
    ultimately have "log_maybe_append l index lt c es = None"
      using b gap i by (simp add: log_maybe_append_def u64)
    then show ?thesis using a by simp
  qed
qed

section \<open>Appending and committing\<close>

definition grows :: "raft \<Rightarrow> raft \<Rightarrow> bool" where
  "grows r r' \<longleftrightarrow> log_grows (r_log r) (r_log r')"

definition keeps :: "raft \<Rightarrow> raft \<Rightarrow> bool" where
  "keeps r r' \<longleftrightarrow> log_keeps (r_log r) (r_log r')"

abbreviation raft_ok :: "raft \<Rightarrow> bool" where
  "raft_ok r \<equiv> log_ok (r_log r)"

text \<open>There is room for \<open>n\<close> more entries before indices wrap around.\<close>

definition room :: "nat \<Rightarrow> raft \<Rightarrow> bool" where
  "room n r \<longleftrightarrow> log_end (r_log r) + n + 1 < W64"

lemma grows_same: "raft_ok r \<Longrightarrow> r_log r' = r_log r \<Longrightarrow> grows r r'"
  by (simp add: grows_def)

lemma grows_trans [trans]: "grows a b \<Longrightarrow> grows b c \<Longrightarrow> grows a c"
  unfolding grows_def by (rule log_grows_trans)

lemma keeps_trans [trans]: "keeps a b \<Longrightarrow> keeps b c \<Longrightarrow> keeps a c"
  unfolding keeps_def by (rule log_keeps_trans)

lemma grows_ok: "grows r r' \<Longrightarrow> raft_ok r'"
  by (simp add: grows_def log_growsD)

lemma keeps_ok: "keeps r r' \<Longrightarrow> raft_ok r'"
  by (simp add: keeps_def log_keeps_ok)

lemma grows_keeps: "raft_ok r \<Longrightarrow> grows r r' \<Longrightarrow> keeps r r'"
  by (simp add: grows_def keeps_def log_grows_keeps)

lemma keeps_same: "raft_ok r \<Longrightarrow> r_log r' = r_log r \<Longrightarrow> keeps r r'"
  by (simp add: keeps_def)

lemma grows_cong: "r_log a = r_log b \<Longrightarrow> r_log a' = r_log b' \<Longrightarrow> grows a a' = grows b b'"
  by (simp add: grows_def)

lemma keeps_from: "r_log a = r_log b \<Longrightarrow> keeps a c \<Longrightarrow> keeps b c"
  by (simp add: keeps_def)

lemma grows_from: "r_log a = r_log b \<Longrightarrow> grows a c \<Longrightarrow> grows b c"
  by (simp add: grows_def)

lemma sends_grows: "raft_ok r \<Longrightarrow> sends_only r r' \<Longrightarrow> grows r r'"
  by (rule grows_same) (simp_all add: sends_only_sel)

lemma raft_send_log: "raft_send r m = Some r' \<Longrightarrow> r_log r' = r_log r"
  by (auto simp: raft_send_def Let_def split: if_splits Option.bind_splits)

lemma raft_maybe_commit_grows:
  assumes "raft_ok r" "raft_maybe_commit r = Some (b, r')"
  shows "grows r r'"
  using assms log_maybe_commit_grows
  by (auto simp: raft_maybe_commit_def grows_def Let_def split: Option.bind_splits)

lemma number_entries_length [simp]: "length (number_entries t li es) = length es"
  by (simp add: number_entries_def)

lemma number_entries_consec:
  assumes "li + length es + 1 < W64"
  shows "consec (li + 1) (number_entries t li es)"
  unfolding consec_def number_entries_def
  by (rule nth_equalityI) (use assms in \<open>auto simp: u64 nth_enumerate_eq simp del: upt_Suc\<close>)

lemma append_entry_grows:
  assumes ok: "raft_ok r" and room: "room (length es) r" and a: "append_entry r es = Some (b, r')"
  shows "grows r r'"
proof -
  have sh: "log_last_index (r_log r) = Some (log_end (r_log r))"
    using ok log_shape_last by (simp add: log_ok_def)
  let ?ents = "number_entries (r_term r) (log_end (r_log r)) es"
  obtain fits r1 where inc: "increase_uncommitted_size r ?ents = (fits, r1)" by fastforce
  have r1: "r_log r1 = r_log r" "r_id r1 = r_id r"
    using inc by (auto simp: increase_uncommitted_size_def Let_def split: if_splits)
  show ?thesis
  proof (cases fits)
    case False
    then show ?thesis using a sh inc r1 ok by (simp add: append_entry_def Let_def grows_same)
  next
    case True
    then obtain li' l pr c where l: "log_append (r_log r1) ?ents = Some (li', l)"
        and mc: "raft_maybe_commit (put_progress (r1\<lparr>r_log := l\<rparr>) (r_id r1)
              (snd (progress_maybe_update pr li'))) = Some (c, r')"
      using a sh inc by (auto simp: append_entry_def Let_def split: Option.bind_splits)
    have "log_grows (r_log r) l"
    proof (cases "es = []")
      case True
      then have e: "?ents = []" by (simp add: number_entries_def)
      have "l = r_log r1" using l unfolding e log_append_def by (auto simp: bind_eq_Some_conv)
      then show ?thesis using r1(1) ok by simp
    next
      case False
      have "?ents \<noteq> []" using False by (cases es) (simp_all add: number_entries_def)
      moreover have "consec (log_end (r_log r) + 1) ?ents"
        by (rule number_entries_consec) (use room in \<open>simp add: room_def\<close>)
      moreover have "log_append (r_log r) ?ents = Some (li', l)" using l r1(1) by simp
      moreover have "log_end (r_log r) + length ?ents + 1 < W64" using room by (simp add: room_def)
      ultimately show ?thesis using log_append_end [OF ok] by blast
    qed
    moreover from this have "log_grows l (r_log r')"
      using raft_maybe_commit_grows [OF _ mc] by (simp add: grows_def log_growsD)
    ultimately show ?thesis unfolding grows_def by (rule log_grows_trans)
  qed
qed

section \<open>Followers\<close>

text \<open>
  What is assumed of a message: the entries of an append are numbered without gaps and carry terms,
  and nothing comes close to the end of the 64-bit indices.
\<close>

definition msg_sane :: "message \<Rightarrow> bool" where
  "msg_sane m \<longleftrightarrow>
     (m_type m = MsgApp \<longrightarrow> offer_ok (m_index m) (m_entries m)) \<and>
     (m_type m = MsgSnap \<longrightarrow> s_index (m_snapshot m) + 1 < W64)"

lemma handle_append_entries_keeps:
  assumes ok: "raft_ok r" and off: "offer_ok (m_index m) (m_entries m)"
    and h: "handle_append_entries r m = Some r'"
  shows "keeps r r'"
proof (cases "m_index m < l_committed (r_log r)")
  case True
  then show ?thesis
    using h ok by (auto simp: handle_append_entries_def intro: keeps_same dest: raft_send_log)
next
  case False
  then obtain x l where l: "log_maybe_append (r_log r) (m_index m) (m_log_term m) (m_commit m)
      (m_entries m) = Some (x, l)" and l': "r_log r' = l"
    using h by (auto simp: handle_append_entries_def Let_def dest!: raft_send_log
        split: Option.bind_splits option.splits)
  show ?thesis
    using log_maybe_append_keeps [OF ok off _ l] False l' by (simp add: keeps_def)
qed

lemma handle_heartbeat_grows:
  assumes "raft_ok r" "handle_heartbeat r m = Some r'"
  shows "grows r r'"
  using assms log_commit_to_grows
  by (auto simp: handle_heartbeat_def grows_def dest!: raft_send_log split: Option.bind_splits)

lemma raft_restore_keeps:
  assumes ok: "raft_ok r" and s: "raft_restore r s = Some (b, r')" and lt: "s_index s + 1 < W64"
  shows "keeps r r'"
  using s
proof (cases rule: raft_restore_cases)
  case (kept l)
  have "r_log r' = r_log r \<or> log_commit_to (r_log r) (s_index s) = Some (r_log r')"
    using s kept(3) by (auto simp: raft_restore_def Let_def split: if_splits Option.bind_splits)
  then have "log_grows (r_log r) (r_log r')" using ok log_commit_to_grows by auto
  then show ?thesis using log_grows_keeps [OF ok] by (simp add: keeps_def)
next
  case (restored r2)
  from restore_node_restores [OF restored(3)] restore_node_restores [OF restored(4)]
  have "r_log r' = log_restore (r_log r) s" by (auto simp: restores_def)
  moreover have sh: "log_shape (r_log r)" using ok by (simp add: log_ok_def)
  ultimately show ?thesis
    using log_restore_view [OF sh lt] restored(2)
    by (simp add: keeps_def log_keeps_def log_restore_def unstable_restore_def)
qed

lemma handle_snapshot_keeps:
  assumes "raft_ok r" "handle_snapshot r m = Some r'" "s_index (m_snapshot m) + 1 < W64"
  shows "keeps r r'"
proof -
  obtain b r1 where "raft_restore r (m_snapshot m) = Some (b, r1)" "r_log r' = r_log r1"
    using assms(2) by (auto simp: handle_snapshot_def bind_eq_Some_conv dest: raft_send_log)
  then show ?thesis using raft_restore_keeps [OF assms(1) _ assms(3)] by (simp add: keeps_def)
qed

lemma become_follower_log: "become_follower r t lead = Some r' \<Longrightarrow> r_log r' = r_log r"
  by (simp add: become_follower_sel)

section \<open>Leaders\<close>

lemma become_leader_grows:
  assumes ok: "raft_ok r" and room: "room 1 r" and l: "become_leader r = Some r'"
  shows "grows r r'"
proof -
  obtain r1 where r1: "raft_reset (r\<lparr>r_step_fn := StepLeader\<rparr>) (r_term r) = Some r1"
    using l by (auto simp: become_leader_def bind_eq_Some_conv)
  then have log: "r_log r1 = r_log r" by (simp add: raft_reset_sel)
  obtain a r4 where a: "append_entry a [new_entry] = Some (True, r4)" "r_log a = r_log r1"
      "r' = reduce_uncommitted_size r4 [new_entry]"
    using l r1 by (auto simp: become_leader_def Let_def bind_eq_Some_conv)
  have "grows a r4" by (rule append_entry_grows [OF _ _ a(1)]) (use ok room log a(2) in \<open>simp_all add: room_def\<close>)
  then show ?thesis using log a(2,3) by (simp add: grows_def reduce_uncommitted_size_def Let_def)
qed

lemma prop_scan_log:
  "prop_scan r i es = Some (r', es') \<Longrightarrow> r_log r' = r_log r \<and> length es' = length es"
proof (induction es arbitrary: r i es')
  case (Cons e es)
  then obtain r1 e1 es1 where "prop_one r i e = Some (r1, e1)" "prop_scan r1 (Suc i) es = Some (r', es1)"
      "es' = e1 # es1" by (auto simp: bind_eq_Some_conv)
  moreover from this(1) have "r_log r1 = r_log r" by (auto simp: prop_one_def bind_eq_Some_conv split: if_splits)
  ultimately show ?case using Cons.IH by auto
qed simp

lemma leader_prop_grows:
  assumes ok: "raft_ok r" and room: "room (length (m_entries m)) r" and p: "leader_prop r m = Some (st, r')"
  shows "grows r r'"
proof -
  have "r' = r \<or> (\<exists>r1 es b r2. prop_scan r 0 (m_entries m) = Some (r1, es) \<and>
      append_entry r1 es = Some (b, r2) \<and> (r' = r2 \<or> bcast_append r2 = Some r'))"
    using p by (auto simp: leader_prop_def ok_with_def split: Option.bind_splits if_splits)
  then consider (same) "r' = r" | (app) r1 es b r2 where "prop_scan r 0 (m_entries m) = Some (r1, es)"
      "append_entry r1 es = Some (b, r2)" "r' = r2 \<or> bcast_append r2 = Some r'" by blast
  then show ?thesis
  proof cases
    case app
    note s = app(1) and a = app(2) and e = app(3)
    have r1: "r_log r1 = r_log r" "length es = length (m_entries m)" using prop_scan_log [OF s] by auto
    have "grows r1 r2"
      by (rule append_entry_grows [OF _ _ a]) (use ok room r1 in \<open>simp_all add: room_def\<close>)
    then show ?thesis
      using e r1(1) by (auto simp: grows_def dest!: bcast_append_sends sends_only_sel(6))
  qed (use ok in \<open>simp add: grows_same\<close>)
qed

lemma leader_read_index_log: "leader_read_index r m = Some r' \<Longrightarrow> r_log r' = r_log r"
  by (auto simp: leader_read_index_def answer_read_def push_read_state_def bind_eq_Some_conv
      split: if_splits read_only_option.splits
      dest!: raft_send_log bcast_heartbeat_with_ctx_sends sends_only_sel(6))

lemma leader_app_accepted_grows:
  assumes ok: "raft_ok r" and a: "leader_app_accepted r m pr = Some r'"
  shows "grows r r'"
proof -
  obtain updated pr1 where u: "progress_maybe_update pr (m_index m) = (updated, pr1)" by fastforce
  show ?thesis
  proof (cases updated)
    case False
    then show ?thesis using a u ok by (auto simp: leader_app_accepted_def Let_def intro: grows_same)
  next
    case True
    then obtain pr2 c r1 r2 r3 where
        mc: "raft_maybe_commit (put_progress r (m_from m) pr2) = Some (c, r1)"
      and r2: "(if c then bcast_append r1
             else if progress_is_paused pr then send_append r1 (m_from m) else Some r1) = Some r2"
      and r3: "send_all r2 (m_from m) = Some r3"
      and rest: "r3 = r' \<or> send_timeout_now r3 (m_from m) = Some r'"
      using a u by (auto simp: leader_app_accepted_def Let_def split: Option.bind_splits if_splits)
    have "r_log r2 = r_log r1" using r2 by (auto split: if_splits dest!: sends sends_only_sel(6))
    moreover have "r_log r3 = r_log r2" using send_all_sends [OF r3] by (rule sends_only_sel(6))
    moreover have "r_log r' = r_log r3" using rest by (auto dest!: sends sends_only_sel(6))
    moreover have "grows r r1" using raft_maybe_commit_grows [OF _ mc] ok by (simp add: grows_def)
    ultimately show ?thesis by (simp add: grows_def)
  qed
qed

lemma leader_app_resp_grows:
  assumes ok: "raft_ok r" and a: "leader_app_resp r m pr = Some r'"
  shows "grows r r'"
proof (cases "m_reject m")
  case True
  then show ?thesis
    using a ok by (auto simp: leader_app_resp_def Let_def intro!: grows_same
        split: prod.splits if_splits dest!: sends sends_only_sel(6))
next
  case False
  let ?r = "put_progress r (m_from m) (pr\<lparr>pr_recent_active := True\<rparr>)"
  have "leader_app_accepted ?r m (pr\<lparr>pr_recent_active := True\<rparr>) = Some r'"
    using a False by (simp add: leader_app_resp_def Let_def)
  then have "grows ?r r'" by (rule leader_app_accepted_grows [rotated]) (simp add: ok)
  then show ?thesis by (rule grows_from [rotated]) simp
qed

lemma each_log:
  assumes "each f xs r = Some r'" and "\<And>x a b. f x a = Some b \<Longrightarrow> r_log b = r_log a"
  shows "r_log r' = r_log r"
  by (rule each_rel [where R = "\<lambda>a b. r_log b = r_log a", OF assms(1)]) (use assms(2) in auto)

lemma answer_read_log: "answer_read r req i = Some r' \<Longrightarrow> r_log r' = r_log r"
  by (auto simp: answer_read_def push_read_state_def bind_eq_Some_conv split: if_splits
      dest: raft_send_log)

lemma leader_heartbeat_resp_log:
  assumes "leader_heartbeat_resp r m pr = Some r'"
  shows "r_log r' = r_log r"
proof -
  obtain pr2 r2 where r2: "r2 = put_progress r (m_from m) pr2 \<or>
        send_append (put_progress r (m_from m) pr2) (m_from m) = Some r2"
      and rest: "leader_read_acks r2 m = Some r'"
    using assms by (auto simp: leader_heartbeat_resp_def Let_def split: Option.bind_splits if_splits)
  have "r_log r2 = r_log r" using r2 by (auto dest!: sends sends_only_sel(6))
  moreover have "r_log r' = r_log r2"
    using rest by (auto simp: leader_read_acks_def Let_def bind_eq_Some_conv
        split: if_splits prod.splits dest!: each_log [OF _ answer_read_log])
  ultimately show ?thesis by simp
qed

lemma leader_transfer_log: "leader_transfer r m pr = Some r' \<Longrightarrow> r_log r' = r_log r"
  by (auto simp: leader_transfer_def abort_leader_transfer_def Let_def bind_eq_Some_conv
      split: if_splits dest!: sends sends_only_sel(6))

lemma step_leader_grows:
  assumes ok: "raft_ok r" and room: "room (length (m_entries m)) r" and s: "step_leader r m = Some (st, r')"
  shows "grows r r'"
proof -
  have "m_type m = MsgBeat \<and> bcast_heartbeat r = Some r' \<or>
      m_type m = MsgCheckQuorum \<and> (become_follower r (r_term r) 0 = Some r' \<or> r' = r) \<or>
      m_type m = MsgProp \<and> leader_prop r m = Some (st, r') \<or>
      m_type m = MsgReadIndex \<and> leader_read_index r m = Some r' \<or>
      (\<exists>pr. get_progress r (m_from m) = Some pr \<and> step_leader_progress r m pr = Some r') \<or> r' = r"
    using s by (auto simp: step_leader_def split: msg_type.splits option.splits if_splits)
  moreover have "grows r r'" if "step_leader_progress r m pr = Some r'" for pr
    using that ok
    by (auto simp: step_leader_progress_def leader_snap_status_def leader_unreachable_def
        split: msg_type.splits if_splits intro: grows_same leader_app_resp_grows
        dest: leader_heartbeat_resp_log leader_transfer_log)
  moreover have "bcast_heartbeat r = Some r' \<Longrightarrow> r_log r' = r_log r"
    by (auto simp: bcast_heartbeat_def dest!: bcast_heartbeat_with_ctx_sends sends_only_sel(6))
  ultimately show ?thesis
    using ok room by (auto intro: grows_same leader_prop_grows dest: leader_read_index_log become_follower_log)
qed

section \<open>Elections\<close>

lemma send_vote_requests_log: "send_vote_requests r ct t tm = Some r' \<Longrightarrow> r_log r' = r_log r"
  unfolding send_vote_requests_def
  by (erule each_log) (auto simp: send_vote_request_def bind_eq_Some_conv split: if_splits dest: raft_send_log)

lemma poll_log: "poll r i ty v = Some (n, r') \<Longrightarrow> r_log r' = r_log r"
  by (drule poll_sel(2)) simp

lemma campaign_real_grows:
  assumes ok: "raft_ok r" and room: "room 1 r" and ct: "ct \<noteq> CampaignPreElection"
    and c: "campaign r ct = Some r'"
  shows "grows r r'"
proof -
  obtain r1 n r2 where r1: "become_candidate r = Some r1" "poll r1 (r_id r1) MsgVoteResp True = Some (n, r2)"
    "become_leader r2 = Some r' \<or> send_vote_requests r2 ct MsgVote (r_term r2) = Some r'"
    using c unfolding campaign_real [OF ct] by (auto simp: bind_eq_Some_conv split: if_splits)
  have "r_log r2 = r_log r" using poll_log [OF r1(2)] become_candidate_sel(9) [OF r1(1)] by simp
  then show ?thesis
    using r1(3) become_leader_grows [of r2 r'] ok room
    by (auto simp: grows_def room_def dest: send_vote_requests_log)
qed

lemma campaign_grows:
  assumes ok: "raft_ok r" and room: "room 1 r" and c: "campaign r ct = Some r'"
  shows "grows r r'"
proof (cases "ct = CampaignPreElection")
  case True
  obtain r1 n r2 where r1: "become_pre_candidate r = Some r1"
    "poll r1 (r_id r1) MsgPreVoteResp True = Some (n, r2)"
    "campaign r2 CampaignElection = Some r' \<or>
     send_vote_requests r2 ct MsgPreVote (add64 (r_term r1) 1) = Some r'"
    using c True
    by (subst (asm) campaign.simps) (auto simp: vote_resp_msg_type_def Let_def bind_eq_Some_conv split: if_splits)
  have "r_log r2 = r_log r"
    using poll_log [OF r1(2)] r1(1) by (auto simp: become_pre_candidate_def bind_eq_Some_conv)
  then show ?thesis
    using r1(3) campaign_real_grows [of r2 CampaignElection r'] ok room
    by (auto simp: grows_def room_def dest: send_vote_requests_log)
qed (rule campaign_real_grows [OF ok room _ c])

lemma candidate_vote_resp_grows:
  assumes ok: "raft_ok r" and room: "room 1 r" and s: "candidate_vote_resp r m = Some r'"
  shows "grows r r'"
proof -
  obtain gr r1 where p: "poll r (m_from m) (m_type m) (\<not> m_reject m) = Some (gr, r1)"
    using s by (auto simp: candidate_vote_resp_def bind_eq_Some_conv)
  have log: "r_log r1 = r_log r" by (rule poll_log [OF p])
  then have r1: "raft_ok r1" "room 1 r1" using ok room by (simp_all add: room_def)
  have "grows r1 r'"
    using s p
  proof (cases rule: candidate_vote_resp_cases)
    case next_campaign
    then show ?thesis using campaign_grows [OF r1] by blast
  next
    case (won r2)
    then have "grows r1 r2" "r_log r' = r_log r2"
      using become_leader_grows [OF r1] by (auto dest!: bcast_append_sends sends_only_sel(6))
    then show ?thesis by (simp add: grows_def)
  next
    case lost
    then show ?thesis using r1(1) become_follower_log by (auto intro: grows_same)
  next
    case waiting
    then show ?thesis using r1(1) by (simp add: grows_same)
  qed
  then show ?thesis by (rule grows_from [OF log])
qed

lemma step_vote_log: "step_vote r m = Some r' \<Longrightarrow> r_log r' = r_log r"
  by (auto simp: step_vote_def bind_eq_Some_conv split: if_splits dest!: raft_send_log)

lemma step_hup_grows:
  assumes ok: "raft_ok r" and room: "room 1 r" and s: "step_hup r = Some r'"
  shows "grows r r'"
proof -
  have "r' = r \<or> (\<exists>ct. campaign r ct = Some r')"
    using s by (auto simp: step_hup_def split: Option.bind_splits sum.splits if_splits)
  then show ?thesis using ok room by (auto intro: grows_same campaign_grows)
qed

section \<open>Step\<close>

lemma step_candidate_keeps:
  assumes ok: "raft_ok r" and room: "room 1 r" and m: "msg_sane m"
    and s: "step_candidate r m = Some (st, r')"
  shows "keeps r r'"
proof -
  have h: "keeps r r'" if f: "become_follower r t lead = Some r1"
      and h: "keeps r1 r'" for t lead r1
    by (rule keeps_from [OF _ h]) (simp add: become_follower_log [OF f])
  have ok1: "raft_ok r1" if "become_follower r t lead = Some r1" for t lead r1
    using become_follower_log [OF that] ok by simp
  have "r' = r \<or> candidate_vote_resp r m = Some r' \<or>
      (\<exists>r1. become_follower r (m_term m) (m_from m) = Some r1 \<and>
        (m_type m = MsgApp \<and> handle_append_entries r1 m = Some r' \<or>
         m_type m = MsgHeartbeat \<and> handle_heartbeat r1 m = Some r' \<or>
         m_type m = MsgSnap \<and> handle_snapshot r1 m = Some r'))"
    using s by (auto simp: step_candidate_def bind_eq_Some_conv split: msg_type.splits)
  then show ?thesis
  proof (elim disjE exE conjE)
    assume "candidate_vote_resp r m = Some r'"
    then show ?thesis using candidate_vote_resp_grows [OF ok room] grows_keeps [OF ok] by blast
  next
    fix r1 assume f: "become_follower r (m_term m) (m_from m) = Some r1"
      and a: "m_type m = MsgApp" "handle_append_entries r1 m = Some r'"
    show ?thesis
      by (rule h [OF f handle_append_entries_keeps [OF ok1 [OF f] _ a(2)]])
        (use m a(1) in \<open>simp add: msg_sane_def\<close>)
  next
    fix r1 assume f: "become_follower r (m_term m) (m_from m) = Some r1"
      and a: "m_type m = MsgHeartbeat" "handle_heartbeat r1 m = Some r'"
    show ?thesis
      by (rule h [OF f grows_keeps [OF ok1 [OF f] handle_heartbeat_grows [OF ok1 [OF f] a(2)]]])
  next
    fix r1 assume f: "become_follower r (m_term m) (m_from m) = Some r1"
      and a: "m_type m = MsgSnap" "handle_snapshot r1 m = Some r'"
    show ?thesis
      by (rule h [OF f handle_snapshot_keeps [OF ok1 [OF f] a(2)]])
        (use m a(1) in \<open>simp add: msg_sane_def\<close>)
  qed (use ok in \<open>simp add: keeps_same\<close>)
qed

lemma step_follower_keeps:
  assumes ok: "raft_ok r" and room: "room 1 r" and m: "msg_sane m"
    and s: "step_follower r m = Some (st, r')"
  shows "keeps r r'"
proof -
  let ?h = "heard_from r m"
  have hl: "r_log ?h = r_log r" by (simp add: heard_from_def)
  then have hok: "raft_ok ?h" using ok by simp
  have fwd: "forward_to_leader r m = Some (st, r') \<Longrightarrow> r_log r' = r_log r"
    by (auto simp: forward_to_leader_def bind_eq_Some_conv dest: raft_send_log)
  have "r_log r' = r_log r \<or> campaign r CampaignTransfer = Some r' \<or>
      m_type m = MsgApp \<and> handle_append_entries ?h m = Some r' \<or>
      m_type m = MsgHeartbeat \<and> handle_heartbeat ?h m = Some r' \<or>
      m_type m = MsgSnap \<and> handle_snapshot ?h m = Some r'"
    using s fwd by (auto simp: step_follower_def split: msg_type.splits if_splits list.splits)
  then show ?thesis
  proof (elim disjE conjE)
    assume "campaign r CampaignTransfer = Some r'"
    then show ?thesis using campaign_grows [OF ok room] grows_keeps [OF ok] by blast
  next
    assume a: "m_type m = MsgApp" "handle_append_entries ?h m = Some r'"
    show ?thesis
      by (rule keeps_from [OF hl handle_append_entries_keeps [OF hok _ a(2)]])
        (use m a(1) in \<open>simp add: msg_sane_def\<close>)
  next
    assume a: "handle_heartbeat ?h m = Some r'"
    show ?thesis by (rule keeps_from [OF hl grows_keeps [OF hok handle_heartbeat_grows [OF hok a]]])
  next
    assume a: "m_type m = MsgSnap" "handle_snapshot ?h m = Some r'"
    show ?thesis
      by (rule keeps_from [OF hl handle_snapshot_keeps [OF hok a(2)]])
        (use m a(1) in \<open>simp add: msg_sane_def\<close>)
  qed (use ok in \<open>simp add: keeps_same\<close>)
qed

lemma step_term_log:
  assumes "step_term r m = Some (b, r')"
  shows "r_log r' = r_log r"
  using assms
  by (auto simp: step_term_def step_higher_term_def step_lower_term_def bind_eq_Some_conv
      split: if_splits dest!: raft_send_log become_follower_log)

lemma step_term_same:
  assumes "step_term r m = Some (b, r')" "m_term m \<le> r_term r" "\<not> b"
  shows "r' = r"
  using assms by (auto simp: step_term_def bind_eq_Some_conv split: if_splits)

theorem raft_step_keeps:
  assumes ok: "raft_ok r" and room: "room (length (m_entries m) + 1) r" and m: "msg_sane m"
    and s: "raft_step r m = Some (st, r')"
  shows "keeps r r'"
proof -
  obtain b r1 where t: "step_term r m = Some (b, r1)"
    using s by (auto simp: raft_step_def bind_eq_Some_conv)
  note log = step_term_log [OF t]
  have ok1: "raft_ok r1" "room 1 r1" "room (length (m_entries m)) r1"
    using ok room log by (simp_all add: room_def)
  have "r' = r1 \<or> step_hup r1 = Some r' \<or> step_vote r1 m = Some r' \<or>
      step_follower r1 m = Some (st, r') \<or> step_candidate r1 m = Some (st, r') \<or>
      step_leader r1 m = Some (st, r')"
    using s t by (auto simp: raft_step_def split: if_splits msg_type.splits step_fn.splits)
  then have "keeps r1 r'"
    using ok1 m by (blast intro: keeps_same step_follower_keeps step_candidate_keeps
        grows_keeps step_leader_grows step_hup_grows dest: step_vote_log)
  then show ?thesis by (rule keeps_from [OF log])
qed

text \<open>A leader that is not deposed by the message only appends to its log.\<close>

theorem raft_step_leader_grows:
  assumes ok: "raft_ok r" and room: "room (length (m_entries m) + 1) r" and l: "r_step_fn r = StepLeader"
    and m: "m_term m \<le> r_term r" and s: "raft_step r m = Some (st, r')"
  shows "grows r r'"
proof -
  obtain b r1 where t: "step_term r m = Some (b, r1)"
    using s by (auto simp: raft_step_def bind_eq_Some_conv)
  note log = step_term_log [OF t]
  have ok1: "raft_ok r1" "room 1 r1" "room (length (m_entries m)) r1"
    using ok room log by (simp_all add: room_def)
  have "r' = r1 \<or> step_hup r1 = Some r' \<or> step_vote r1 m = Some r' \<or> step_leader r1 m = Some (st, r')"
    using s t l step_term_same [OF t m]
    by (auto simp: raft_step_def split: if_splits msg_type.splits step_fn.splits)
  then have "grows r1 r'"
    using ok1 by (blast intro: grows_same step_leader_grows step_hup_grows dest: step_vote_log)
  then show ?thesis by (rule grows_from [OF log])
qed

end
