(* ===== verification/Wal.thy ===== *)
theory Wal
  imports Storage "HOL-Library.Char_ord"
begin

text \<open>
  The write-ahead log: \<open>wal/wal.h\<close> and \<open>wal/wal.cpp\<close>.

  A \<open>WAL_File\<close> is the byte sequence its \<open>FILE\<close> stream holds, the position the next read starts
  from, the bytes that wait in \<open>data_buffer\<close>, and \<open>file_size\<close>.  The stream is opened in append mode,
  so a write goes to its end.  Errors of the operating system are not modelled.  Integers in a record
  are stored in the byte order of the host, which is taken to be little-endian.

  The msgpack encodings and the CRC are third-party code: the record \<open>codec\<close> holds them and is an
  argument of every definition that uses one.  An unpacking that throws is \<open>None\<close>; nobody catches it
  here.  \<open>codec_ok\<close> states what the program relies on.
\<close>

section \<open>Third-party encodings\<close>

record wal_snapshot =
  ws_index :: nat
  ws_term :: nat

record codec =
  pk_entry :: "entry \<Rightarrow> string"
  up_entry :: "string \<Rightarrow> entry option"
  pk_state :: "hard_state \<Rightarrow> string"
  up_state :: "string \<Rightarrow> hard_state option"
  pk_snap :: "wal_snapshot \<Rightarrow> string"
  up_snap :: "string \<Rightarrow> wal_snapshot option"
  crc_of :: "string \<Rightarrow> nat"

definition codec_ok :: "codec \<Rightarrow> bool" where
  "codec_ok c \<longleftrightarrow>
     (\<forall>e. up_entry c (pk_entry c e) = Some e) \<and>
     (\<forall>h. up_state c (pk_state c h) = Some h) \<and>
     (\<forall>s. up_snap c (pk_snap c s) = Some s)"

text \<open>\<open>compute_crc32\<close> of \<open>raft/util.cpp\<close>: the CRC as a 32-bit value.\<close>

definition compute_crc32 :: "codec \<Rightarrow> string \<Rightarrow> nat" where
  "compute_crc32 c d = crc_of c d mod W32"

section \<open>Records\<close>

definition wal_InvalidType :: nat where "wal_InvalidType = 0"
definition wal_EntryType :: nat where "wal_EntryType = 1"
definition wal_StateType :: nat where "wal_StateType = 2"
definition wal_CrcType :: nat where "wal_CrcType = 3"
definition wal_snapshot_Type :: nat where "wal_snapshot_Type = 4"

definition SegmentSizeBytes :: nat where
  "SegmentSizeBytes = 64 * 1000 * 1000"

record wal_record =
  wr_type :: nat
  wr_len0 :: nat
  wr_len1 :: nat
  wr_len2 :: nat
  wr_crc :: nat

definition MAX_WAL_RECORD_LEN :: nat where
  "MAX_WAL_RECORD_LEN = 16777215"

text \<open>The three bytes do not overlap, so the bitwise or of the code is their sum.\<close>

definition WAL_Record_len :: "wal_record \<Rightarrow> nat" where
  "WAL_Record_len r = wr_len2 r * 2 ^ 16 + wr_len1 r * 2 ^ 8 + wr_len0 r"

definition set_WAL_Record_len :: "wal_record \<Rightarrow> nat \<Rightarrow> wal_record" where
  "set_WAL_Record_len r len =
     (let len = min (len mod W32) MAX_WAL_RECORD_LEN in
      r\<lparr>wr_len2 := len div 2 ^ 16 mod 256, wr_len1 := len div 2 ^ 8 mod 256, wr_len0 := len mod 256\<rparr>)"

text \<open>The packed struct in memory: eight bytes.\<close>

primrec le_bytes :: "nat \<Rightarrow> nat \<Rightarrow> string" where
  "le_bytes 0 n = []"
| "le_bytes (Suc k) n = char_of (n mod 256) # le_bytes k (n div 256)"

primrec of_le :: "string \<Rightarrow> nat" where
  "of_le [] = 0"
| "of_le (ch # cs) = of_char ch + 256 * of_le cs"

definition record_bytes :: "wal_record \<Rightarrow> string" where
  "record_bytes r =
     [char_of (wr_type r), char_of (wr_len0 r), char_of (wr_len1 r), char_of (wr_len2 r)]
       @ le_bytes 4 (wr_crc r)"

definition record_of_bytes :: "string \<Rightarrow> wal_record" where
  "record_of_bytes bs =
     \<lparr>wr_type = of_char (bs ! 0), wr_len0 = of_char (bs ! 1), wr_len1 = of_char (bs ! 2),
      wr_len2 = of_char (bs ! 3), wr_crc = of_le (take 4 (drop 4 bs))\<rparr>"

definition sizeof_record :: nat where
  "sizeof_record = 8"

section \<open>A file\<close>

record wal_file =
  wf_seq :: nat
  wf_stream :: string
  wf_pos :: nat
  wf_buffer :: string
  wf_size :: nat

text \<open>
  The constructor.  \<open>tell\<close> is what \<open>ftell\<close> reports for a stream that has just been opened in append
  mode, which the C standard leaves to the implementation.
\<close>

definition new_wal_file :: "(string \<Rightarrow> nat) \<Rightarrow> string \<Rightarrow> nat \<Rightarrow> wal_file" where
  "new_wal_file tell content seq =
     \<lparr>wf_seq = seq, wf_stream = content, wf_pos = 0, wf_buffer = '''', wf_size = tell content\<rparr>"

definition file_truncate :: "wal_file \<Rightarrow> nat \<Rightarrow> wal_file" where
  "file_truncate f offset =
     f\<lparr>wf_stream := vec_resize (CHR 0x00) offset (wf_stream f), wf_pos := offset,
       wf_size := offset, wf_buffer := ''''\<rparr>"

definition record_header :: "codec \<Rightarrow> nat \<Rightarrow> string \<Rightarrow> wal_record" where
  "record_header c t data =
     set_WAL_Record_len
       \<lparr>wr_type = t, wr_len0 = 0, wr_len1 = 0, wr_len2 = 0, wr_crc = compute_crc32 c data\<rparr>
       (length data)"

definition file_append :: "codec \<Rightarrow> nat \<Rightarrow> string \<Rightarrow> wal_file \<Rightarrow> wal_file" where
  "file_append c t data f =
     f\<lparr>wf_buffer := wf_buffer f @ record_bytes (record_header c t data) @ data\<rparr>"

definition file_sync :: "wal_file \<Rightarrow> wal_file" where
  "file_sync f =
     (if wf_buffer f = '''' then f
      else f\<lparr>wf_stream := wf_stream f @ wf_buffer f,
             wf_pos := length (wf_stream f) + length (wf_buffer f),
             wf_size := wf_size f + length (wf_buffer f), wf_buffer := ''''\<rparr>)"

definition file_read_all :: "wal_file \<Rightarrow> string \<times> wal_file" where
  "file_read_all f = (drop (wf_pos f) (wf_stream f), f\<lparr>wf_pos := length (wf_stream f)\<rparr>)"

section \<open>Reading the log\<close>

record wal =
  w_state :: hard_state
  w_start :: wal_snapshot
  w_enti :: nat
  w_files :: "wal_file list"

text \<open>
  The out-parameters of \<open>read_all\<close>, \<open>matchsnap\<close> and \<open>enti_\<close>.  \<open>resize\<close> fills up with null pointers,
  so that an element of \<open>ents\<close> may be null: \<open>None\<close>.
\<close>

record reading =
  rg_match :: bool
  rg_state :: hard_state
  rg_ents :: "entry option list"
  rg_enti :: nat

definition handle_record ::
  "codec \<Rightarrow> wal_snapshot \<Rightarrow> nat \<Rightarrow> string \<Rightarrow> reading \<Rightarrow> reading option" where
  "handle_record c start t data r =
     (if t = wal_EntryType then do {
        e \<leftarrow> up_entry c data;
        let r1 = (if e_index e > ws_index start
                  then r\<lparr>rg_ents :=
                         vec_resize None (e_index e - ws_index start - 1) (rg_ents r) @ [Some e]\<rparr>
                  else r);
        Some (r1\<lparr>rg_enti := e_index e\<rparr>)
      }
      else if t = wal_StateType then do {
        h \<leftarrow> up_state c data;
        Some (r\<lparr>rg_state := h\<rparr>)
      }
      else if t = wal_snapshot_Type then do {
        s \<leftarrow> up_snap c data;
        if ws_index s = ws_index start then do {
          check (ws_term s = ws_term start);
          Some (r\<lparr>rg_match := True\<rparr>)
        }
        else Some r
      }
      else None)"

text \<open>
  The loop over the bytes of one file.  The second result is the offset at which the file is cut off,
  if it is.
\<close>

function wal_loop ::
  "codec \<Rightarrow> wal_snapshot \<Rightarrow> string \<Rightarrow> nat \<Rightarrow> reading \<Rightarrow> (reading \<times> nat option) option" where
  "wal_loop c start data offset r =
     (if \<not> offset < length data then Some (r, None)
      else if length data - offset < sizeof_record then Some (r, Some offset)
      else
        let h = record_of_bytes (take sizeof_record (drop offset data));
            body = offset + sizeof_record;
            len = WAL_Record_len h
        in if wr_type h = wal_InvalidType then Some (r, None)
           else if length data - body < len then Some (r, Some offset)
           else
             let d = take len (drop body data)
             in if wr_crc h \<noteq> 0 \<and> compute_crc32 c d \<noteq> wr_crc h then Some (r, Some offset)
                else do {
                  r1 \<leftarrow> handle_record c start (wr_type h) d r;
                  wal_loop c start data (body + len)
                    (if wr_type h = wal_snapshot_Type then r1\<lparr>rg_match := True\<rparr> else r1)
                })"
  by pat_completeness auto
termination
  by (relation "measure (\<lambda>(c, start, data, offset, r). length data - offset)")
     (auto simp: sizeof_record_def)

declare wal_loop.simps [simp del]

primrec read_files ::
  "codec \<Rightarrow> wal_snapshot \<Rightarrow> wal_file list \<Rightarrow> reading \<Rightarrow> (reading \<times> wal_file list) option" where
  "read_files c start [] r = Some (r, [])"
| "read_files c start (f # fs) r = do {
     let (data, f1) = file_read_all f;
     (r1, cut) \<leftarrow> wal_loop c start data 0 (r\<lparr>rg_match := False\<rparr>);
     let f2 = (case cut of None \<Rightarrow> f1 | Some k \<Rightarrow> file_truncate f1 k);
     check (rg_match r1);
     (r2, fs2) \<leftarrow> read_files c start fs r1;
     Some (r2, f2 # fs2)
   }"

definition wal_read_all ::
  "codec \<Rightarrow> wal \<Rightarrow> (hard_state \<times> entry option list \<times> wal) option" where
  "wal_read_all c w = do {
     (r, fs) \<leftarrow> read_files c (w_start w) (w_files w)
       \<lparr>rg_match = False, rg_state = empty_hard_state, rg_ents = [], rg_enti = w_enti w\<rparr>;
     Some (rg_state r, rg_ents r, w\<lparr>w_files := fs, w_enti := rg_enti r\<rparr>)
   }"

section \<open>Writing the log\<close>

text \<open>\<open>files_.back()\<close> of an empty vector is undefined.\<close>

definition on_back :: "(wal_file \<Rightarrow> wal_file) \<Rightarrow> wal \<Rightarrow> wal option" where
  "on_back f w =
     (if w_files w = [] then None
      else Some (w\<lparr>w_files := butlast (w_files w) @ [f (last (w_files w))]\<rparr>))"

definition wal_save_entry :: "codec \<Rightarrow> entry \<Rightarrow> wal \<Rightarrow> wal option" where
  "wal_save_entry c e w = do {
     w \<leftarrow> on_back (file_append c wal_EntryType (pk_entry c e)) w;
     Some (w\<lparr>w_enti := e_index e\<rparr>)
   }"

definition wal_save_hard_state :: "codec \<Rightarrow> hard_state \<Rightarrow> wal \<Rightarrow> wal option" where
  "wal_save_hard_state c hs w =
     (if hs_is_empty hs then Some w
      else on_back (file_append c wal_StateType (pk_state c hs)) (w\<lparr>w_state := hs\<rparr>))"

definition wal_cut :: "wal \<Rightarrow> wal option" where
  "wal_cut w = on_back file_sync w"

definition wal_save :: "codec \<Rightarrow> hard_state \<Rightarrow> entry list \<Rightarrow> wal \<Rightarrow> wal option" where
  "wal_save c hs ents w =
     (if hs_is_empty hs \<and> ents = [] then Some w
      else do {
        let must = is_must_sync hs (w_state w) (length ents);
        w \<leftarrow> each (wal_save_entry c) ents w;
        w \<leftarrow> wal_save_hard_state c hs w;
        check (w_files w \<noteq> []);
        if wf_size (last (w_files w)) < SegmentSizeBytes
        then (if must then on_back file_sync w else Some w)
        else wal_cut w
      })"

definition wal_save_snapshot :: "codec \<Rightarrow> wal_snapshot \<Rightarrow> wal \<Rightarrow> wal option" where
  "wal_save_snapshot c s w = do {
     w \<leftarrow> on_back (file_append c wal_snapshot_Type (pk_snap c s)) w;
     let w1 = (if w_enti w < ws_index s then w\<lparr>w_enti := ws_index s\<rparr> else w);
     on_back file_sync w1
   }"

definition wal_release_to :: "nat \<Rightarrow> wal \<Rightarrow> status \<times> wal" where
  "wal_release_to index w = (StatusOk, w)"

end
