(* ===== verification/Wal_Frames.thy ===== *)
theory Wal_Frames
  imports Wal
begin

text \<open>
  The record format of the write-ahead log: a record reads back as it was written, and the reading
  loop recovers, from any prefix of a sequence of records, exactly the records that are complete.
\<close>

section \<open>The header of a record\<close>

lemma length_le_bytes [simp]: "length (le_bytes k n) = k"
  by (induction k arbitrary: n) auto

lemma of_le_le_bytes: "of_le (le_bytes k n) = n mod 256 ^ k"
proof (induction k arbitrary: n)
  case (Suc k)
  have "n mod 256 ^ Suc k = 256 * (n div 256 mod 256 ^ k) + n mod 256"
    by (simp add: mod_mult2_eq)
  then show ?case using Suc by (simp add: of_char_of)
qed simp

lemma of_le_4: "n < W32 \<Longrightarrow> of_le (le_bytes 4 n) = n"
  by (simp add: of_le_le_bytes W32_def)

definition record_wf :: "wal_record \<Rightarrow> bool" where
  "record_wf r \<longleftrightarrow> wr_type r < 256 \<and> wr_len0 r < 256 \<and> wr_len1 r < 256 \<and> wr_len2 r < 256 \<and>
     wr_crc r < W32"

lemma length_record_bytes [simp]: "length (record_bytes r) = sizeof_record"
  by (simp add: record_bytes_def sizeof_record_def)

lemma record_of_record_bytes:
  assumes "record_wf r" shows "record_of_bytes (record_bytes r) = r"
proof -
  have "of_le (le_bytes 4 (wr_crc r)) = wr_crc r"
    using assms by (simp add: of_le_le_bytes record_wf_def W32_def)
  moreover have "take 4 (le_bytes 4 (wr_crc r)) = le_bytes 4 (wr_crc r)" by simp
  ultimately show ?thesis
    using assms by (simp add: record_of_bytes_def record_bytes_def record_wf_def of_char_of)
qed

lemma set_WAL_Record_len_wf:
  "wr_type r < 256 \<Longrightarrow> wr_crc r < W32 \<Longrightarrow> record_wf (set_WAL_Record_len r n)"
  by (simp add: record_wf_def set_WAL_Record_len_def Let_def)

lemma three_bytes:
  fixes n :: nat
  assumes "n < 16777216"
  shows "n div 65536 mod 256 * 65536 + n div 256 mod 256 * 256 + n mod 256 = n"
proof -
  define a b where "a = n div 256" and "b = a div 256"
  have "n div 65536 = b" by (simp add: a_def b_def div_mult2_eq [symmetric])
  moreover have "b < 256" using assms by (simp add: a_def b_def)
  moreover have "n = a * 256 + n mod 256" "a = b * 256 + a mod 256"
    unfolding a_def b_def by simp_all
  ultimately show ?thesis unfolding a_def [symmetric] by simp
qed

lemma set_WAL_Record_len_len:
  "WAL_Record_len (set_WAL_Record_len r n) = min (n mod W32) MAX_WAL_RECORD_LEN"
proof -
  have "min (n mod W32) MAX_WAL_RECORD_LEN < 16777216" by (simp add: MAX_WAL_RECORD_LEN_def)
  from three_bytes [OF this] show ?thesis
    by (simp add: WAL_Record_len_def set_WAL_Record_len_def Let_def)
qed

section \<open>Frames\<close>

text \<open>What \<open>append\<close> writes for a record of a type with its data.\<close>

definition frame :: "codec \<Rightarrow> nat \<times> string \<Rightarrow> string" where
  "frame c rec = record_bytes (record_header c (fst rec) (snd rec)) @ snd rec"

definition frames :: "codec \<Rightarrow> (nat \<times> string) list \<Rightarrow> string" where
  "frames c recs = concat (map (frame c) recs)"

definition framable :: "nat \<times> string \<Rightarrow> bool" where
  "framable rec \<longleftrightarrow> 0 < fst rec \<and> fst rec < 256 \<and> length (snd rec) \<le> MAX_WAL_RECORD_LEN"

lemma length_frame [simp]: "length (frame c rec) = sizeof_record + length (snd rec)"
  by (simp add: frame_def)

lemma frames_simps [simp]:
  "frames c [] = []" "frames c (rec # recs) = frame c rec @ frames c recs"
  "frames c (recs @ recs') = frames c recs @ frames c recs'"
  by (simp_all add: frames_def)

lemma record_header_read:
  assumes "framable rec"
  shows "record_of_bytes (record_bytes (record_header c (fst rec) (snd rec))) =
           record_header c (fst rec) (snd rec)"
  using assms
  by (intro record_of_record_bytes)
     (simp add: record_header_def framable_def compute_crc32_def set_WAL_Record_len_wf)

lemma record_header_fields:
  assumes "framable rec"
  shows "wr_type (record_header c (fst rec) (snd rec)) = fst rec"
    and "wr_crc (record_header c (fst rec) (snd rec)) = compute_crc32 c (snd rec)"
    and "WAL_Record_len (record_header c (fst rec) (snd rec)) = length (snd rec)"
proof -
  have "length (snd rec) mod W32 = length (snd rec)"
    using assms by (simp add: framable_def MAX_WAL_RECORD_LEN_def W32_def)
  then show "WAL_Record_len (record_header c (fst rec) (snd rec)) = length (snd rec)"
    using assms by (simp add: record_header_def set_WAL_Record_len_len framable_def)
qed (simp_all add: record_header_def set_WAL_Record_len_def Let_def)

section \<open>The reading loop\<close>

definition mark :: "nat \<Rightarrow> reading \<Rightarrow> reading" where
  "mark t r = (if t = wal_snapshot_Type then r\<lparr>rg_match := True\<rparr> else r)"

definition replay :: "codec \<Rightarrow> wal_snapshot \<Rightarrow> (nat \<times> string) list \<Rightarrow> reading \<Rightarrow> reading option" where
  "replay c start = each (\<lambda>rec r. map_option (mark (fst rec)) (handle_record c start (fst rec) (snd rec) r))"

lemma replay_simps [simp]:
  "replay c start [] r = Some r"
  "replay c start (rec # recs) r =
     do { r1 \<leftarrow> handle_record c start (fst rec) (snd rec) r;
          replay c start recs (mark (fst rec) r1) }"
  by (cases "handle_record c start (fst rec) (snd rec) r"; simp add: replay_def)+

lemma wal_loop_frame:
  assumes "framable rec"
  shows "wal_loop c start (pre @ frame c rec @ rest) (length pre) r =
    do { r1 \<leftarrow> handle_record c start (fst rec) (snd rec) r;
         wal_loop c start (pre @ frame c rec @ rest) (length (pre @ frame c rec)) (mark (fst rec) r1) }"
proof -
  let ?h = "record_header c (fst rec) (snd rec)"
  have split: "pre @ frame c rec @ rest = pre @ record_bytes ?h @ snd rec @ rest"
    by (simp add: frame_def)
  have hd: "take sizeof_record (drop (length pre) (pre @ record_bytes ?h @ snd rec @ rest)) = record_bytes ?h"
    by simp
  have body: "take (length (snd rec))
      (drop (length pre + sizeof_record) (pre @ record_bytes ?h @ snd rec @ rest)) = snd rec"
    by simp
  show ?thesis
    unfolding split using assms
    by (subst wal_loop.simps, unfold hd record_header_read [OF assms])
       (simp add: record_header_fields body Let_def framable_def wal_InvalidType_def mark_def
         sizeof_record_def [symmetric] add.assoc, simp add: sizeof_record_def)
qed

lemma wal_loop_frames:
  assumes "list_all framable recs"
  shows "wal_loop c start (pre @ frames c recs @ rest) (length pre) r =
    do { r1 \<leftarrow> replay c start recs r;
         wal_loop c start (pre @ frames c recs @ rest) (length (pre @ frames c recs)) r1 }"
  using assms
proof (induction recs arbitrary: pre r)
  case (Cons rec recs)
  show ?case
    using Cons.prems wal_loop_frame [of rec c start pre "frames c recs @ rest" r]
      Cons.IH [of "pre @ frame c rec"]
    by (cases "handle_record c start (fst rec) (snd rec) r") simp_all
qed simp

section \<open>A torn tail\<close>

text \<open>What a crash may leave behind the last complete record: less than one frame.\<close>

definition torn :: "codec \<Rightarrow> string \<Rightarrow> bool" where
  "torn c tail \<longleftrightarrow> (\<exists>rec n. framable rec \<and> n < length (frame c rec) \<and> tail = take n (frame c rec))"

lemma torn_Nil: "torn c []"
  unfolding torn_def
  by (intro exI [of _ "(1, [])"] exI [of _ 0])
     (simp add: framable_def sizeof_record_def MAX_WAL_RECORD_LEN_def)

lemma wal_loop_torn:
  assumes "torn c tail"
  shows "wal_loop c start (pre @ tail) (length pre) r = Some (r, if tail = [] then None else Some (length pre))"
proof -
  obtain rec n where rec: "framable rec" "n < length (frame c rec)" "tail = take n (frame c rec)"
    using assms unfolding torn_def by blast
  have len: "length tail = n" using rec(2,3) by simp
  let ?h = "record_header c (fst rec) (snd rec)"
  consider "n = 0" | "0 < n" "n < sizeof_record" | "sizeof_record \<le> n" by linarith
  then show ?thesis
  proof cases
    case 1
    then show ?thesis using len by (subst wal_loop.simps) simp
  next
    case 2
    then show ?thesis using len by (subst wal_loop.simps) auto
  next
    case 3
    then have "take sizeof_record tail = record_bytes ?h"
      by (simp add: rec(3) frame_def)
    moreover have "tail \<noteq> []" using 3 len by (auto simp: sizeof_record_def)
    ultimately show ?thesis
      using 3 len rec(1,2)
      by (subst wal_loop.simps)
         (auto simp: record_header_read record_header_fields Let_def framable_def wal_InvalidType_def)
  qed
qed

text \<open>Every prefix of a sequence of frames is a sequence of frames and a torn tail.\<close>

primrec complete :: "codec \<Rightarrow> nat \<Rightarrow> (nat \<times> string) list \<Rightarrow> (nat \<times> string) list" where
  "complete c k [] = []"
| "complete c k (rec # recs) =
     (if length (frame c rec) \<le> k then rec # complete c (k - length (frame c rec)) recs else [])"

lemma complete_prefix: "\<exists>n. complete c k recs = take n recs"
proof (induction recs arbitrary: k)
  case (Cons rec recs)
  obtain n where "complete c (k - length (frame c rec)) recs = take n recs" using Cons by blast
  then have "complete c k (rec # recs) = take (if length (frame c rec) \<le> k then Suc n else 0) (rec # recs)"
    by simp
  then show ?case by blast
qed simp

lemma complete_all: "length (frames c recs) \<le> k \<Longrightarrow> complete c k recs = recs"
  by (induction recs arbitrary: k) auto

lemma complete_torn:
  assumes "list_all framable recs"
  shows "\<exists>tail. take k (frames c recs) = frames c (complete c k recs) @ tail \<and> torn c tail"
  using assms
proof (induction recs arbitrary: k)
  case (Cons rec recs)
  show ?case
  proof (cases "length (frame c rec) \<le> k")
    case True
    obtain tail where "take (k - length (frame c rec)) (frames c recs) =
        frames c (complete c (k - length (frame c rec)) recs) @ tail" "torn c tail"
      using Cons.IH Cons.prems by auto
    then show ?thesis using True by auto
  next
    case False
    then have "take k (frames c (rec # recs)) = take k (frame c rec)" by simp
    moreover have "torn c (take k (frame c rec))"
      unfolding torn_def using False Cons.prems
      by (intro exI [of _ rec] exI [of _ k]) auto
    ultimately show ?thesis using False by auto
  qed
qed (use torn_Nil in auto)

lemma complete_framable: "list_all framable recs \<Longrightarrow> list_all framable (complete c k recs)"
  by (induction recs arbitrary: k) auto

text \<open>The loop over what a crash left of a log.\<close>

lemma wal_loop_prefix:
  assumes "list_all framable recs"
  shows "\<exists>cut. wal_loop c start (take k (frames c recs)) 0 r =
      map_option (\<lambda>r1. (r1, cut)) (replay c start (complete c k recs) r) \<and>
    cut = (if take k (frames c recs) = frames c (complete c k recs) then None
           else Some (length (frames c (complete c k recs))))"
proof -
  obtain tail where tail: "take k (frames c recs) = frames c (complete c k recs) @ tail" "torn c tail"
    using complete_torn [OF assms] by blast
  have fr: "list_all framable (complete c k recs)" by (rule complete_framable [OF assms])
  show ?thesis
    using wal_loop_frames [OF fr, of c start "[]" tail r]
      wal_loop_torn [OF tail(2), of start "frames c (complete c k recs)"]
    by (cases "replay c start (complete c k recs) r") (auto simp: tail(1))
qed

end
