(* ===== verification/Wal_Names.thy ===== *)
theory Wal_Names
  imports Wal "HOL-Library.List_Lexorder"
begin

text \<open>
  The files of the write-ahead log: names, and the part of \<open>wal/wal.cpp\<close> that works on a directory.
  A directory is an association list from file names to contents.
\<close>

section \<open>File names\<close>

definition hex_digit :: "nat \<Rightarrow> char" where
  "hex_digit d = (if d < 10 then char_of (48 + d) else char_of (87 + d))"

primrec hex_pad :: "nat \<Rightarrow> nat \<Rightarrow> string" where
  "hex_pad 0 n = ''''"
| "hex_pad (Suc k) n = hex_pad k (n div 16) @ [hex_digit (n mod 16)]"

text \<open>\<open>%016lx\<close> of a 64-bit value has exactly sixteen digits.\<close>

definition wal_name :: "nat \<Rightarrow> nat \<Rightarrow> string" where
  "wal_name seq index = hex_pad 16 seq @ ''-'' @ hex_pad 16 index @ ''.wal''"

text \<open>
  \<open>ss << std::hex << str; ss >> v\<close>: blanks are skipped, a sign and a \<open>0x\<close> are accepted, the longest run of
  hexadecimal digits is the number; no digits give 0 and a number that does not fit gives the
  greatest one.  The stream reports neither by an exception.
\<close>

definition is_space :: "char \<Rightarrow> bool" where
  "is_space ch \<longleftrightarrow> (let n = of_char ch :: nat in n = 32 \<or> 9 \<le> n \<and> n \<le> 13)"

definition hex_value :: "char \<Rightarrow> nat option" where
  "hex_value ch =
     (let n = of_char ch :: nat in
      if 48 \<le> n \<and> n \<le> 57 then Some (n - 48)
      else if 97 \<le> n \<and> n \<le> 102 then Some (n - 87)
      else if 65 \<le> n \<and> n \<le> 70 then Some (n - 55)
      else None)"

fun hex_run :: "nat \<Rightarrow> string \<Rightarrow> nat" where
  "hex_run v [] = v"
| "hex_run v (ch # cs) = (case hex_value ch of Some d \<Rightarrow> hex_run (16 * v + d) cs | None \<Rightarrow> v)"

fun read_sign :: "string \<Rightarrow> bool \<times> string" where
  "read_sign (ch # cs) =
     (if ch = CHR ''-'' then (True, cs) else if ch = CHR ''+'' then (False, cs) else (False, ch # cs))"
| "read_sign [] = (False, [])"

definition skip_0x :: "string \<Rightarrow> string" where
  "skip_0x s = (if take 2 s = ''0x'' \<or> take 2 s = ''0X'' then drop 2 s else s)"

definition read_hex :: "string \<Rightarrow> nat" where
  "read_hex str =
     (let (neg, s) = read_sign (dropWhile is_space str);
          v = hex_run 0 (skip_0x s)
      in if v \<ge> W64 then W64 - 1 else if neg then sub64 0 v else v)"

text \<open>
  The extension of a path: from its last dot on, with the dot.  The names a directory lists hold no
  separator.
\<close>

definition path_extension :: "string \<Rightarrow> string" where
  "path_extension s =
     (if s = ''.'' \<or> s = ''..'' \<or> CHR ''.'' \<notin> set s then ''''
      else CHR ''.'' # rev (takeWhile (\<lambda>ch. ch \<noteq> CHR ''.'') (rev s)))"

definition parse_wal_name :: "string \<Rightarrow> bool \<times> nat \<times> nat" where
  "parse_wal_name name =
     (if path_extension name \<noteq> ''.wal'' then (False, 0, 0)
      else
        let filename = take (length name - 4) name;
            pos = length (takeWhile (\<lambda>ch. ch \<noteq> CHR ''-'') filename)
        in if pos = length filename then (False, 0, 0)
           else
             let seq = read_hex (take pos filename)
             in if pos = length filename - 1 then (False, seq, 0)
                else (True, seq, read_hex (drop (pos + 1) filename)))"

text \<open>A name that does not parse is fatal.\<close>

primrec valid_seq_loop :: "nat \<Rightarrow> string list \<Rightarrow> bool option" where
  "valid_seq_loop lst [] = Some True"
| "valid_seq_loop lst (name # names) =
     (let (ok, cur, i) = parse_wal_name name in
      if \<not> ok then None
      else if lst \<noteq> 0 \<and> lst \<noteq> sub64 cur 1 then Some False
      else valid_seq_loop cur names)"

definition is_valid_seq :: "string list \<Rightarrow> bool option" where
  "is_valid_seq names = valid_seq_loop 0 names"

text \<open>
  \<open>search_index\<close> walks down from the last name.  With no names \<open>names.size() - 1\<close> wraps around and
  \<open>names[i]\<close> is out of range.  The result is the index found, or \<open>None\<close> inside for \<open>false\<close>.
\<close>

fun search_down :: "string list \<Rightarrow> nat \<Rightarrow> nat \<Rightarrow> nat option option" where
  "search_down names index i = do {
     name \<leftarrow> vec_at names i;
     let (ok, seq, cur) = parse_wal_name name;
     check ok;
     if index \<ge> cur then Some (Some i)
     else if i = 0 then Some None
     else search_down names index (i - 1)
   }"

declare search_down.simps [simp del]

definition search_index :: "string list \<Rightarrow> nat \<Rightarrow> nat option option" where
  "search_index names index = search_down names index (sub64 (length names) 1)"

section \<open>The directory\<close>

type_synonym dir = "(string \<times> string) list"

definition get_wal_names :: "dir \<Rightarrow> string list" where
  "get_wal_names d = sort (filter (\<lambda>n. path_extension n = ''.wal'') (map fst d))"

text \<open>The log is built under a temporary name and renamed.\<close>

definition wal_create :: "codec \<Rightarrow> dir \<Rightarrow> dir" where
  "wal_create c d =
     (let name = wal_name 0 0;
          tmp = name @ ''.tmp'';
          d1 = (if tmp \<in> set (map fst d) then AList.delete tmp d else d);
          f = new_wal_file length '''' 0;
          f1 = file_sync
            (file_append c wal_snapshot_Type (pk_snap c \<lparr>ws_index = 0, ws_term = 0\<rparr>) f)
      in AList.update name (wf_stream f1) (AList.delete tmp d1))"

primrec open_files :: "(string \<Rightarrow> nat) \<Rightarrow> dir \<Rightarrow> string list \<Rightarrow> wal_file list option" where
  "open_files tell d [] = Some []"
| "open_files tell d (name # names) = do {
     let (ok, seq, index) = parse_wal_name name;
     check ok;
     content \<leftarrow> map_of d name;
     fs \<leftarrow> open_files tell d names;
     Some (new_wal_file tell content seq # fs)
   }"

definition wal_open :: "(string \<Rightarrow> nat) \<Rightarrow> dir \<Rightarrow> wal_snapshot \<Rightarrow> wal option" where
  "wal_open tell d snap = do {
     let names = get_wal_names d;
     check (names \<noteq> []);
     found \<leftarrow> search_index names (ws_index snap);
     i \<leftarrow> found;
     let names = drop i names;
     ok \<leftarrow> is_valid_seq names;
     check ok;
     fs \<leftarrow> open_files tell d names;
     Some \<lparr>w_state = empty_hard_state, w_start = snap, w_enti = 0, w_files = fs\<rparr>
   }"

end
