(* ===== verification/Wal_Replay.thy ===== *)
theory Wal_Replay
  imports Wal_Frames Wal_Names
begin

text \<open>
  What the write-ahead log is for: the operations write records, reading the records back gives the
  hard state last saved and the entries saved last under each index, and the log that the storage
  holds after a restart is the one it held before.
\<close>

section \<open>What the records mean\<close>

datatype item = ItemEntry entry | ItemState hard_state | ItemSnap wal_snapshot

fun item_record :: "codec \<Rightarrow> item \<Rightarrow> nat \<times> string" where
  "item_record c (ItemEntry e) = (wal_EntryType, pk_entry c e)"
| "item_record c (ItemState h) = (wal_StateType, pk_state c h)"
| "item_record c (ItemSnap s) = (wal_snapshot_Type, pk_snap c s)"

definition item_fits :: "codec \<Rightarrow> item \<Rightarrow> bool" where
  "item_fits c it \<longleftrightarrow> length (snd (item_record c it)) \<le> MAX_WAL_RECORD_LEN"

definition put_entry :: "nat \<Rightarrow> entry \<Rightarrow> entry option list \<Rightarrow> entry option list" where
  "put_entry start e es =
     (if e_index e > start then vec_resize None (e_index e - start - 1) es @ [Some e] else es)"

fun item_step :: "wal_snapshot \<Rightarrow> item \<Rightarrow> reading \<Rightarrow> reading option" where
  "item_step start (ItemEntry e) r =
     Some (r\<lparr>rg_ents := put_entry (ws_index start) e (rg_ents r), rg_enti := e_index e\<rparr>)"
| "item_step start (ItemState h) r = Some (r\<lparr>rg_state := h\<rparr>)"
| "item_step start (ItemSnap s) r =
     (if ws_index s = ws_index start \<and> ws_term s \<noteq> ws_term start then None
      else Some (r\<lparr>rg_match := True\<rparr>))"

lemmas wal_types = wal_InvalidType_def wal_EntryType_def wal_StateType_def wal_CrcType_def
  wal_snapshot_Type_def

lemma item_framable: "item_fits c it \<Longrightarrow> framable (item_record c it)"
  by (cases it) (auto simp: framable_def item_fits_def wal_types)

lemma item_replay:
  assumes "codec_ok c"
  shows "map_option (mark (fst (item_record c it)))
      (handle_record c start (fst (item_record c it)) (snd (item_record c it)) r) = item_step start it r"
  using assms
  by (cases it)
     (auto simp: codec_ok_def handle_record_def mark_def put_entry_def wal_types check_def Let_def)

lemma replay_items:
  assumes "codec_ok c"
  shows "replay c start (map (item_record c) its) r = each (item_step start) its r"
proof (induction its arbitrary: r)
  case (Cons it its)
  then show ?case
    by (cases "handle_record c start (fst (item_record c it)) (snd (item_record c it)) r")
       (simp_all add: item_replay [OF assms, symmetric])
qed simp

section \<open>What the operations write\<close>

datatype wal_op = Save hard_state "entry list" | SaveSnapshot wal_snapshot

fun wal_exec :: "codec \<Rightarrow> wal_op \<Rightarrow> wal \<Rightarrow> wal option" where
  "wal_exec c (Save hs es) w = wal_save c hs es w"
| "wal_exec c (SaveSnapshot s) w = wal_save_snapshot c s w"

fun op_items :: "wal_op \<Rightarrow> item list" where
  "op_items (Save hs es) = map ItemEntry es @ (if hs_is_empty hs then [] else [ItemState hs])"
| "op_items (SaveSnapshot s) = [ItemSnap s]"

text \<open>The bytes of the last file, written or not, are the frames of the items.\<close>

definition holds :: "codec \<Rightarrow> item list \<Rightarrow> wal \<Rightarrow> bool" where
  "holds c its w \<longleftrightarrow> w_files w \<noteq> [] \<and>
     wf_stream (last (w_files w)) @ wf_buffer (last (w_files w)) = frames c (map (item_record c) its)"

lemma holds_append:
  assumes "holds c its w" "on_back (file_append c (fst (item_record c it)) (snd (item_record c it))) w = Some w'"
  shows "holds c (its @ [it]) w'"
  using assms by (auto simp: holds_def on_back_def file_append_def frame_def)

lemma holds_cong: "w_files w' = w_files w \<Longrightarrow> holds c its w' = holds c its w"
  by (simp add: holds_def)

lemma holds_sync:
  assumes "holds c its w" "on_back file_sync w = Some w'"
  shows "holds c its w'" and "wf_buffer (last (w_files w')) = ''''"
  using assms by (auto simp: holds_def on_back_def file_sync_def)

lemma on_back_total: "w_files w \<noteq> [] \<Longrightarrow> \<exists>w'. on_back f w = Some w'"
  by (simp add: on_back_def)

lemma save_entry_holds:
  assumes "holds c its w"
  shows "\<exists>w'. wal_save_entry c e w = Some w' \<and> holds c (its @ [ItemEntry e]) w' \<and> w_state w' = w_state w"
proof -
  obtain w1 where w1: "on_back (file_append c wal_EntryType (pk_entry c e)) w = Some w1"
    using assms on_back_total [of w] by (auto simp: holds_def)
  then have "holds c (its @ [ItemEntry e]) w1" "w_state w1 = w_state w"
    using holds_append [OF assms, of "ItemEntry e"] by (auto simp: on_back_def split: if_splits)
  then show ?thesis using w1 by (simp add: wal_save_entry_def holds_def)
qed

lemma save_entries_hold:
  assumes "holds c its w"
  shows "\<exists>w'. each (wal_save_entry c) es w = Some w' \<and> holds c (its @ map ItemEntry es) w' \<and>
    w_state w' = w_state w"
  using assms
proof (induction es arbitrary: its w)
  case (Cons e es)
  obtain w1 where w1: "wal_save_entry c e w = Some w1" "holds c (its @ [ItemEntry e]) w1"
    "w_state w1 = w_state w"
    using save_entry_holds [OF Cons.prems] by blast
  show ?case using Cons.IH [OF w1(2)] w1 by auto
qed simp

lemma save_state_holds:
  assumes "holds c its w"
  shows "\<exists>w'. wal_save_hard_state c hs w = Some w' \<and>
    holds c (its @ (if hs_is_empty hs then [] else [ItemState hs])) w'"
proof (cases "hs_is_empty hs")
  case False
  let ?w = "w\<lparr>w_state := hs\<rparr>"
  have h: "holds c its ?w" using assms by (simp add: holds_def)
  then obtain w1 where "on_back (file_append c wal_StateType (pk_state c hs)) ?w = Some w1"
    using on_back_total [of ?w] by (auto simp: holds_def)
  then show ?thesis
    using holds_append [OF h, of "ItemState hs"] False by (auto simp: wal_save_hard_state_def)
qed (use assms in \<open>simp add: wal_save_hard_state_def\<close>)

text \<open>A save that has entries, or a new term or vote, is written to the stream before it returns.\<close>

lemma wal_save_holds:
  assumes "holds c its w"
  shows "\<exists>w'. wal_save c hs es w = Some w' \<and> holds c (its @ op_items (Save hs es)) w' \<and>
    (is_must_sync hs (w_state w) (length es) \<and> \<not> (hs_is_empty hs \<and> es = []) \<longrightarrow>
       wf_buffer (last (w_files w')) = '''')"
proof (cases "hs_is_empty hs \<and> es = []")
  case True
  then show ?thesis using assms by (simp add: wal_save_def)
next
  case False
  obtain w1 where w1: "each (wal_save_entry c) es w = Some w1" "holds c (its @ map ItemEntry es) w1"
    using save_entries_hold [OF assms] by blast
  obtain w2 where w2: "wal_save_hard_state c hs w1 = Some w2" "holds c (its @ op_items (Save hs es)) w2"
    using save_state_holds [OF w1(2)] by auto
  have ne: "w_files w2 \<noteq> []" using w2(2) by (simp add: holds_def)
  obtain w3 where w3: "on_back file_sync w2 = Some w3" using on_back_total [OF ne] by blast
  show ?thesis
    using False w1(1) w2 w3 ne holds_sync [OF w2(2) w3]
    by (auto simp: wal_save_def wal_cut_def Let_def)
qed

lemma wal_save_snapshot_holds:
  assumes "holds c its w"
  shows "\<exists>w'. wal_save_snapshot c s w = Some w' \<and> holds c (its @ [ItemSnap s]) w' \<and>
    wf_buffer (last (w_files w')) = ''''"
proof -
  obtain w1 where w1: "on_back (file_append c wal_snapshot_Type (pk_snap c s)) w = Some w1"
    using assms on_back_total [of w] by (auto simp: holds_def)
  then have h: "holds c (its @ [ItemSnap s]) w1"
    using holds_append [OF assms, of "ItemSnap s"] by simp
  define w2 where "w2 = (if w_enti w1 < ws_index s then w1\<lparr>w_enti := ws_index s\<rparr> else w1)"
  have h2: "holds c (its @ [ItemSnap s]) w2" using h by (simp add: holds_def w2_def)
  obtain w3 where "on_back file_sync w2 = Some w3"
    using h2 on_back_total [of w2] by (auto simp: holds_def)
  then show ?thesis
    using w1 holds_sync [OF h2] by (auto simp: wal_save_snapshot_def w2_def Let_def)
qed

lemma wal_exec_holds:
  assumes "holds c its w"
  shows "\<exists>w'. wal_exec c op w = Some w' \<and> holds c (its @ op_items op) w'"
  using wal_save_holds [OF assms] wal_save_snapshot_holds [OF assms] 
  by (cases op) (metis wal_exec.simps(1), metis wal_exec.simps(2) op_items.simps(2))

lemma wal_run_holds:
  assumes "holds c its w"
  shows "\<exists>w'. each (wal_exec c) ops w = Some w' \<and> holds c (its @ concat (map op_items ops)) w'"
  using assms
proof (induction ops arbitrary: its w)
  case (Cons op ops)
  obtain w1 where w1: "wal_exec c op w = Some w1" "holds c (its @ op_items op) w1"
    using wal_exec_holds [OF Cons.prems] by blast
  show ?case using Cons.IH [OF w1(2)] w1(1) by auto
qed simp

end
