(* ===== verification/Wal_Restart.thy ===== *)
theory Wal_Restart
  imports Wal_Replay
begin

text \<open>
  A restart from the write-ahead log: what \<open>read_all\<close> returns on a log that was written by the
  operations, also when the end of the file is missing, and that the entries it returns are those
  the in-memory storage held.
\<close>

section \<open>The value of a sequence of records\<close>

primrec last_state :: "hard_state \<Rightarrow> item list \<Rightarrow> hard_state" where
  "last_state h [] = h"
| "last_state h (it # its) = last_state (case it of ItemState h1 \<Rightarrow> h1 | _ \<Rightarrow> h) its"

primrec put_items :: "nat \<Rightarrow> item list \<Rightarrow> entry option list \<Rightarrow> entry option list" where
  "put_items start [] es = es"
| "put_items start (it # its) es =
     put_items start its (case it of ItemEntry e \<Rightarrow> put_entry start e es | _ \<Rightarrow> es)"

primrec last_enti :: "nat \<Rightarrow> item list \<Rightarrow> nat" where
  "last_enti i [] = i"
| "last_enti i (it # its) = last_enti (case it of ItemEntry e \<Rightarrow> e_index e | _ \<Rightarrow> i) its"

definition has_snap :: "item list \<Rightarrow> bool" where
  "has_snap its \<longleftrightarrow> (\<exists>s. ItemSnap s \<in> set its)"

definition snap_clash :: "wal_snapshot \<Rightarrow> item list \<Rightarrow> bool" where
  "snap_clash start its \<longleftrightarrow>
     (\<exists>s. ItemSnap s \<in> set its \<and> ws_index s = ws_index start \<and> ws_term s \<noteq> ws_term start)"

lemma has_snap_simps [simp]:
  "\<not> has_snap []" "has_snap (it # its) \<longleftrightarrow> (\<exists>s. it = ItemSnap s) \<or> has_snap its"
  by (auto simp: has_snap_def)

lemma snap_clash_simps [simp]:
  "\<not> snap_clash start []"
  "snap_clash start (it # its) \<longleftrightarrow>
     (\<exists>s. it = ItemSnap s \<and> ws_index s = ws_index start \<and> ws_term s \<noteq> ws_term start) \<or>
     snap_clash start its"
  by (auto simp: snap_clash_def)

lemma put_items_append [simp]:
  "put_items start (its @ its') es = put_items start its' (put_items start its es)"
  by (induction its arbitrary: es) auto

lemma items_value:
  "each (item_step start) its r =
     (if snap_clash start its then None
      else Some (r\<lparr>rg_match := rg_match r \<or> has_snap its, rg_state := last_state (rg_state r) its,
                   rg_ents := put_items (ws_index start) its (rg_ents r),
                   rg_enti := last_enti (rg_enti r) its\<rparr>))"
proof (induction its arbitrary: r)
  case (Cons it its)
  then show ?case by (cases it) auto
qed simp

section \<open>Reading a log back\<close>

definition reopened :: "(string \<Rightarrow> nat) \<Rightarrow> nat \<Rightarrow> wal_snapshot \<Rightarrow> string \<Rightarrow> wal" where
  "reopened tell seq start content =
     \<lparr>w_state = empty_hard_state, w_start = start, w_enti = 0, w_files = [new_wal_file tell content seq]\<rparr>"

definition surviving :: "codec \<Rightarrow> nat \<Rightarrow> item list \<Rightarrow> item list" where
  "surviving c k its = take (length (complete c k (map (item_record c) its))) its"

lemma map_surviving:
  "map (item_record c) (surviving c k its) = complete c k (map (item_record c) its)"
proof -
  obtain n where n: "complete c k (map (item_record c) its) = take n (map (item_record c) its)"
    using complete_prefix by blast
  then have "length (complete c k (map (item_record c) its)) = min (length its) n" by simp
  then show ?thesis by (simp add: surviving_def n take_map min_def)
qed

lemma surviving_all: "length (frames c (map (item_record c) its)) \<le> k \<Longrightarrow> surviving c k its = its"
  by (simp add: surviving_def complete_all)

lemma surviving_prefix: "\<exists>n. surviving c k its = take n its"
  unfolding surviving_def by blast

text \<open>
  The file of a log of which only the first \<open>k\<close> bytes are left reads as the records that lie within
  them; and the rest is cut off, so that the log can be appended to.
\<close>

theorem read_torn_log:
  assumes "codec_ok c" "list_all (item_fits c) its"
    and "has_snap (surviving c k its)" "\<not> snap_clash start (surviving c k its)"
  shows "\<exists>w. wal_read_all c (reopened tell seq start (take k (frames c (map (item_record c) its)))) =
      Some (last_state empty_hard_state (surviving c k its),
            put_items (ws_index start) (surviving c k its) [], w) \<and>
    holds c (surviving c k its) w \<and> w_enti w = last_enti 0 (surviving c k its)"
proof -
  let ?its = "surviving c k its" and ?recs = "map (item_record c) its"
  let ?data = "take k (frames c ?recs)" and ?kept = "frames c (map (item_record c) (surviving c k its))"
  let ?r0 = "\<lparr>rg_match = False, rg_state = empty_hard_state, rg_ents = [], rg_enti = 0\<rparr>"
  have fr: "list_all framable ?recs"
    using assms(2) by (auto simp: list_all_iff item_framable)
  obtain cut where cut: "wal_loop c start ?data 0 ?r0 =
      map_option (\<lambda>r1. (r1, cut)) (replay c start (complete c k ?recs) ?r0)"
    "cut = (if ?data = ?kept then None else Some (length ?kept))"
    using wal_loop_prefix [OF fr, of c start k ?r0] by (auto simp: map_surviving)
  obtain tail where tail: "?data = ?kept @ tail"
    using complete_torn [OF fr, of k c] by (auto simp: map_surviving)
  have "replay c start (complete c k ?recs) ?r0 = each (item_step start) ?its ?r0"
    by (simp add: map_surviving [symmetric] replay_items [OF assms(1)])
  then have loop: "wal_loop c start ?data 0 ?r0 =
      Some (\<lparr>rg_match = True, rg_state = last_state empty_hard_state ?its,
             rg_ents = put_items (ws_index start) ?its [], rg_enti = last_enti 0 ?its\<rparr>, cut)"
    using assms(3,4) by (simp add: cut(1) items_value)
  define f where "f = (case cut of
      None \<Rightarrow> snd (file_read_all (new_wal_file tell ?data seq))
    | Some n \<Rightarrow> file_truncate (snd (file_read_all (new_wal_file tell ?data seq))) n)"
  have f: "wf_stream f = ?kept" "wf_buffer f = ''''"
    using tail
    by (auto simp: f_def cut(2) file_truncate_def file_read_all_def new_wal_file_def vec_resize_def)
  have "wal_read_all c (reopened tell seq start ?data) =
      Some (last_state empty_hard_state ?its, put_items (ws_index start) ?its [],
        (reopened tell seq start ?data)\<lparr>w_files := [f], w_enti := last_enti 0 ?its\<rparr>)"
    by (simp add: wal_read_all_def reopened_def loop f_def file_read_all_def new_wal_file_def
        split: option.split)
  then show ?thesis
    using f by (auto simp: holds_def)
qed

section \<open>The log in the storage\<close>

text \<open>The entries a replay collects are those the storage holds behind its dummy entry.\<close>

definition mirrors :: "entry \<Rightarrow> entry option list \<Rightarrow> memory_storage \<Rightarrow> bool" where
  "mirrors d es s \<longleftrightarrow>
     (\<exists>xs. ms_entries s = d # xs \<and> consec (e_index d + 1) xs \<and> es = map Some xs \<and>
        e_index d + length xs + 1 < W64)"

lemma put_entry_mirrors:
  assumes "consec (start + 1) xs" "e_index e \<le> start + length xs + 1"
  shows "\<exists>ys. put_entry start e (map Some xs) = map Some ys \<and> consec (start + 1) ys \<and>
    (e_index e \<le> start \<longrightarrow> ys = xs) \<and>
    (start < e_index e \<longrightarrow> ys = take (e_index e - start - 1) xs @ [e])"
proof (cases "e_index e > start")
  case True
  then have "put_entry start e (map Some xs) = map Some (take (e_index e - start - 1) xs @ [e])"
    using assms(2) by (simp add: put_entry_def vec_resize_def take_map)
  then show ?thesis using True assms by (auto simp: consec_take)
qed (use assms in \<open>auto simp: put_entry_def\<close>)

lemma put_consec:
  assumes "consec (start + 1) xs" "consec i es" "i \<le> start + length xs + 1" "start < i"
  shows "put_items start (map ItemEntry es) (map Some xs) =
    map Some (if es = [] then xs else take (i - start - 1) xs @ es)"
  using assms
proof (induction es arbitrary: i xs)
  case (Cons e es)
  let ?ys = "take (i - start - 1) xs @ [e]"
  have put: "put_entry start e (map Some xs) = map Some ?ys" "consec (start + 1) ?ys"
    using put_entry_mirrors [of start xs e] Cons.prems by auto
  have "put_items start (map ItemEntry es) (map Some ?ys) =
      map Some (if es = [] then ?ys else take (Suc i - start - 1) ?ys @ es)"
    using Cons.prems by (intro Cons.IH [OF put(2)]) auto
  moreover have "take (Suc i - start - 1) ?ys = ?ys" using Cons.prems by simp
  ultimately show ?case using put(1) by simp
qed simp

lemma put_skipped:
  assumes "consec i es" "i + length es \<le> start + 1"
  shows "put_items start (map ItemEntry es) xs = xs"
  using assms by (induction es arbitrary: i) (auto simp: put_entry_def)

lemma storage_append_mirrors:
  assumes "mirrors d log s" "consec i es" "i \<le> e_index d + length log + 1" "i + length es < W64"
  shows "\<exists>s'. storage_append s es = Some s' \<and>
    mirrors d (put_items (e_index d) (map ItemEntry es) log) s' \<and>
    ms_snapshot s' = ms_snapshot s \<and> ms_hard_state s' = ms_hard_state s"
proof -
  define start where "start = e_index d"
  obtain xs where s: "ms_entries s = d # xs" "e_index d = start" "consec (start + 1) xs"
      "log = map Some xs" "start + length xs + 1 < W64"
    using assms(1) unfolding mirrors_def start_def by blast
  note gap = assms(3) [folded start_def]
  have first: "storage_first_index s = Some (start + 1)"
    using s by (simp add: storage_first_index_def add64_exact)
  consider "es = []" | e r where "es = e # r" "i + length es \<le> start + 1"
    | e r where "es = e # r" "start + 1 < i + length es"
    by (cases es) force+
  then have "\<exists>s'. storage_append s es = Some s' \<and>
      mirrors d (put_items start (map ItemEntry es) log) s' \<and>
      ms_snapshot s' = ms_snapshot s \<and> ms_hard_state s' = ms_hard_state s"
  proof cases
    case 1
    then show ?thesis using assms(1) by (simp add: storage_append_def)
  next
    case 2
    then have "e_index e = i" using assms(2) by simp
    then have "storage_append s es = Some s"
      using 2 assms(4) first
      by (simp add: storage_append_def add64_exact sub64_exact Let_def)
    then show ?thesis using put_skipped [OF assms(2) 2(2), of log] assms(1) s(2) by simp
  next
    case 3
    define k where "k = start + 1 - i"
    define zs where "zs = drop k es"
    have i: "e_index e = i" using 3 assms(2) by simp
    have zs: "consec (i + k) zs" "zs \<noteq> []" "es = take k es @ zs" "start < i + k"
        "i + k \<le> start + length xs + 1"
      using consec_drop [OF assms(2), of k] 3 gap s(4) by (auto simp: zs_def k_def)
    have ei: "e_index (hd zs) = i + k" "vec_at zs 0 = Some (hd zs)"
      using consec_hd [OF zs(1,2)] zs(2) by (simp_all add: hd_conv_nth)
    let ?s = "s\<lparr>ms_entries := d # take (i + k - start - 1) xs @ zs\<rparr>"
    have "storage_append s es = Some ?s"
    proof -
      have cutes: "(if start + 1 > e_index e then vec_range (e # r) (start + 1 - e_index e) (length (e # r))
          else Some (e # r)) = Some zs"
        using 3 i by (auto simp: zs_def k_def)
      have off: "sub64 (e_index (hd zs)) (e_index d) = Suc (i + k - start - 1)"
        using ei(1) zs(4) s(2) by (simp add: sub64_exact)
      have lst: "(sub64 (add64 (e_index e) (length (e # r))) 1 < start + 1) = False"
        using 3 assms(4) i by (simp add: add64_exact sub64_exact)
      have d: "vec_at (ms_entries s) 0 = Some d" by (simp add: s(1))
      have "storage_append s es =
          (if length (ms_entries s) > Suc (i + k - start - 1) then
             Some (s\<lparr>ms_entries := take (Suc (i + k - start - 1)) (ms_entries s) @ zs\<rparr>)
           else if length (ms_entries s) = Suc (i + k - start - 1) then
             Some (s\<lparr>ms_entries := ms_entries s @ zs\<rparr>)
           else None)"
        by (simp only: storage_append_def 3(1) list.case first bind.bind_lunit Let_def lst if_False
            cutes ei(2) d off)
      then show ?thesis using zs(5) s(1) by auto
    qed
    moreover have "put_items start (map ItemEntry es) log =
        map Some (take (i + k - start - 1) xs @ zs)"
    proof -
      have "put_items start (map ItemEntry (take k es)) log = log"
      proof (cases "k = 0")
        case False
        then show ?thesis
          by (intro put_skipped [of i] consec_take [OF assms(2)]) (simp add: k_def)
      qed simp
      then have "put_items start (map ItemEntry (take k es @ zs)) log =
          map Some (take (i + k - start - 1) xs @ zs)"
        using put_consec [OF s(3) zs(1) zs(5,4)] zs(2) s(4) by simp
      then show ?thesis by (simp only: zs(3) [symmetric])
    qed
    moreover have "consec (start + 1) (take (i + k - start - 1) xs @ zs)"
    proof -
      have "start + 1 + length (take (i + k - start - 1) xs) = i + k" using zs(4,5) by simp
      then show ?thesis
        using zs(1) consec_take [OF s(3)] by (simp only: consec_append simp_thms)
    qed
    moreover have "start + length (take (i + k - start - 1) xs @ zs) + 1 < W64"
      using zs(4,5) assms(4) s(5) 3 by (simp add: zs_def k_def)
    ultimately show ?thesis using s(2) by (auto simp: mirrors_def)
  qed
  then show ?thesis by (simp add: start_def)
qed

lemma storage_append_gap:
  assumes "mirrors d log s" "consec i es" "e_index d + length log + 1 < i" "i + length es < W64" "es \<noteq> []"
  shows "storage_append s es = None"
proof -
  obtain xs where s: "ms_entries s = d # xs" "log = map Some xs" "e_index d + length xs + 1 < W64"
    using assms(1) unfolding mirrors_def by blast
  obtain e r where es: "es = e # r" using assms(5) by (cases es) auto
  have i: "e_index e = i" using assms(2) es by simp
  have first: "storage_first_index s = Some (e_index d + 1)"
    using s by (simp add: storage_first_index_def add64_exact)
  have "\<not> sub64 (add64 i (length es)) 1 < e_index d + 1" "\<not> e_index d + 1 > i"
    using assms(3,4) s(2) es by (simp_all add: add64_exact sub64_exact)
  then show ?thesis
    using assms(3) s(1,2) by (auto simp: storage_append_def es first i Let_def sub64_exact)
qed

section \<open>Restart\<close>

text \<open>What the server does to its storage where it saves to the log.\<close>

fun storage_exec :: "wal_op \<Rightarrow> memory_storage \<Rightarrow> memory_storage option" where
  "storage_exec (Save hs es) s = storage_append s es"
| "storage_exec (SaveSnapshot snap) s = Some s"

definition batch_ok :: "wal_op \<Rightarrow> bool" where
  "batch_ok op \<longleftrightarrow>
     (case op of Save hs es \<Rightarrow> es = [] \<or> consec (e_index (hd es)) es \<and> e_index (hd es) + length es < W64
      | SaveSnapshot s \<Rightarrow> True)"

lemma put_states: "put_items start (its @ (if b then [] else [ItemState h])) es = put_items start its es"
  by simp

lemma put_op_items:
  "put_items start (op_items op) log =
     (case op of Save hs es \<Rightarrow> put_items start (map ItemEntry es) log | SaveSnapshot s \<Rightarrow> log)"
  by (cases op) (simp_all del: put_items_append add: put_states)

lemma storage_exec_mirrors:
  assumes "mirrors d log s" "storage_exec op s = Some s'" "batch_ok op"
  shows "mirrors d (put_items (e_index d) (op_items op) log) s'"
proof (cases op)
  case (Save hs es)
  show ?thesis
  proof (cases "es = []")
    case False
    then have es: "consec (e_index (hd es)) es" "e_index (hd es) + length es < W64"
      using assms(3) Save by (auto simp: batch_ok_def)
    then have "e_index (hd es) \<le> e_index d + length log + 1"
      using storage_append_gap [OF assms(1) es(1) _ es(2) False] assms(2) Save by force
    then show ?thesis
      using storage_append_mirrors [OF assms(1) es(1) _ es(2)] assms(2) Save
      unfolding put_op_items by auto
  qed (use assms Save in \<open>auto simp: storage_append_def\<close>)
qed (use assms in auto)

lemma storage_run_mirrors:
  assumes "mirrors d log s" "each storage_exec ops s = Some s'" "list_all batch_ok ops"
  shows "mirrors d (put_items (e_index d) (concat (map op_items ops)) log) s'"
  using assms
proof (induction ops arbitrary: log s)
  case (Cons op ops)
  then obtain s1 where s1: "storage_exec op s = Some s1" "each storage_exec ops s1 = Some s'"
    by (auto split: Option.bind_splits)
  show ?case
    using Cons.IH [OF storage_exec_mirrors [OF Cons.prems(1) s1(1)] s1(2)] Cons.prems(3) by simp
qed simp

text \<open>
  Restart.  The server boots on a log file that holds the snapshot record it starts from and on a
  storage that is empty behind it; it saves batches of entries and hard states, appends the same
  entries to its storage, and stops with nothing left in the buffer of the log.  Reading the file
  again and appending what it returns to the storage it booted on gives the storage it had.
\<close>

theorem restart_log:
  assumes c: "codec_ok c" and w: "holds c [ItemSnap start] w"
    and d: "e_index d = ws_index start" "ws_index start + 1 < W64" and s: "ms_entries s = [d]"
    and ops: "list_all batch_ok ops" "list_all (item_fits c) (ItemSnap start # concat (map op_items ops))"
    and clash: "\<not> snap_clash start (concat (map op_items ops))"
    and run: "each storage_exec ops s = Some s'"
  shows "\<exists>w1. each (wal_exec c) ops w = Some w1 \<and>
    (wf_buffer (last (w_files w1)) = '''' \<longrightarrow>
      (\<exists>es w2 s2. wal_read_all c (reopened tell seq start (wf_stream (last (w_files w1)))) =
          Some (last_state empty_hard_state (concat (map op_items ops)), map Some es, w2) \<and>
        storage_append s es = Some s2 \<and> ms_entries s2 = ms_entries s'))"
proof -
  let ?its = "ItemSnap start # concat (map op_items ops)"
  obtain w1 where w1: "each (wal_exec c) ops w = Some w1" "holds c ?its w1"
    using wal_run_holds [OF w, of ops] by auto
  have m0: "mirrors d [] s" using s d by (simp add: mirrors_def)
  obtain xs where xs: "ms_entries s' = d # xs" "consec (e_index d + 1) xs"
      "put_items (e_index d) (concat (map op_items ops)) [] = map Some xs"
      "e_index d + length xs + 1 < W64"
    using storage_run_mirrors [OF m0 run ops(1)] unfolding mirrors_def by blast
  obtain s2 where s2: "storage_append s xs = Some s2"
      "mirrors d (put_items (e_index d) (map ItemEntry xs) []) s2"
    using storage_append_mirrors [OF m0 xs(2)] xs(4) by auto
  have "put_items (e_index d) (map ItemEntry xs) [] = map Some xs"
    using put_consec [of "e_index d" "[]" "e_index d + 1" xs] xs(2) by (auto split: if_splits)
  then have same: "ms_entries s2 = ms_entries s'"
    using s2(2) xs(1) by (auto simp: mirrors_def inj_map_eq_map inj_def)
  {
    assume "wf_buffer (last (w_files w1)) = ''''"
    then have stream: "wf_stream (last (w_files w1)) = frames c (map (item_record c) ?its)"
      using w1(2) by (simp add: holds_def)
    let ?k = "length (frames c (map (item_record c) ?its))"
    have sv: "surviving c ?k ?its = ?its" by (rule surviving_all) simp
    have all: "take ?k (frames c (map (item_record c) ?its)) = frames c (map (item_record c) ?its)"
      by simp
    have "has_snap ?its" "\<not> snap_clash start ?its" using clash by simp_all
    from read_torn_log [OF c ops(2), of ?k start tell seq, unfolded sv all, OF this]
    have "\<exists>w2. wal_read_all c (reopened tell seq start (wf_stream (last (w_files w1)))) =
        Some (last_state empty_hard_state (concat (map op_items ops)), map Some xs, w2)"
      using xs(3) d(1) unfolding stream by auto
    then have "\<exists>es w2 s2. wal_read_all c (reopened tell seq start (wf_stream (last (w_files w1)))) =
          Some (last_state empty_hard_state (concat (map op_items ops)), map Some es, w2) \<and>
        storage_append s es = Some s2 \<and> ms_entries s2 = ms_entries s'"
      using s2(1) same by blast
  }
  then show ?thesis using w1(1) by blast
qed

end
