(* ===== verification/Wal_Dir.thy ===== *)
theory Wal_Dir
  imports Wal_Restart
begin

text \<open>
  The names of log files read back as the numbers they were made from and sort like them, the search
  for the file to start from, and a log from its creation on.
\<close>

section \<open>Hexadecimal numbers\<close>

lemma length_hex_pad [simp]: "length (hex_pad k n) = k"
  by (induction k arbitrary: n) auto

lemma hex_pad_digits: "ch \<in> set (hex_pad k n) \<Longrightarrow> \<exists>d < 16. ch = hex_digit d"
  by (induction k arbitrary: n) (auto intro: exI [of _ "n mod 16" for n])

lemma of_hex_digit: "d < 16 \<Longrightarrow> of_char (hex_digit d) = (if d < 10 then 48 + d else 87 + d)"
  by (simp add: hex_digit_def of_char_of)

lemma hex_digit_neq:
  assumes "d < 16" "of_char ch < (48::nat) \<or> 102 < (of_char ch :: nat)"
  shows "hex_digit d \<noteq> ch"
  using of_hex_digit [OF assms(1)] assms by (auto split: if_splits)

lemma hex_digit_facts:
  assumes "d < 16"
  shows "hex_value (hex_digit d) = Some d" "\<not> is_space (hex_digit d)"
    "hex_digit d \<noteq> CHR ''-''" "hex_digit d \<noteq> CHR ''+''" "hex_digit d \<noteq> CHR ''x''"
    "hex_digit d \<noteq> CHR ''.''"
  using assms by (simp_all add: hex_value_def is_space_def of_hex_digit hex_digit_neq)

lemma hex_digit_neq_X:
  assumes "d < 16" shows "hex_digit d \<noteq> CHR ''X''"
proof
  assume "hex_digit d = CHR ''X''"
  then have "(of_char (hex_digit d) :: nat) = 88" by simp
  then show False using of_hex_digit [OF assms] assms by (simp split: if_splits)
qed

lemma hex_run_pad: "hex_run v (hex_pad k n @ rest) = hex_run (v * 16 ^ k + n mod 16 ^ k) rest"
proof (induction k arbitrary: n rest)
  case (Suc k)
  have "n mod 16 ^ Suc k = 16 * (n div 16 mod 16 ^ k) + n mod 16" by (simp add: mod_mult2_eq)
  then show ?case using Suc by (simp add: hex_digit_facts algebra_simps)
qed simp

lemma hex_pad_Suc_shape: "\<exists>d1 d2 s. d1 < 16 \<and> d2 < 16 \<and> hex_pad (Suc (Suc k)) n = hex_digit d1 # hex_digit d2 # s"
proof -
  obtain a b s where s: "hex_pad (Suc (Suc k)) n = a # b # s"
    by (metis length_hex_pad length_Suc_conv)
  then have "a \<in> set (hex_pad (Suc (Suc k)) n)" "b \<in> set (hex_pad (Suc (Suc k)) n)"
    by (simp_all del: hex_pad.simps)
  then show ?thesis using s hex_pad_digits by (metis (no_types))
qed

lemma read_hex_pad:
  assumes "n < W64" shows "read_hex (hex_pad 16 n) = n"
proof -
  have "(16::nat) = Suc (Suc 14)" by simp
  then obtain d1 d2 s where s: "d1 < 16" "d2 < 16" "hex_pad 16 n = hex_digit d1 # hex_digit d2 # s"
    using hex_pad_Suc_shape [of 14 n] by metis
  have "(16::nat) ^ 16 = W64" by (simp add: W64_def)
  then have run: "hex_run 0 (hex_pad 16 n) = n"
    using hex_run_pad [of 0 16 n "''''"] assms by simp
  then show ?thesis
    using assms by (simp add: read_hex_def s(3) hex_digit_facts [OF s(1)] hex_digit_facts [OF s(2)]
        hex_digit_neq_X [OF s(2)] skip_0x_def)
qed

section \<open>Round trip and order of names\<close>

lemma path_extension_wal: "path_extension (s @ ''.wal'') = ''.wal''"
  by (auto simp: path_extension_def)

lemma no_dash: "CHR ''-'' \<notin> set (hex_pad k n)"
  using hex_pad_digits hex_digit_facts(3) by metis

theorem parse_wal_name_wal_name:
  assumes "seq < W64" "index < W64"
  shows "parse_wal_name (wal_name seq index) = (True, seq, index)"
proof -
  let ?f = "hex_pad 16 seq @ ''-'' @ hex_pad 16 index"
  have name: "wal_name seq index = ?f @ ''.wal''" by (simp add: wal_name_def)
  have trim: "take (length (?f @ ''.wal'') - 4) (?f @ ''.wal'') = ?f" by simp
  have pos: "takeWhile (\<lambda>ch. ch \<noteq> CHR ''-'') ?f = hex_pad 16 seq"
    using no_dash [of 16 seq] by (subst takeWhile_append2) auto
  show ?thesis
    unfolding name parse_wal_name_def path_extension_wal trim
    using assms by (simp only: pos Let_def) (simp add: read_hex_pad)
qed

lemma hex_digit_less: "a < 16 \<Longrightarrow> b < 16 \<Longrightarrow> hex_digit a < hex_digit b \<longleftrightarrow> a < b"
  by (simp add: less_char_def of_hex_digit)

lemma less_append_same_length:
  fixes xs ys us vs :: string
  assumes "length xs = length ys"
  shows "xs @ us < ys @ vs \<longleftrightarrow> xs < ys \<or> xs = ys \<and> us < vs"
  using assms by (induction xs ys rule: list_induct2) auto

lemma digits_less:
  fixes m n a b r t :: nat
  assumes "a = m div 16" "r = m mod 16" "b = n div 16" "t = n mod 16"
  shows "m < n \<longleftrightarrow> a < b \<or> a = b \<and> r < t"
proof -
  have "m = 16 * a + r" "n = 16 * b + t" "r < 16" "t < 16" using assms by simp_all
  then show ?thesis by linarith
qed

lemma hex_run_hex_pad: "n < 16 ^ k \<Longrightarrow> hex_run 0 (hex_pad k n) = n"
  using hex_run_pad [of 0 k n "''''"] by simp

lemma hex_pad_eq: "m < 16 ^ k \<Longrightarrow> n < 16 ^ k \<Longrightarrow> hex_pad k m = hex_pad k n \<longleftrightarrow> m = n"
  by (metis hex_run_hex_pad)

lemma hex_pad_less:
  "m < 16 ^ k \<Longrightarrow> n < 16 ^ k \<Longrightarrow> hex_pad k m < hex_pad k n \<longleftrightarrow> m < n"
proof (induction k arbitrary: m n)
  case (Suc k)
  have dv: "m div 16 < 16 ^ k" "n div 16 < 16 ^ k"
    using Suc.prems by (auto intro!: less_mult_imp_div_less simp: mult.commute)
  have "m < n \<longleftrightarrow> m div 16 < n div 16 \<or> m div 16 = n div 16 \<and> m mod 16 < n mod 16"
    by (rule digits_less) (rule refl)+
  also have "\<dots> \<longleftrightarrow> hex_pad k (m div 16) < hex_pad k (n div 16) \<or>
      hex_pad k (m div 16) = hex_pad k (n div 16) \<and> hex_digit (m mod 16) < hex_digit (n mod 16)"
    unfolding Suc.IH [OF dv] hex_pad_eq [OF dv] by (simp only: hex_digit_less mod_less_divisor zero_less_numeral)
  also have "\<dots> \<longleftrightarrow> hex_pad (Suc k) m < hex_pad (Suc k) n"
    unfolding hex_pad.simps by (subst less_append_same_length) simp_all
  finally show ?case by (rule sym)
qed simp

theorem wal_name_less:
  assumes "s < W64" "i < W64" "s' < W64" "i' < W64"
  shows "wal_name s i < wal_name s' i' \<longleftrightarrow> s < s' \<or> s = s' \<and> i < i'"
proof -
  have p: "(16::nat) ^ 16 = W64" by (simp add: W64_def)
  have eq: "hex_pad 16 a = hex_pad 16 b \<longleftrightarrow> a = b" if "a < W64" "b < W64" for a b
    using read_hex_pad that by metis
  show ?thesis
    using assms hex_pad_less [of _ 16, unfolded p]
    by (simp add: wal_name_def less_append_same_length eq)
qed

section \<open>The file to start from\<close>

definition name_index :: "string \<Rightarrow> nat" where
  "name_index name = snd (snd (parse_wal_name name))"

lemma search_down_spec:
  assumes "\<forall>name \<in> set names. fst (parse_wal_name name)" "i < length names"
  shows "(\<exists>j \<le> i. search_down names index i = Some (Some j) \<and> name_index (names ! j) \<le> index \<and>
      (\<forall>l. j < l \<and> l \<le> i \<longrightarrow> index < name_index (names ! l))) \<or>
    search_down names index i = Some None \<and> (\<forall>l \<le> i. index < name_index (names ! l))"
  using assms(2)
proof (induction i)
  case 0
  then have "fst (parse_wal_name (names ! 0))" using assms(1) by simp
  then show ?case
    using 0 by (subst (1 2) search_down.simps) (auto simp: name_index_def split: prod.split)
next
  case (Suc i)
  have ok: "fst (parse_wal_name (names ! Suc i))" using assms(1) Suc.prems by simp
  show ?case
  proof (cases "name_index (names ! Suc i) \<le> index")
    case True
    then have "search_down names index (Suc i) = Some (Some (Suc i))"
      using ok Suc.prems by (subst search_down.simps) (auto simp: name_index_def split: prod.split)
    then show ?thesis using True by auto
  next
    case False
    then have "search_down names index (Suc i) = search_down names index i"
      using ok Suc.prems by (subst search_down.simps) (auto simp: name_index_def split: prod.split)
    then show ?thesis
      using Suc.IH Suc.prems False by (auto simp: le_Suc_eq)
  qed
qed

lemma search_index_spec:
  assumes "\<forall>name \<in> set names. fst (parse_wal_name name)" "names \<noteq> []" "length names < W64"
  shows "(\<exists>j < length names. search_index names index = Some (Some j) \<and> name_index (names ! j) \<le> index \<and>
      (\<forall>l. j < l \<and> l < length names \<longrightarrow> index < name_index (names ! l))) \<or>
    search_index names index = Some None \<and> (\<forall>l < length names. index < name_index (names ! l))"
proof -
  have "sub64 (length names) 1 = length names - 1"
    using assms(2) by (simp add: sub64_exact Suc_le_eq)
  moreover have "l \<le> length names - 1 \<longleftrightarrow> l < length names" for l
    using assms(2) by (cases names) auto
  ultimately show ?thesis
    using search_down_spec [OF assms(1), of "length names - 1" index] assms(2)
    by (simp add: search_index_def)
qed

theorem search_index_picks_last:
  assumes "\<forall>name \<in> set names. fst (parse_wal_name name)" "names \<noteq> []" "length names < W64"
    "j < length names" "name_index (names ! j) \<le> index"
    "\<forall>l \<in> {j<..<length names}. index < name_index (names ! l)"
  shows "search_index names index = Some (Some j)"
proof -
  consider j' where "j' < length names" "search_index names index = Some (Some j')"
      "name_index (names ! j') \<le> index" "\<forall>l. j' < l \<and> l < length names \<longrightarrow> index < name_index (names ! l)"
    | "\<forall>l < length names. index < name_index (names ! l)"
    using search_index_spec [OF assms(1-3), of index] by blast
  then show ?thesis
  proof cases
    case 1
    then have "\<not> j' < j" "\<not> j < j'" using assms(4-6) by (auto simp: not_less[symmetric])
    then show ?thesis using 1(2) by simp
  qed (use assms(4,5) in \<open>auto simp: not_less[symmetric]\<close>)
qed

lemma search_index_empty: "search_index [] index = None"
  by (subst search_index_def, subst search_down.simps) (simp add: vec_at_def)

section \<open>A new log\<close>

definition snap0 :: wal_snapshot where
  "snap0 = \<lparr>ws_index = 0, ws_term = 0\<rparr>"

lemma wal_create_empty:
  "wal_create c [] = [(wal_name 0 0, frames c [item_record c (ItemSnap snap0)])]"
  by (simp add: wal_create_def new_wal_file_def file_append_def file_sync_def frame_def snap0_def
      record_bytes_def Let_def)

lemma wal_open_one:
  "wal_open tell [(wal_name 0 0, content)] snap = Some (reopened tell 0 snap content)"
proof -
  have p: "parse_wal_name (wal_name 0 0) = (True, 0, 0)" by (rule parse_wal_name_wal_name) simp_all
  have e: "path_extension (wal_name 0 0) = ''.wal''"
    using path_extension_wal [of "hex_pad 16 0 @ ''-'' @ hex_pad 16 0"] by (simp only: wal_name_def append_assoc)
  have "search_index [wal_name 0 0] (ws_index snap) = Some (Some 0)"
    unfolding search_index_def by (subst search_down.simps) (simp add: p sub64_exact)
  then show ?thesis
    by (simp add: wal_open_def get_wal_names_def e is_valid_seq_def p reopened_def)
qed

theorem wal_new_log:
  assumes "codec_ok c" "item_fits c (ItemSnap snap0)"
  shows "\<exists>w w1. wal_open tell (wal_create c []) snap0 = Some w \<and>
    wal_read_all c w = Some (empty_hard_state, [], w1) \<and> holds c [ItemSnap snap0] w1"
proof -
  let ?content = "frames c (map (item_record c) [ItemSnap snap0])"
  have sv: "surviving c (length ?content) [ItemSnap snap0] = [ItemSnap snap0]"
    by (rule surviving_all) simp
  show ?thesis
    using read_torn_log [OF assms(1), of "[ItemSnap snap0]" "length ?content" snap0 tell 0, unfolded sv]
      assms(2)
    by (auto simp: wal_create_empty wal_open_one)
qed

section \<open>An overwritten tail\<close>

text \<open>
  Entries that were overwritten by a batch at or below the snapshot a replay starts from come back:
  the replay skips the batch, and with it the truncation it stood for.
\<close>

theorem replay_keeps_overwritten:
  assumes "consec 1 es" "e_index e = k" "1 \<le> k" "k < length es"
  shows "put_items 0 (map ItemEntry (es @ [e])) [] = map Some (take (k - 1) es @ [e])"
    and "put_items k (map ItemEntry (es @ [e])) [] = map Some (drop k es)"
proof -
  have "put_items 0 (map ItemEntry es) [] = map Some es"
    using put_consec [of 0 "[]" 1 es] assms(1) by (auto split: if_splits)
  then show "put_items 0 (map ItemEntry (es @ [e])) [] = map Some (take (k - 1) es @ [e])"
    using assms by (simp add: put_entry_def vec_resize_def take_map)
  have "put_items k (map ItemEntry (take k es)) [] = []"
    using assms by (intro put_skipped [of 1] consec_take) simp_all
  moreover have "put_items k (map ItemEntry (drop k es)) [] = map Some (drop k es)"
    using put_consec [of k "[]" "k + 1" "drop k es"] consec_drop [OF assms(1), of k]
    by (auto split: if_splits simp: add.commute)
  ultimately have "put_items k (map ItemEntry (take k es @ drop k es)) [] = map Some (drop k es)"
    by (simp del: append_take_drop_id)
  then show "put_items k (map ItemEntry (es @ [e])) [] = map Some (drop k es)"
    using assms(2) by (simp add: put_entry_def)
qed

text \<open>The same of a log file: both replays read all of its records.\<close>

theorem overwritten_read_back:
  assumes c: "codec_ok c" and es: "consec 1 es" "e_index e = k" "1 \<le> k" "k < length es"
    and its: "its = ItemSnap snap0 # map ItemEntry (es @ [e]) @ [ItemSnap start]" "ws_index start = k"
    and fits: "list_all (item_fits c) its"
  shows "\<exists>w. wal_read_all c (reopened tell seq snap0 (frames c (map (item_record c) its))) =
      Some (empty_hard_state, map Some (take (k - 1) es @ [e]), w)"
    and "\<exists>w. wal_read_all c (reopened tell seq start (frames c (map (item_record c) its))) =
      Some (empty_hard_state, map Some (drop k es), w)"
proof -
  let ?n = "length (frames c (map (item_record c) its))"
  have sv: "surviving c ?n its = its" by (rule surviving_all) simp
  have items: "\<not> snap_clash s (map ItemEntry xs @ [ItemSnap start]) \<or> ws_index s = k"
    "last_state h (map ItemEntry xs @ [ItemSnap start]) = h"
    "put_items i (map ItemEntry xs @ [ItemSnap start]) ys = put_items i (map ItemEntry xs) ys" for s xs h i ys
    by (induction xs arbitrary: ys) (auto simp: its(2) snap_clash_def)
  have hs: "has_snap its" by (simp add: its(1))
  have noclash: "\<not> snap_clash snap0 its" "\<not> snap_clash start its"
    using es(3) its by (auto simp: snap_clash_def snap0_def)
  show "\<exists>w. wal_read_all c (reopened tell seq snap0 (frames c (map (item_record c) its))) =
      Some (empty_hard_state, map Some (take (k - 1) es @ [e]), w)"
    using read_torn_log [OF c fits, of ?n snap0 tell seq, unfolded sv] hs noclash
      replay_keeps_overwritten(1) [OF es] items(2,3) [of _ "es @ [e]"]
    by (auto simp: its(1) snap0_def)
  show "\<exists>w. wal_read_all c (reopened tell seq start (frames c (map (item_record c) its))) =
      Some (empty_hard_state, map Some (drop k es), w)"
    using read_torn_log [OF c fits, of ?n start tell seq, unfolded sv] hs noclash
      replay_keeps_overwritten(2) [OF es] items(2,3) [of _ "es @ [e]"]
    by (auto simp: its)
qed

end
