(* ===== verification/Replica_History.thy ===== *)
theory Replica_History
  imports Quorum Log_View
begin

text \<open>
  The history of a cluster, as far as its logs are concerned: the log of the leader of each term,
  what a candidate's log was when it campaigned, the votes, and how much of the log of a term's
  leader a node has had.  From what a history must satisfy follows that a leader has every entry that
  was committed in an earlier term, and so that no two nodes commit different entries.
\<close>

section \<open>Histories\<close>

record history =
  h_lead_log :: "nat \<Rightarrow> entry list option"
  h_winner :: "nat \<Rightarrow> nat"
  h_cand_log :: "nat \<Rightarrow> nat \<Rightarrow> entry list"
  h_votes :: "(nat \<times> nat \<times> nat) set"
  h_acked :: "nat \<Rightarrow> nat \<Rightarrow> nat"
  h_log :: "nat \<Rightarrow> entry list"

text \<open>The term of the \<open>k\<close>-th entry; 0 in front of the first.\<close>

definition term_in :: "entry list \<Rightarrow> nat \<Rightarrow> nat" where
  "term_in X k = (if k = 0 then 0 else e_term (X ! (k - 1)))"

text \<open>Every prefix of a log is a prefix of the log of the leader in whose term it ends.\<close>

definition rooted :: "history \<Rightarrow> entry list \<Rightarrow> bool" where
  "rooted h X \<longleftrightarrow> (\<forall>k. 0 < k \<longrightarrow> k \<le> length X \<longrightarrow>
     (\<exists>x. h_lead_log h (term_in X k) = Some x \<and> take k X = take k x))"

definition terms_upto :: "nat \<Rightarrow> entry list \<Rightarrow> bool" where
  "terms_upto t X \<longleftrightarrow> (\<forall>k. k \<le> length X \<longrightarrow> term_in X k \<le> t)"

definition terms_sorted :: "entry list \<Rightarrow> bool" where
  "terms_sorted X \<longleftrightarrow> (\<forall>j k. j \<le> k \<longrightarrow> k \<le> length X \<longrightarrow> term_in X j \<le> term_in X k)"

text \<open>A log that may not be given up for one whose last entry is older than the \<open>k\<close>-th of term \<open>t\<close>.\<close>

definition ahead :: "entry list \<Rightarrow> nat \<Rightarrow> nat \<Rightarrow> bool" where
  "ahead X t k \<longleftrightarrow>
     t < term_in X (length X) \<or> (term_in X (length X) = t \<and> k \<le> length X)"

text \<open>The leader of term \<open>s\<close> began without the first \<open>k\<close> entries of the leader of term \<open>t\<close>.\<close>

definition began_without :: "history \<Rightarrow> nat \<Rightarrow> nat \<Rightarrow> nat \<Rightarrow> bool" where
  "began_without h t k s \<longleftrightarrow>
     t < s \<and> h_lead_log h s \<noteq> None \<and>
     take k (h_cand_log h (h_winner h s) s) \<noteq> take k (the (h_lead_log h t))"

text \<open>The \<open>k\<close>-th entry of term \<open>t\<close> is of that term, and a majority has had it from the leader.\<close>

definition chosen :: "nat set \<Rightarrow> history \<Rightarrow> nat \<Rightarrow> nat \<Rightarrow> bool" where
  "chosen M h t k \<longleftrightarrow>
     (\<exists>x. h_lead_log h t = Some x \<and> 0 < k \<and> k \<le> length x \<and> term_in x k = t) \<and>
     majority M {j \<in> M. k \<le> h_acked h j t}"

definition covered :: "nat set \<Rightarrow> history \<Rightarrow> nat \<Rightarrow> entry list \<Rightarrow> nat \<Rightarrow> bool" where
  "covered M h T X n \<longleftrightarrow>
     n = 0 \<or> (\<exists>t k x. t \<le> T \<and> chosen M h t k \<and> h_lead_log h t = Some x \<and> n \<le> k \<and>
                n \<le> length X \<and> take n X = take n x)"

definition lead_log_ok :: "history \<Rightarrow> nat \<Rightarrow> entry list \<Rightarrow> bool" where
  "lead_log_ok h t x \<longleftrightarrow>
     consec 1 x \<and> length x + 1 < W64 \<and> terms_upto t x \<and> terms_sorted x \<and> rooted h x"

definition elected :: "nat set \<Rightarrow> history \<Rightarrow> nat \<Rightarrow> entry list \<Rightarrow> bool" where
  "elected M h t x \<longleftrightarrow>
     (let c = h_winner h t in
       (c, c, t) \<in> h_votes h \<and> take (length (h_cand_log h c t)) x = h_cand_log h c t \<and>
       (\<exists>Q. majority M Q \<and> (\<forall>j \<in> Q. (j, c, t) \<in> h_votes h)))"

text \<open>
  What a vote of node \<open>j\<close> for candidate \<open>c\<close> says about what \<open>j\<close> has had in earlier terms.
\<close>

definition vote_sound :: "history \<Rightarrow> nat \<Rightarrow> nat \<Rightarrow> nat \<Rightarrow> bool" where
  "vote_sound h j c s \<longleftrightarrow>
     (\<forall>t k x. t < s \<longrightarrow> 0 < k \<longrightarrow> k \<le> h_acked h j t \<longrightarrow> h_lead_log h t = Some x \<longrightarrow> term_in x k = t \<longrightarrow>
        ahead (h_cand_log h c s) t k \<or> (\<exists>s'. s' < s \<and> began_without h t k s'))"

definition votes_once :: "(nat \<times> nat \<times> nat) set \<Rightarrow> bool" where
  "votes_once V \<longleftrightarrow> (\<forall>j c c' t. (j, c, t) \<in> V \<longrightarrow> (j, c', t) \<in> V \<longrightarrow> c = c')"

definition history_ok :: "nat set \<Rightarrow> history \<Rightarrow> bool" where
  "history_ok M h \<longleftrightarrow>
     finite M \<and> h_lead_log h 0 = None \<and>
     (\<forall>t x. h_lead_log h t = Some x \<longrightarrow> lead_log_ok h t x) \<and>
     (\<forall>t x. h_lead_log h t = Some x \<longrightarrow> t \<noteq> 1 \<longrightarrow> elected M h t x) \<and>
     (\<forall>c t. (c, c, t) \<in> h_votes h \<longrightarrow> rooted h (h_cand_log h c t) \<and>
        (\<forall>e \<in> set (h_cand_log h c t). e_term e < t)) \<and>
     (\<forall>j c t. (j, c, t) \<in> h_votes h \<longrightarrow> (c, c, t) \<in> h_votes h \<and> vote_sound h j c t) \<and>
     (\<forall>j t. 0 < h_acked h j t \<longrightarrow> (\<exists>x. h_lead_log h t = Some x \<and> h_acked h j t \<le> length x)) \<and>
     votes_once (h_votes h)"

lemma votes_onceD: "votes_once V \<Longrightarrow> (j, c, t) \<in> V \<Longrightarrow> (j, c', t) \<in> V \<Longrightarrow> c' = c"
  unfolding votes_once_def by blast

lemma history_okD:
  assumes "history_ok M h"
  shows "finite M" "h_lead_log h 0 = None"
    "h_lead_log h t = Some x \<Longrightarrow> lead_log_ok h t x"
    "h_lead_log h t = Some x \<Longrightarrow> t \<noteq> 1 \<Longrightarrow> elected M h t x"
    "(c, c, t) \<in> h_votes h \<Longrightarrow> rooted h (h_cand_log h c t)"
    "(c, c, t) \<in> h_votes h \<Longrightarrow> e \<in> set (h_cand_log h c t) \<Longrightarrow> e_term e < t"
    "(j, c, t) \<in> h_votes h \<Longrightarrow> (c, c, t) \<in> h_votes h"
    "(j, c, t) \<in> h_votes h \<Longrightarrow> vote_sound h j c t"
    "0 < h_acked h j t \<Longrightarrow> \<exists>x. h_lead_log h t = Some x \<and> h_acked h j t \<le> length x"
    "votes_once (h_votes h)"
  using assms unfolding history_ok_def by blast+

lemma vote_soundD:
  "vote_sound h j c s \<Longrightarrow> t < s \<Longrightarrow> 0 < k \<Longrightarrow> k \<le> h_acked h j t \<Longrightarrow> h_lead_log h t = Some x \<Longrightarrow>
   term_in x k = t \<Longrightarrow> ahead (h_cand_log h c s) t k \<or> (\<exists>s'. s' < s \<and> began_without h t k s')"
  unfolding vote_sound_def by simp

lemma terms_sortedD: "terms_sorted X \<Longrightarrow> j \<le> k \<Longrightarrow> k \<le> length X \<Longrightarrow> term_in X j \<le> term_in X k"
  by (simp add: terms_sorted_def)

section \<open>Logs that share an entry share what is before it\<close>

lemma term_in_0 [simp]: "term_in X 0 = 0"
  by (simp add: term_in_def)

lemma term_in_take [simp]: "j \<le> k \<Longrightarrow> term_in (take k X) j = term_in X j"
  by (simp add: term_in_def)

lemma term_in_prefix: "take k X = take k Y \<Longrightarrow> j \<le> k \<Longrightarrow> term_in X j = term_in Y j"
  by (metis term_in_take)

lemma take_eq_le: "take k X = take k Y \<Longrightarrow> j \<le> k \<Longrightarrow> take j X = take j Y"
  by (metis min.absorb1 take_take)

lemma take_of_take: "take n z = X \<Longrightarrow> j \<le> n \<Longrightarrow> take j X = take j z"
  by (auto simp: min_def)

lemma take_eq_length: "take k X = take k Y \<Longrightarrow> k \<le> length X \<Longrightarrow> k \<le> length Y"
  by (metis length_take min.absorb2 min.cobounded1)

lemma term_in_append1 [simp]: "k \<le> length X \<Longrightarrow> term_in (X @ Y) k = term_in X k"
  by (auto simp: term_in_def nth_append)

lemma rootedD:
  "rooted h X \<Longrightarrow> 0 < k \<Longrightarrow> k \<le> length X \<Longrightarrow>
   \<exists>x. h_lead_log h (term_in X k) = Some x \<and> k \<le> length x \<and> take k X = take k x"
  unfolding rooted_def by (metis take_eq_length)

lemma rooted_Nil [simp]: "rooted h []"
  by (simp add: rooted_def)

lemma rooted_take: "rooted h X \<Longrightarrow> rooted h (take n X)"
  by (auto simp: rooted_def min_def)

theorem logs_match:
  assumes "rooted h X" "rooted h Y" "k \<le> length X" "k \<le> length Y" "term_in X k = term_in Y k"
  shows "take k X = take k Y"
proof (cases "k = 0")
  case False
  then show ?thesis using assms unfolding rooted_def by (metis neq0_conv option.inject)
qed simp

lemma rooted_sorted:
  assumes h: "history_ok M h" and X: "rooted h X"
  shows "terms_sorted X"
  unfolding terms_sorted_def
proof (intro allI impI)
  fix j k assume jk: "j \<le> k" "k \<le> length X"
  show "term_in X j \<le> term_in X k"
  proof (cases "k = 0")
    case False
    then obtain x where x: "h_lead_log h (term_in X k) = Some x" "k \<le> length x" "take k X = take k x"
      using rootedD [OF X, of k] jk by auto
    have "terms_sorted x" using history_okD(3) [OF h x(1)] by (simp add: lead_log_ok_def)
    then have "term_in x j \<le> term_in x k" using jk x(2) by (simp add: terms_sorted_def)
    then show ?thesis using term_in_prefix [OF x(3)] jk by simp
  qed (use jk in simp)
qed

lemma rooted_consec:
  assumes h: "history_ok M h" and X: "rooted h X"
  shows "consec 1 X"
proof (cases "length X = 0")
  case False
  then obtain x where x: "h_lead_log h (term_in X (length X)) = Some x" "X = take (length X) x"
    using rootedD [OF X, of "length X"] by auto
  have "consec 1 x" using history_okD(3) [OF h x(1)] by (simp add: lead_log_ok_def)
  then show ?thesis using consec_take x(2) by metis
qed simp

lemma rooted_term_pos:
  assumes h: "history_ok M h" and X: "rooted h X" and e: "e \<in> set X"
  shows "0 < e_term e"
proof -
  obtain k where k: "k < length X" "e = X ! k" using e by (auto simp: in_set_conv_nth)
  then have "term_in X (Suc k) = e_term e" by (simp add: term_in_def)
  then have "h_lead_log h (e_term e) \<noteq> None" using rootedD [OF X, of "Suc k"] k by auto
  then show ?thesis using history_okD(2) [OF h] by (cases "e_term e") auto
qed

section \<open>A leader has what was chosen before\<close>

lemma lead_log_pos: "history_ok M h \<Longrightarrow> h_lead_log h t = Some x \<Longrightarrow> 0 < t"
  using history_okD(2) [of M h] by (cases t) auto

lemma chosen_majority: "chosen M h t k \<Longrightarrow> majority M {j \<in> M. k \<le> h_acked h j t}"
  by (simp add: chosen_def)

theorem candidate_has_chosen:
  assumes h: "history_ok M h" and c: "chosen M h t k" and x: "h_lead_log h t = Some x"
    and s: "t < s" "h_lead_log h s \<noteq> None"
  shows "take k (h_cand_log h (h_winner h s) s) = take k x"
  using s
proof (induction s rule: less_induct)
  case (less s)
  let ?c = "h_winner h s"
  let ?C = "h_cand_log h ?c s"
  obtain y where y: "h_lead_log h s = Some y" using less.prems(2) by auto
  have k: "0 < k" "k \<le> length x" "term_in x k = t" using c x by (auto simp: chosen_def)
  have "0 < t" by (rule lead_log_pos [OF h x])
  then have "elected M h s y" using history_okD(4) [OF h y] less.prems(1) by simp
  then obtain Q where Q: "majority M Q" "\<forall>j \<in> Q. (j, ?c, s) \<in> h_votes h" and cc: "(?c, ?c, s) \<in> h_votes h"
    by (auto simp: elected_def Let_def)
  obtain j where j: "k \<le> h_acked h j t" "(j, ?c, s) \<in> h_votes h"
    using maj.witness [OF chosen_majority [OF c], of "\<lambda>j. k \<le> h_acked h j t" Q "\<lambda>j. (j, ?c, s) \<in> h_votes h"]
      Q by auto
  have before: "take k (h_cand_log h (h_winner h s') s') = take k x"
    if "t < s'" "s' < s" "h_lead_log h s' \<noteq> None" for s'
    using less.IH [OF that(2,1,3)] .
  have "\<not> began_without h t k s'" if "s' < s" for s'
    using before [OF _ that] x by (auto simp: began_without_def simp del: not_None_eq)
  then have a: "ahead ?C t k"
    using vote_soundD [OF history_okD(8) [OF h j(2)] less.prems(1) k(1) j(1) x k(3)] by blast
  let ?n = "length ?C" and ?u = "term_in ?C (length ?C)"
  have C: "rooted h ?C" by (rule history_okD(5) [OF h cc])
  have n0: "?n \<noteq> 0" using a \<open>0 < t\<close> by (auto simp: ahead_def)
  then obtain z where z: "h_lead_log h ?u = Some z" "?n \<le> length z" "?C = take ?n z"
    using rootedD [OF C, of ?n] by auto
  have us: "?u < s"
    using history_okD(6) [OF h cc, of "?C ! (?n - 1)"] n0 by (simp add: term_in_def)
  consider "t < ?u" | "?u = t" "k \<le> ?n" using a by (auto simp: ahead_def)
  then show ?case
  proof cases
    case 1
    let ?K = "h_cand_log h (h_winner h ?u) ?u"
    have K: "take k ?K = take k x" by (rule before [OF 1 us]) (simp add: z(1))
    have "elected M h ?u z" using history_okD(4) [OF h z(1)] 1 \<open>0 < t\<close> by simp
    then have p: "take (length ?K) z = ?K" by (simp add: elected_def Let_def)
    have "k \<le> length ?K" by (rule take_eq_length [OF K [symmetric] k(2)])
    then have zx: "take k z = take k x" using take_of_take [OF p, of k] K by simp
    have kz: "k \<le> length z" by (rule take_eq_length [OF zx [symmetric] k(2)])
    have "term_in z k = t" using term_in_prefix [OF zx] k(3) by simp
    moreover have "term_in z ?n = ?u" using z(3) term_in_take [of ?n ?n z] by simp
    moreover have "terms_sorted z" using history_okD(3) [OF h z(1)] by (simp add: lead_log_ok_def)
    ultimately have "k \<le> ?n" using 1 kz terms_sortedD [of z ?n k] by linarith
    then show ?thesis using take_of_take [OF z(3) [symmetric], of k] zx by simp
  next
    case 2
    then have "z = x" using z(1) x by simp
    then show ?thesis using take_of_take [OF z(3) [symmetric], of k] 2(2) by simp
  qed
qed

corollary leader_has_chosen:
  assumes h: "history_ok M h" and c: "chosen M h t k" and x: "h_lead_log h t = Some x"
    and s: "t \<le> s" "h_lead_log h s = Some y"
  shows "take k y = take k x"
proof (cases "t = s")
  case False
  let ?C = "h_cand_log h (h_winner h s) s"
  have k: "k \<le> length x" using c x by (auto simp: chosen_def)
  have C: "take k ?C = take k x" by (rule candidate_has_chosen [OF h c x]) (use s False in auto)
  have "elected M h s y"
    using history_okD(4) [OF h s(2)] False s(1) lead_log_pos [OF h x] by simp
  then have "take (length ?C) y = ?C" by (simp add: elected_def Let_def)
  moreover have "k \<le> length ?C" by (rule take_eq_length [OF C [symmetric] k])
  ultimately show ?thesis using take_of_take [of "length ?C" y ?C k] C by simp
qed (use s x in simp)

lemma covered_lead:
  assumes h: "history_ok M h" and c: "covered M h T X n" and y: "h_lead_log h s = Some y" "T \<le> s"
  shows "take n X = take n y \<and> n \<le> length y"
proof (cases "n = 0")
  case False
  then obtain t k x where t: "t \<le> T" "chosen M h t k" "h_lead_log h t = Some x" "n \<le> k"
      "n \<le> length X" "take n X = take n x"
    using c by (auto simp: covered_def)
  have "take k y = take k x" by (rule leader_has_chosen [OF h t(2,3) _ y(1)]) (use t(1) y(2) in simp)
  then have e: "take n X = take n y" using t(4,6) take_eq_le by metis
  then show ?thesis using take_eq_length [OF e t(5)] by simp
qed simp

theorem committed_agree:
  assumes h: "history_ok M h" and X: "covered M h T X n" and Y: "covered M h T' Y n'"
    and i: "i \<le> n" "i \<le> n'"
  shows "take i X = take i Y"
proof (cases "n = 0 \<or> n' = 0")
  case False
  then obtain t k x t' k' x' where
    t: "chosen M h t k" "h_lead_log h t = Some x" "n \<le> k" "take n X = take n x" and
    t': "chosen M h t' k'" "h_lead_log h t' = Some x'" "n' \<le> k'" "take n' Y = take n' x'"
    using X Y by (auto simp: covered_def)
  have "take i x = take i x'"
  proof (cases "t \<le> t'")
    case True
    have "take k x' = take k x" by (rule leader_has_chosen [OF h t(1,2) True t'(2)])
    then show ?thesis using i t(3) take_eq_le by metis
  next
    case False
    have "take k' x = take k' x'" by (rule leader_has_chosen [OF h t'(1,2) _ t(2)]) (use False in simp)
    then show ?thesis using i t'(3) take_eq_le by metis
  qed
  then show ?thesis using t(4) t'(4) i take_eq_le by metis
qed (use i in auto)

end
