(* ===== verification/Replica_Growth.thy ===== *)
theory Replica_Growth
  imports Replica_History
begin

text \<open>
  How the steps of one node extend the history: it votes, campaigns, is elected, appends to its log
  as a leader, or takes over a prefix of its leader's log.
\<close>

section \<open>What a step of one node leaves alone\<close>

definition grown :: "nat \<Rightarrow> history \<Rightarrow> history \<Rightarrow> bool" where
  "grown i h h' \<longleftrightarrow>
     (\<forall>t x. h_lead_log h t = Some x \<longrightarrow> h_winner h' t = h_winner h t \<and>
        (\<exists>y. h_lead_log h' t = Some (x @ y)) \<and> (h_winner h t \<noteq> i \<longrightarrow> h_lead_log h' t = Some x)) \<and>
     (\<forall>t. h_lead_log h t = None \<longrightarrow> h_lead_log h' t \<noteq> None \<longrightarrow> h_winner h' t = i) \<and>
     (\<forall>c t. (c, c, t) \<in> h_votes h \<longrightarrow> h_cand_log h' c t = h_cand_log h c t) \<and>
     h_votes h \<subseteq> h_votes h' \<and>
     (\<forall>j c t. j \<noteq> i \<longrightarrow> (j, c, t) \<in> h_votes h' \<longrightarrow> (j, c, t) \<in> h_votes h) \<and>
     (\<forall>j t. h_acked h j t \<le> h_acked h' j t) \<and>
     (\<forall>j t. j \<noteq> i \<longrightarrow> h_acked h' j t = h_acked h j t) \<and>
     (\<forall>j. j \<noteq> i \<longrightarrow> h_log h' j = h_log h j)"

lemma grownD:
  assumes "grown i h h'"
  shows "h_lead_log h t = Some x \<Longrightarrow> h_winner h' t = h_winner h t"
    "h_lead_log h t = Some x \<Longrightarrow> \<exists>y. h_lead_log h' t = Some (x @ y)"
    "h_lead_log h t = Some x \<Longrightarrow> h_winner h t \<noteq> i \<Longrightarrow> h_lead_log h' t = Some x"
    "h_lead_log h t = None \<Longrightarrow> h_lead_log h' t \<noteq> None \<Longrightarrow> h_winner h' t = i"
    "(c, c, t) \<in> h_votes h \<Longrightarrow> h_cand_log h' c t = h_cand_log h c t"
    "(j, c, t) \<in> h_votes h \<Longrightarrow> (j, c, t) \<in> h_votes h'"
    "j \<noteq> i \<Longrightarrow> (j, c, t) \<in> h_votes h' \<Longrightarrow> (j, c, t) \<in> h_votes h"
    "h_acked h j t \<le> h_acked h' j t"
    "j \<noteq> i \<Longrightarrow> h_acked h' j t = h_acked h j t"
    "j \<noteq> i \<Longrightarrow> h_log h' j = h_log h j"
  using assms unfolding grown_def by blast+

lemma grown_refl [simp]: "grown i h h"
  by (auto simp: grown_def)

lemma grown_trans [trans]:
  assumes ab: "grown i a b" and bc: "grown i b d"
  shows "grown i a d"
proof -
  have lead: "h_winner d t = h_winner a t \<and> (\<exists>y. h_lead_log d t = Some (x @ y)) \<and>
      (h_winner a t \<noteq> i \<longrightarrow> h_lead_log d t = Some x)" if x: "h_lead_log a t = Some x" for t x
  proof -
    obtain y where y: "h_lead_log b t = Some (x @ y)" using grownD(2) [OF ab x] by blast
    obtain z where "h_lead_log d t = Some ((x @ y) @ z)" using grownD(2) [OF bc y] by blast
    then show ?thesis
      using grownD(1,3) [OF ab x] grownD(1) [OF bc y] grownD(3) [OF bc] y by auto
  qed
  have new: "h_winner d t = i" if "h_lead_log a t = None" "h_lead_log d t \<noteq> None" for t
  proof (cases "h_lead_log b t")
    case None
    then show ?thesis using grownD(4) [OF bc] that by simp
  next
    case (Some x)
    then show ?thesis using grownD(4) [OF ab that(1)] grownD(1) [OF bc Some] by simp
  qed
  have votes: "h_votes a \<subseteq> h_votes d" using ab bc by (auto simp: grown_def)
  have cand: "h_cand_log d c t = h_cand_log a c t" if "(c, c, t) \<in> h_votes a" for c t
    using grownD(5) [OF ab that] grownD(5) [OF bc grownD(6) [OF ab that]] by simp
  have old: "(j, c, t) \<in> h_votes a" if "j \<noteq> i" "(j, c, t) \<in> h_votes d" for j c t
    using that grownD(7) [OF ab] grownD(7) [OF bc] by blast
  have ack: "h_acked a j t \<le> h_acked d j t" for j t
    using grownD(8) [OF ab, of j t] grownD(8) [OF bc, of j t] by (rule order_trans)
  have same: "h_acked d j t = h_acked a j t" "h_log d j = h_log a j" if "j \<noteq> i" for j t
    using that grownD(9,10) [OF ab] grownD(9,10) [OF bc] by simp_all
  show ?thesis
    unfolding grown_def using lead new votes cand old ack same by blast
qed

lemma rooted_grown:
  assumes g: "grown i h h'" and X: "rooted h X"
  shows "rooted h' X"
  unfolding rooted_def
proof (intro allI impI)
  fix k assume k: "0 < k" "k \<le> length X"
  obtain x where x: "h_lead_log h (term_in X k) = Some x" "k \<le> length x" "take k X = take k x"
    using rootedD [OF X k] by blast
  obtain y where "h_lead_log h' (term_in X k) = Some (x @ y)" using grownD(2) [OF g x(1)] by blast
  then show "\<exists>x. h_lead_log h' (term_in X k) = Some x \<and> take k X = take k x" using x(2,3) by simp
qed

lemma began_without_grown:
  assumes g: "grown i h h'" and h: "history_ok M h" and x: "h_lead_log h t = Some x" "k \<le> length x"
    and b: "began_without h t k s"
  shows "began_without h' t k s"
proof -
  obtain z where z: "h_lead_log h s = Some z" "t < s"
      "take k (h_cand_log h (h_winner h s) s) \<noteq> take k x"
    using b x by (auto simp: began_without_def)
  have "0 < t" by (rule lead_log_pos [OF h x(1)])
  then have "elected M h s z" using history_okD(4) [OF h z(1)] z(2) by simp
  then have "(h_winner h s, h_winner h s, s) \<in> h_votes h" by (simp add: elected_def Let_def)
  then have "h_cand_log h' (h_winner h' s) s = h_cand_log h (h_winner h s) s"
    using grownD(5) [OF g] grownD(1) [OF g z(1)] by simp
  then show ?thesis
    using z x grownD(2) [OF g x(1)] grownD(2) [OF g z(1)] by (auto simp: began_without_def)
qed

lemma majority_mono: "majority M P \<Longrightarrow> P \<subseteq> Q \<Longrightarrow> Q \<subseteq> M \<Longrightarrow> majority M Q"
  unfolding majority_def by (meson card_mono finite_subset le_trans mult_le_mono2 not_le order.strict_trans2)

lemma chosen_grown:
  assumes g: "grown i h h'" and c: "chosen M h t k"
  shows "chosen M h' t k"
proof -
  obtain x where x: "h_lead_log h t = Some x" "0 < k" "k \<le> length x" "term_in x k = t"
    using c by (auto simp: chosen_def)
  obtain y where y: "h_lead_log h' t = Some (x @ y)" using grownD(2) [OF g x(1)] by blast
  have "majority M {j \<in> M. k \<le> h_acked h' j t}"
  proof (rule majority_mono [OF chosen_majority [OF c]])
    show "{j \<in> M. k \<le> h_acked h j t} \<subseteq> {j \<in> M. k \<le> h_acked h' j t}"
      using grownD(8) [OF g] order_trans by blast
  qed auto
  then show ?thesis using x y by (auto simp: chosen_def)
qed

lemma covered_grown:
  assumes g: "grown i h h'" and c: "covered M h T X n"
  shows "covered M h' T X n"
proof (cases "n = 0")
  case False
  then obtain t k x where t: "t \<le> T" "chosen M h t k" "h_lead_log h t = Some x" "n \<le> k"
      "n \<le> length X" "take n X = take n x"
    using c by (auto simp: covered_def)
  obtain y where "h_lead_log h' t = Some (x @ y)" using grownD(2) [OF g t(3)] by blast
  moreover have "n \<le> length x" by (rule take_eq_length [OF t(6,5)])
  ultimately show ?thesis using t chosen_grown [OF g t(2)] unfolding covered_def by fastforce
qed (simp add: covered_def)

lemma covered_later: "covered M h T X n \<Longrightarrow> T \<le> T' \<Longrightarrow> covered M h T' X n"
  unfolding covered_def by (meson order_trans)

lemma covered_less:
  assumes "covered M h T X n" "n' \<le> n"
  shows "covered M h T X n'"
proof (cases "n = 0")
  case False
  then obtain t k x where t: "t \<le> T" "chosen M h t k" "h_lead_log h t = Some x" "n \<le> k"
      "n \<le> length X" "take n X = take n x"
    using assms(1) by (auto simp: covered_def)
  have "take n' X = take n' x" by (rule take_eq_le [OF t(6) assms(2)])
  then show ?thesis unfolding covered_def using t(1-5) assms(2) by (meson order_trans)
qed (use assms in \<open>simp add: covered_def\<close>)

lemma covered_prefix:
  assumes "covered M h T X n" "take n X = take n Y"
  shows "covered M h T Y n"
  using assms take_eq_length [OF assms(2)] unfolding covered_def by metis

lemma covered_length: "covered M h T X n \<Longrightarrow> n \<le> length X"
  by (auto simp: covered_def)

lemma vote_sound_grown:
  assumes g: "grown i h h'" and h: "history_ok M h" and v: "(j, c, s) \<in> h_votes h"
    and a: "\<And>t. t < s \<Longrightarrow> h_acked h' j t = h_acked h j t"
  shows "vote_sound h' j c s"
  unfolding vote_sound_def
proof (intro allI impI)
  fix t k y assume t: "t < s" "0 < k" "k \<le> h_acked h' j t" "h_lead_log h' t = Some y" "term_in y k = t"
  then have k: "k \<le> h_acked h j t" using a by simp
  then obtain x where x: "h_lead_log h t = Some x" "k \<le> length x"
    using history_okD(9) [OF h, of j t] t(2) by force
  then have "term_in x k = t" using grownD(2) [OF g x(1)] t(4,5) by auto
  then have "ahead (h_cand_log h c s) t k \<or> (\<exists>s'. s' < s \<and> began_without h t k s')"
    using vote_soundD [OF history_okD(8) [OF h v] t(1,2) k x(1)] by simp
  moreover have "h_cand_log h' c s = h_cand_log h c s"
    using grownD(5) [OF g history_okD(7) [OF h v]] .
  ultimately show "ahead (h_cand_log h' c s) t k \<or> (\<exists>s'. s' < s \<and> began_without h' t k s')"
    using began_without_grown [OF g h x] by auto
qed

lemma elected_grown:
  assumes g: "grown i h h'" and x: "h_lead_log h t = Some x" and e: "elected M h t x"
  shows "elected M h' t (x @ y)"
proof -
  have "h_winner h' t = h_winner h t" by (rule grownD(1) [OF g x])
  moreover have "h_cand_log h' (h_winner h t) t = h_cand_log h (h_winner h t) t"
    using grownD(5) [OF g] e by (simp add: elected_def Let_def)
  moreover have "length (h_cand_log h (h_winner h t) t) \<le> length x"
    using e unfolding elected_def Let_def by (metis length_take min.cobounded1)
  ultimately show ?thesis
    using e grownD(6) [OF g] unfolding elected_def Let_def by auto
qed

lemma lead_log_ok_grown: "grown i h h' \<Longrightarrow> lead_log_ok h t x \<Longrightarrow> lead_log_ok h' t x"
  by (simp add: lead_log_ok_def rooted_grown)

section \<open>Votes\<close>

definition add_vote :: "history \<Rightarrow> nat \<Rightarrow> nat \<Rightarrow> nat \<Rightarrow> history" where
  "add_vote h i c t = h\<lparr>h_votes := insert (i, c, t) (h_votes h)\<rparr>"

lemma votes_once_insert:
  "votes_once V \<Longrightarrow> (\<And>c'. (i, c', t) \<in> V \<Longrightarrow> c' = c) \<Longrightarrow> votes_once (insert (i, c, t) V)"
  unfolding votes_once_def by blast

lemma add_vote_grown: "grown i h (add_vote h i c t)"
  by (auto simp: grown_def add_vote_def)

lemma add_vote_ok:
  assumes h: "history_ok M h" and c: "(c, c, t) \<in> h_votes h" and v: "vote_sound h i c t"
    and one: "\<And>c'. (i, c', t) \<in> h_votes h \<Longrightarrow> c' = c"
  shows "history_ok M (add_vote h i c t)"
proof -
  let ?h = "add_vote h i c t"
  have g: "grown i h ?h" by (rule add_vote_grown)
  have eq: "h_lead_log ?h = h_lead_log h" "h_cand_log ?h = h_cand_log h" "h_acked ?h = h_acked h"
      "h_winner ?h = h_winner h" "h_votes ?h = insert (i, c, t) (h_votes h)"
    by (simp_all add: add_vote_def)
  have vs: "vote_sound ?h = vote_sound h"
    by (intro ext) (simp add: vote_sound_def began_without_def eq)
  have r: "rooted ?h = rooted h" by (intro ext) (simp add: rooted_def eq)
  have "elected M ?h t' x" if "h_lead_log h t' = Some x" "t' \<noteq> 1" for t' x
    using elected_grown [OF g that(1) history_okD(4) [OF h that], of "[]"] by simp
  then show ?thesis
    unfolding history_ok_def lead_log_ok_def r vs eq
    using history_okD(1-9) [OF h] c v votes_once_insert [OF history_okD(10) [OF h] one]
    by (auto simp: lead_log_ok_def)
qed

text \<open>A node campaigns in term \<open>t\<close>, with its log as it is.\<close>

definition add_candidate :: "history \<Rightarrow> nat \<Rightarrow> nat \<Rightarrow> history" where
  "add_candidate h i t =
     h\<lparr>h_cand_log := (h_cand_log h)(i := (h_cand_log h i)(t := h_log h i)),
       h_votes := insert (i, i, t) (h_votes h)\<rparr>"

lemma add_candidate_grown: "(i, i, t) \<notin> h_votes h \<Longrightarrow> grown i h (add_candidate h i t)"
  by (auto simp: grown_def add_candidate_def)

lemma add_candidate_ok:
  assumes h: "history_ok M h" and new: "\<And>c. (i, c, t) \<notin> h_votes h" and t: "1 < t"
    and X: "rooted h (h_log h i)" "\<forall>e \<in> set (h_log h i). e_term e < t"
    and v: "\<And>s k x. s < t \<Longrightarrow> 0 < k \<Longrightarrow> k \<le> h_acked h i s \<Longrightarrow> h_lead_log h s = Some x \<Longrightarrow> term_in x k = s \<Longrightarrow>
      ahead (h_log h i) s k \<or> (\<exists>s'. s' < t \<and> began_without h s k s')"
  shows "history_ok M (add_candidate h i t)"
proof -
  let ?h = "add_candidate h i t"
  have g: "grown i h ?h" by (rule add_candidate_grown [OF new])
  have eq: "h_lead_log ?h = h_lead_log h" "h_acked ?h = h_acked h" "h_winner ?h = h_winner h"
      "h_votes ?h = insert (i, i, t) (h_votes h)" "h_cand_log ?h i t = h_log h i"
      "\<And>c s. (c, s) \<noteq> (i, t) \<Longrightarrow> h_cand_log ?h c s = h_cand_log h c s"
    by (auto simp: add_candidate_def)
  have r: "rooted ?h = rooted h" by (intro ext) (simp add: rooted_def eq)
  have lok: "lead_log_ok ?h = lead_log_ok h" by (intro ext) (simp add: lead_log_ok_def r)
  have el: "elected M ?h t' x" if "h_lead_log h t' = Some x" "t' \<noteq> 1" for t' x
    using elected_grown [OF g that(1) history_okD(4) [OF h that], of "[]"] by simp
  have cand: "rooted h (h_cand_log ?h c s) \<and> (\<forall>e \<in> set (h_cand_log ?h c s). e_term e < s)"
    if "(c, c, s) \<in> insert (i, i, t) (h_votes h)" for c s
    using that X history_okD(5,6) [OF h, of c s] eq(5) eq(6) [of c s] by (cases "(c, s) = (i, t)") auto
  have self: "vote_sound ?h i i t"
    unfolding vote_sound_def
  proof (intro allI impI)
    fix s k x assume s: "s < t" "0 < k" "k \<le> h_acked ?h i s" "h_lead_log ?h s = Some x" "term_in x k = s"
    then have x: "h_lead_log h s = Some x" "k \<le> length x"
      using history_okD(9) [OF h, of i s] by (auto simp: eq)
    from v [OF s(1,2) s(3) [unfolded eq] x(1) s(5)]
    show "ahead (h_cand_log ?h i t) s k \<or> (\<exists>s'. s' < t \<and> began_without ?h s k s')"
      using began_without_grown [OF g h x] eq(5) by auto
  qed
  have votes: "(c, c, s) \<in> insert (i, i, t) (h_votes h) \<and> vote_sound ?h j c s"
    if "(j, c, s) \<in> insert (i, i, t) (h_votes h)" for j c s
  proof (cases "(j, c, s) = (i, i, t)")
    case False
    then have "(j, c, s) \<in> h_votes h" using that by (metis insertE)
    then show ?thesis using vote_sound_grown [OF g h] history_okD(7) [OF h] eq(2) by auto
  qed (use self in simp)
  show ?thesis
    unfolding history_ok_def r lok eq(1-4)
    using history_okD(1-3,9) [OF h] votes_once_insert [OF history_okD(10) [OF h]] new el cand votes
    by blast
qed

section \<open>Leaders\<close>

definition add_leader :: "history \<Rightarrow> nat \<Rightarrow> nat \<Rightarrow> history" where
  "add_leader h i t =
     h\<lparr>h_lead_log := (h_lead_log h)(t \<mapsto> h_log h i), h_winner := (h_winner h)(t := i),
       h_acked := (h_acked h)(i := (h_acked h i)(t := length (h_log h i)))\<rparr>"

lemma add_leader_grown:
  assumes h: "history_ok M h" and n: "h_lead_log h t = None"
  shows "grown i h (add_leader h i t)"
proof -
  have "h_acked h i t = 0" using history_okD(9) [OF h, of i t] n by (cases "h_acked h i t") auto
  then show ?thesis using n by (auto simp: grown_def add_leader_def)
qed

lemma terms_below:
  assumes "\<forall>e \<in> set X. e_term e < t" "0 < k" "k \<le> length X"
  shows "term_in X k < t"
proof -
  have "X ! (k - 1) \<in> set X" using assms(2,3) by (intro nth_mem) simp
  then show ?thesis using assms by (simp add: term_in_def)
qed

lemma add_leader_ok:
  assumes h: "history_ok M h" and n: "h_lead_log h t = None" and t: "0 < t"
    and X: "h_log h i = h_cand_log h i t" "length (h_log h i) + 1 < W64"
    and v: "(i, i, t) \<in> h_votes h" "majority M Q" "\<forall>j \<in> Q. (j, i, t) \<in> h_votes h"
  shows "history_ok M (add_leader h i t)"
proof -
  let ?h = "add_leader h i t" and ?X = "h_log h i"
  have g: "grown i h ?h" by (rule add_leader_grown [OF h n])
  have eq: "h_lead_log ?h = (h_lead_log h)(t \<mapsto> ?X)" "h_cand_log ?h = h_cand_log h"
      "h_votes ?h = h_votes h" "h_winner ?h = (h_winner h)(t := i)"
      "h_acked ?h = (h_acked h)(i := (h_acked h i)(t := length ?X))"
    by (auto simp: add_leader_def)
  have XX: "rooted h ?X" "\<forall>e \<in> set ?X. e_term e < t"
    using history_okD(5,6) [OF h v(1)] X(1) by simp_all
  have "term_in ?X k \<le> t" if "k \<le> length ?X" for k
    using terms_below [OF XX(2) _ that] t by (cases "k = 0") auto
  then have "lead_log_ok ?h t ?X"
    unfolding lead_log_ok_def terms_upto_def
    using rooted_consec [OF h XX(1)] rooted_sorted [OF h XX(1)] rooted_grown [OF g XX(1)] X(2) by simp
  then have lok: "lead_log_ok ?h s x" if "h_lead_log ?h s = Some x" for s x
    using that history_okD(3) [OF h] lead_log_ok_grown [OF g] by (auto simp: eq split: if_split_asm)
  have el: "elected M ?h s x" if x: "h_lead_log ?h s = Some x" "s \<noteq> 1" for s x
  proof (cases "s = t")
    case True
    then show ?thesis using x v X(1) by (auto simp: elected_def eq)
  next
    case False
    then have o: "h_lead_log h s = Some x" using x by (simp add: eq)
    show ?thesis using elected_grown [OF g o history_okD(4) [OF h o x(2)], of "[]"] by simp
  qed
  have no: "term_in ?X k \<noteq> t" if "0 < k" "k \<le> length ?X" for k
    using terms_below [OF XX(2) that] by simp
  have vs: "vote_sound ?h j c s" if jc: "(j, c, s) \<in> h_votes h" for j c s
    unfolding vote_sound_def
  proof (intro allI impI)
    fix t' k y assume t': "t' < s" "0 < k" "k \<le> h_acked ?h j t'" "h_lead_log ?h t' = Some y" "term_in y k = t'"
    have "t' \<noteq> t"
    proof
      assume e: "t' = t"
      then have "y = ?X" using t'(4) by (simp add: eq)
      moreover have "h_acked h j t = 0" using history_okD(9) [OF h, of j t] n by (cases "h_acked h j t") auto
      ultimately show False using t' e no [of k] by (simp add: eq split: if_split_asm)
    qed
    then have k: "k \<le> h_acked h j t'" and y: "h_lead_log h t' = Some y" using t'(3,4) by (auto simp: eq split: if_split_asm)
    have "k \<le> length y" using history_okD(9) [OF h, of j t'] k y t'(2) by auto
    then show "ahead (h_cand_log ?h c s) t' k \<or> (\<exists>s'. s' < s \<and> began_without ?h t' k s')"
      using vote_soundD [OF history_okD(8) [OF h jc] t'(1,2) k y t'(5)] began_without_grown [OF g h y]
      by (auto simp: eq)
  qed
  have ack: "\<exists>x. h_lead_log ?h s = Some x \<and> h_acked ?h j s \<le> length x" if "0 < h_acked ?h j s" for j s
    using that history_okD(9) [OF h, of j s] n by (auto simp: eq split: if_split_asm)
  show ?thesis
    unfolding history_ok_def eq(2,3)
    using history_okD(1,2,6,7,10) [OF h] rooted_grown [OF g history_okD(5) [OF h]] lok el vs ack t
    by (auto simp: eq)
qed

text \<open>A leader appends entries of its term.\<close>

definition add_entries :: "history \<Rightarrow> nat \<Rightarrow> nat \<Rightarrow> entry list \<Rightarrow> history" where
  "add_entries h i t es =
     h\<lparr>h_lead_log := (h_lead_log h)(t \<mapsto> h_log h i @ es), h_log := (h_log h)(i := h_log h i @ es),
       h_acked := (h_acked h)(i := (h_acked h i)(t := length (h_log h i @ es)))\<rparr>"

lemma add_entries_grown:
  assumes h: "history_ok M h" and x: "h_lead_log h t = Some (h_log h i)" "h_winner h t = i"
  shows "grown i h (add_entries h i t es)"
proof -
  have "h_acked h i t \<le> length (h_log h i)"
    using history_okD(9) [OF h, of i t] x by (cases "h_acked h i t") auto
  then show ?thesis using x by (auto simp: grown_def add_entries_def)
qed

lemma term_in_append2: "length X < k \<Longrightarrow> k \<le> length (X @ Y) \<Longrightarrow> \<exists>e \<in> set Y. term_in (X @ Y) k = e_term e"
  by (auto simp: term_in_def nth_append intro!: bexI [of _ "Y ! (k - 1 - length X)"] nth_mem)

lemma add_entries_ok:
  assumes h: "history_ok M h" and x: "h_lead_log h t = Some (h_log h i)" "h_winner h t = i"
    and es: "\<forall>e \<in> set es. e_term e = t" "consec (length (h_log h i) + 1) es"
      "length (h_log h i @ es) + 1 < W64"
    and v: "\<And>c s. (i, c, s) \<in> h_votes h \<Longrightarrow> s \<le> t"
  shows "history_ok M (add_entries h i t es)"
proof -
  let ?h = "add_entries h i t es" and ?X = "h_log h i"
  have g: "grown i h ?h" by (rule add_entries_grown [OF h x])
  have eq: "h_lead_log ?h = (h_lead_log h)(t \<mapsto> ?X @ es)" "h_cand_log ?h = h_cand_log h"
      "h_votes ?h = h_votes h" "h_winner ?h = h_winner h"
      "h_acked ?h = (h_acked h)(i := (h_acked h i)(t := length (?X @ es)))"
    by (auto simp: add_entries_def)
  have X: "consec 1 ?X" "terms_upto t ?X" "terms_sorted ?X" "rooted h ?X"
    using history_okD(3) [OF h x(1)] by (simp_all add: lead_log_ok_def)
  have new: "term_in (?X @ es) k = t" if "length ?X < k" "k \<le> length (?X @ es)" for k
    using term_in_append2 [OF that] es(1) by auto
  have up: "term_in (?X @ es) k \<le> t" if "k \<le> length (?X @ es)" for k
    using new [OF _ that] X(2) by (cases "k \<le> length ?X") (auto simp: terms_upto_def)
  have "terms_sorted (?X @ es)"
    unfolding terms_sorted_def
  proof (intro allI impI)
    fix j k assume jk: "j \<le> k" "k \<le> length (?X @ es)"
    show "term_in (?X @ es) j \<le> term_in (?X @ es) k"
    proof (cases "k \<le> length ?X")
      case True
      then show ?thesis using X(3) jk by (simp add: terms_sorted_def)
    next
      case False
      then show ?thesis using new [of k] up [of j] jk by simp
    qed
  qed
  moreover have "rooted ?h (?X @ es)"
    unfolding rooted_def
  proof (intro allI impI)
    fix k assume k: "0 < k" "k \<le> length (?X @ es)"
    show "\<exists>y. h_lead_log ?h (term_in (?X @ es) k) = Some y \<and> take k (?X @ es) = take k y"
    proof (cases "k \<le> length ?X")
      case True
      then show ?thesis
        using rooted_grown [OF g X(4)] k(1) by (simp add: rooted_def)
    qed (use new [of k] k in \<open>simp add: eq\<close>)
  qed
  ultimately have "lead_log_ok ?h t (?X @ es)"
    using X(1) es up unfolding lead_log_ok_def terms_upto_def by simp
  then have lok: "lead_log_ok ?h s y" if "h_lead_log ?h s = Some y" for s y
    using that history_okD(3) [OF h] lead_log_ok_grown [OF g] by (auto simp: eq split: if_split_asm)
  have el: "elected M ?h s y" if y: "h_lead_log ?h s = Some y" "s \<noteq> 1" for s y
  proof (cases "s = t")
    case True
    then show ?thesis using elected_grown [OF g x(1) history_okD(4) [OF h x(1)], of es] y by (auto simp: eq)
  next
    case False
    then have o: "h_lead_log h s = Some y" using y by (simp add: eq)
    show ?thesis using elected_grown [OF g o history_okD(4) [OF h o y(2)], of "[]"] by simp
  qed
  have vs: "vote_sound ?h j c s" if jc: "(j, c, s) \<in> h_votes h" for j c s
    by (rule vote_sound_grown [OF g h jc]) (use v jc in \<open>force simp: eq\<close>)
  have ack: "\<exists>y. h_lead_log ?h s = Some y \<and> h_acked ?h j s \<le> length y" if "0 < h_acked ?h j s" for j s
    using that history_okD(9) [OF h, of j s] x(1) by (auto simp: eq split: if_split_asm)
  show ?thesis
    unfolding history_ok_def eq(2,3)
    using history_okD(1,2,6,7,10) [OF h] rooted_grown [OF g history_okD(5) [OF h]] lok el vs ack
      lead_log_pos [OF h x(1)]
    by (auto simp: eq)
qed

section \<open>Followers\<close>

text \<open>A node has the first \<open>e\<close> entries of the leader of term \<open>t\<close>, and its log is now \<open>Y\<close>.\<close>

definition add_ack :: "history \<Rightarrow> nat \<Rightarrow> nat \<Rightarrow> nat \<Rightarrow> entry list \<Rightarrow> history" where
  "add_ack h i t e Y =
     h\<lparr>h_acked := (h_acked h)(i := (h_acked h i)(t := max (h_acked h i t) e)),
       h_log := (h_log h)(i := Y)\<rparr>"

lemma add_ack_grown: "grown i h (add_ack h i t e Y)"
  by (auto simp: grown_def add_ack_def)

lemma add_ack_ok:
  assumes h: "history_ok M h" and x: "h_lead_log h t = Some x" "e \<le> length x"
    and v: "\<And>c s. (i, c, s) \<in> h_votes h \<Longrightarrow> s \<le> t"
  shows "history_ok M (add_ack h i t e Y)"
proof -
  let ?h = "add_ack h i t e Y"
  have g: "grown i h ?h" by (rule add_ack_grown)
  have eq: "h_lead_log ?h = h_lead_log h" "h_cand_log ?h = h_cand_log h"
      "h_votes ?h = h_votes h" "h_winner ?h = h_winner h"
      "h_acked ?h = (h_acked h)(i := (h_acked h i)(t := max (h_acked h i t) e))"
    by (auto simp: add_ack_def)
  have r: "rooted ?h = rooted h" by (intro ext) (simp add: rooted_def eq)
  have lok: "lead_log_ok ?h = lead_log_ok h" by (intro ext) (simp add: lead_log_ok_def r)
  have el: "elected M ?h = elected M h" by (intro ext) (simp add: elected_def eq)
  have vs: "vote_sound ?h j c s" if jc: "(j, c, s) \<in> h_votes h" for j c s
    by (rule vote_sound_grown [OF g h jc]) (use v jc in \<open>force simp: eq\<close>)
  have "h_acked h i t \<le> length x"
    using history_okD(9) [OF h, of i t] x by (cases "h_acked h i t") auto
  then have ack: "\<exists>y. h_lead_log h s = Some y \<and> h_acked ?h j s \<le> length y" if "0 < h_acked ?h j s" for j s
    using that history_okD(9) [OF h, of j s] x by (auto simp: eq split: if_split_asm)
  show ?thesis
    unfolding history_ok_def eq(1-4) r lok el
    using history_okD [OF h] vs ack by blast
qed

end
