(* ===== verification/Replica_Log.thy ===== *)
theory Replica_Log
  imports Replica_Growth Raft_Logs
begin

text \<open>
  The log of a node against the log \<open>X\<close> that it stands for, from the first entry on: the node holds
  \<open>X\<close> behind its base.
\<close>

section \<open>The whole log\<close>

definition log_of :: "entry list \<Rightarrow> raft_log \<Rightarrow> bool" where
  "log_of X l \<longleftrightarrow>
     log_ok l \<and> log_base l \<le> length X \<and> log_ents l = drop (log_base l) X \<and>
     log_bterm l = term_in X (log_base l)"

lemma log_ofD:
  assumes "log_of X l"
  shows "log_ok l" "log_shape l" "log_base l \<le> length X" "log_ents l = drop (log_base l) X"
    "log_bterm l = term_in X (log_base l)" "log_end l = length X" "length X + 1 < W64"
    "log_base l \<le> l_committed l" "l_committed l \<le> length X"
  using assms log_shape_bound [of l] by (auto simp: log_of_def log_ok_def)

lemma log_of_last: "log_of X l \<Longrightarrow> log_last_index l = Some (length X)"
  using log_ofD(1,6) [of X l] rlog.view_last by metis

lemma log_of_term:
  assumes "log_of X l" "log_base l \<le> k" "k \<le> length X"
  shows "log_term l k = Some (Inr (term_in X k))"
proof -
  note d = log_ofD [OF assms(1)]
  have "term_at (log_base l) (log_bterm l) (log_ents l) k = term_in X k"
  proof (cases "k = log_base l")
    case False
    then have "log_base l + (k - log_base l - 1) = k - 1" "k \<noteq> 0" using assms(2) by auto
    then show ?thesis using False d(3,4) by (simp add: term_at_def term_in_def)
  qed (simp add: d(5) term_at_def)
  then show ?thesis using rlog.view_term [OF d(1) assms(2)] assms(3) d(6) by simp
qed

lemma log_of_term_out:
  "log_of X l \<Longrightarrow> k < log_base l \<or> length X < k \<Longrightarrow> log_term l k = Some (Inr 0)"
  using log_shape_term_outside [of l k] log_ofD(2,6) [of X l] by simp

lemma log_of_last_term: "log_of X l \<Longrightarrow> log_last_term l = Some (term_in X (length X))"
  using log_of_last [of X l] log_of_term [of X l "length X"] log_ofD(3) [of X l]
  by (simp add: log_last_term_def)

lemma log_of_match:
  "log_of X l \<Longrightarrow> log_base l \<le> k \<Longrightarrow> log_match_term l k t = Some (k \<le> length X \<and> t = term_in X k \<or>
     length X < k \<and> t = 0)"
  using log_of_term [of X l k] log_of_term_out [of X l k]
  by (cases "k \<le> length X") (auto simp: log_match_term_def)

lemma log_of_up_to_date:
  "log_of X l \<Longrightarrow> log_is_up_to_date l i t = Some (t > term_in X (length X) \<or>
     (t = term_in X (length X) \<and> i \<ge> length X))"
  by (simp add: log_is_up_to_date_def log_of_last_term log_of_last)

lemma log_of_entries:
  assumes X: "log_of X l" and k: "0 < k" "k \<le> length X + 1" and e: "log_entries l k m = Some (Inr es)"
  shows "log_base l < k \<and> (\<exists>n. es = take n (drop (k - 1) X))"
proof -
  note d = log_ofD [OF X]
  have b: "log_base l < k"
  proof (rule ccontr)
    assume n: "\<not> log_base l < k"
    then have "log_slice l k (log_end l + 1) m = Some (Inl compacted)"
      using log_must_check_eq [OF d(1), of k "log_end l + 1"] d(3,6)
      by (simp add: log_slice_def compacted_def)
    then show False
      using e n d(3,6,7) log_of_last [OF X] by (auto simp: log_entries_def u64)
  qed
  have "es = entry_limit_size m (log_range l k (log_end l + 1))"
    using log_entries_eq [OF d(1) b, of m] e by simp
  moreover obtain n where "entry_limit_size m (log_range l k (log_end l + 1))
      = take n (log_range l k (log_end l + 1))"
    using entry_limit_size_prefix by blast
  moreover have "log_base l + (k - log_base l - 1) = k - 1" using b by simp
  then have "log_range l k (log_end l + 1) = drop (k - 1) X"
    using d(3,4,6) b by (simp add: log_range_def)
  ultimately show ?thesis using b by auto
qed

lemma log_of_commit:
  assumes "log_of X l" "log_commit_to l c = Some l'"
  shows "log_of X l' \<and> l_committed l' = max (l_committed l) c \<and> c \<le> length X \<and>
    l_applied l' = l_applied l \<and> l_storage l' = l_storage l \<and> l_unstable l' = l_unstable l"
proof -
  have "l_committed l' \<le> log_end l'" "l_committed l' = max (l_committed l) c"
    using log_commit_to_ok [OF log_ofD(1) [OF assms(1)] assms(2)] by (auto simp: log_ok_def)
  then show ?thesis
    using log_commit_to_ok [OF log_ofD(1) [OF assms(1)] assms(2)] assms(1)
    by (auto simp: log_of_def)
qed

lemma log_of_append:
  assumes X: "log_of X l" and es: "es \<noteq> []" "consec (length X + 1) es"
    and room: "length X + length es + 1 < W64" and a: "log_append l es = Some (i, l')"
  shows "i = length (X @ es) \<and> log_of (X @ es) l' \<and> l_committed l' = l_committed l \<and>
    l_applied l' = l_applied l \<and> same_snap l l'"
proof -
  note d = log_ofD [OF X]
  have "i = log_end l + length es \<and> log_grows l l' \<and> log_ents l' = log_ents l @ es \<and>
    l_committed l' = l_committed l"
    by (rule log_append_end [OF d(1) es(1) _ _ a]) (use d(6) es room in simp_all)
  then show ?thesis using d by (auto simp: log_of_def log_grows_def)
qed

section \<open>Following a leader\<close>

text \<open>The log \<open>X\<close> of a follower that was sent the first \<open>e\<close> entries of its leader's log \<open>x\<close>.\<close>

definition follow :: "nat \<Rightarrow> entry list \<Rightarrow> entry list \<Rightarrow> entry list" where
  "follow e x X = (if take e X = take e x then X else take e x)"

lemma follow_prefix: "e \<le> length x \<Longrightarrow> take e (follow e x X) = take e x"
  by (simp add: follow_def)

lemma follow_same: "take c X = take c x \<Longrightarrow> c \<le> e \<Longrightarrow> take c (follow e x X) = take c X"
  by (simp add: follow_def min_def)

lemma follow_rooted: "rooted h X \<Longrightarrow> rooted h x \<Longrightarrow> rooted h (follow e x X)"
  by (simp add: follow_def rooted_take)

lemma follow_terms: "terms_upto t X \<Longrightarrow> terms_upto t x \<Longrightarrow> terms_upto t (follow e x X)"
  by (simp add: follow_def terms_upto_def)

text \<open>
  The offer is \<open>take n (drop index x)\<close>; when it is accepted, everything the two logs have in common
  up to the first conflict is the same.
\<close>

lemma known_common:
  assumes h: "rooted h X" "rooted h x" and X: "log_of X l" and off: "offer_ok index es"
    and x: "es = take n (drop index x)" "index \<le> length x" and i: "log_base l \<le> index" "index \<le> length X"
    and t: "take index X = take index x"
  shows "take (index + known l es) X = take (index + known l es) x"
proof (cases "known l es")
  case (Suc k)
  note d = log_ofD [OF X]
  let ?p = "index + known l es"
  have p: "?p \<le> length X" using known_in_range [OF d(1) off i(1)] Suc d(6) by simp
  have k: "k < length es" using known_le [of l es] Suc by simp
  have "es ! k \<in> set (take (known l es) es)"
    using Suc k by (auto simp: in_set_conv_nth intro: exI [of _ k])
  then have "log_has l (es ! k)" by (rule known_has)
  moreover have idx: "e_index (es ! k) = ?p" using offer_index [OF off k] Suc by simp
  ultimately have "log_match_term l ?p (e_term (es ! k)) = Some True" by (simp add: log_has_def)
  then have "e_term (es ! k) = term_in X ?p"
    using log_of_match [OF X, of ?p] i(1) p by auto
  moreover have "es ! k = x ! (?p - 1)" using x k Suc by simp
  moreover have "?p \<le> length x" using x k Suc by auto
  ultimately show ?thesis using logs_match [OF h p] Suc by (simp add: term_in_def)
qed (simp add: t)

lemma merged_follow:
  assumes h: "rooted h X" "rooted h x" and X: "log_of X l" and off: "offer_ok index es"
    and x: "es = take n (drop index x)" "index \<le> length x" and i: "log_base l \<le> index" "index \<le> length X"
    and t: "take index X = take index x"
  shows "merged l index es = drop (log_base l) (follow (index + length es) x X)" (is "_ = drop ?b ?Y")
    "term_in (follow (index + length es) x X) (log_base l) = term_in X (log_base l)"
    "log_base l \<le> length (follow (index + length es) x X)"
proof -
  note d = log_ofD [OF X]
  let ?k = "known l es" and ?e = "index + length es"
  have c: "take (index + ?k) X = take (index + ?k) x"
    by (rule known_common [OF h X off x i t])
  have e: "?e \<le> length x" using x by simp
  have Y: "take index ?Y = take index X" using t by (intro follow_same) simp_all
  show "term_in ?Y ?b = term_in X ?b" by (rule term_in_prefix [OF Y i(1)])
  have "index \<le> length ?Y" using take_eq_length [OF Y [symmetric] i(2)] .
  then show "?b \<le> length ?Y" using i(1) by simp
  show "merged l index es = drop ?b ?Y"
  proof (cases "?k = length es")
    case True
    then show ?thesis using c d(4) by (simp add: merged_def follow_def)
  next
    case False
    then have k: "?k < length es" using known_le [of l es] by simp
    let ?p = "index + ?k"
    have pX: "?p \<le> length X" using known_in_range [OF d(1) off i(1)] d(6) i(2) by auto
    have "take ?e X \<noteq> take ?e x"
    proof
      assume a: "take ?e X = take ?e x"
      have "term_in X (?p + 1) = term_in x (?p + 1)" by (rule term_in_prefix [OF a]) (use k in simp)
      moreover have "?p + 1 \<le> length X" using take_eq_length [OF a [symmetric] e] k by simp
      moreover have "es ! ?k = x ! ?p" using x k by simp
      moreover have "e_index (es ! ?k) = ?p + 1" using offer_index [OF off k] by simp
      ultimately have "log_has l (es ! ?k)"
        using log_of_match [OF X, of "?p + 1"] i(1) by (simp add: log_has_def term_in_def)
      then show False using known_not [OF k] by simp
    qed
    then have Yx: "?Y = take ?e x" by (simp add: follow_def)
    have es: "es = drop index (take ?e x)"
    proof -
      have "es = take (length es) (drop index x)" using x(1) by (metis take_length_take)
      then show ?thesis by (simp add: drop_take)
    qed
    have bp: "?b \<le> ?p" "?p \<le> ?e" using i(1) k by simp_all
    have "merged l index es = take (?p - ?b) (drop ?b X) @ drop ?k es"
      using False bp(1) by (simp add: merged_def splice_def d(4))
    also have "take (?p - ?b) (drop ?b X) = drop ?b (take ?p x)" by (simp add: drop_take [symmetric] c)
    also have "drop ?k es = drop ?p (take ?e x)" by (subst es) (simp add: add.commute)
    also have "drop ?b (take ?p x) @ drop ?p (take ?e x) = drop ?b (take ?e x)"
    proof -
      have "take ?e x = take ?p x @ drop ?p (take ?e x)"
        by (metis append_take_drop_id bp(2) min.absorb1 take_take)
      then show ?thesis using bp(1) pX c
        by (metis drop_append diff_is_0_eq drop_0 length_take min.absorb2 take_eq_length)
    qed
    finally show ?thesis by (simp add: Yx)
  qed
qed

lemma log_of_maybe_append:
  assumes h: "history_ok M h" "rooted h X" "rooted h x" and X: "log_of X l"
    and x: "es = take n (drop index x)" "index \<le> length x" "lt = term_in x index" "length x + 1 < W64"
    and c: "l_committed l \<le> index" and a: "log_maybe_append l index lt cm es = Some (res, l')"
  shows "res = None \<and> l' = l \<or>
    res = Some (index + length es) \<and> log_of (follow (index + length es) x X) l' \<and>
    l_committed l' = max (l_committed l) (min cm (index + length es)) \<and>
    l_applied l' = l_applied l \<and> same_snap l l'"
proof -
  note d = log_ofD [OF X]
  have bi: "log_base l \<le> index" using c d(8) by simp
  have pos: "0 < term_in x k" if "0 < k" "k \<le> length x" for k
    using rooted_term_pos [OF h(1,3), of "x ! (k - 1)"] that by (simp add: term_in_def)
  show ?thesis
  proof (cases "index \<le> length X \<and> lt = term_in X index")
    case False
    then have "log_match_term l index lt = Some False"
      using log_of_match [OF X bi, of lt] pos [of index] x(2,3) by (cases "index = 0") auto
    then show ?thesis using a log_maybe_append_reject [of l index lt cm es] by simp
  next
    case True
    then have m: "log_match_term l index lt = Some True" using log_of_match [OF X bi, of lt] by simp
    have t: "take index X = take index x"
      using logs_match [OF h(2,3)] True x(2,3) by simp
    have cx: "consec 1 x" by (rule rooted_consec [OF h(1,3)])
    have off: "offer_ok index es"
      unfolding offer_ok_def
    proof (intro conjI ballI)
      show "consec (index + 1) es"
        using consec_take [OF consec_drop [OF cx, of index], of n] x(1) by (simp add: add.commute)
      show "index + length es + 1 < W64" using x by auto
      fix e assume "e \<in> set es"
      then have "e \<in> set x" using x(1) in_set_takeD in_set_dropD by metis
      then show "e_term e \<noteq> 0" using rooted_term_pos [OF h(1,3)] by simp
    qed
    obtain l2 where l2: "log_maybe_append l index lt cm es = Some (Some (index + length es), l2)"
      "log_ok l2" "log_base l2 = log_base l" "log_bterm l2 = log_bterm l" "log_ents l2 = merged l index es"
      "l_storage l2 = l_storage l" "l_applied l2 = l_applied l"
      "l_committed l2 = max (l_committed l) (min cm (index + length es))"
      using log_maybe_append_accept [OF d(1) off bi _ m, of cm] True d(6) c by auto
    note mf = merged_follow [OF h(2,3) X off x(1,2) bi conjunct1 [OF True] t]
    have "log_of (follow (index + length es) x X) l2"
      using l2(2-5) mf d(5) by (simp add: log_of_def)
    moreover have "same_snap l l2" by (rule log_maybe_append_same_snap [OF l2(1)])
    ultimately show ?thesis using a l2 by simp
  qed
qed

lemma log_of_restore:
  assumes X: "log_of X l" and s: "s_index s \<le> length x" "s_term s = term_in x (s_index s)" "length x + 1 < W64"
  shows "log_of (take (s_index s) x) (log_restore l s)"
  using log_restore_view [OF log_ofD(2) [OF X], of s] s by (simp add: log_of_def)

section \<open>Snapshots and what is applied\<close>

definition snap_in :: "entry list \<Rightarrow> nat \<Rightarrow> snapshot \<Rightarrow> bool" where
  "snap_in X c s \<longleftrightarrow> snapshot_is_empty s \<or> s_index s \<le> c \<and> s_term s = term_in X (s_index s)"

definition log_good :: "entry list \<Rightarrow> raft_log \<Rightarrow> bool" where
  "log_good X l \<longleftrightarrow>
     log_of X l \<and> l_applied l \<le> l_committed l \<and> l_applied l < u_offset (l_unstable l) \<and>
     snap_in X (l_committed l) (ms_snapshot (l_storage l)) \<and>
     (\<forall>s. u_snapshot (l_unstable l) = Some s \<longrightarrow>
        s_index (ms_snapshot (l_storage l)) < s_index s)"

lemma log_goodD:
  assumes "log_good X l"
  shows "log_of X l" "l_applied l \<le> l_committed l" "l_applied l < u_offset (l_unstable l)"
    "snap_in X (l_committed l) (ms_snapshot (l_storage l))"
    "u_snapshot (l_unstable l) = Some s \<Longrightarrow> s_index (ms_snapshot (l_storage l)) < s_index s"
  using assms by (auto simp: log_good_def)

lemma snap_in_later:
  "snap_in X c s \<Longrightarrow> c \<le> c' \<Longrightarrow> take c Y = take c X \<Longrightarrow> snap_in Y c' s"
  unfolding snap_in_def by (metis order_trans term_in_prefix)

lemma log_good_snapshot:
  assumes g: "log_good X l"
  shows "snap_in X (l_committed l) (log_snapshot l)"
proof (cases "u_snapshot (l_unstable l)")
  case None
  then show ?thesis using log_goodD(4) [OF g] by (simp add: log_snapshot_def storage_snapshot_def)
next
  case (Some s)
  note d = log_ofD [OF log_goodD(1) [OF g]]
  show ?thesis using Some d(5,8) by (simp add: log_snapshot_def snap_in_def log_base_def log_bterm_def)
qed

lemma log_good_change:
  assumes g: "log_good X l" and Y: "log_of Y l'" "take (l_committed l) Y = take (l_committed l) X"
    and s: "same_snap l l'" "l_committed l \<le> l_committed l'" "l_applied l' = l_applied l"
    and off: "u_offset (l_unstable l') = u_offset (l_unstable l) \<or> l_committed l < u_offset (l_unstable l')"
  shows "log_good Y l'"
  using log_goodD [OF g] Y s off snap_in_later [OF log_goodD(4) [OF g] s(2) Y(2)]
  unfolding log_good_def same_snap_def by auto

lemma log_append_offset:
  assumes "log_append l es = Some (i, l')" "es \<noteq> [] \<Longrightarrow> 0 < e_index (hd es)"
  shows "u_offset (l_unstable l') = u_offset (l_unstable l) \<or> l_committed l < u_offset (l_unstable l')"
  using assms
  by (auto simp: log_append_def unstable_truncate_and_append_def Let_def u64
      split: list.splits Option.bind_splits if_splits)

lemma log_maybe_append_offset:
  assumes a: "log_maybe_append l index lt cm es = Some (res, l')" and es: "consec (index + 1) es"
    "index + length es < W64"
  shows "u_offset (l_unstable l') = u_offset (l_unstable l) \<or> l_committed l < u_offset (l_unstable l')"
proof -
  have c: "l_unstable b = l_unstable a" if "log_commit_to a k = Some b" for a b k
    using that by (auto simp: log_commit_to_def split: if_splits Option.bind_splits)
  consider "l' = l" | l1 where "l1 = l" "log_commit_to l1 (min cm (add64 index (length es))) = Some l'"
    | l1 tl i where "log_append l tl = Some (i, l1)" "set tl \<subseteq> set es"
        "log_commit_to l1 (min cm (add64 index (length es))) = Some l'"
    using a by (force simp: log_maybe_append_def Let_def vec_range_def
        dest: in_set_takeD in_set_dropD split: if_splits Option.bind_splits)
  then show ?thesis
  proof cases
    case (3 l1 tl i)
    have "0 < e_index e" if "e \<in> set es" for e
      using that consec_nth [OF es(1)] by (auto simp: in_set_conv_nth)
    then have "tl \<noteq> [] \<Longrightarrow> 0 < e_index (hd tl)" using 3(2) by (cases tl) auto
    then show ?thesis using log_append_offset [OF 3(1)] c [OF 3(3)] by simp
  qed (use c in auto)
qed

end
