(* ===== verification/Raft_Replicate.thy ===== *)
theory Raft_Replicate
  imports Raft_Frame Log_Persist
begin

text \<open>
  Replication: the rule by which a leader commits, the entries it appends, what it sends to a
  follower, and that the sending loop ends.
\<close>

section \<open>The commit rule\<close>

lemma sorted_quantile:
  assumes "i < length xs"
  defines "v \<equiv> sort xs ! i"
  shows "length xs - i \<le> length (filter (\<lambda>x. v \<le> x) xs)"
    "length (filter (\<lambda>x. v < x) xs) < length xs - i"
proof -
  let ?ys = "sort xs"
  have i: "i < length ?ys" using assms(1) by simp
  have len: "length (filter P xs) = length (filter P ?ys)" for P
    by (metis filter_sort length_sort)
  have srt: "sorted (take i ?ys @ v # drop (Suc i) ?ys)"
    using id_take_nth_drop [OF i] sorted_sort [of xs] by (simp add: v_def)
  have ge: "v \<le> y" if "y \<in> set (drop i ?ys)" for y
  proof -
    have "y \<in> set (v # drop (Suc i) ?ys)" using that Cons_nth_drop_Suc [OF i] by (simp add: v_def)
    then show ?thesis using srt by (auto simp: sorted_append)
  qed
  have le: "y \<le> v" if "y \<in> set (take (Suc i) ?ys)" for y
    using srt that take_Suc_conv_app_nth [OF i] unfolding sorted_append v_def by auto
  have "filter (\<lambda>x. v \<le> x) (drop i ?ys) = drop i ?ys" using ge by (simp add: filter_id_conv)
  moreover have "length (filter (\<lambda>x. v \<le> x) (drop i ?ys)) \<le> length (filter (\<lambda>x. v \<le> x) ?ys)"
    by (metis append_take_drop_id filter_append length_append le_add2)
  ultimately show "length xs - i \<le> length (filter (\<lambda>x. v \<le> x) xs)" using len by simp
  have "filter (\<lambda>x. v < x) (take (Suc i) ?ys) = []" using le by (auto simp: filter_empty_conv not_less)
  then have "length (filter (\<lambda>x. v < x) ?ys) = length (filter (\<lambda>x. v < x) (drop (Suc i) ?ys))"
    by (metis append_Nil append_take_drop_id filter_append)
  also have "\<dots> \<le> length ?ys - Suc i" by (metis length_drop length_filter_le)
  also have "\<dots> < length ?ys - i" using i by linarith
  finally show "length (filter (\<lambda>x. v < x) xs) < length xs - i" using len by simp
qed

lemma length_filter_mono:
  "(\<And>x. P x \<Longrightarrow> Q x) \<Longrightarrow> length (filter P xs) \<le> length (filter Q xs)"
  by (induction xs) (auto simp: le_Suc_eq)

text \<open>The voters that have replicated the log up to an index.\<close>

definition replicas :: "raft \<Rightarrow> nat \<Rightarrow> nat set" where
  "replicas r i = {v. \<exists>p. map_of (r_prs r) v = Some p \<and> i \<le> pr_match p}"

definition voters :: "raft \<Rightarrow> nat set" where
  "voters r = set (map fst (r_prs r))"

lemma replicas_card:
  assumes "distinct (map fst (r_prs r))"
  shows "card (replicas r i) = length (filter (\<lambda>x. i \<le> x) (map (\<lambda>(_, p). pr_match p) (r_prs r)))"
proof -
  have "replicas r i = fst ` set (filter (\<lambda>(_, p). i \<le> pr_match p) (r_prs r))"
    using assms by (force simp: replicas_def map_of_eq_Some_iff image_iff)
  moreover have "distinct (map fst (filter (\<lambda>(_, p). i \<le> pr_match p) (r_prs r)))"
    using assms by (simp add: distinct_map_filter)
  ultimately have "card (replicas r i) = length (filter (\<lambda>(_, p). i \<le> pr_match p) (r_prs r))"
    by (metis distinct_card length_map list.set_map)
  also have "\<dots> = length (filter (\<lambda>x. i \<le> x) (map (\<lambda>(_, p). pr_match p) (r_prs r)))"
    by (simp add: filter_map o_def case_prod_unfold)
  finally show ?thesis .
qed

lemma voters_card: "distinct (map fst (r_prs r)) \<Longrightarrow> card (voters r) = length (r_prs r)"
  using distinct_card [of "map fst (r_prs r)"] by (simp add: voters_def)

text \<open>
  \<open>maybe_commit\<close> looks at the greatest index that a majority has, and commits it if it is new and
  of the leader's own term.
\<close>

lemma raft_maybe_commit_spec:
  assumes ok: "log_ok (r_log r)" and d: "distinct (map fst (r_prs r))" "r_prs r \<noteq> []"
    "length (r_prs r) < W32" and t: "r_term r \<noteq> 0"
  shows "\<exists>n. card (voters r) < 2 * card (replicas r n) \<and>
    (\<forall>i. card (voters r) < 2 * card (replicas r i) \<longrightarrow> i \<le> n) \<and>
    raft_maybe_commit r =
      (if l_committed (r_log r) < n \<and> n \<le> log_end (r_log r) \<and>
          log_term (r_log r) n = Some (Inr (r_term r))
       then Some (True, r\<lparr>r_log := (r_log r)\<lparr>l_committed := n\<rparr>\<rparr>) else Some (False, r))"
proof -
  let ?ms = "map (\<lambda>(_, p). pr_match p) (r_prs r)" and ?n = "length (r_prs r)"
  have "?n div 2 + 1 < W32" using d(3) by (simp add: W32_def)
  then have q: "quorum r = ?n div 2 + 1" by (simp add: quorum_def)
  have n: "0 < ?n" using d(2) by simp
  have qn: "quorum r \<le> ?n" using q n by linarith
  let ?i = "?n - quorum r" and ?v = "sort ?ms ! (?n - quorum r)"
  have i: "?i < length ?ms" using q n by simp
  have mc: "vec_at (sort ?ms) (sub64 (length (sort ?ms)) (quorum r)) = Some ?v"
    using qn i by (simp add: u64)
  have "?n - ?i = quorum r" using qn by simp
  then have ge: "quorum r \<le> card (replicas r ?v)"
    and gt: "length (filter (\<lambda>x. ?v < x) ?ms) < quorum r"
    using sorted_quantile [OF i] replicas_card [OF d(1), of ?v] by simp_all
  have "i \<le> ?v" if "?n < 2 * card (replicas r i)" for i
  proof (rule ccontr)
    assume "\<not> i \<le> ?v"
    then have "length (filter (\<lambda>x. i \<le> x) ?ms) \<le> length (filter (\<lambda>x. ?v < x) ?ms)"
      by (intro length_filter_mono) linarith
    then show False using that gt q replicas_card [OF d(1), of i] by linarith
  qed
  moreover have "?n < 2 * card (replicas r ?v)" using ge q by linarith
  moreover have "raft_maybe_commit r =
      (if l_committed (r_log r) < ?v \<and> ?v \<le> log_end (r_log r) \<and>
          log_term (r_log r) ?v = Some (Inr (r_term r))
       then Some (True, r\<lparr>r_log := (r_log r)\<lparr>l_committed := ?v\<rparr>\<rparr>) else Some (False, r))"
    unfolding raft_maybe_commit_def Let_def mc bind.bind_lunit log_maybe_commit_eq [OF ok t] by simp
  ultimately show ?thesis using voters_card [OF d(1)] by metis
qed

end
