(* ===== verification/Raft_Safe.thy ===== *)
theory Raft_Safe
  imports Raft_Elect
begin

text \<open>
  The entry points of a node keep the election guarantee \<open>safe_step\<close>: \<open>step\<close> on every message, the
  clock, and the calls of \<open>RawNode\<close>.
\<close>

section \<open>The first part of step\<close>

lemma step_lower_term_safe:
  assumes s: "step_lower_term r m = Some r'" and m: "msg_known M G (r_id r) m"
  shows "safe_step M G r r'"
proof -
  have "stays r r'"
    using s m
    by (auto simp: step_lower_term_def msg_known_def snap_of_log_def
        split: if_splits Option.bind_splits intro: stays_send)
  then show ?thesis by (rule stays_safe)
qed

lemma step_higher_term_cases:
  assumes "step_higher_term r m = Some (b, r')" "m_type m \<noteq> MsgPreVote" "m_type m \<noteq> MsgPreVoteResp"
  shows "b \<and> r' = r \<or> \<not> b \<and> (\<exists>lead. become_follower r (m_term m) lead = Some r')"
  using assms by (auto simp: step_higher_term_def split: if_splits Option.bind_splits)

lemma step_term_safe:
  assumes s: "step_term r m = Some (b, r')" and m: "msg_known M G (r_id r) m"
    and t: "r_term r + 1 < W64"
  shows "safe_step M G r r' \<and> r_id r' = r_id r \<and> r_term r' + 1 < W64 \<and>
    (b \<or> m_term m = 0 \<or> m_term m = r_term r')"
proof -
  have types: "m_type m \<noteq> MsgPreVote" "m_type m \<noteq> MsgPreVoteResp" "m_term m + 1 < W64"
    using m by (auto simp: msg_known_def)
  consider "m_term m = 0" | "m_term m = r_term r"
    | "0 < m_term m" "m_term m < r_term r" | "r_term r < m_term m" by linarith
  then show ?thesis
  proof cases
    case 3
    then obtain r1 where "step_lower_term r m = Some r1" "b" "r' = r1"
      using s by (auto simp: step_term_def split: Option.bind_splits if_splits)
    then have "safe_step M G r r' \<and> b" and "r_term r' = r_term r"
      using step_lower_term_safe [OF _ m]
      by (auto simp: step_lower_term_def raft_send_def Let_def split: Option.bind_splits if_splits)
    then show ?thesis using t by (auto simp: safe_step_def)
  next
    case 4
    then have "step_higher_term r m = Some (b, r')" using s by (simp add: step_term_def)
    then consider "b" "r' = r" | lead where "become_follower r (m_term m) lead = Some r'"
      using step_higher_term_cases types by blast
    then show ?thesis
    proof cases
      case 1
      then show ?thesis using t by simp
    next
      case 2
      then show ?thesis
        using become_follower_safe [OF 2] become_follower_sel [OF 2] 4 types by auto
    qed
  next
    case 2
    then have "b = False" "r' = r" using s by (auto simp: step_term_def split: if_split_asm)
    then show ?thesis using t 2 by simp
  qed (use s t in \<open>auto simp: step_term_def\<close>)
qed

section \<open>Step\<close>

lemma step_candidate_safe:
  assumes s: "step_candidate r m = Some (st, r')" and m: "msg_known M G (r_id r) m"
    and mt: "m_term m = 0 \<or> m_term m = r_term r" and t: "r_term r + 1 < W64" and me: "r_id r \<in> M"
  shows "safe_step M G r r'"
proof -
  have follow: "safe_step M G r r'"
    if f: "become_follower r (m_term m) (m_from m) = Some r1" and h: "safe_step M G r1 r'"
      and ty: "m_type m = MsgApp \<or> m_type m = MsgHeartbeat \<or> m_type m = MsgSnap" for r1
  proof -
    have "m_term m = r_term r" using m mt ty by (auto simp: msg_known_def)
    then have "safe_step M G r r1" using become_follower_safe [OF f] by simp
    then show ?thesis using h by (rule safe_step_trans)
  qed
  show ?thesis
  proof (cases "m_type m")
    case MsgApp
    then obtain r1 where "become_follower r (m_term m) (m_from m) = Some r1"
        "handle_append_entries r1 m = Some r'"
      using s by (auto simp: step_candidate_def split: Option.bind_splits)
    then show ?thesis
      using follow MsgApp stays_safe [OF handle_append_entries_stays] by blast
  next
    case MsgHeartbeat
    then obtain r1 where "become_follower r (m_term m) (m_from m) = Some r1"
        "handle_heartbeat r1 m = Some r'"
      using s by (auto simp: step_candidate_def split: Option.bind_splits)
    then show ?thesis
      using follow MsgHeartbeat stays_safe [OF handle_heartbeat_stays] by blast
  next
    case MsgSnap
    then obtain r1 where "become_follower r (m_term m) (m_from m) = Some r1"
        "handle_snapshot r1 m = Some r'"
      using s by (auto simp: step_candidate_def split: Option.bind_splits)
    moreover have "snap_conf M (m_snapshot m)" using m MsgSnap by (simp add: msg_known_def)
    ultimately show ?thesis using follow MsgSnap handle_snapshot_safe by blast
  next
    case MsgVoteResp
    then have c: "candidate_vote_resp r m = Some r'" using s by (simp add: step_candidate_def)
    have "m_term m = r_term r" using m mt MsgVoteResp by (simp add: msg_known_def)
    then show ?thesis by (rule candidate_vote_resp_safe [OF c m MsgVoteResp _ t me])
  next
    case MsgPreVoteResp
    then show ?thesis using m by (simp add: msg_known_def)
  qed (use s in \<open>simp_all add: step_candidate_def\<close>)
qed

lemma step_leader_safe:
  assumes "step_leader r m = Some (st, r')"
  shows "safe_step M G r r'"
  using step_leader_stays [OF assms]
proof (elim disjE conjE)
  assume "become_follower r (r_term r) 0 = Some r'"
  then show ?thesis by (rule become_follower_safe) simp
qed (rule stays_safe)

lemma step_hup_safe:
  assumes s: "step_hup r = Some r'" and t: "r_term r + 1 < W64" and me: "r_id r \<in> M"
    and pv: "\<not> r_pre_vote r"
  shows "safe_step M G r r'"
proof -
  have "r' = r \<or> campaign r CampaignElection = Some r'"
    using s pv by (auto simp: step_hup_def split: if_splits Option.bind_splits sum.splits)
  then show ?thesis
  proof
    assume "campaign r CampaignElection = Some r'"
    then show ?thesis by (rule campaign_safe) (use t me in simp_all)
  qed simp
qed

theorem raft_step_safe:
  assumes s: "raft_step r m = Some (st, r')" and m: "msg_known M G (r_id r) m"
    and t: "r_term r + 1 < W64" and me: "r_id r \<in> M" "0 \<notin> M" and pv: "\<not> r_pre_vote r"
  shows "safe_step M G r r'"
proof -
  obtain b r1 where st1: "step_term r m = Some (b, r1)"
    using s by (auto simp: raft_step_def split: Option.bind_splits)
  have r1: "safe_step M G r r1" "r_id r1 = r_id r" "r_term r1 + 1 < W64"
      "b \<or> m_term m = 0 \<or> m_term m = r_term r1"
    using step_term_safe [OF st1 m t] by auto
  have pv1: "\<not> r_pre_vote r1" using r1(1) pv by (simp add: safe_step_def)
  have "safe_step M G r1 r'"
  proof (cases b)
    case True
    then show ?thesis using s st1 by (simp add: raft_step_def)
  next
    case False
    then have mt: "m_term m = 0 \<or> m_term m = r_term r1" using r1(4) by simp
    have m1: "msg_known M G (r_id r1) m" and me1: "r_id r1 \<in> M" using m me r1(2) by auto
    have no_pre: "m_type m \<noteq> MsgPreVote" using m by (simp add: msg_known_def)
    consider "step_hup r1 = Some r'" | "m_type m = MsgVote" "step_vote r1 m = Some r'"
      | "step_follower r1 m = Some (st, r')" | "step_candidate r1 m = Some (st, r')"
      | "step_leader r1 m = Some (st, r')"
      using s st1 False no_pre
      by (cases "m_type m"; cases "r_step_fn r1") (auto simp: raft_step_def)
    then show ?thesis
    proof cases
      case 1
      then show ?thesis by (rule step_hup_safe [OF _ r1(3) me1 pv1])
    next
      case 2
      have "m_from m \<in> M" using m 2(1) by (simp add: msg_known_def)
      then have "m_from m \<noteq> 0" using me(2) by (metis)
      then show ?thesis by (rule step_vote_safe [OF 2(2,1) _ mt])
    next
      case 3
      then show ?thesis by (rule step_follower_safe [OF _ m1 r1(3) me1])
    next
      case 4
      then show ?thesis by (rule step_candidate_safe [OF _ m1 mt r1(3) me1])
    next
      case 5
      then show ?thesis by (rule step_leader_safe)
    qed
  qed
  with r1(1) show ?thesis by (rule safe_step_trans)
qed

section \<open>The clock\<close>

lemma local_known: "m_type m = MsgHup \<or> m_type m = MsgBeat \<or> m_type m = MsgCheckQuorum \<Longrightarrow>
    m_term m = 0 \<Longrightarrow> msg_known M G me m"
  by (auto simp: msg_known_def is_grant_def is_vote_type_def)

lemma check_quorum_term:
  assumes s: "raft_step r m = Some (st, r')" and m: "m_type m = MsgCheckQuorum" "m_term m = 0"
  shows "r_term r' = r_term r"
proof -
  have "step_follower r m = Some (st, r') \<or> step_candidate r m = Some (st, r') \<or>
      step_leader r m = Some (st, r')"
    using s m by (auto simp: raft_step_def step_term_def split: step_fn.splits)
  then show ?thesis
    using m by (auto simp: step_follower_def step_candidate_def stays_def become_follower_sel(2)
        dest!: step_leader_stays)
qed

definition local_msg :: "message \<Rightarrow> bool" where
  "local_msg m \<longleftrightarrow>
     (m_type m = MsgHup \<or> m_type m = MsgBeat \<or> m_type m = MsgCheckQuorum) \<and> m_term m = 0"

text \<open>
  A clock tick is a change of the clocks around at most two messages to the node itself.
  \<open>ticks R\<close>: \<open>R\<close> holds between the states before and after each of these parts.
\<close>

lemma tick_election_parts:
  assumes "tick_election r = Some r'"
    and "\<And>a b. stays a b \<Longrightarrow> R a b" and "\<And>a b c. R a b \<Longrightarrow> R b c \<Longrightarrow> R a c"
    and step: "\<And>a m st b. R r a \<Longrightarrow> r_term a = r_term r \<Longrightarrow> local_msg m \<Longrightarrow>
      raft_step a m = Some (st, b) \<Longrightarrow> R a b"
  shows "R r r'"
proof -
  let ?r1 = "r\<lparr>r_election_elapsed := add32 (r_election_elapsed r) 1\<rparr>"
  let ?r2 = "?r1\<lparr>r_election_elapsed := 0\<rparr>"
  let ?m = "new_message\<lparr>m_from := r_id ?r1, m_type := MsgHup\<rparr>"
  have m: "local_msg ?m" by (simp add: local_msg_def new_message_def)
  have r1: "R r ?r1" and r2: "R r ?r2" by (rule assms(2), simp add: stays_def)+
  have "?r1 = r' \<or> (\<exists>st. raft_step ?r2 ?m = Some (st, r'))"
    using assms(1) by (auto simp: tick_election_def Let_def split: if_splits Option.bind_splits)
  then show ?thesis
  proof (elim disjE exE)
    fix st assume st: "raft_step ?r2 ?m = Some (st, r')"
    have "R ?r2 r'" by (rule step [OF r2 _ m st]) simp
    with r2 show ?thesis by (rule assms(3))
  qed (use r1 in simp)
qed

lemma tick_check_quorum_parts:
  assumes "tick_check_quorum r = Some r'"
    and "\<And>a b. stays a b \<Longrightarrow> R a b" and "\<And>a b c. R a b \<Longrightarrow> R b c \<Longrightarrow> R a c"
    and step: "\<And>a m st b. R r a \<Longrightarrow> r_term a = r_term r \<Longrightarrow> local_msg m \<Longrightarrow>
      raft_step a m = Some (st, b) \<Longrightarrow> R a b"
  shows "R r r' \<and> r_term r' = r_term r"
proof -
  let ?ra = "r\<lparr>r_election_elapsed := 0\<rparr>"
  let ?m = "new_message\<lparr>m_from := r_id ?ra, m_type := MsgCheckQuorum\<rparr>"
  have m: "local_msg ?m" "m_type ?m = MsgCheckQuorum" "m_term ?m = 0"
    by (simp_all add: local_msg_def new_message_def)
  have ra: "R r ?ra" by (rule assms(2)) simp
  obtain rb where rb: "rb = ?ra \<or> (\<exists>st. raft_step ?ra ?m = Some (st, rb))"
      and r': "r' = rb \<or> r' = abort_leader_transfer rb"
    using assms(1) by (auto simp: tick_check_quorum_def Let_def split: if_split_asm Option.bind_splits)
  have "R r rb \<and> r_term rb = r_term r"
    using rb
  proof (elim disjE exE)
    fix st assume st: "raft_step ?ra ?m = Some (st, rb)"
    have "R ?ra rb" by (rule step [OF ra _ m(1) st]) simp
    then show ?thesis using assms(3) [OF ra] check_quorum_term [OF st m(2,3)] by simp
  qed (use ra in simp)
  moreover have "R rb r'" "r_term r' = r_term rb"
    using r' assms(2) by (auto simp: abort_leader_transfer_def)
  ultimately show ?thesis using assms(3) [of r rb r'] by simp
qed

lemma tick_heartbeat_parts:
  assumes "tick_heartbeat r = Some r'"
    and "\<And>a b. stays a b \<Longrightarrow> R a b" and "\<And>a b c. R a b \<Longrightarrow> R b c \<Longrightarrow> R a c"
    and step: "\<And>a m st b. R r a \<Longrightarrow> r_term a = r_term r \<Longrightarrow> local_msg m \<Longrightarrow>
      raft_step a m = Some (st, b) \<Longrightarrow> R a b"
  shows "R r r'"
proof -
  let ?r1 = "r\<lparr>r_heartbeat_elapsed := add32 (r_heartbeat_elapsed r) 1,
               r_election_elapsed := add32 (r_election_elapsed r) 1\<rparr>"
  have r1: "R r ?r1" by (rule assms(2)) simp
  obtain r2 where r2_eq: "(if r_election_elapsed ?r1 \<ge> r_election_timeout ?r1
        then tick_check_quorum ?r1 else Some ?r1) = Some r2"
      and rest_eq: "(if r_state r2 \<noteq> Leader then Some r2
       else if r_heartbeat_elapsed r2 \<ge> r_heartbeat_timeout r2 then do {
         (_, r3) \<leftarrow> raft_step (r2\<lparr>r_heartbeat_elapsed := 0\<rparr>)
                     (new_message\<lparr>m_from := r_id r2, m_type := MsgBeat\<rparr>);
         Some r3
       }
       else Some r2) = Some r'"
    using assms(1) unfolding tick_heartbeat_def Let_def bind_eq_Some_conv by blast
  have r2: "r2 = ?r1 \<or> tick_check_quorum ?r1 = Some r2"
    using r2_eq by (auto split: if_split_asm)
  have rest: "r2 = r' \<or> (\<exists>st. raft_step (r2\<lparr>r_heartbeat_elapsed := 0\<rparr>)
            (new_message\<lparr>m_from := r_id r2, m_type := MsgBeat\<rparr>) = Some (st, r'))"
    using rest_eq by (auto split: if_split_asm Option.bind_splits)
  have "R r r2 \<and> r_term r2 = r_term r"
    using r2
  proof
    assume c: "tick_check_quorum ?r1 = Some r2"
    have "R ?r1 r2 \<and> r_term r2 = r_term ?r1"
    proof (rule tick_check_quorum_parts [OF c assms(2)])
      fix a m st b
      assume "R ?r1 a" "r_term a = r_term ?r1" "local_msg m" "raft_step a m = Some (st, b)"
      then show "R a b" by (intro step [of a m st b]) (auto intro: assms(3) [OF r1])
    qed (assumption, rule assms(3))
    then show ?thesis using assms(3) [OF r1] by simp
  qed (use r1 in simp)
  then have r2: "R r r2" "r_term r2 = r_term r" by auto
  let ?r3 = "r2\<lparr>r_heartbeat_elapsed := 0\<rparr>"
  let ?m = "new_message\<lparr>m_from := r_id r2, m_type := MsgBeat\<rparr>"
  have r3: "R r ?r3" by (rule assms(3) [OF r2(1) assms(2)]) simp
  have m: "local_msg ?m" by (simp add: local_msg_def new_message_def)
  from rest show ?thesis
  proof (elim disjE exE)
    fix st assume st: "raft_step ?r3 ?m = Some (st, r')"
    have "R ?r3 r'" by (rule step [OF r3 _ m st]) (simp add: r2)
    with r3 show ?thesis by (rule assms(3))
  qed (use r2 in simp)
qed

lemma raft_tick_parts:
  assumes "raft_tick r = Some r'"
    and "\<And>a b. stays a b \<Longrightarrow> R a b" and "\<And>a b c. R a b \<Longrightarrow> R b c \<Longrightarrow> R a c"
    and "\<And>a m st b. R r a \<Longrightarrow> r_term a = r_term r \<Longrightarrow> local_msg m \<Longrightarrow>
      raft_step a m = Some (st, b) \<Longrightarrow> R a b"
  shows "R r r'"
proof (cases "r_tick_fn r")
  case TickElection
  then have "tick_election r = Some r'" using assms(1) by (simp add: raft_tick_def)
  then show ?thesis by (rule tick_election_parts) (use assms(2-4) in blast)+
next
  case TickHeartbeat
  then have "tick_heartbeat r = Some r'" using assms(1) by (simp add: raft_tick_def)
  then show ?thesis by (rule tick_heartbeat_parts) (use assms(2-4) in blast)+
qed

lemma raft_tick_safe:
  assumes s: "raft_tick r = Some r'" and t: "r_term r + 1 < W64" and me: "r_id r \<in> M" "0 \<notin> M"
    and pv: "\<not> r_pre_vote r"
  shows "safe_step M G r r'"
proof (rule raft_tick_parts [OF s stays_safe safe_step_trans])
  fix a m st b
  assume a: "safe_step M G r a" "r_term a = r_term r" and m: "local_msg m"
    and b: "raft_step a m = Some (st, b)"
  show "safe_step M G a b"
    by (rule raft_step_safe [OF b local_known])
      (use a t me pv m in \<open>auto simp: safe_step_def local_msg_def\<close>)
qed

end
