(* ===== verification/Cluster.thy ===== *)
theory Cluster
  imports Raft_Safe
begin

text \<open>
  A cluster: the nodes of a fixed set of voters and the messages between them.  Messages can be
  delivered late, repeatedly, in any order or never.  A step is one call that the server
  (\<open>server/raft_node.cpp\<close>) makes on one node.  The invariant is that of clusters whose pre-vote
  option is off.
\<close>

section \<open>One round of the ready loop\<close>

definition with_storage :: "raw_node \<Rightarrow> memory_storage \<Rightarrow> raw_node" where
  "with_storage n s = n\<lparr>n_raft := (n_raft n)\<lparr>r_log := (r_log (n_raft n))\<lparr>l_storage := s\<rparr>\<rparr>\<rparr>"

text \<open>
  \<open>pull_ready_events\<close>: the snapshot and the entries of the batch go to the storage that the log
  shares with the server, the messages to the network, and the node is advanced.
\<close>

definition persist_ready :: "raw_node \<Rightarrow> ready \<Rightarrow> raw_node option" where
  "persist_ready n rd = do {
     let s = l_storage (r_log (n_raft n));
     let s1 = (if \<not> snapshot_is_empty (rd_snapshot rd)
               then snd (storage_apply_snapshot s (rd_snapshot rd)) else s);
     s2 \<leftarrow> (if rd_entries rd \<noteq> [] then storage_append s1 (rd_entries rd) else Some s1);
     Some (with_storage n s2)
   }"

definition pull_ready :: "raw_node \<Rightarrow> (message list \<times> raw_node) option" where
  "pull_ready n = do {
     (rd, n1) \<leftarrow> node_ready n;
     n2 \<leftarrow> persist_ready n1 rd;
     n3 \<leftarrow> node_advance n2 rd;
     Some (rd_messages rd, n3)
   }"

text \<open>
  \<open>maybe_trigger_snapshot\<close>, past its test of the counters: a snapshot of the state at \<open>applied\<close> and
  the compaction of the log before \<open>compact_index\<close>.
\<close>

definition take_snapshot :: "raw_node \<Rightarrow> nat \<Rightarrow> string \<Rightarrow> nat \<Rightarrow> raw_node option" where
  "take_snapshot n applied data compact_index = do {
     ((st, _), s1) \<leftarrow> storage_create_snapshot (l_storage (r_log (n_raft n))) applied
                       (Some (conf_state_of (n_raft n))) data;
     check (is_ok st);
     (st', s2) \<leftarrow> storage_compact s1 compact_index;
     check (is_ok st');
     Some (with_storage n s2)
   }"

section \<open>The cluster\<close>

record cluster =
  cl_nodes :: "nat \<Rightarrow> raw_node"
  cl_net :: "message set"

definition cl_raft :: "cluster \<Rightarrow> nat \<Rightarrow> raft" where
  "cl_raft cl i = n_raft (cl_nodes cl i)"

definition set_node :: "cluster \<Rightarrow> nat \<Rightarrow> raw_node \<Rightarrow> cluster" where
  "set_node cl i n = cl\<lparr>cl_nodes := (cl_nodes cl)(i := n)\<rparr>"

text \<open>A first start: an empty storage, the same peers everywhere, pre-vote on or off.\<close>

definition boot_config :: "bool \<Rightarrow> nat \<Rightarrow> config \<Rightarrow> bool" where
  "boot_config pv i c \<longleftrightarrow>
     c_id c = i \<and> c_peers c = [] \<and> c_learners c = [] \<and> c_storage c = Some new_memory_storage \<and>
     c_applied c = 0 \<and> c_pre_vote c = pv"

definition cluster_boot ::
  "bool \<Rightarrow> (conf_change \<Rightarrow> string) \<Rightarrow> (nat \<times> string) list \<Rightarrow> cluster \<Rightarrow> bool" where
  "cluster_boot pv ser peers cl \<longleftrightarrow>
     cl_net cl = {} \<and> 0 \<notin> fst ` set peers \<and> length peers < 2 ^ 31 \<and>
     (\<forall>i \<in> fst ` set peers. \<exists>c rnd.
        boot_config pv i c \<and> new_raw_node ser c rnd peers = Some (cl_nodes cl i))"

text \<open>
  The calls of the application on a node.  Terms are 64-bit and the protocol has no answer to their
  overflow, so a step is taken while the term of the node can still be increased.
\<close>

inductive input_call :: "(conf_change \<Rightarrow> string) \<Rightarrow> nat set \<Rightarrow> raw_node \<Rightarrow> raw_node \<Rightarrow> bool"
  for ser :: "conf_change \<Rightarrow> string" and M :: "nat set" where
  tick: "node_tick n = Some n' \<Longrightarrow> input_call ser M n n'"
| campaign: "node_campaign n = Some (st, n') \<Longrightarrow> input_call ser M n n'"
| propose: "node_propose n d = Some (st, n') \<Longrightarrow> input_call ser M n n'"
| propose_conf: "node_propose_conf_change ser n cc = Some (st, n') \<Longrightarrow> input_call ser M n n'"
| read: "node_read_index n ctx = Some (st, n') \<Longrightarrow> input_call ser M n n'"
| transfer: "node_transfer_leadership n lead to = Some n' \<Longrightarrow> input_call ser M n n'"
| unreachable: "node_report_unreachable n j = Some n' \<Longrightarrow> input_call ser M n n'"
| snapshot_done: "node_report_snapshot n j s = Some n' \<Longrightarrow> input_call ser M n n'"
| conf: "node_apply_conf_change n cc = Some (cs, n') \<Longrightarrow>
    cc_type cc = ConfChangeAddNode \<Longrightarrow> cc_node_id cc \<in> M \<Longrightarrow> input_call ser M n n'"

inductive node_call :: "(conf_change \<Rightarrow> string) \<Rightarrow> nat set \<Rightarrow> raw_node \<Rightarrow> raw_node \<Rightarrow> bool"
  for ser :: "conf_change \<Rightarrow> string" and M :: "nat set" where
  input: "input_call ser M n n' \<Longrightarrow> node_call ser M n n'"
| compact: "take_snapshot n applied d ci = Some n' \<Longrightarrow> node_call ser M n n'"

definition can_step :: "raft \<Rightarrow> bool" where
  "can_step r \<longleftrightarrow> r_term r + 1 < W64"

inductive cluster_step ::
  "(conf_change \<Rightarrow> string) \<Rightarrow> nat set \<Rightarrow> cluster \<Rightarrow> cluster \<Rightarrow> bool"
  for ser :: "conf_change \<Rightarrow> string" and M :: "nat set" where
  call: "i \<in> M \<Longrightarrow> can_step (cl_raft cl i) \<Longrightarrow> node_call ser M (cl_nodes cl i) n \<Longrightarrow>
    cluster_step ser M cl (set_node cl i n)"
| deliver: "i \<in> M \<Longrightarrow> can_step (cl_raft cl i) \<Longrightarrow> m \<in> cl_net cl \<Longrightarrow> m_to m = i \<Longrightarrow>
    m_term m + 1 < W64 \<Longrightarrow> node_step (cl_nodes cl i) m = Some (st, n) \<Longrightarrow>
    cluster_step ser M cl (set_node cl i n)"
| ready: "i \<in> M \<Longrightarrow> pull_ready (cl_nodes cl i) = Some (ms, n) \<Longrightarrow>
    cluster_step ser M cl ((set_node cl i n)\<lparr>cl_net := cl_net cl \<union> set ms\<rparr>)"

section \<open>The invariant\<close>

definition all_msgs :: "nat set \<Rightarrow> cluster \<Rightarrow> message set" where
  "all_msgs M cl = cl_net cl \<union> (\<Union>i \<in> M. set (r_msgs (cl_raft cl i)))"

definition grants :: "message set \<Rightarrow> (nat \<times> nat \<times> nat) set" where
  "grants A = (\<lambda>m. (m_from m, m_to m, m_term m)) ` {m \<in> A. is_grant m}"

definition msg_inv :: "nat set \<Rightarrow> message \<Rightarrow> bool" where
  "msg_inv M m \<longleftrightarrow>
     m_from m \<in> M \<and> m_type m \<noteq> MsgPreVote \<and> m_type m \<noteq> MsgPreVoteResp \<and>
     (m_type m \<noteq> MsgProp \<and> m_type m \<noteq> MsgReadIndex \<longrightarrow> 1 \<le> m_term m) \<and>
     (m_type m = MsgSnap \<longrightarrow> snap_conf M (m_snapshot m))"

text \<open>The grants that node \<open>r\<close> has sent agree with its vote.\<close>

definition votes_inv :: "message set \<Rightarrow> raft \<Rightarrow> bool" where
  "votes_inv A r \<longleftrightarrow>
     (\<forall>m \<in> A. is_grant m \<and> m_from m = r_id r \<longrightarrow>
        m_to m \<noteq> 0 \<and> m_term m \<le> r_term r \<and> (m_term m = r_term r \<longrightarrow> r_vote r = m_to m)) \<and>
     one_grant {m \<in> A. m_from m = r_id r}"

definition node_inv :: "nat set \<Rightarrow> message set \<Rightarrow> nat \<Rightarrow> raft \<Rightarrow> bool" where
  "node_inv M A i r \<longleftrightarrow>
     r_id r = i \<and> 1 \<le> r_term r \<and> cand_ok M (grants A) r \<and> log_snaps M (r_log r) \<and> votes_inv A r"

definition cluster_inv :: "nat set \<Rightarrow> cluster \<Rightarrow> bool" where
  "cluster_inv M cl \<longleftrightarrow>
     0 \<notin> M \<and> (\<forall>m \<in> all_msgs M cl. msg_inv M m) \<and>
     (\<forall>i \<in> M. node_inv M (all_msgs M cl) i (cl_raft cl i))"

lemma grantsE:
  assumes "(p, c, t) \<in> grants A"
  obtains m where "m \<in> A" "is_grant m" "m_from m = p" "m_to m = c" "m_term m = t"
  using assms by (auto simp: grants_def)

lemma grants_mono: "A \<subseteq> B \<Longrightarrow> grants A \<subseteq> grants B"
  by (auto simp: grants_def)

lemma backed_mono: "G \<subseteq> H \<Longrightarrow> backed G r v \<Longrightarrow> backed H r v"
  by (auto simp: backed_def)

lemma cand_ok_mono:
  assumes "G \<subseteq> H" "cand_ok M G r"
  shows "cand_ok M H r"
proof -
  have b: "backed G r v \<Longrightarrow> backed H r v" for v by (rule backed_mono [OF assms(1)])
  have "\<exists>Q. majority M Q \<and> (\<forall>v \<in> Q. backed H r v)" if "r_state r = Leader"
    using assms(2) that b unfolding cand_ok_def by blast
  moreover have "\<forall>v. map_of (r_votes r) v = Some True \<longrightarrow> backed H r v" if "r_state r = Candidate"
    using assms(2) that b unfolding cand_ok_def by blast
  ultimately show ?thesis using assms(2) unfolding cand_ok_def by blast
qed

lemma one_grantD:
  "one_grant A \<Longrightarrow> m \<in> A \<Longrightarrow> m' \<in> A \<Longrightarrow> is_grant m \<Longrightarrow> is_grant m' \<Longrightarrow> m_term m = m_term m' \<Longrightarrow>
   m_to m = m_to m'"
  unfolding one_grant_def by blast

lemma one_grant_Un:
  assumes "one_grant X" "one_grant Y"
    and "\<And>m m'. m \<in> X \<Longrightarrow> m' \<in> Y \<Longrightarrow> is_grant m \<Longrightarrow> is_grant m' \<Longrightarrow> m_term m = m_term m' \<Longrightarrow>
      m_to m = m_to m'"
  shows "one_grant (X \<union> Y)"
  unfolding one_grant_def
proof (intro ballI impI)
  fix m m' assume m: "m \<in> X \<union> Y" "m' \<in> X \<union> Y" "is_grant m \<and> is_grant m' \<and> m_term m = m_term m'"
  then consider "m \<in> X" "m' \<in> X" | "m \<in> Y" "m' \<in> Y" | "m \<in> X" "m' \<in> Y" | "m' \<in> X" "m \<in> Y"
    by blast
  then show "m_to m = m_to m'"
  proof cases
    case 1
    then show ?thesis using assms(1) m(3) unfolding one_grant_def by blast
  next
    case 2
    then show ?thesis using assms(2) m(3) unfolding one_grant_def by blast
  next
    case 3
    then show ?thesis using assms(3) m(3) by blast
  next
    case 4
    then have "m_to m' = m_to m" using assms(3) m(3) by metis
    then show ?thesis by (rule sym)
  qed
qed

lemma node_inv_step:
  assumes inv: "node_inv M A i r" and step: "safe_step M (grants A) r r'"
    and msgs: "set (r_msgs r) \<subseteq> A"
  shows "node_inv M (A \<union> set (r_msgs r')) i r'"
proof -
  obtain ms where ms: "r_msgs r' = r_msgs r @ ms" "one_grant (set ms)" "\<forall>m \<in> set ms. msg_fine r r' m"
    using step unfolding safe_step_def by blast
  note s = safe_stepD [OF step]
  have i: "r_id r = i" "1 \<le> r_term r" "cand_ok M (grants A) r" "log_snaps M (r_log r)"
    and v: "votes_inv A r"
    using inv by (auto simp: node_inv_def)
  have A: "A \<union> set (r_msgs r') = A \<union> set ms" using ms(1) msgs by auto
  have sent: "m_from m = r_id r" if "m \<in> set ms" for m using ms(3) that by (auto simp: msg_fine_def)
  let ?X = "{m \<in> A. m_from m = r_id r}"
  have oldv: "m_to m \<noteq> 0" "m_term m \<le> r_term r" "m_term m = r_term r \<Longrightarrow> r_vote r = m_to m"
    if "m \<in> ?X" "is_grant m" for m
    using v that by (auto simp: votes_inv_def)
  have new: "m_to m \<noteq> 0" "r_term r \<le> m_term m" "m_term m \<le> r_term r'"
      "m_term m = r_term r' \<Longrightarrow> r_vote r' = m_to m"
      "m_term m = r_term r \<Longrightarrow> r_vote r \<noteq> 0 \<Longrightarrow> m_to m = r_vote r"
    if "m \<in> set ms" "is_grant m" for m
    using ms(3) that by (auto simp: msg_fine_def)
  have old': "m_term m \<le> r_term r' \<and> (m_term m = r_term r' \<longrightarrow> r_vote r' = m_to m)"
    if "m \<in> ?X" "is_grant m" for m
  proof -
    have "r_vote r' = m_to m" if t: "m_term m = r_term r'"
    proof -
      have "r_term r' = r_term r" using oldv(2) [OF \<open>m \<in> ?X\<close> \<open>is_grant m\<close>] s(3) t by simp
      then show ?thesis
        using oldv(1,3) [OF \<open>m \<in> ?X\<close> \<open>is_grant m\<close>] s(4) t by simp
    qed
    then show ?thesis using oldv(2) [OF that] s(3) by simp
  qed
  have "one_grant (?X \<union> set ms)"
  proof -
    have x: "one_grant ?X" using v by (simp add: votes_inv_def)
    have xy: "m_to m = m_to m'"
      if "m \<in> ?X" "m' \<in> set ms" "is_grant m" "is_grant m'" "m_term m = m_term m'" for m m'
    proof -
      have t: "m_term m' = r_term r" "m_term m = r_term r"
        using oldv(2) [OF that(1,3)] new(2) [OF that(2,4)] that(5) by simp_all
      have v: "r_vote r = m_to m" "r_vote r \<noteq> 0"
        using oldv(1,3) [OF that(1,3)] t(2) by simp_all
      show ?thesis using new(5) [OF that(2,4) t(1) v(2)] v(1) by simp
    qed
    show ?thesis by (rule one_grant_Un [OF x ms(2) xy])
  qed
  moreover have "{m \<in> A \<union> set ms. m_from m = r_id r} = ?X \<union> set ms" using sent by auto
  moreover have "m_to m \<noteq> 0 \<and> m_term m \<le> r_term r' \<and> (m_term m = r_term r' \<longrightarrow> r_vote r' = m_to m)"
    if m: "m \<in> A \<union> set ms" "is_grant m" "m_from m = r_id r" for m
  proof (cases "m \<in> set ms")
    case True
    then show ?thesis using new [OF True m(2)] by simp
  next
    case False
    then have "m \<in> ?X" using m by simp
    then show ?thesis using oldv [OF _ m(2)] old' [OF _ m(2)] by simp
  qed
  ultimately have "votes_inv (A \<union> set ms) r'"
    unfolding votes_inv_def s(1) by simp
  moreover have "cand_ok M (grants (A \<union> set ms)) r'"
    using cand_ok_mono [OF grants_mono s(6) [OF i(3)], of "A \<union> set ms"] by simp
  ultimately show ?thesis
    using i s(1,3) s(5) unfolding node_inv_def A by simp
qed

text \<open>The messages of the other nodes do not touch what a node knows of its own grants.\<close>

lemma node_inv_others:
  assumes inv: "node_inv M A i r" and others: "\<forall>m \<in> B. m_from m \<noteq> i"
  shows "node_inv M (A \<union> B) i r"
proof -
  have i: "r_id r = i" and v: "votes_inv A r" using inv by (auto simp: node_inv_def)
  have "{m \<in> A \<union> B. m_from m = r_id r} = {m \<in> A. m_from m = r_id r}" using others i by auto
  then have "votes_inv (A \<union> B) r" using v others i by (auto simp: votes_inv_def)
  moreover have "cand_ok M (grants A) r" using inv by (simp add: node_inv_def)
  then have "cand_ok M (grants (A \<union> B)) r"
    by (rule cand_ok_mono [OF grants_mono, rotated]) simp
  ultimately show ?thesis using inv by (simp add: node_inv_def)
qed

lemma cl_raft_set_node: "cl_raft (set_node cl i n) j = (if j = i then n_raft n else cl_raft cl j)"
  by (simp add: cl_raft_def set_node_def)

lemma cl_raft_net [simp]: "cl_raft (cl\<lparr>cl_net := N\<rparr>) j = cl_raft cl j"
  by (simp add: cl_raft_def)

lemma cl_net_set_node [simp]: "cl_net (set_node cl i n) = cl_net cl"
  by (simp add: set_node_def)

lemma msgs_in_all: "i \<in> M \<Longrightarrow> set (r_msgs (cl_raft cl i)) \<subseteq> all_msgs M cl"
  by (auto simp: all_msgs_def)

lemma cluster_inv_step:
  assumes inv: "cluster_inv M cl" and i: "i \<in> M"
    and step: "safe_step M (grants (all_msgs M cl)) (cl_raft cl i) (n_raft n)"
  shows "cluster_inv M (set_node cl i n)"
proof -
  let ?r = "cl_raft cl i" and ?r' = "n_raft n" and ?A = "all_msgs M cl"
  have ni: "node_inv M ?A i ?r" using inv i by (simp add: cluster_inv_def)
  obtain ms where ms: "r_msgs ?r' = r_msgs ?r @ ms" "\<forall>m \<in> set ms. msg_fine ?r ?r' m \<and>
      (log_snaps M (r_log ?r) \<and> m_type m = MsgSnap \<longrightarrow> snap_conf M (m_snapshot m))"
    using step unfolding safe_step_def by blast
  have A': "all_msgs M (set_node cl i n) = ?A \<union> set (r_msgs ?r')"
    using i ms(1) by (auto simp: all_msgs_def cl_raft_set_node split: if_splits)
  have A'': "?A \<union> set (r_msgs ?r') = ?A \<union> set ms" using ms(1) msgs_in_all [OF i] by auto
  have r: "r_id ?r = i" "1 \<le> r_term ?r" "log_snaps M (r_log ?r)" using ni by (auto simp: node_inv_def)
  have new: "msg_inv M m" if "m \<in> set ms" for m
    using ms(2) that r i by (auto simp: msg_inv_def msg_fine_def)
  have "node_inv M (all_msgs M (set_node cl i n)) j (cl_raft (set_node cl i n) j)" if "j \<in> M" for j
  proof (cases "j = i")
    case True
    then show ?thesis
      using node_inv_step [OF ni step msgs_in_all [OF i]] A' by (simp add: cl_raft_set_node)
  next
    case False
    have "node_inv M ?A j (cl_raft cl j)" using inv that by (simp add: cluster_inv_def)
    moreover have "\<forall>m \<in> set ms. m_from m \<noteq> j" using ms(2) r(1) False by (auto simp: msg_fine_def)
    ultimately show ?thesis
      using False node_inv_others A' A'' by (simp add: cl_raft_set_node)
  qed
  moreover have "\<forall>m \<in> all_msgs M (set_node cl i n). msg_inv M m"
    using inv new A' A'' by (auto simp: cluster_inv_def)
  ultimately show ?thesis using inv by (simp add: cluster_inv_def)
qed

section \<open>The calls of the application\<close>

text \<open>What a node must be for its calls to keep the guarantee.\<close>

definition voter :: "nat set \<Rightarrow> (nat \<times> nat \<times> nat) set \<Rightarrow> raft \<Rightarrow> bool" where
  "voter M G r \<longleftrightarrow> can_step r \<and> 0 \<notin> M \<and> cand_ok M G r"

lemma voterD:
  assumes "voter M G r"
  shows "r_term r + 1 < W64" "r_id r \<in> M" "0 \<notin> M" "\<not> r_pre_vote r" "cand_ok M G r"
  using assms by (auto simp: voter_def can_step_def cand_ok_def)

lemma node_input_safe:
  assumes "node_input n m = Some (st, n')" "voter M G (n_raft n)" "msg_known M G (r_id (n_raft n)) m"
  shows "safe_step M G (n_raft n) (n_raft n')"
proof -
  have "raft_step (n_raft n) m = Some (st, n_raft n')"
    using assms(1) by (auto simp: node_input_def split: Option.bind_splits)
  then show ?thesis by (rule raft_step_safe [OF _ assms(3)]) (use voterD [OF assms(2)] in auto)
qed

lemma local_input_known:
  "m_term m = 0 \<Longrightarrow> \<not> is_vote_type (m_type m) \<Longrightarrow> m_type m \<noteq> MsgApp \<Longrightarrow> m_type m \<noteq> MsgHeartbeat \<Longrightarrow>
   m_type m \<noteq> MsgSnap \<Longrightarrow> msg_known M G me m"
  by (auto simp: msg_known_def is_grant_def is_vote_type_def)

text \<open>Adding a node that is a voter already changes nothing that elections read.\<close>

lemma add_member_safe:
  assumes a: "add_node_or_learner r i False = Some r'" and i: "map_of (r_prs r) i = Some pr"
  shows "safe_step M G r r'"
proof -
  let ?ps = "AList.update i (pr\<lparr>pr_is_learner := False\<rparr>) (r_prs r)"
  have k: "map fst ?ps = map fst (r_prs r)" by (rule update_keys_in) (simp add: i)
  then have "map fst (AList.update i p ?ps) = map fst (r_prs r)" for p
    using update_keys_in [of ?ps i p] by simp
  then have e: "r_id r' = r_id r" "r_term r' = r_term r" "r_vote r' = r_vote r"
      "r_state r' = r_state r" "r_votes r' = r_votes r" "r_step_fn r' = r_step_fn r"
      "r_pre_vote r' = r_pre_vote r" "r_msgs r' = r_msgs r" "r_log r' = r_log r"
      "map fst (r_prs r') = map fst (r_prs r)"
    using a i k
    by (auto simp: add_node_or_learner_def get_progress_def put_progress_def Let_def
        split: if_split_asm)
  have "cand_ok M G r' = cand_ok M G r"
    unfolding cand_ok_def backed_def e by simp
  then show ?thesis by (simp add: safe_step_def e)
qed

lemma apply_conf_safe:
  assumes c: "node_apply_conf_change n cc = Some (cs, n')" "cc_type cc = ConfChangeAddNode"
    "cc_node_id cc \<in> M" and v: "voter M G (n_raft n)"
  shows "safe_step M G (n_raft n) (n_raft n')"
proof -
  have "set (map fst (r_prs (n_raft n))) = M" using voterD(5) [OF v] by (simp add: cand_ok_def)
  then obtain pr where pr: "map_of (r_prs (n_raft n)) (cc_node_id cc) = Some pr"
    using c(3) map_of_eq_None_iff' [of "r_prs (n_raft n)" "cc_node_id cc"]
    by (cases "map_of (r_prs (n_raft n)) (cc_node_id cc)") auto
  have "cc_node_id cc \<noteq> 0" using c(3) voterD(3) [OF v] by metis
  then have "add_node_or_learner (n_raft n) (cc_node_id cc) False = Some (n_raft n')"
    using c(1,2) by (auto simp: node_apply_conf_change_def split: Option.bind_splits)
  then show ?thesis using pr by (rule add_member_safe)
qed

lemma take_snapshot_safe:
  assumes t: "take_snapshot n applied d ci = Some n'" and v: "voter M G (n_raft n)"
  shows "safe_step M G (n_raft n) (n_raft n')"
proof -
  let ?r = "n_raft n" and ?s = "l_storage (r_log (n_raft n))"
  obtain snap s1 s2 where c: "storage_create_snapshot ?s applied (Some (conf_state_of ?r)) d
        = Some ((StatusOk, snap), s1)"
      and k: "storage_compact s1 ci = Some (StatusOk, s2)" and n': "n' = with_storage n s2"
  proof -
    obtain st snap s1 st' s2 where "storage_create_snapshot ?s applied (Some (conf_state_of ?r)) d
        = Some ((st, snap), s1)" "is_ok st" "storage_compact s1 ci = Some (st', s2)" "is_ok st'"
        "n' = with_storage n s2"
      using t by (auto simp: take_snapshot_def split: Option.bind_splits)
    then show ?thesis using that by (cases st; cases st') auto
  qed
  have "set (cs_nodes (conf_state_of ?r)) = M"
    using voterD(5) [OF v] by (simp add: cand_ok_def conf_state_of_def raft_nodes_def)
  then have "snap_conf M (ms_snapshot s1)"
    using c by (auto simp: storage_create_snapshot_def snap_conf_def compacted_def older_snapshot_def
        Let_def split: if_splits Option.bind_splits)
  moreover have "ms_snapshot s2 = ms_snapshot s1"
    using k by (auto simp: storage_compact_def Let_def compacted_def split: if_splits Option.bind_splits)
  ultimately have "log_snaps M (r_log ?r) \<Longrightarrow> log_snaps M (r_log (n_raft n'))"
    by (simp add: n' with_storage_def log_snaps_def)
  moreover have "cand_ok M G (n_raft n') = cand_ok M G ?r"
    by (simp add: n' with_storage_def cand_ok_def backed_def)
  ultimately show ?thesis by (simp add: safe_step_def n' with_storage_def)
qed

lemma input_call_safe:
  assumes "input_call ser M n n'" "voter M G (n_raft n)"
  shows "safe_step M G (n_raft n) (n_raft n')"
  using assms(1)
proof cases
  case tick
  then have "raft_tick (n_raft n) = Some (n_raft n')"
    by (auto simp: node_tick_def split: Option.bind_splits)
  then show ?thesis by (rule raft_tick_safe) (use voterD [OF assms(2)] in auto)
next
  case (campaign st)
  then show ?thesis unfolding node_campaign_def
    by (rule node_input_safe [OF _ assms(2) local_input_known])
      (simp_all add: new_message_def is_vote_type_def)
next
  case (propose d st)
  then show ?thesis unfolding node_propose_def
    by (rule node_input_safe [OF _ assms(2) local_input_known]) (simp_all add: new_message_def)
next
  case (propose_conf cc st)
  then show ?thesis unfolding node_propose_conf_change_def
    by (rule node_input_safe [OF _ assms(2) local_input_known]) (simp_all add: new_message_def)
next
  case (read ctx st)
  then show ?thesis unfolding node_read_index_def
    by (rule node_input_safe [OF _ assms(2) local_input_known]) (simp_all add: new_message_def)
next
  case (transfer lead to)
  then obtain st where "node_input n
      (new_message\<lparr>m_type := MsgTransferLeader, m_from := to, m_to := lead\<rparr>) = Some (st, n')"
    by (auto simp: node_transfer_leadership_def split: Option.bind_splits)
  then show ?thesis
    by (rule node_input_safe [OF _ assms(2) local_input_known]) (simp_all add: new_message_def)
next
  case (unreachable j)
  then obtain st where "node_input n (new_message\<lparr>m_type := MsgUnreachable, m_from := j\<rparr>) = Some (st, n')"
    by (auto simp: node_report_unreachable_def split: Option.bind_splits)
  then show ?thesis
    by (rule node_input_safe [OF _ assms(2) local_input_known])
      (simp_all add: new_message_def is_vote_type_def)
next
  case (snapshot_done j s)
  then obtain st where "node_input n (new_message\<lparr>m_type := MsgSnapStatus, m_from := j,
      m_reject := (s = SnapshotFailure)\<rparr>) = Some (st, n')"
    by (auto simp: node_report_snapshot_def split: Option.bind_splits)
  then show ?thesis
    by (rule node_input_safe [OF _ assms(2) local_input_known])
      (simp_all add: new_message_def is_vote_type_def)
next
  case (conf cc cs)
  then show ?thesis using assms(2) by (intro apply_conf_safe)
qed

lemma node_call_safe:
  "node_call ser M n n' \<Longrightarrow> voter M G (n_raft n) \<Longrightarrow> safe_step M G (n_raft n) (n_raft n')"
  by (elim node_call.cases) (simp_all add: input_call_safe take_snapshot_safe)

lemma node_step_safe:
  assumes "node_step n m = Some (st, n')" "voter M G (n_raft n)" "msg_known M G (r_id (n_raft n)) m"
  shows "safe_step M G (n_raft n) (n_raft n')"
  using assms(1) node_input_safe [OF _ assms(2,3)]
  by (auto simp: node_step_def split: if_splits)

section \<open>The ready loop\<close>

lemma storage_append_snapshot: "storage_append s es = Some s' \<Longrightarrow> ms_snapshot s' = ms_snapshot s"
  by (auto simp: storage_append_def Let_def split: list.splits if_splits Option.bind_splits)

lemma persist_ready_log:
  assumes "persist_ready n rd = Some n'"
  shows "\<exists>s. n' = with_storage n s \<and>
    (ms_snapshot s = ms_snapshot (l_storage (r_log (n_raft n))) \<or> ms_snapshot s = rd_snapshot rd)"
proof -
  obtain s1 s2 where s: "s1 = l_storage (r_log (n_raft n)) \<or>
        s1 = snd (storage_apply_snapshot (l_storage (r_log (n_raft n))) (rd_snapshot rd))"
      "s2 = s1 \<or> storage_append s1 (rd_entries rd) = Some s2" "n' = with_storage n s2"
    using assms by (auto simp: persist_ready_def Let_def split: Option.bind_splits if_split_asm)
  have "ms_snapshot s2 = ms_snapshot s1" using s(2) storage_append_snapshot by blast
  then show ?thesis using s by (auto simp: storage_apply_snapshot_def split: if_split_asm)
qed

definition same_role :: "raft \<Rightarrow> raft \<Rightarrow> bool" where
  "same_role r r' \<longleftrightarrow>
     r_id r' = r_id r \<and> r_term r' = r_term r \<and> r_vote r' = r_vote r \<and> r_state r' = r_state r \<and>
     r_votes r' = r_votes r \<and> r_step_fn r' = r_step_fn r \<and> r_pre_vote r' = r_pre_vote r \<and>
     map fst (r_prs r') = map fst (r_prs r)"

lemma same_role_trans: "same_role a b \<Longrightarrow> same_role b c \<Longrightarrow> same_role a c"
  by (simp add: same_role_def)

lemma cand_ok_same_role:
  assumes "same_role r r'"
  shows "cand_ok M G r' = cand_ok M G r"
proof -
  have e: "r_id r' = r_id r" "r_term r' = r_term r" "r_vote r' = r_vote r" "r_state r' = r_state r"
      "r_votes r' = r_votes r" "r_step_fn r' = r_step_fn r" "r_pre_vote r' = r_pre_vote r"
      "map fst (r_prs r') = map fst (r_prs r)"
    using assms by (auto simp: same_role_def)
  show ?thesis unfolding cand_ok_def backed_def e by simp
qed

lemma reduce_sel [simp]:
  "r_msgs (reduce_uncommitted_size r es) = r_msgs r" "r_log (reduce_uncommitted_size r es) = r_log r"
  "same_role r (reduce_uncommitted_size r es)"
  by (simp_all add: reduce_uncommitted_size_def same_role_def Let_def)

lemma node_ready_frame:
  assumes "node_ready n = Some (rd, n')"
  shows "rd_messages rd = r_msgs (n_raft n)" "same_role (n_raft n) (n_raft n')"
    "r_msgs (n_raft n') = []" "r_log (n_raft n') = r_log (n_raft n)"
    "rd_snapshot rd = (case u_snapshot (l_unstable (r_log (n_raft n))) of
       Some s \<Rightarrow> s | None \<Rightarrow> empty_snapshot)"
proof -
  obtain rd0 r0 where n: "new_ready (n_raft n) (n_prev_soft n) (n_prev_hard n) = Some (rd, r0)"
      and n': "n' = n\<lparr>n_raft := reduce_uncommitted_size (r0\<lparr>r_msgs := []\<rparr>) (rd_committed rd)\<rparr>"
    using assms by (auto simp: node_ready_def split: Option.bind_splits)
  have r0: "r0 = (n_raft n)\<lparr>r_msgs := []\<rparr>"
    using n by (auto simp: new_ready_def Let_def split: Option.bind_splits)
  have "same_role (n_raft n) (r0\<lparr>r_msgs := []\<rparr>)" by (simp add: r0 same_role_def)
  then show "same_role (n_raft n) (n_raft n')" using same_role_trans n' by simp
  show "rd_messages rd = r_msgs (n_raft n)" "r_msgs (n_raft n') = []"
    "r_log (n_raft n') = r_log (n_raft n)"
    "rd_snapshot rd = (case u_snapshot (l_unstable (r_log (n_raft n))) of
       Some s \<Rightarrow> s | None \<Rightarrow> empty_snapshot)"
    using n n' r0 by (auto simp: new_ready_def Let_def split: Option.bind_splits)
qed

lemma persist_ready_frame:
  assumes "persist_ready n rd = Some n'"
  shows "same_role (n_raft n) (n_raft n')" "r_msgs (n_raft n') = r_msgs (n_raft n)"
    "log_snaps M (r_log (n_raft n)) \<Longrightarrow> snap_conf M (rd_snapshot rd) \<Longrightarrow> log_snaps M (r_log (n_raft n'))"
  using persist_ready_log [OF assms]
  by (auto simp: with_storage_def same_role_def log_snaps_def)

lemma stable_to_snaps: "log_stable_to l i t = Some l' \<Longrightarrow> log_snaps M l \<Longrightarrow> log_snaps M l'"
  by (auto simp: log_stable_to_def unstable_stable_to_def log_snaps_def Let_def
      split: Option.bind_splits option.splits if_split_asm)

lemma stable_snap_to_snaps: "log_snaps M l \<Longrightarrow> log_snaps M (log_stable_snap_to l i)"
  by (auto simp: log_stable_snap_to_def unstable_stable_snap_to_def log_snaps_def split: option.splits)

lemma applied_to_snaps: "log_snaps M (log_applied_to l i) = log_snaps M l"
  by (simp add: log_applied_to_def log_snaps_def)

lemma node_advance_frame:
  assumes "node_advance n rd = Some n'"
  shows "same_role (n_raft n) (n_raft n')" "r_msgs (n_raft n') = r_msgs (n_raft n)"
    "log_snaps M (r_log (n_raft n)) \<Longrightarrow> log_snaps M (r_log (n_raft n'))"
proof -
  define n1 where "n1 = (case rd_soft_state rd of Some ss \<Rightarrow> n\<lparr>n_prev_soft := ss\<rparr> | None \<Rightarrow> n)"
  define n2 where "n2 = (if \<not> hs_is_empty (rd_hard_state rd) then n1\<lparr>n_prev_hard := rd_hard_state rd\<rparr>
      else n1)"
  define l1 where "l1 = (if ready_applied_cursor rd > 0
      then log_applied_to (r_log (n_raft n2)) (ready_applied_cursor rd) else r_log (n_raft n2))"
  have n2: "n_raft n2 = n_raft n" by (simp add: n2_def n1_def split: option.splits)
  obtain l2 where l2: "(if rd_entries rd \<noteq> []
           then log_stable_to l1 (e_index (last (rd_entries rd))) (e_term (last (rd_entries rd)))
           else Some l1) = Some l2"
      and n': "n' = n2\<lparr>n_raft := (let r = (n_raft n2)\<lparr>r_log := (if \<not> snapshot_is_empty (rd_snapshot rd)
          then log_stable_snap_to l2 (s_index (rd_snapshot rd)) else l2)\<rparr>
        in if rd_read_states rd \<noteq> [] then r\<lparr>r_read_states := []\<rparr> else r)\<rparr>"
    using assms unfolding node_advance_def n1_def [symmetric] n2_def [symmetric] l1_def [symmetric] Let_def
      bind_eq_Some_conv by blast
  define l3 where "l3 = (if \<not> snapshot_is_empty (rd_snapshot rd)
          then log_stable_snap_to l2 (s_index (rd_snapshot rd)) else l2)"
  have l: "l1 = log_applied_to (r_log (n_raft n)) (ready_applied_cursor rd) \<or> l1 = r_log (n_raft n)"
      "l2 = l1 \<or> log_stable_to l1 (e_index (last (rd_entries rd))) (e_term (last (rd_entries rd))) = Some l2"
      "l3 = l2 \<or> l3 = log_stable_snap_to l2 (s_index (rd_snapshot rd))"
      "n_raft n' = (n_raft n)\<lparr>r_log := l3\<rparr> \<or> n_raft n' = (n_raft n)\<lparr>r_log := l3, r_read_states := []\<rparr>"
    using l2 n' n2 by (auto simp: l1_def l3_def Let_def split: if_split_asm)
  show "same_role (n_raft n) (n_raft n')" "r_msgs (n_raft n') = r_msgs (n_raft n)"
    using l(4) by (auto simp: same_role_def)
  assume s: "log_snaps M (r_log (n_raft n))"
  then have "log_snaps M l1" using l(1) by (auto simp: applied_to_snaps)
  then have "log_snaps M l2" using l(2) stable_to_snaps by blast
  then have "log_snaps M l3" using l(3) stable_snap_to_snaps by blast
  then show "log_snaps M (r_log (n_raft n'))" using l(4) by auto
qed

lemma pull_ready_frame:
  assumes "pull_ready n = Some (ms, n')"
  shows "ms = r_msgs (n_raft n)" "same_role (n_raft n) (n_raft n')" "r_msgs (n_raft n') = []"
    "log_snaps M (r_log (n_raft n)) \<Longrightarrow> log_snaps M (r_log (n_raft n'))"
proof -
  obtain rd n1 n2 where 1: "node_ready n = Some (rd, n1)" "persist_ready n1 rd = Some n2"
      "node_advance n2 rd = Some n'" "ms = rd_messages rd"
    using assms by (auto simp: pull_ready_def split: Option.bind_splits)
  note a = node_ready_frame [OF 1(1)] and b = persist_ready_frame [OF 1(2)]
    and c = node_advance_frame [OF 1(3)]
  show "ms = r_msgs (n_raft n)" using a(1) 1(4) by simp
  show "same_role (n_raft n) (n_raft n')" using a(2) b(1) c(1) same_role_trans by blast
  show "r_msgs (n_raft n') = []" using a(3) b(2) c(2) by simp
  assume s: "log_snaps M (r_log (n_raft n))"
  then have "snap_conf M (rd_snapshot rd)"
    by (auto simp: a(5) log_snaps_def snap_conf_def snapshot_is_empty_def empty_snapshot_def
        split: option.splits)
  then show "log_snaps M (r_log (n_raft n'))" using s a(4) b(3) c(3) by simp
qed

lemma cluster_inv_ready:
  assumes inv: "cluster_inv M cl" and i: "i \<in> M"
    and p: "pull_ready (cl_nodes cl i) = Some (ms, n)"
  shows "cluster_inv M ((set_node cl i n)\<lparr>cl_net := cl_net cl \<union> set ms\<rparr>)"
proof -
  let ?cl = "(set_node cl i n)\<lparr>cl_net := cl_net cl \<union> set ms\<rparr>" and ?r = "cl_raft cl i"
  note f = pull_ready_frame [OF p, folded cl_raft_def]
  have A: "all_msgs M ?cl = all_msgs M cl"
    using i f(1,3) by (auto simp: all_msgs_def cl_raft_set_node split: if_split_asm)
  have "node_inv M (all_msgs M cl) i (n_raft n)"
  proof -
    have ni: "node_inv M (all_msgs M cl) i ?r" using inv i by (simp add: cluster_inv_def)
    have "votes_inv (all_msgs M cl) (n_raft n) = votes_inv (all_msgs M cl) ?r"
      using f(2) by (simp add: votes_inv_def same_role_def)
    then show ?thesis
      using ni f(2,4) cand_ok_same_role [OF f(2)] by (simp add: node_inv_def same_role_def)
  qed
  then show ?thesis using inv A by (simp add: cluster_inv_def cl_raft_set_node)
qed

section \<open>The start\<close>

text \<open>What the bootstrap has built once the peers in \<open>N\<close> are added.\<close>

definition booted :: "nat \<Rightarrow> nat \<Rightarrow> nat set \<Rightarrow> raft \<Rightarrow> bool" where
  "booted i t N r \<longleftrightarrow>
     r_id r = i \<and> r_term r = t \<and> r_vote r = 0 \<and> r_state r = Follower \<and> r_votes r = [] \<and>
     r_step_fn r = StepFollower \<and> \<not> r_pre_vote r \<and> r_msgs r = [] \<and> r_learner_prs r = [] \<and>
     distinct (map fst (r_prs r)) \<and> set (map fst (r_prs r)) = N \<and>
     l_storage (r_log r) = new_memory_storage \<and> u_snapshot (l_unstable (r_log r)) = None"

lemma add_node_booted:
  assumes a: "add_node r j = Some r'" and b: "booted i t N r"
  shows "booted i t (insert j N) r'"
proof (cases "map_of (r_prs r) j")
  case None
  have "distinct (map fst (r_prs r')) \<and> set (map fst (r_prs r')) = insert j N"
    using a b None
    by (auto simp: add_node_def add_node_or_learner_def get_progress_def set_progress_def booted_def
        put_progress_def distinct_update keys_update Let_def split: Option.bind_splits if_split_asm simp del: set_map)
  moreover have "r_id r' = i \<and> r_term r' = t \<and> r_vote r' = 0 \<and> r_state r' = Follower \<and> r_votes r' = [] \<and>
     r_step_fn r' = StepFollower \<and> \<not> r_pre_vote r' \<and> r_msgs r' = [] \<and> r_learner_prs r' = [] \<and>
     r_log r' = r_log r"
    using a b None
    by (auto simp: add_node_def add_node_or_learner_def get_progress_def set_progress_def booted_def
        put_progress_def Let_def split: Option.bind_splits if_split_asm)
  ultimately show ?thesis using b by (simp add: booted_def)
next
  case (Some p)
  have "j \<in> N" using b map_of_some_in [OF Some] by (simp add: booted_def)
  moreover have "map fst (AList.update j q (r_prs r)) = map fst (r_prs r)" for q
    by (rule update_keys_in) (simp add: Some)
  moreover have "map fst (AList.update j q (AList.update j q' (r_prs r))) = map fst (r_prs r)" for q q'
    using calculation(2) update_keys_in [of "AList.update j q' (r_prs r)" j q] by simp
  ultimately show ?thesis
    using a b Some
    by (auto simp: add_node_def add_node_or_learner_def get_progress_def put_progress_def booted_def
        Let_def insert_absorb split: if_split_asm simp del: set_map)
qed

lemma booted_start:
  assumes c: "boot_config False i c" and r: "new_raft c rnd = Some r"
  shows "booted i 0 {} r"
proof -
  have st: "storage_initial_state new_memory_storage = (empty_hard_state, empty_conf_state)"
    by (simp add: storage_initial_state_def new_memory_storage_def empty_snapshot_def)
  obtain l where l: "new_raft_log new_memory_storage (c_max_committed_size_per_ready c) = Some l"
    using c r by (auto simp: new_raft_def boot_config_def split: Option.bind_splits)
  have ls: "l_storage l = new_memory_storage" "u_snapshot (l_unstable l) = None"
    using l by (auto simp: new_raft_log_def new_unstable_def split: Option.bind_splits)
  obtain r0 where f: "become_follower r0 (r_term r0) 0 = Some r"
      and r0: "r_id r0 = i" "r_term r0 = 0" "r_vote r0 = 0" "\<not> r_pre_vote r0" "r_msgs r0 = []"
        "r_learner_prs r0 = []" "r_prs r0 = []" "r_log r0 = l"
    using c r l
    by (auto simp: new_raft_def boot_config_def st empty_hard_state_def hs_is_empty_def
        empty_conf_state_def split: Option.bind_splits)
  then show ?thesis using become_follower_sel [OF f] ls by (simp add: booted_def)
qed

lemma booted_follower:
  assumes "booted i t {} r" "become_follower r t' lead = Some r'"
  shows "booted i t' {} r'"
  using assms become_follower_sel [OF assms(2)] by (simp add: booted_def)

lemma add_peers_booted:
  "each (\<lambda>p r. add_node r (fst p)) peers r = Some r' \<Longrightarrow> booted i t N r \<Longrightarrow>
   booted i t (N \<union> fst ` set peers) r'"
proof (induction peers arbitrary: r N)
  case (Cons p peers)
  then obtain r1 where r1: "add_node r (fst p) = Some r1"
      "each (\<lambda>p r. add_node r (fst p)) peers r1 = Some r'"
    by (auto split: Option.bind_splits)
  have "booted i t (insert (fst p) N) r1" by (rule add_node_booted [OF r1(1) Cons.prems(2)])
  then show ?case using Cons.IH [OF r1(2), of "insert (fst p) N"] by simp
qed simp

lemma booted_bootstrap:
  assumes b: "bootstrap ser r peers = Some r'" and r: "booted i 0 {} r"
  shows "booted i 1 (fst ` set peers) r'"
proof -
  obtain r1 es j l where r1: "become_follower r 1 0 = Some r1"
      and l: "log_append (r_log r1) es = Some (j, l)"
      and e: "each (\<lambda>p r. add_node r (fst p)) peers
            (r1\<lparr>r_log := l\<lparr>l_committed := length es\<rparr>\<rparr>) = Some r'"
    using b by (auto simp: bootstrap_def Let_def split: Option.bind_splits)
  have "booted i 1 {} r1" by (rule booted_follower [OF r r1])
  then have "booted i 1 {} (r1\<lparr>r_log := l\<lparr>l_committed := length es\<rparr>\<rparr>)"
    using log_append_same_snap [OF l] by (simp add: booted_def same_snap_def)
  then show ?thesis using add_peers_booted [OF e, of i 1 "{}"] by simp
qed

lemma booted_node:
  assumes c: "boot_config False i c" and n: "new_raw_node ser c rnd peers = Some n"
  shows "booted i 1 (fst ` set peers) (n_raft n)"
proof -
  obtain r where r: "new_raft c rnd = Some r"
    using n by (auto simp: new_raw_node_def split: Option.bind_splits)
  have "storage_last_index new_memory_storage = Some 0"
    by (simp add: storage_last_index_def new_memory_storage_def new_entry_def sub64_def add64_def W64_def)
  then have "bootstrap ser r peers = Some (n_raft n)"
    using n r c by (auto simp: new_raw_node_def boot_config_def split: Option.bind_splits)
  then show ?thesis using booted_start [OF c r] booted_bootstrap by blast
qed

lemma cluster_inv_start:
  assumes "cluster_boot False ser peers cl"
  shows "cluster_inv (fst ` set peers) cl"
proof -
  let ?M = "fst ` set peers"
  have b: "booted i 1 ?M (cl_raft cl i)" if "i \<in> ?M" for i
    using assms that booted_node unfolding cluster_boot_def cl_raft_def by blast
  have A: "all_msgs ?M cl = {}"
    using assms b by (auto simp: all_msgs_def booted_def cluster_boot_def)
  have "card ?M \<le> length peers" by (metis card_length length_map list.set_map)
  then have small: "card ?M < W32" using assms by (simp add: cluster_boot_def W32_def)
  have no0: "0 \<notin> ?M" using assms by (simp add: cluster_boot_def)
  have "node_inv ?M {} i (cl_raft cl i)" if i: "i \<in> ?M" for i
  proof -
    note bi = b [OF i, unfolded booted_def]
    have "i \<noteq> 0" using i no0 by metis
    then have "cand_ok ?M (grants {}) (cl_raft cl i)"
      unfolding cand_ok_def using bi small i by simp
    moreover have "log_snaps ?M (r_log (cl_raft cl i))"
      using bi by (simp add: log_snaps_def new_memory_storage_def snap_conf_def snapshot_is_empty_def
          empty_snapshot_def)
    ultimately show ?thesis using bi by (simp add: node_inv_def votes_inv_def)
  qed
  then show ?thesis using A no0 by (simp add: cluster_inv_def)
qed

section \<open>Reachable clusters\<close>

lemma deliver_known:
  assumes inv: "cluster_inv M cl" and m: "m \<in> cl_net cl" "m_to m = i" "m_term m + 1 < W64"
  shows "msg_known M (grants (all_msgs M cl)) i m"
proof -
  have "m \<in> all_msgs M cl" using m by (simp add: all_msgs_def)
  then have "msg_inv M m" "is_grant m \<Longrightarrow> (m_from m, i, m_term m) \<in> grants (all_msgs M cl)"
    using inv m(2) by (auto simp: cluster_inv_def grants_def)
  then show ?thesis using m(3) by (auto simp: msg_known_def msg_inv_def is_vote_type_def)
qed

lemma cluster_inv_preserved:
  assumes inv: "cluster_inv M cl" and step: "cluster_step ser M cl cl'"
  shows "cluster_inv M cl'"
  using step
proof cases
  case (call i n)
  have "voter M (grants (all_msgs M cl)) (n_raft (cl_nodes cl i))"
    using inv call by (simp add: voter_def cluster_inv_def node_inv_def cl_raft_def)
  then have "safe_step M (grants (all_msgs M cl)) (cl_raft cl i) (n_raft n)"
    using node_call_safe [OF call(4)] by (simp add: cl_raft_def)
  then show ?thesis using cluster_inv_step [OF inv call(2)] call(1) by simp
next
  case (deliver i m st n)
  have v: "voter M (grants (all_msgs M cl)) (n_raft (cl_nodes cl i))"
    using inv deliver by (simp add: voter_def cluster_inv_def node_inv_def cl_raft_def)
  have "r_id (n_raft (cl_nodes cl i)) = i"
    using inv deliver(2) by (simp add: cluster_inv_def node_inv_def cl_raft_def)
  then have "safe_step M (grants (all_msgs M cl)) (cl_raft cl i) (n_raft n)"
    using node_step_safe [OF deliver(7) v] deliver_known [OF inv deliver(4,5,6)]
    by (simp add: cl_raft_def)
  then show ?thesis using cluster_inv_step [OF inv deliver(2)] deliver(1) by simp
next
  case (ready i ms n)
  then show ?thesis using cluster_inv_ready [OF inv] by simp
qed

lemma cluster_inv_reachable:
  assumes "cluster_boot False ser peers cl" "(cluster_step ser (fst ` set peers))\<^sup>*\<^sup>* cl cl'"
  shows "cluster_inv (fst ` set peers) cl'"
  using assms(2)
  by (induction rule: rtranclp_induct)
    (auto intro: cluster_inv_start [OF assms(1)] cluster_inv_preserved)

section \<open>At most one leader in a term\<close>

text \<open>Node \<open>i\<close> has spent its vote of term \<open>t\<close> on itself.\<close>

definition self_vote :: "nat set \<Rightarrow> nat \<Rightarrow> cluster \<Rightarrow> nat \<Rightarrow> bool" where
  "self_vote M t cl i \<longleftrightarrow>
     t \<le> r_term (cl_raft cl i) \<and> (r_term (cl_raft cl i) = t \<longrightarrow> r_vote (cl_raft cl i) = i) \<and>
     (\<forall>m \<in> all_msgs M cl. is_grant m \<and> m_from m = i \<and> m_term m = t \<longrightarrow> m_to m = i)"

lemma self_vote_step:
  assumes inv: "cluster_inv M cl" and i: "i \<in> M"
    and step: "safe_step M (grants (all_msgs M cl)) (cl_raft cl i) (n_raft n)"
  shows "all_msgs M cl \<subseteq> all_msgs M (set_node cl i n)"
    "k \<in> M \<Longrightarrow> self_vote M t cl k \<Longrightarrow> self_vote M t (set_node cl i n) k"
proof -
  let ?r = "cl_raft cl i" and ?r' = "n_raft n" and ?A = "all_msgs M cl"
  obtain ms where ms: "r_msgs ?r' = r_msgs ?r @ ms" "\<forall>m \<in> set ms. msg_fine ?r ?r' m"
    using step unfolding safe_step_def by blast
  have A': "all_msgs M (set_node cl i n) = ?A \<union> set ms"
    using i ms(1) by (auto simp: all_msgs_def cl_raft_set_node split: if_splits)
  then show "?A \<subseteq> all_msgs M (set_node cl i n)" by simp
  have r: "r_id ?r = i" using inv i by (auto simp: cluster_inv_def node_inv_def)
  have i0: "i \<noteq> 0" using inv i unfolding cluster_inv_def by metis
  note s = safe_stepD [OF step]
  assume k: "k \<in> M" "self_vote M t cl k"
  show "self_vote M t (set_node cl i n) k"
  proof (cases "k = i")
    case True
    then have old: "t \<le> r_term ?r" "r_term ?r = t \<Longrightarrow> r_vote ?r = i"
      using k(2) by (auto simp: self_vote_def)
    have "m_to m = i" if m: "m \<in> set ms" "is_grant m" "m_term m = t" for m
    proof -
      have "r_term ?r = t" using ms(2) m old(1) by (auto simp: msg_fine_def)
      moreover have "m_term m = r_term ?r \<Longrightarrow> r_vote ?r \<noteq> 0 \<Longrightarrow> m_to m = r_vote ?r"
        using ms(2) m by (auto simp: msg_fine_def)
      ultimately show ?thesis using old(2) m(3) i0 by simp
    qed
    moreover have "r_term ?r' = t \<Longrightarrow> r_vote ?r' = i"
      using old s(3,4) i0 by (metis le_antisym)
    moreover have "t \<le> r_term ?r'" using old(1) s(3) by simp
    ultimately show ?thesis
      using True k(2) A' by (auto simp: self_vote_def cl_raft_set_node)
  next
    case False
    have "\<forall>m \<in> set ms. m_from m \<noteq> k" using ms(2) r False by (auto simp: msg_fine_def)
    then show ?thesis using k(2) False A' by (auto simp: self_vote_def cl_raft_set_node)
  qed
qed

lemma self_vote_ready:
  assumes i: "i \<in> M" and p: "pull_ready (cl_nodes cl i) = Some (ms, n)"
  defines "cl' \<equiv> (set_node cl i n)\<lparr>cl_net := cl_net cl \<union> set ms\<rparr>"
  shows "all_msgs M cl \<subseteq> all_msgs M cl'" "self_vote M t cl k \<Longrightarrow> self_vote M t cl' k"
proof -
  note f = pull_ready_frame [OF p, folded cl_raft_def]
  have A: "all_msgs M cl' = all_msgs M cl"
    using i f(1,3) by (auto simp: all_msgs_def cl'_def cl_raft_set_node split: if_split_asm)
  then show "all_msgs M cl \<subseteq> all_msgs M cl'" by simp
  show "self_vote M t cl k \<Longrightarrow> self_vote M t cl' k"
    unfolding self_vote_def A using f(2)
    by (auto simp: cl'_def cl_raft_set_node same_role_def split: if_split_asm)
qed

lemma self_vote_preserved:
  assumes inv: "cluster_inv M cl" and step: "cluster_step ser M cl cl'"
  shows "all_msgs M cl \<subseteq> all_msgs M cl' \<and> (\<forall>k \<in> M. self_vote M t cl k \<longrightarrow> self_vote M t cl' k)"
  using step
proof cases
  case (call i n)
  have "voter M (grants (all_msgs M cl)) (n_raft (cl_nodes cl i))"
    using inv call by (simp add: voter_def cluster_inv_def node_inv_def cl_raft_def)
  then have "safe_step M (grants (all_msgs M cl)) (cl_raft cl i) (n_raft n)"
    using node_call_safe [OF call(4)] by (simp add: cl_raft_def)
  then show ?thesis using self_vote_step [OF inv call(2)] call(1) by simp
next
  case (deliver i m st n)
  have v: "voter M (grants (all_msgs M cl)) (n_raft (cl_nodes cl i))"
    using inv deliver by (simp add: voter_def cluster_inv_def node_inv_def cl_raft_def)
  have "r_id (n_raft (cl_nodes cl i)) = i"
    using inv deliver(2) by (simp add: cluster_inv_def node_inv_def cl_raft_def)
  then have "safe_step M (grants (all_msgs M cl)) (cl_raft cl i) (n_raft n)"
    using node_step_safe [OF deliver(7) v] deliver_known [OF inv deliver(4,5,6)]
    by (simp add: cl_raft_def)
  then show ?thesis using self_vote_step [OF inv deliver(2)] deliver(1) by simp
next
  case (ready i ms n)
  then show ?thesis using self_vote_ready [OF ready(2,3)] by auto
qed

lemma self_vote_later:
  assumes inv: "cluster_inv M cl" and steps: "(cluster_step ser M)\<^sup>*\<^sup>* cl cl'"
  shows "cluster_inv M cl' \<and> all_msgs M cl \<subseteq> all_msgs M cl' \<and>
    (\<forall>k \<in> M. self_vote M t cl k \<longrightarrow> self_vote M t cl' k)"
  using steps
proof (induction rule: rtranclp_induct)
  case base
  then show ?case using inv by simp
next
  case (step y z)
  then show ?case
    using cluster_inv_preserved [of M y ser z] self_vote_preserved [of M y ser z t] by blast
qed

lemma leader_facts:
  assumes inv: "cluster_inv M cl" and i: "i \<in> M" and l: "r_state (cl_raft cl i) = Leader"
  shows "self_vote M (r_term (cl_raft cl i)) cl i"
    "\<exists>Q. majority M Q \<and> (\<forall>v \<in> Q. v = i \<or> (v, i, r_term (cl_raft cl i)) \<in> grants (all_msgs M cl))"
proof -
  have n: "r_id (cl_raft cl i) = i" "cand_ok M (grants (all_msgs M cl)) (cl_raft cl i)"
      "votes_inv (all_msgs M cl) (cl_raft cl i)"
    using inv i by (auto simp: cluster_inv_def node_inv_def)
  show "\<exists>Q. majority M Q \<and> (\<forall>v \<in> Q. v = i \<or> (v, i, r_term (cl_raft cl i)) \<in> grants (all_msgs M cl))"
    using n(1,2) l unfolding cand_ok_def backed_def by simp
  have "r_vote (cl_raft cl i) = i" using n(1,2) l unfolding cand_ok_def by simp
  then show "self_vote M (r_term (cl_raft cl i)) cl i"
    using n(1,3) unfolding self_vote_def votes_inv_def by auto
qed

lemma one_leader:
  assumes inv: "cluster_inv M cl" and steps: "(cluster_step ser M)\<^sup>*\<^sup>* cl cl'"
    and i: "i \<in> M" "r_state (cl_raft cl i) = Leader" "r_term (cl_raft cl i) = t"
    and j: "j \<in> M" "r_state (cl_raft cl' j) = Leader" "r_term (cl_raft cl' j) = t"
  shows "i = j"
proof -
  let ?G = "grants (all_msgs M cl')"
  define chose where "chose p c \<longleftrightarrow> p \<in> M \<and> ((p, c, t) \<in> ?G \<or> p = c \<and> self_vote M t cl' p)" for p c
  have inv': "cluster_inv M cl'" and A: "all_msgs M cl \<subseteq> all_msgs M cl'"
    and later: "self_vote M t cl i \<Longrightarrow> self_vote M t cl' i"
    using self_vote_later [OF inv steps, of t] i(1) by blast+
  have once: "chose p a \<Longrightarrow> chose p b \<Longrightarrow> a = b" for p a b
  proof -
    assume c: "chose p a" "chose p b"
    then have "p \<in> M" by (simp add: chose_def)
    then have ni: "node_inv M (all_msgs M cl') p (cl_raft cl' p)" using inv' by (simp add: cluster_inv_def)
    then have "r_id (cl_raft cl' p) = p" by (simp add: node_inv_def)
    moreover have "one_grant {m \<in> all_msgs M cl'. m_from m = r_id (cl_raft cl' p)}"
      using ni unfolding node_inv_def votes_inv_def by blast
    ultimately have og: "one_grant {m \<in> all_msgs M cl'. m_from m = p}" by simp
    have gg: "a = b" if g: "(p, a, t) \<in> ?G" "(p, b, t) \<in> ?G"
    proof -
      obtain m where m: "m \<in> all_msgs M cl'" "is_grant m" "m_from m = p" "m_to m = a" "m_term m = t"
        by (rule grantsE [OF g(1)])
      obtain m' where m': "m' \<in> all_msgs M cl'" "is_grant m'" "m_from m' = p" "m_to m' = b" "m_term m' = t"
        by (rule grantsE [OF g(2)])
      have "m_to m = m_to m'" by (rule one_grantD [OF og]) (use m m' in simp_all)
      then show ?thesis using m(4) m'(4) by simp
    qed
    have gs: "x = p" if g: "self_vote M t cl' p" "(p, x, t) \<in> ?G" for x
    proof -
      obtain m where m: "m \<in> all_msgs M cl'" "is_grant m" "m_from m = p" "m_to m = x" "m_term m = t"
        by (rule grantsE [OF g(2)])
      then have "m_to m = p" using g(1) unfolding self_vote_def by blast
      then show ?thesis using m(4) by simp
    qed
    from c have "(p, a, t) \<in> ?G \<or> p = a \<and> self_vote M t cl' p"
      "(p, b, t) \<in> ?G \<or> p = b \<and> self_vote M t cl' p" by (simp_all add: chose_def)
    then show ?thesis
    proof (elim disjE conjE)
      assume "(p, a, t) \<in> ?G" "p = b" "self_vote M t cl' p"
      then show ?thesis using gs [of a] by simp
    next
      assume "p = a" "self_vote M t cl' p" "(p, b, t) \<in> ?G"
      then show ?thesis using gs [of b] by simp
    qed (use gg in simp_all)
  qed
  obtain P where P: "majority M P" "\<forall>v \<in> P. v = i \<or> (v, i, t) \<in> grants (all_msgs M cl)"
    using leader_facts(2) [OF inv i(1,2), unfolded i(3)] by (elim exE conjE) (rule that)
  have si: "self_vote M t cl' i" using leader_facts(1) [OF inv i(1,2)] i(3) later by simp
  obtain Q where Q: "majority M Q" "\<forall>v \<in> Q. v = j \<or> (v, j, t) \<in> ?G"
    using leader_facts(2) [OF inv' j(1,2), unfolded j(3)] by (elim exE conjE) (rule that)
  have sj: "self_vote M t cl' j" using leader_facts(1) [OF inv' j(1,2)] j(3) by simp
  have sub: "P \<subseteq> M" "Q \<subseteq> M" using P(1) Q(1) by (auto simp: majority_def)
  have Pc: "\<forall>v \<in> P. chose v i"
  proof
    fix v assume v: "v \<in> P"
    then have "v = i \<or> (v, i, t) \<in> ?G" using P(2) grants_mono [OF A] by blast
    then show "chose v i" using v si sub(1) unfolding chose_def by auto
  qed
  have Qc: "\<forall>v \<in> Q. chose v j"
  proof
    fix v assume v: "v \<in> Q"
    then have "v = j \<or> (v, j, t) \<in> ?G" using Q(2) by blast
    then show "chose v j" using v sj sub(2) unfolding chose_def by auto
  qed
  show ?thesis by (rule maj.one_winner [OF once P(1) Pc Q(1) Qc])
qed

end
