(* ===== verification/Replica_Node.thy ===== *)
theory Replica_Node
  imports Replica_Log Raft_Replicate Cluster
begin

text \<open>
  What one node and its messages keep, relative to the history: its log is rooted in the logs of
  leaders, it still has what it has acknowledged, unless a later leader began without it, and what
  it says about logs and votes is true.
\<close>

section \<open>Messages\<close>

definition offered :: "nat set \<Rightarrow> history \<Rightarrow> message \<Rightarrow> bool" where
  "offered M h m \<longleftrightarrow>
     (\<exists>x n. h_lead_log h (m_term m) = Some x \<and> m_index m \<le> length x \<and>
        m_log_term m = term_in x (m_index m) \<and> m_entries m = take n (drop (m_index m) x) \<and>
        covered M h (m_term m) x (m_commit m))"

definition beaten :: "nat set \<Rightarrow> history \<Rightarrow> message \<Rightarrow> bool" where
  "beaten M h m \<longleftrightarrow>
     m_commit m \<le> h_acked h (m_to m) (m_term m) \<and>
     (\<exists>x. h_lead_log h (m_term m) = Some x \<and> covered M h (m_term m) x (m_commit m))"

definition carried :: "nat set \<Rightarrow> history \<Rightarrow> message \<Rightarrow> bool" where
  "carried M h m \<longleftrightarrow>
     (\<exists>x. h_lead_log h (m_term m) = Some x \<and> 0 < s_index (m_snapshot m) \<and>
        s_term (m_snapshot m) = term_in x (s_index (m_snapshot m)) \<and>
        covered M h (m_term m) x (s_index (m_snapshot m)))"

definition asked :: "history \<Rightarrow> message \<Rightarrow> bool" where
  "asked h m \<longleftrightarrow>
     (m_from m, m_from m, m_term m) \<in> h_votes h \<and>
     m_index m = length (h_cand_log h (m_from m) (m_term m)) \<and>
     m_log_term m = term_in (h_cand_log h (m_from m) (m_term m)) (m_index m)"

definition msg_ok :: "nat set \<Rightarrow> history \<Rightarrow> message \<Rightarrow> bool" where
  "msg_ok M h m \<longleftrightarrow>
     (case m_type m of
        MsgApp \<Rightarrow> offered M h m
      | MsgAppResp \<Rightarrow> m_reject m \<or> m_index m \<le> h_acked h (m_from m) (m_term m)
      | MsgHeartbeat \<Rightarrow> beaten M h m
      | MsgSnap \<Rightarrow> carried M h m
      | MsgVote \<Rightarrow> asked h m
      | MsgVoteResp \<Rightarrow> m_reject m \<or> (m_from m, m_to m, m_term m) \<in> h_votes h
      | _ \<Rightarrow> True)"

section \<open>Nodes\<close>

text \<open>What node \<open>i\<close> has acknowledged it still has, or a later leader began without it.\<close>

definition passed_over :: "history \<Rightarrow> nat \<Rightarrow> nat \<Rightarrow> raft \<Rightarrow> bool" where
  "passed_over h t k r \<longleftrightarrow>
     (\<exists>s. began_without h t k s \<and> s \<le> r_term r \<and> (s = r_term r \<longrightarrow> r_lead r \<noteq> 0 \<or> r_vote r \<noteq> 0))"

definition acks_kept :: "history \<Rightarrow> nat \<Rightarrow> raft \<Rightarrow> bool" where
  "acks_kept h i r \<longleftrightarrow>
     (\<forall>t k. 0 < k \<longrightarrow> k \<le> h_acked h i t \<longrightarrow> t \<le> r_term r \<and>
        (take k (h_log h i) = take k (the (h_lead_log h t)) \<or> passed_over h t k r))"

lemma acks_keptD:
  assumes "acks_kept h i r" "0 < k" "k \<le> h_acked h i t"
  shows "t \<le> r_term r" "take k (h_log h i) = take k (the (h_lead_log h t)) \<or> passed_over h t k r"
  using assms by (auto simp: acks_kept_def)

lemma passed_over_grown:
  "grown i h h' \<Longrightarrow> history_ok M h \<Longrightarrow> h_lead_log h t = Some x \<Longrightarrow> k \<le> length x \<Longrightarrow> passed_over h t k r \<Longrightarrow>
   passed_over h' t k r"
  unfolding passed_over_def using began_without_grown by blast

definition votes_kept :: "history \<Rightarrow> nat \<Rightarrow> raft \<Rightarrow> bool" where
  "votes_kept h i r \<longleftrightarrow>
     (\<forall>c t. (i, c, t) \<in> h_votes h \<longrightarrow> c \<noteq> 0 \<and> t \<le> r_term r \<and> (t = r_term r \<longrightarrow> r_vote r = c)) \<and>
     (r_vote r \<noteq> 0 \<longrightarrow> (i, r_vote r, r_term r) \<in> h_votes h)"

text \<open>What the leader \<open>i\<close> of term \<open>t\<close> believes of node \<open>v\<close>.\<close>

definition follower_ok :: "history \<Rightarrow> nat \<Rightarrow> nat \<Rightarrow> nat \<Rightarrow> progress \<Rightarrow> bool" where
  "follower_ok h i t v p \<longleftrightarrow>
     pr_match p \<le> h_acked h v t \<and> 0 < pr_next p \<and> pr_next p \<le> length (h_log h i) + 1 \<and>
     pr_pending_snapshot p \<le> length (h_log h i)"

definition followers_ok :: "history \<Rightarrow> nat \<Rightarrow> raft \<Rightarrow> bool" where
  "followers_ok h i r \<longleftrightarrow>
     (\<forall>v p. get_progress r v = Some p \<longrightarrow> follower_ok h i (r_term r) v p)"

definition candidate_ok :: "history \<Rightarrow> nat \<Rightarrow> raft \<Rightarrow> bool" where
  "candidate_ok h i r \<longleftrightarrow>
     h_cand_log h i (r_term r) = h_log h i \<and> r_term r \<noteq> 1 \<and>
     (h_lead_log h (r_term r) \<noteq> None \<longrightarrow> h_winner h (r_term r) \<noteq> i)"

definition leader_ok :: "history \<Rightarrow> nat \<Rightarrow> raft \<Rightarrow> bool" where
  "leader_ok h i r \<longleftrightarrow>
     h_lead_log h (r_term r) = Some (h_log h i) \<and> h_winner h (r_term r) = i \<and> followers_ok h i r"

definition node_ok :: "nat set \<Rightarrow> history \<Rightarrow> nat \<Rightarrow> raft \<Rightarrow> bool" where
  "node_ok M h i r \<longleftrightarrow>
     r_id r = i \<and> 0 < r_term r \<and> cand_ok M (h_votes h) r \<and>
     (r_step_fn r = StepLeader \<longleftrightarrow> r_state r = Leader) \<and>
     log_good (h_log h i) (r_log r) \<and> rooted h (h_log h i) \<and> terms_upto (r_term r) (h_log h i) \<and>
     acks_kept h i r \<and> votes_kept h i r \<and>
     covered M h (r_term r) (h_log h i) (l_committed (r_log r)) \<and>
     (r_state r = Candidate \<longrightarrow> candidate_ok h i r) \<and> (r_state r = Leader \<longrightarrow> leader_ok h i r)"

lemma node_okD:
  assumes "node_ok M h i r"
  shows "r_id r = i" "0 < r_term r" "cand_ok M (h_votes h) r" "log_good (h_log h i) (r_log r)"
    "rooted h (h_log h i)" "terms_upto (r_term r) (h_log h i)" "acks_kept h i r" "votes_kept h i r"
    "covered M h (r_term r) (h_log h i) (l_committed (r_log r))"
    "r_state r = Candidate \<Longrightarrow> candidate_ok h i r" "r_state r = Leader \<Longrightarrow> leader_ok h i r"
    "r_step_fn r = StepLeader \<longleftrightarrow> r_state r = Leader"
  using assms by (auto simp: node_ok_def)

text \<open>A node with the messages it has queued, in a proper history.\<close>

definition okay :: "nat set \<Rightarrow> nat \<Rightarrow> history \<Rightarrow> raft \<Rightarrow> bool" where
  "okay M i h r \<longleftrightarrow> history_ok M h \<and> node_ok M h i r \<and> (\<forall>m \<in> set (r_msgs r). msg_ok M h m)"

text \<open>The node can go on, with the history extended by what it has done.\<close>

definition goes_on :: "nat set \<Rightarrow> nat \<Rightarrow> history \<Rightarrow> raft \<Rightarrow> bool" where
  "goes_on M i h r \<longleftrightarrow> (\<exists>h'. grown i h h' \<and> okay M i h' r)"

lemma goes_onI: "okay M i h r \<Longrightarrow> goes_on M i h r"
  unfolding goes_on_def using grown_refl by blast

lemma goes_on_trans: "grown i h h' \<Longrightarrow> goes_on M i h' r \<Longrightarrow> goes_on M i h r"
  unfolding goes_on_def using grown_trans by blast

section \<open>Other nodes' steps\<close>

lemma offered_grown:
  assumes g: "grown i h h'" and m: "offered M h m"
  shows "offered M h' m"
proof -
  obtain x n where x: "h_lead_log h (m_term m) = Some x" "m_index m \<le> length x"
      "m_log_term m = term_in x (m_index m)" "m_entries m = take n (drop (m_index m) x)"
      "covered M h (m_term m) x (m_commit m)"
    using m by (auto simp: offered_def)
  obtain y where y: "h_lead_log h' (m_term m) = Some (x @ y)" using grownD(2) [OF g x(1)] by blast
  have "m_commit m \<le> length x" using covered_length [OF x(5)] .
  then have "covered M h' (m_term m) (x @ y) (m_commit m)"
    by (intro covered_prefix [OF covered_grown [OF g x(5)]]) simp
  moreover have "m_entries m = take (min n (length x - m_index m)) (drop (m_index m) (x @ y))"
    using x(2,4) by (simp add: min_def)
  ultimately show ?thesis using x(2,3) y unfolding offered_def by fastforce
qed

lemma beaten_grown:
  assumes g: "grown i h h'" and m: "beaten M h m"
  shows "beaten M h' m"
proof -
  obtain x where x: "h_lead_log h (m_term m) = Some x" "covered M h (m_term m) x (m_commit m)"
    using m by (auto simp: beaten_def)
  obtain y where "h_lead_log h' (m_term m) = Some (x @ y)" using grownD(2) [OF g x(1)] by blast
  moreover from x(2) have "covered M h' (m_term m) (x @ y) (m_commit m)"
    by (intro covered_prefix [OF covered_grown [OF g x(2)]]) (simp add: covered_length)
  moreover have "m_commit m \<le> h_acked h' (m_to m) (m_term m)"
    using m grownD(8) [OF g] by (auto simp: beaten_def intro: order_trans)
  ultimately show ?thesis by (simp add: beaten_def)
qed

lemma carried_grown:
  assumes g: "grown i h h'" and m: "carried M h m"
  shows "carried M h' m"
proof -
  let ?s = "m_snapshot m"
  obtain x where x: "h_lead_log h (m_term m) = Some x" "0 < s_index ?s"
      "s_term ?s = term_in x (s_index ?s)" "covered M h (m_term m) x (s_index ?s)"
    using m by (auto simp: carried_def)
  obtain y where "h_lead_log h' (m_term m) = Some (x @ y)" using grownD(2) [OF g x(1)] by blast
  moreover have "s_index ?s \<le> length x" by (rule covered_length [OF x(4)])
  moreover from this have "covered M h' (m_term m) (x @ y) (s_index ?s)"
    by (intro covered_prefix [OF covered_grown [OF g x(4)]]) simp
  ultimately show ?thesis using x(2,3) by (simp add: carried_def)
qed

lemma msg_ok_grown:
  assumes g: "grown i h h'" and m: "msg_ok M h m"
  shows "msg_ok M h' m"
proof -
  have asked: "asked h m \<Longrightarrow> asked h' m" using grownD(5,6) [OF g] by (simp add: asked_def)
  have ack: "m_index m \<le> h_acked h (m_from m) (m_term m) \<Longrightarrow> m_index m \<le> h_acked h' (m_from m) (m_term m)"
    using grownD(8) [OF g, of "m_from m" "m_term m"] by simp
  have vote: "(m_from m, m_to m, m_term m) \<in> h_votes h \<Longrightarrow> (m_from m, m_to m, m_term m) \<in> h_votes h'"
    by (rule grownD(6) [OF g])
  note o = offered_grown [OF g, of M m] and b = beaten_grown [OF g, of M m] and c = carried_grown [OF g, of M m]
  show ?thesis
  proof (cases "m_type m")
    case MsgApp
    then show ?thesis using m o by (simp add: msg_ok_def)
  next
    case MsgAppResp
    then show ?thesis using m ack by (auto simp: msg_ok_def)
  next
    case MsgHeartbeat
    then show ?thesis using m b by (simp add: msg_ok_def)
  next
    case MsgSnap
    then show ?thesis using m c by (simp add: msg_ok_def)
  next
    case MsgVote
    then show ?thesis using m asked by (simp add: msg_ok_def)
  next
    case MsgVoteResp
    then show ?thesis using m vote by (auto simp: msg_ok_def)
  qed (simp_all add: msg_ok_def)
qed

lemma node_ok_others:
  assumes g: "grown i h h'" and h: "history_ok M h" and j: "j \<noteq> i" and n: "node_ok M h j r"
  shows "node_ok M h' j r"
proof -
  note d = node_okD [OF n]
  have log: "h_log h' j = h_log h j" by (rule grownD(10) [OF g j])
  have ack: "h_acked h' j t = h_acked h j t" for t by (rule grownD(9) [OF g j])
  have votes: "(j, c, t) \<in> h_votes h' \<longleftrightarrow> (j, c, t) \<in> h_votes h" for c t
    using grownD(6,7) [OF g] j by blast
  have sub: "h_votes h \<subseteq> h_votes h'" using g by (simp add: grown_def)
  have "acks_kept h' j r"
    unfolding acks_kept_def ack log
  proof (intro allI impI)
    fix t k assume k: "0 < k" "k \<le> h_acked h j t"
    obtain x where x: "h_lead_log h t = Some x" "k \<le> length x"
      using history_okD(9) [OF h, of j t] k by auto
    obtain y where y: "h_lead_log h' t = Some (x @ y)" using grownD(2) [OF g x(1)] by blast
    show "t \<le> r_term r \<and> (take k (h_log h j) = take k (the (h_lead_log h' t)) \<or> passed_over h' t k r)"
      using acks_keptD [OF d(7) k] passed_over_grown [OF g h x] x y by auto
  qed
  moreover have "votes_kept h' j r" using d(8) by (simp add: votes_kept_def votes)
  moreover have "cand_ok M (h_votes h') r" by (rule cand_ok_mono [OF sub d(3)])
  moreover have "candidate_ok h' j r" if s: "r_state r = Candidate"
  proof -
    have c: "candidate_ok h j r" by (rule d(10) [OF s])
    have "r_vote r = j \<and> j \<noteq> 0" using d(1,3) s by (auto simp: cand_ok_def)
    then have "(j, j, r_term r) \<in> h_votes h" using d(8) by (auto simp: votes_kept_def)
    then have "h_cand_log h' j (r_term r) = h_cand_log h j (r_term r)" by (rule grownD(5) [OF g])
    moreover have "h_winner h' (r_term r) \<noteq> j" if n: "h_lead_log h' (r_term r) \<noteq> None"
    proof (cases "h_lead_log h (r_term r)")
      case None
      then show ?thesis using grownD(4) [OF g None n] j by simp
    next
      case (Some x)
      then show ?thesis using grownD(1) [OF g Some] c by (simp add: candidate_ok_def)
    qed
    ultimately show ?thesis using c log by (simp add: candidate_ok_def)
  qed
  moreover have "leader_ok h' j r" if s: "r_state r = Leader"
  proof -
    have c: "leader_ok h j r" by (rule d(11) [OF s])
    then have w: "h_lead_log h (r_term r) = Some (h_log h j)" "h_winner h (r_term r) = j"
      by (simp_all add: leader_ok_def)
    have "follower_ok h' j (r_term r) v p" if "follower_ok h j (r_term r) v p" for v p
      using that grownD(8) [OF g, of v "r_term r"] log by (simp add: follower_ok_def)
    then have "followers_ok h' j r" using c by (simp add: leader_ok_def followers_ok_def)
    then show ?thesis
      using w grownD(1,3) [OF g w(1)] j log by (simp add: leader_ok_def)
  qed
  ultimately show ?thesis
    using d(1,2,4-6,9,12) rooted_grown [OF g] covered_grown [OF g] log unfolding node_ok_def by auto
qed

section \<open>Steps that move nothing\<close>

text \<open>
  A step that leaves term, vote, role, membership and log alone: only what it sends and what a leader
  believes of its followers have to be looked at.
\<close>

definition unmoved :: "raft \<Rightarrow> raft \<Rightarrow> bool" where
  "unmoved r r' \<longleftrightarrow>
     r_id r' = r_id r \<and> r_term r' = r_term r \<and> r_vote r' = r_vote r \<and> r_state r' = r_state r \<and>
     r_votes r' = r_votes r \<and> r_step_fn r' = r_step_fn r \<and> r_pre_vote r' = r_pre_vote r \<and>
     r_log r' = r_log r \<and> map fst (r_prs r') = map fst (r_prs r) \<and> (r_lead r \<noteq> 0 \<longrightarrow> r_lead r' \<noteq> 0)"

lemma cand_ok_cong:
  assumes "r_id r' = r_id r" "r_term r' = r_term r" "r_vote r' = r_vote r" "r_state r' = r_state r"
    "r_votes r' = r_votes r" "r_step_fn r' = r_step_fn r" "r_pre_vote r' = r_pre_vote r"
    "map fst (r_prs r') = map fst (r_prs r)"
  shows "cand_ok M G r' = cand_ok M G r"
  unfolding cand_ok_def backed_def assms by simp

lemma acks_kept_later:
  assumes "acks_kept h i r" "r_term r \<le> r_term r'"
    "r_term r' = r_term r \<Longrightarrow> r_lead r \<noteq> 0 \<or> r_vote r \<noteq> 0 \<Longrightarrow> r_lead r' \<noteq> 0 \<or> r_vote r' \<noteq> 0"
  shows "acks_kept h i r'"
proof -
  have "passed_over h t k r \<Longrightarrow> passed_over h t k r'" for t k
    unfolding passed_over_def using assms(2,3) by (metis le_antisym le_trans)
  then show ?thesis using assms(1,2) unfolding acks_kept_def by (meson le_trans)
qed

text \<open>A change of the role, the term and the membership, over the same log.\<close>

lemma node_ok_change:
  assumes n: "node_ok M h i r" and eq: "r_id r' = r_id r" "r_log r' = r_log r" "r_term r \<le> r_term r'"
    and c: "cand_ok M (h_votes h) r'" "r_step_fn r' = StepLeader \<longleftrightarrow> r_state r' = Leader"
    and v: "votes_kept h i r'"
      "r_term r' = r_term r \<Longrightarrow> r_lead r \<noteq> 0 \<or> r_vote r \<noteq> 0 \<Longrightarrow> r_lead r' \<noteq> 0 \<or> r_vote r' \<noteq> 0"
    and s: "r_state r' = Candidate \<Longrightarrow> candidate_ok h i r'" "r_state r' = Leader \<Longrightarrow> leader_ok h i r'"
  shows "node_ok M h i r'"
proof -
  note d = node_okD [OF n]
  have "terms_upto (r_term r') (h_log h i)"
    using d(6) eq(3) unfolding terms_upto_def by (meson le_trans)
  moreover have "acks_kept h i r'" by (rule acks_kept_later [OF d(7) eq(3) v(2)])
  moreover have "covered M h (r_term r') (h_log h i) (l_committed (r_log r))"
    by (rule covered_later [OF d(9) eq(3)])
  ultimately show ?thesis using d(1,2,4,5) eq c v(1) s by (simp add: node_ok_def)
qed

lemma okay_unmoved:
  assumes ok: "okay M i h r" and q: "unmoved r r'" and ms: "\<And>m. m \<in> set (r_msgs r') \<Longrightarrow> m \<notin> set (r_msgs r) \<Longrightarrow> msg_ok M h m"
    and p: "r_state r = Leader \<Longrightarrow> followers_ok h i r'"
  shows "okay M i h r'"
proof -
  have n: "node_ok M h i r" using ok by (simp add: okay_def)
  note d = node_okD [OF n]
  have eq: "r_id r' = r_id r" "r_term r' = r_term r" "r_vote r' = r_vote r" "r_state r' = r_state r"
      "r_votes r' = r_votes r" "r_step_fn r' = r_step_fn r" "r_pre_vote r' = r_pre_vote r"
      "r_log r' = r_log r" "map fst (r_prs r') = map fst (r_prs r)" "r_lead r \<noteq> 0 \<Longrightarrow> r_lead r' \<noteq> 0"
    using q by (auto simp: unmoved_def)
  have "node_ok M h i r'"
  proof (rule node_ok_change [OF n])
    show "cand_ok M (h_votes h) r'" using d(3) cand_ok_cong [OF eq(1-7,9)] by simp
    show "votes_kept h i r'" using d(8) by (simp add: votes_kept_def eq)
    show "r_state r' = Candidate \<Longrightarrow> candidate_ok h i r'" using d(10) by (simp add: candidate_ok_def eq)
    show "r_state r' = Leader \<Longrightarrow> leader_ok h i r'" using d(11) p by (simp add: leader_ok_def eq)
  qed (use eq d(12) in auto)
  then show ?thesis using ok ms unfolding okay_def by blast
qed

lemma okayD:
  assumes "okay M i h r"
  shows "history_ok M h" "node_ok M h i r" "m \<in> set (r_msgs r) \<Longrightarrow> msg_ok M h m"
  using assms by (auto simp: okay_def)

lemma okay_log: "okay M i h r \<Longrightarrow> log_good (h_log h i) (r_log r) \<and> log_of (h_log h i) (r_log r)"
  using node_okD(4) [OF okayD(2)] log_goodD(1) by blast

lemma unmoved_trans: "unmoved a b \<Longrightarrow> unmoved b c \<Longrightarrow> unmoved a c"
  by (simp add: unmoved_def)

lemma unmoved_refl [simp]: "unmoved r r"
  by (simp add: unmoved_def)

lemma sends_unmoved: "sends_only r r' \<Longrightarrow> unmoved r r'"
  by (simp add: unmoved_def sends_only_sel)

end
