(* ===== verification/Replica_Send.thy ===== *)
theory Replica_Send
  imports Replica_Node
begin

text \<open>
  What a leader sends about its log is true, and what it keeps of its followers stays within what
  they have acknowledged; the commit rule commits what a majority has.
\<close>

section \<open>Progress of followers\<close>

lemma get_progress_cong:
  "r_prs r' = r_prs r \<Longrightarrow> r_learner_prs r' = r_learner_prs r \<Longrightarrow> get_progress r' = get_progress r"
  by (intro ext) (simp only: get_progress_def)

definition leads :: "nat set \<Rightarrow> nat \<Rightarrow> history \<Rightarrow> raft \<Rightarrow> bool" where
  "leads M i h r \<longleftrightarrow> okay M i h r \<and> r_state r = Leader"

lemma leadsD:
  assumes "leads M i h r"
  shows "okay M i h r" "r_state r = Leader" "leader_ok h i r"
    "h_lead_log h (r_term r) = Some (h_log h i)" "h_winner h (r_term r) = i"
    "get_progress r v = Some p \<Longrightarrow> follower_ok h i (r_term r) v p"
    "log_of (h_log h i) (r_log r)" "r_id r = i"
    "covered M h (r_term r) (h_log h i) (l_committed (r_log r))" "length (h_log h i) + 1 < W64"
proof -
  have o: "okay M i h r" and s: "r_state r = Leader" using assms by (auto simp: leads_def)
  note d = node_okD [OF okayD(2) [OF o]]
  show "okay M i h r" "r_state r = Leader" "leader_ok h i r" "r_id r = i"
    "covered M h (r_term r) (h_log h i) (l_committed (r_log r))"
    using o s d(11) [OF s] d(1,9) by simp_all
  then show "h_lead_log h (r_term r) = Some (h_log h i)" "h_winner h (r_term r) = i"
    "get_progress r v = Some p \<Longrightarrow> follower_ok h i (r_term r) v p"
    by (auto simp: leader_ok_def followers_ok_def)
  show l: "log_of (h_log h i) (r_log r)" using okay_log [OF o] by simp
  show "length (h_log h i) + 1 < W64" by (rule log_ofD(7) [OF l])
qed

lemma leads_unmoved:
  assumes "leads M i h r" "unmoved r r'" "followers_ok h i r'"
    and "\<And>m. m \<in> set (r_msgs r') \<Longrightarrow> m \<notin> set (r_msgs r) \<Longrightarrow> msg_ok M h m"
  shows "leads M i h r'"
proof -
  have "okay M i h r'" by (rule okay_unmoved [OF leadsD(1) [OF assms(1)] assms(2,4,3)])
  then show ?thesis using assms(1,2) by (simp add: leads_def unmoved_def)
qed

lemma leads_same:
  assumes l: "leads M i h r" and q: "unmoved r r'" and m: "r_msgs r' = r_msgs r"
    and p: "r_prs r' = r_prs r" "r_learner_prs r' = r_learner_prs r"
  shows "leads M i h r'"
proof (rule leads_unmoved [OF l q])
  have "get_progress r' = get_progress r" by (rule get_progress_cong [OF p])
  moreover have "r_term r' = r_term r" using q by (simp add: unmoved_def)
  ultimately show "followers_ok h i r'"
    using leadsD(3) [OF l] by (simp add: leader_ok_def followers_ok_def)
qed (simp add: m)

lemma leads_put:
  assumes l: "leads M i h r" and v: "get_progress r v \<noteq> None" and p: "follower_ok h i (r_term r) v p"
  shows "leads M i h (put_progress r v p)"
proof (rule leads_unmoved [OF l sends_unmoved [OF sends_only_put [OF v]]])
  have "follower_ok h i (r_term r) w q" if "get_progress (put_progress r v p) w = Some q" for w q
    using that get_put_same [OF v] get_put_other [of w v r p] leadsD(6) [OF l, of w q] p
    by (cases "w = v") auto
  then show "followers_ok h i (put_progress r v p)" by (simp add: followers_ok_def)
qed simp

lemma leads_send:
  assumes l: "leads M i h r" and s: "raft_send r m = Some r'" and t: "plain_type (m_type m)"
    and m: "msg_ok M h (m\<lparr>m_from := i, m_term := r_term r\<rparr>)"
  shows "leads M i h r'"
proof -
  have r': "r' = r\<lparr>r_msgs := r_msgs r @ [m\<lparr>m_from := r_id r, m_term := r_term r\<rparr>]\<rparr>"
    by (rule raft_send_eq [OF s t])
  have id: "r_id r = i" by (rule leadsD(8) [OF l])
  show ?thesis
  proof (rule leads_unmoved [OF l])
    show "unmoved r r'" by (simp add: r' unmoved_def)
    have "get_progress r' = get_progress r" by (rule get_progress_cong) (simp_all add: r')
    then show "followers_ok h i r'"
      using leadsD(3) [OF l] by (simp add: leader_ok_def followers_ok_def r')
  qed (use m in \<open>auto simp: r' id\<close>)
qed

text \<open>The changes of a follower's progress.\<close>

lemma acked_length:
  assumes l: "leads M i h r" and n: "n \<le> h_acked h v (r_term r)"
  shows "n \<le> length (h_log h i)"
proof (cases "n = 0")
  case False
  then have "0 < h_acked h v (r_term r)" using n by simp
  then obtain x where "h_lead_log h (r_term r) = Some x" "h_acked h v (r_term r) \<le> length x"
    using history_okD(9) [OF okayD(1) [OF leadsD(1) [OF l]]] by blast
  then show ?thesis using leadsD(4) [OF l] n by simp
qed simp

lemma follower_ok_match:
  "leads M i h r \<Longrightarrow> follower_ok h i (r_term r) v p \<Longrightarrow> pr_match p \<le> length (h_log h i)"
  using acked_length [of M i h r "pr_match p" v] by (simp add: follower_ok_def)

lemma follower_probe_replicate:
  assumes l: "leads M i h r" and p: "follower_ok h i (r_term r) v p"
  shows "follower_ok h i (r_term r) v (progress_become_probe p)"
    "follower_ok h i (r_term r) v (progress_become_replicate p)"
  using p follower_ok_match [OF l p] leadsD(10) [OF l]
  by (auto simp: follower_ok_def progress_defs Let_def u64 max_def)

lemma follower_update:
  assumes l: "leads M i h r" and p: "follower_ok h i (r_term r) v p" and n: "n \<le> h_acked h v (r_term r)"
    and u: "progress_maybe_update p n = (b, p')"
  shows "follower_ok h i (r_term r) v p'"
  using p n acked_length [OF l n] leadsD(10) [OF l] u
  by (auto simp: follower_ok_def progress_defs Let_def u64 split: if_splits)

lemma follower_decreases:
  assumes l: "leads M i h r" and p: "follower_ok h i (r_term r) v p"
    and u: "progress_maybe_decreases_to p rej hint = (b, p')"
  shows "follower_ok h i (r_term r) v p'"
  using p follower_ok_match [OF l p] leadsD(10) [OF l] u
  by (auto simp: follower_ok_def progress_defs Let_def u64 min_def split: if_splits)

lemma follower_ok_fields [simp]:
  "follower_ok h i t v (p\<lparr>pr_recent_active := a\<rparr>) = follower_ok h i t v p"
  "follower_ok h i t v (p\<lparr>pr_inflights := w\<rparr>) = follower_ok h i t v p"
  "follower_ok h i t v (p\<lparr>pr_is_learner := b\<rparr>) = follower_ok h i t v p"
  "follower_ok h i t v (progress_set_pause p) = follower_ok h i t v p"
  "follower_ok h i t v (progress_resume p) = follower_ok h i t v p"
  by (simp_all add: follower_ok_def progress_defs)

section \<open>Sending\<close>

lemma plain_new: "plain_type t \<Longrightarrow> plain_type (m_type (new_message\<lparr>m_to := a, m_type := t, m_index := b,
    m_log_term := c, m_entries := d, m_commit := e\<rparr>))"
  by simp

lemma send_entries_leads:
  assumes l: "leads M i h r" and pr: "get_progress r to = Some pr"
    and es: "es = take n (drop (pr_next pr - 1) (h_log h i))" "t = term_in (h_log h i) (pr_next pr - 1)"
    and s: "send_entries r to pr t es = Some r'"
  shows "leads M i h r'"
proof -
  let ?X = "h_log h i" and ?k = "pr_next pr"
  have p: "follower_ok h i (r_term r) to pr" by (rule leadsD(6) [OF l pr])
  have k: "0 < ?k" "?k \<le> length ?X + 1" "?k < W64"
    using p leadsD(10) [OF l] by (auto simp: follower_ok_def)
  define m where "m = new_message\<lparr>m_to := to, m_type := MsgApp, m_index := sub64 ?k 1,
               m_log_term := t, m_entries := es, m_commit := l_committed (r_log r)\<rparr>"
  have last: "e_index (last es) \<le> length ?X" if "es \<noteq> []"
  proof -
    have "consec 1 ?X"
      using okayD(1,2) [OF leadsD(1) [OF l]] by (intro rooted_consec) (auto dest: node_okD(5))
    then have "consec (1 + (?k - 1)) es" using es(1) consec_take consec_drop by metis
    then have "e_index (last es) = ?k + length es - 1" using consec_last [OF _ that] k(1) by simp
    moreover have "length es \<le> length ?X - (?k - 1)" using es(1) by simp
    ultimately show ?thesis using k by simp
  qed
  obtain pr' where send: "raft_send (put_progress r to pr') m = Some r'"
    and pr': "pr' = pr \<or> es \<noteq> [] \<and> (pr' = progress_set_pause pr \<or>
        (\<exists>w. pr' = (progress_optimistic_update pr (e_index (last es)))\<lparr>pr_inflights := w\<rparr>))"
    using s unfolding send_entries_def m_def [symmetric] Let_def
    by (fastforce split: if_splits Option.bind_splits progress_state.splits)
  have "follower_ok h i (r_term r) to pr'"
    using pr' p last leadsD(10) [OF l]
    by (auto simp: follower_ok_def progress_set_pause_def progress_optimistic_update_def u64)
  then have l': "leads M i h (put_progress r to pr')" by (intro leads_put [OF l]) (simp_all add: pr)
  show ?thesis
  proof (rule leads_send [OF l' send])
    have "offered M h (m\<lparr>m_from := i, m_term := r_term r\<rparr>)"
      unfolding offered_def m_def using leadsD(4,9) [OF l] k es
      by (auto simp: u64)
    then show "msg_ok M h (m\<lparr>m_from := i, m_term := r_term (put_progress r to pr')\<rparr>)"
      by (simp add: msg_ok_def) (simp add: m_def)
  qed (simp add: m_def)
qed

lemma send_snapshot_leads:
  assumes l: "leads M i h r" and pr: "get_progress r to = Some pr"
    and s: "send_snapshot r to pr = Some (b, r')"
  shows "leads M i h r'"
proof (cases "pr_recent_active pr")
  case True
  let ?s = "log_snapshot (r_log r)" and ?X = "h_log h i"
  define m where "m = new_message\<lparr>m_to := to, m_type := MsgSnap, m_snapshot := ?s\<rparr>"
  have ne: "\<not> snapshot_is_empty ?s"
    and send: "raft_send (put_progress r to (progress_become_snapshot pr (s_index ?s))) m = Some r'"
    using s True unfolding send_snapshot_def m_def [symmetric] Let_def
    by (auto split: if_splits Option.bind_splits)
  have g: "log_good ?X (r_log r)" using okay_log [OF leadsD(1) [OF l]] by simp
  have si: "s_index ?s \<le> l_committed (r_log r)" "s_term ?s = term_in ?X (s_index ?s)"
    using log_good_snapshot [OF g] ne by (auto simp: snap_in_def)
  have c: "covered M h (r_term r) ?X (s_index ?s)" by (rule covered_less [OF leadsD(9) [OF l] si(1)])
  have "follower_ok h i (r_term r) to (progress_become_snapshot pr (s_index ?s))"
    using leadsD(6) [OF l pr] covered_length [OF c] by (auto simp: follower_ok_def progress_defs)
  then have l': "leads M i h (put_progress r to (progress_become_snapshot pr (s_index ?s)))"
    by (intro leads_put [OF l]) (simp_all add: pr)
  show ?thesis
  proof (rule leads_send [OF l' send])
    have "carried M h (m\<lparr>m_from := i, m_term := r_term r\<rparr>)"
      using leadsD(4) [OF l] si ne c by (simp add: carried_def m_def snapshot_is_empty_def)
    then show "msg_ok M h (m\<lparr>m_from := i,
        m_term := r_term (put_progress r to (progress_become_snapshot pr (s_index ?s)))\<rparr>)"
      by (simp add: msg_ok_def) (simp add: m_def)
  qed (simp add: m_def)
qed (use s l in \<open>simp add: send_snapshot_def\<close>)

lemma maybe_send_append_leads:
  assumes l: "leads M i h r" and s: "maybe_send_append r to b = Some (c, r')"
  shows "leads M i h r'"
proof -
  obtain pr where pr: "get_progress r to = Some pr"
    using s by (auto simp: maybe_send_append_def split: Option.bind_splits)
  let ?k = "pr_next pr" and ?X = "h_log h i"
  have k: "0 < ?k" "?k \<le> length ?X + 1"
    using leadsD(6) [OF l pr] by (auto simp: follower_ok_def)
  note X = leadsD(7) [OF l]
  consider "r' = r" | "send_snapshot r to pr = Some (c, r')"
    | t es where "log_term (r_log r) (sub64 ?k 1) = Some (Inr t)"
        "log_entries (r_log r) ?k (r_max_msg_size r) = Some (Inr es)" "send_entries r to pr t es = Some r'"
    using s pr by (auto simp: maybe_send_append_def Let_def split: if_splits Option.bind_splits sum.splits)
  then show ?thesis
  proof cases
    case (3 t es)
    obtain n where b: "log_base (r_log r) < ?k" and es: "es = take n (drop (?k - 1) ?X)"
      using log_of_entries [OF X k 3(2)] by blast
    have "log_term (r_log r) (?k - 1) = Some (Inr (term_in ?X (?k - 1)))"
      by (rule log_of_term [OF X]) (use b k in auto)
    then have "t = term_in ?X (?k - 1)" using 3(1) k(1) by (simp add: u64)
    then show ?thesis by (rule send_entries_leads [OF l pr es _ 3(3)])
  qed (use l send_snapshot_leads [OF l pr] in auto)
qed

lemma send_append_leads: "leads M i h r \<Longrightarrow> send_append r to = Some r' \<Longrightarrow> leads M i h r'"
  by (auto simp: send_append_def split: Option.bind_splits dest: maybe_send_append_leads)

lemma send_all_keeps:
  assumes "send_all r to = Some r'"
  shows "leads M i h r \<longrightarrow> leads M i h r'"
proof (rule send_all.raw_induct [where P = "\<lambda>r to r'. leads M i h r \<longrightarrow> leads M i h r'", OF _ assms], rule impI)
  fix loop r to r'
  assume IH: "\<And>r to r'. loop r to = Some r' \<Longrightarrow> leads M i h r \<longrightarrow> leads M i h r'" and l: "leads M i h r"
    and s: "maybe_send_append r to False \<bind> (\<lambda>(sent, r1). if sent then loop r1 to else Some r1) = Some r'"
  then obtain c r1 where r1: "maybe_send_append r to False = Some (c, r1)"
      "(if c then loop r1 to else Some r1) = Some r'"
    by (auto split: Option.bind_splits)
  then show "leads M i h r'" using IH maybe_send_append_leads [OF l r1(1)] by (cases c) simp_all
qed

lemma send_all_leads: "leads M i h r \<Longrightarrow> send_all r to = Some r' \<Longrightarrow> leads M i h r'"
  using send_all_keeps by blast

lemma send_heartbeat_leads:
  assumes l: "leads M i h r" and s: "send_heartbeat to ctx r = Some r'"
  shows "leads M i h r'"
proof -
  obtain pr where pr: "get_progress r to = Some pr"
      and send: "raft_send r (new_message\<lparr>m_to := to, m_type := MsgHeartbeat,
        m_commit := min (pr_match pr) (l_committed (r_log r)), m_context := ctx\<rparr>) = Some r'"
    using s by (auto simp: send_heartbeat_def split: Option.bind_splits)
  have "pr_match pr \<le> h_acked h to (r_term r)" using leadsD(6) [OF l pr] by (simp add: follower_ok_def)
  then show ?thesis
    using leadsD(4) [OF l] covered_less [OF leadsD(9) [OF l]]
    by (intro leads_send [OF l send]) (auto simp: msg_ok_def beaten_def)
qed

lemma each_keeps:
  assumes "each f xs s = Some t" "I s" "\<And>x a b. f x a = Some b \<Longrightarrow> I a \<Longrightarrow> I b"
  shows "I t"
proof -
  have "I s \<longrightarrow> I t" by (rule each_rel [OF assms(1), where R = "\<lambda>a b. I a \<longrightarrow> I b"]) (use assms(3) in auto)
  then show ?thesis using assms(2) by simp
qed

lemma bcast_append_leads: "leads M i h r \<Longrightarrow> bcast_append r = Some r' \<Longrightarrow> leads M i h r'"
  unfolding bcast_append_def
  by (erule each_keeps [where I = "leads M i h"]) (auto split: if_splits intro: send_append_leads)

lemma bcast_heartbeat_with_ctx_leads:
  "leads M i h r \<Longrightarrow> bcast_heartbeat_with_ctx r ctx = Some r' \<Longrightarrow> leads M i h r'"
  unfolding bcast_heartbeat_with_ctx_def
  by (erule each_keeps [where I = "leads M i h"]) (auto split: if_splits intro: send_heartbeat_leads)

lemma send_timeout_now_leads: "leads M i h r \<Longrightarrow> send_timeout_now r to = Some r' \<Longrightarrow> leads M i h r'"
  unfolding send_timeout_now_def by (rule leads_send) (assumption | simp add: msg_ok_def)+

lemmas leader_sends = send_append_leads send_all_leads bcast_append_leads bcast_heartbeat_with_ctx_leads
  send_timeout_now_leads

section \<open>The commit rule\<close>

text \<open>A change of the log that keeps what it stands for, and moves the commit index.\<close>

lemma okay_commit:
  assumes ok: "okay M i h r" and l: "log_good (h_log h i) l"
    and c: "covered M h (r_term r) (h_log h i) (l_committed l)"
  shows "okay M i h (r\<lparr>r_log := l\<rparr>)"
proof -
  note d = node_okD [OF okayD(2) [OF ok]]
  let ?r = "r\<lparr>r_log := l\<rparr>"
  have "cand_ok M (h_votes h) ?r" using d(3) cand_ok_cong [of ?r r M "h_votes h"] by simp
  moreover have "acks_kept h i ?r" by (rule acks_kept_later [OF d(7)]) auto
  moreover have "get_progress ?r = get_progress r" by (rule get_progress_cong) simp_all
  ultimately have "node_ok M h i ?r"
    using d l c by (simp add: node_ok_def votes_kept_def candidate_ok_def leader_ok_def followers_ok_def)
  then show ?thesis using ok by (simp add: okay_def)
qed

lemma log_good_commit:
  assumes g: "log_good X l" and c: "log_commit_to l n = Some l'"
  shows "log_good X l' \<and> l_committed l' = max (l_committed l) n"
proof -
  note o = log_of_commit [OF log_goodD(1) [OF g] c]
  show ?thesis by (rule conjI [OF log_good_change [OF g, of X l']]) (use o in \<open>auto simp: same_snap_def\<close>)
qed

lemma raft_maybe_commit_leads:
  assumes l: "leads M i h r" and mc: "raft_maybe_commit r = Some (b, r')"
  shows "leads M i h r'"
proof -
  note o = leadsD(1) [OF l]
  note d = node_okD [OF okayD(2) [OF o]]
  have M: "distinct (map fst (r_prs r))" "voters r = M" "finite M" "card M < W32" "M \<noteq> {}"
    using d(3) unfolding cand_ok_def voters_def by blast+
  then have ne: "r_prs r \<noteq> []" "length (r_prs r) < W32" using voters_card [OF M(1)] by (auto simp: voters_def)
  obtain n where n: "card (voters r) < 2 * card (replicas r n)"
      and eq: "raft_maybe_commit r =
      (if l_committed (r_log r) < n \<and> n \<le> log_end (r_log r) \<and>
          log_term (r_log r) n = Some (Inr (r_term r))
       then Some (True, r\<lparr>r_log := (r_log r)\<lparr>l_committed := n\<rparr>\<rparr>) else Some (False, r))"
    using raft_maybe_commit_spec [OF log_ofD(1) [OF leadsD(7) [OF l]] M(1) ne] d(2) by auto
  show ?thesis
  proof (cases "b")
    case False
    then show ?thesis using mc eq l by (auto split: if_splits)
  next
    case True
    then have r': "r' = r\<lparr>r_log := (r_log r)\<lparr>l_committed := n\<rparr>\<rparr>" and c: "l_committed (r_log r) < n"
        "n \<le> log_end (r_log r)" "log_term (r_log r) n = Some (Inr (r_term r))"
      using mc eq by (auto split: if_splits)
    let ?X = "h_log h i" and ?l = "(r_log r)\<lparr>l_committed := n\<rparr>"
    note X = leadsD(7) [OF l]
    have nX: "n \<le> length ?X" using c(2) log_ofD(6) [OF X] by simp
    have "log_base (r_log r) \<le> n" using log_ofD(8) [OF X] c(1) by simp
    then have t: "term_in ?X n = r_term r" using log_of_term [OF X _ nX] c(3) by simp
    have sub: "replicas r n \<subseteq> {j \<in> M. n \<le> h_acked h j (r_term r)}"
    proof
      fix v assume "v \<in> replicas r n"
      then obtain p where p: "map_of (r_prs r) v = Some p" "n \<le> pr_match p" by (auto simp: replicas_def)
      have "v \<in> voters r" unfolding voters_def by (rule map_of_some_in [OF p(1)])
      moreover have "follower_ok h i (r_term r) v p"
        by (rule leadsD(6) [OF l]) (simp add: get_progress_def p(1))
      ultimately show "v \<in> {j \<in> M. n \<le> h_acked h j (r_term r)}"
        using p(2) M(2) by (auto simp: follower_ok_def)
    qed
    have "majority M (replicas r n)"
      unfolding majority_def using n M(2,3) sub by auto
    then have "majority M {j \<in> M. n \<le> h_acked h j (r_term r)}"
      using sub by (rule majority_mono) simp
    then have "chosen M h (r_term r) n"
      unfolding chosen_def using leadsD(4) [OF l] c(1) nX t by simp
    then have cov: "covered M h (r_term r) ?X n"
      unfolding covered_def using leadsD(4) [OF l] nX by (intro disjI2 exI [of _ "r_term r"] exI [of _ n]) auto
    have g: "log_good ?X (r_log r)" using okay_log [OF o] by simp
    have "log_of ?X ?l" using X c(1) nX log_ofD(8) [OF X] by (auto simp: log_of_def log_ok_def)
    then have "log_good ?X ?l" by (intro log_good_change [OF g]) (use c(1) in auto)
    then have "okay M i h r'" unfolding r' by (rule okay_commit [OF o]) (simp add: cov)
    then show ?thesis using leadsD(2) [OF l] by (simp add: leads_def r')
  qed
qed

end
