(* ===== verification/Replica_Follow.thy ===== *)
theory Replica_Follow
  imports Replica_Send
begin

text \<open>
  Followers: taking over a prefix of the leader's log, moving the commit index, installing a
  snapshot, and voting.
\<close>

section \<open>Answers\<close>

lemma okay_says:
  assumes ok: "okay M i h r" and q: "unmoved r r'" and p: "r_prs r' = r_prs r" "r_learner_prs r' = r_learner_prs r"
    and ms: "\<And>m. m \<in> set (r_msgs r') \<Longrightarrow> m \<notin> set (r_msgs r) \<Longrightarrow> msg_ok M h m"
  shows "okay M i h r'"
proof (rule okay_unmoved [OF ok q ms])
  assume "r_state r = Leader"
  then have "followers_ok h i r" using node_okD(11) [OF okayD(2) [OF ok]] by (simp add: leader_ok_def)
  moreover have "get_progress r' = get_progress r" by (rule get_progress_cong [OF p])
  moreover have "r_term r' = r_term r" using q by (simp add: unmoved_def)
  ultimately show "followers_ok h i r'" by (simp add: followers_ok_def)
qed

lemma okay_reply:
  assumes ok: "okay M i h r" and s: "raft_send r m = Some r'"
    and p: "plain_type (m_type m)" and m: "msg_ok M h (m\<lparr>m_from := i, m_term := r_term r\<rparr>)"
  shows "okay M i h r'"
proof -
  have id: "r_id r = i" by (rule node_okD(1) [OF okayD(2) [OF ok]])
  have r': "r' = r\<lparr>r_msgs := r_msgs r @ [m\<lparr>m_from := r_id r, m_term := r_term r\<rparr>]\<rparr>"
    by (rule raft_send_eq [OF s p])
  show ?thesis
    by (rule okay_says [OF ok]) (use m id in \<open>auto simp: unmoved_def r'\<close>)
qed

lemma okay_heard:
  assumes "okay M i h r" "m_from m \<noteq> 0"
  shows "okay M i h (heard_from r m)"
  by (rule okay_says [OF assms(1)]) (use assms(2) in \<open>auto simp: unmoved_def heard_from_def\<close>)

lemma not_later: "s \<le> t \<Longrightarrow> \<not> began_without h t k s"
  by (simp add: began_without_def)

lemma okay_votes_term:
  assumes "okay M i h r" "(i, c, s) \<in> h_votes h"
  shows "s \<le> r_term r"
  using node_okD(8) [OF okayD(2) [OF assms(1)]] assms(2) by (auto simp: votes_kept_def)

section \<open>Taking over a prefix of the leader's log\<close>

text \<open>What an acknowledgement says of the log when the node has taken over \<open>e\<close> entries.\<close>

lemma acks_kept_follow:
  assumes ok: "okay M i h r" and x: "h_lead_log h (r_term r) = Some x" "e \<le> length x"
    and lead: "r_lead r \<noteq> 0"
  defines "h' \<equiv> add_ack h i (r_term r) e (follow e x (h_log h i))"
  shows "acks_kept h' i r"
  unfolding acks_kept_def
proof (intro allI impI)
  let ?X = "h_log h i" and ?T = "r_term r"
  let ?Y = "follow e x ?X"
  have h: "history_ok M h" and a: "acks_kept h i r"
    using okayD(1) [OF ok] node_okD(7) [OF okayD(2) [OF ok]] .
  have g: "grown i h h'" unfolding h'_def by (rule add_ack_grown)
  have eq: "h_lead_log h' = h_lead_log h" "h_log h' i = ?Y"
      "h_acked h' i = (h_acked h i)(?T := max (h_acked h i ?T) e)"
    by (simp_all add: h'_def add_ack_def)
  fix t k assume k: "0 < k" "k \<le> h_acked h' i t"
  show "t \<le> ?T \<and> (take k (h_log h' i) = take k (the (h_lead_log h' t)) \<or> passed_over h' t k r)"
  proof (cases "t = ?T")
    case True
    have "take k ?Y = take k x"
    proof (cases "k \<le> e")
      case True
      then show ?thesis using take_eq_le [OF follow_prefix [OF x(2)] True] by simp
    next
      case False
      then have ka: "k \<le> h_acked h i ?T" using k(2) \<open>t = ?T\<close> by (simp add: eq)
      have "\<not> passed_over h ?T k r" using not_later by (auto simp: passed_over_def)
      then have "take k ?X = take k x" using acks_keptD(2) [OF a k(1) ka] x(1) by simp
      then show ?thesis using False take_eq_le [of k ?X x e] by (simp add: follow_def)
    qed
    then show ?thesis using True x(1) by (simp add: eq)
  next
    case False
    then have ka: "k \<le> h_acked h i t" using k(2) by (simp add: eq)
    obtain z where z: "h_lead_log h t = Some z" "k \<le> length z"
      using history_okD(9) [OF h, of i t] k(1) ka by auto
    note old = acks_keptD [OF a k(1) ka]
    have "take k ?Y = take k z \<or> passed_over h' t k r"
    proof (cases "take k ?X = take k z")
      case False
      then have "passed_over h t k r" using old(2) z(1) by simp
      then show ?thesis using passed_over_grown [OF g h z] by blast
    next
      case kz: True
      show ?thesis
      proof (cases "?Y = ?X \<or> k \<le> e \<and> take k x = take k ?X")
        case True
        then show ?thesis using kz take_eq_le [OF follow_prefix [OF x(2)], of k ?X] by auto
      next
        case False
        then have ne: "take e ?X \<noteq> take e x" by (auto simp: follow_def)
        let ?C = "h_cand_log h (h_winner h ?T) ?T"
        have t: "t < ?T" using old(1) \<open>t \<noteq> ?T\<close> by simp
        have "take k ?C \<noteq> take k z"
        proof
          assume C: "take k ?C = take k z"
          have "elected M h ?T x" using history_okD(4) [OF h x(1)] t lead_log_pos [OF h z(1)] by simp
          then have p: "take (length ?C) x = ?C" by (simp add: elected_def Let_def)
          have "k \<le> length ?C" by (rule take_eq_length [OF C [symmetric] z(2)])
          then have kx: "take k x = take k ?X" using take_of_take [OF p, of k] C kz by simp
          then have "e \<le> k" using False by auto
          then show False using take_eq_le [OF kx] ne by metis
        qed
        then have "began_without h t k ?T" using t x(1) z(1) by (simp add: began_without_def)
        then have "passed_over h t k r" using lead unfolding passed_over_def by blast
        then show ?thesis using passed_over_grown [OF g h z] by blast
      qed
    qed
    then show ?thesis using old(1) z(1) by (simp add: eq)
  qed
qed

lemma okay_follow:
  assumes ok: "okay M i h r" and st: "r_state r = Follower" and x: "h_lead_log h (r_term r) = Some x" "e \<le> length x"
    and lead: "r_lead r \<noteq> 0" and l: "log_good (follow e x (h_log h i)) l"
    and c: "covered M h (r_term r) (follow e x (h_log h i)) (l_committed l)"
  shows "\<exists>h'. grown i h h' \<and> okay M i h' (r\<lparr>r_log := l\<rparr>) \<and> e \<le> h_acked h' i (r_term r)"
proof (intro exI conjI)
  let ?X = "h_log h i" and ?T = "r_term r" and ?r = "r\<lparr>r_log := l\<rparr>"
  let ?Y = "follow e x ?X"
  let ?h = "add_ack h i ?T e ?Y"
  have h: "history_ok M h" by (rule okayD(1) [OF ok])
  note d = node_okD [OF okayD(2) [OF ok]]
  show g: "grown i h ?h" by (rule add_ack_grown)
  have eq: "h_log ?h i = ?Y" "h_votes ?h = h_votes h" by (simp_all add: add_ack_def)
  have h': "history_ok M ?h" by (rule add_ack_ok [OF h x]) (rule okay_votes_term [OF ok])
  have lx: "lead_log_ok h ?T x" by (rule history_okD(3) [OF h x(1)])
  have "acks_kept ?h i ?r"
    by (rule acks_kept_later [OF acks_kept_follow [OF ok x lead]]) auto
  moreover have "cand_ok M (h_votes ?h) ?r" using d(3) cand_ok_cong [of ?r r M "h_votes h"] eq by simp
  moreover have "votes_kept ?h i ?r" using d(8) by (simp add: votes_kept_def eq)
  moreover have "rooted ?h ?Y" "terms_upto ?T ?Y"
    using follow_rooted [OF d(5)] follow_terms [OF d(6)] rooted_grown [OF g] lx by (auto simp: lead_log_ok_def)
  moreover have "covered M ?h ?T ?Y (l_committed l)" by (rule covered_grown [OF g c])
  ultimately have "node_ok M ?h i ?r"
    using d(1,2,12) l st by (simp add: node_ok_def eq)
  then show "okay M i ?h ?r"
    using h' msg_ok_grown [OF g] okayD(3) [OF ok] by (simp add: okay_def)
  show "e \<le> h_acked ?h i ?T" by (simp add: add_ack_def)
qed

lemma leader_committed:
  assumes ok: "okay M i h r" and x: "h_lead_log h (r_term r) = Some x"
  shows "take (l_committed (r_log r)) (h_log h i) = take (l_committed (r_log r)) x \<and>
    l_committed (r_log r) \<le> length x"
  using covered_lead [OF okayD(1) [OF ok] node_okD(9) [OF okayD(2) [OF ok]] x] by simp

lemma covered_max: "covered M h T X a \<Longrightarrow> covered M h T X b \<Longrightarrow> covered M h T X (max a b)"
  by (simp add: max_def)

lemma handle_append_entries_okay:
  assumes ok: "okay M i h r" and st: "r_state r = Follower" and lead: "r_lead r \<noteq> 0"
    and m: "offered M h m" "m_term m = r_term r" and a: "handle_append_entries r m = Some r'"
  shows "goes_on M i h r'"
proof -
  let ?X = "h_log h i" and ?c = "l_committed (r_log r)"
  obtain x n where x: "h_lead_log h (r_term r) = Some x" "m_index m \<le> length x"
      "m_log_term m = term_in x (m_index m)" "m_entries m = take n (drop (m_index m) x)"
      "covered M h (r_term r) x (m_commit m)"
    using m by (auto simp: offered_def)
  have h: "history_ok M h" by (rule okayD(1) [OF ok])
  note d = node_okD [OF okayD(2) [OF ok]]
  have cx: "take ?c ?X = take ?c x" "?c \<le> length x" using leader_committed [OF ok x(1)] by auto
  have lx: "rooted h x" "length x + 1 < W64" using history_okD(3) [OF h x(1)] by (simp_all add: lead_log_ok_def)
  have reply: "okay M i h' r2"
    if "okay M i h' r1" "r_state r1 = Follower" "r_term r1 = r_term r" "e \<le> h_acked h' i (r_term r)"
      "raft_send r1 (new_message\<lparr>m_to := m_from m, m_type := MsgAppResp, m_index := e\<rparr>) = Some r2"
    for h' r1 r2 e
    by (rule okay_reply [OF that(1,5)]) (use that(2-4) in \<open>simp_all add: msg_ok_def\<close>)
  show ?thesis
  proof (cases "m_index m < ?c")
    case True
    have "follow ?c x ?X = ?X" using cx(1) by (simp add: follow_def)
    then obtain h' where h': "grown i h h'" "okay M i h' (r\<lparr>r_log := r_log r\<rparr>)" "?c \<le> h_acked h' i (r_term r)"
      using okay_follow [OF ok st x(1) cx(2) lead, of "r_log r"] d(4,9) by auto
    have "okay M i h' r'" using a True h'(2,3) st by (intro reply [of h' r ?c r']) (simp_all add: handle_append_entries_def)
    then show ?thesis using h'(1) unfolding goes_on_def by blast
  next
    case False
    obtain res l where l: "log_maybe_append (r_log r) (m_index m) (m_log_term m) (m_commit m) (m_entries m) = Some (res, l)"
      using a False by (auto simp: handle_append_entries_def split: Option.bind_splits)
    let ?e = "m_index m + length (m_entries m)"
    have X: "log_of ?X (r_log r)" using okay_log [OF ok] by simp
    have ci: "?c \<le> m_index m" using False by simp
    consider (reject) "res = None" "l = r_log r" | (accept) "res = Some ?e" "log_of (follow ?e x ?X) l"
        "l_committed l = max ?c (min (m_commit m) ?e)" "l_applied l = l_applied (r_log r)" "same_snap (r_log r) l"
      using log_of_maybe_append [OF h d(5) lx(1) X x(4,2,3) lx(2) ci l] by blast
    then show ?thesis
    proof cases
      case reject
      then obtain hint where "raft_send r (new_message\<lparr>m_to := m_from m, m_type := MsgAppResp, m_index := m_index m,
          m_reject := True, m_reject_hint := hint\<rparr>) = Some r'"
        using a False l by (auto simp: handle_append_entries_def Let_def split: Option.bind_splits)
      then have "okay M i h r'" by (rule okay_reply [OF ok]) (use st in \<open>simp_all add: msg_ok_def\<close>)
      then show ?thesis by (rule goes_onI)
    next
      case accept
      have e: "?e \<le> length x" using x(2,4) by simp
      have s: "take ?c (follow ?e x ?X) = take ?c ?X" by (rule follow_same [OF cx(1)]) (use ci in simp)
      have off: "consec (m_index m + 1) (m_entries m)"
        using consec_take [OF consec_drop [OF rooted_consec [OF h lx(1)], of "m_index m"], of n] x(4)
        by (simp add: add.commute)
      have "log_good (follow ?e x ?X) l"
        by (rule log_good_change [OF _ accept(2) s accept(5) _ accept(4)
              log_maybe_append_offset [OF l off]]) (use d(4) accept(3) e lx(2) in auto)
      moreover have "covered M h (r_term r) (follow ?e x ?X) (l_committed l)"
        unfolding accept(3)
      proof (rule covered_max)
        show "covered M h (r_term r) (follow ?e x ?X) ?c" by (rule covered_prefix [OF d(9) s [symmetric]])
        have "take (min (m_commit m) ?e) (follow ?e x ?X) = take (min (m_commit m) ?e) x"
          by (rule take_eq_le [OF follow_prefix [OF e]]) simp
        then show "covered M h (r_term r) (follow ?e x ?X) (min (m_commit m) ?e)"
          by (intro covered_prefix [OF covered_less [OF x(5)]]) auto
      qed
      ultimately obtain h' where h': "grown i h h'" "okay M i h' (r\<lparr>r_log := l\<rparr>)" "?e \<le> h_acked h' i (r_term r)"
        using okay_follow [OF ok st x(1) e lead] by blast
      have "okay M i h' r'" using a False l accept(1) h'(2,3) st
        by (intro reply [of h' "r\<lparr>r_log := l\<rparr>" ?e r']) (simp_all add: handle_append_entries_def)
      then show ?thesis using h'(1) unfolding goes_on_def by blast
    qed
  qed
qed

lemma okay_advance:
  assumes ok: "okay M i h r" and x: "h_lead_log h (r_term r) = Some x" "covered M h (r_term r) x n"
    and X: "take n (h_log h i) = take n x" and l: "log_commit_to (r_log r) n = Some l"
  shows "okay M i h (r\<lparr>r_log := l\<rparr>)"
proof (rule okay_commit [OF ok])
  note g = log_good_commit [OF node_okD(4) [OF okayD(2) [OF ok]] l]
  show "log_good (h_log h i) l" using g by simp
  have "covered M h (r_term r) (h_log h i) n" by (rule covered_prefix [OF x(2) X [symmetric]])
  then show "covered M h (r_term r) (h_log h i) (l_committed l)"
    using g node_okD(9) [OF okayD(2) [OF ok]] covered_max by metis
qed

lemma handle_heartbeat_okay:
  assumes ok: "okay M i h r" and st: "r_state r = Follower"
    and m: "beaten M h m" "m_term m = r_term r" "m_to m = i" and a: "handle_heartbeat r m = Some r'"
  shows "okay M i h r'"
proof -
  obtain x where x: "h_lead_log h (r_term r) = Some x" "covered M h (r_term r) x (m_commit m)"
      "m_commit m \<le> h_acked h i (r_term r)"
    using m by (auto simp: beaten_def)
  obtain l where l: "log_commit_to (r_log r) (m_commit m) = Some l"
    and s: "raft_send (r\<lparr>r_log := l\<rparr>) (new_message\<lparr>m_to := m_from m, m_type := MsgHeartbeatResp\<rparr>) = Some r'"
    using a by (auto simp: handle_heartbeat_def split: Option.bind_splits)
  have "take (m_commit m) (h_log h i) = take (m_commit m) x"
  proof (cases "m_commit m = 0")
    case False
    have "\<not> passed_over h (r_term r) (m_commit m) r" using not_later by (auto simp: passed_over_def)
    then show ?thesis
      using acks_keptD(2) [OF node_okD(7) [OF okayD(2) [OF ok]] _ x(3)] False x(1) by simp
  qed simp
  from okay_advance [OF ok x(1,2) this l] s show ?thesis
    by (rule okay_reply) (use st in \<open>simp_all add: msg_ok_def\<close>)
qed

section \<open>Snapshots\<close>

lemma okay_members:
  assumes ok: "okay M i h r" and st: "r_state r = Follower" and c: "cand_ok M (h_votes h) r'"
    and r': "r' = r\<lparr>r_is_learner := il, r_prs := ps, r_learner_prs := ls\<rparr>"
  shows "okay M i h r'"
proof -
  have n: "node_ok M h i r" by (rule okayD(2) [OF ok])
  have "node_ok M h i r'"
    by (rule node_ok_change [OF n]) (use c st node_okD(8,12) [OF n] in \<open>auto simp: r' votes_kept_def\<close>)
  then show ?thesis using ok by (simp add: okay_def r')
qed

lemma raft_restore_okay:
  assumes ok: "okay M i h r" and st: "r_state r = Follower" and lead: "r_lead r \<noteq> 0"
    and m: "h_lead_log h (r_term r) = Some x" "0 < s_index s" "s_term s = term_in x (s_index s)"
      "covered M h (r_term r) x (s_index s)" and conf: "snap_conf M s"
    and a: "raft_restore r s = Some (b, r')"
  shows "goes_on M i h r' \<and> r_state r' = Follower \<and> r_term r' = r_term r"
proof -
  let ?X = "h_log h i" and ?c = "l_committed (r_log r)" and ?s = "s_index s"
  have h: "history_ok M h" by (rule okayD(1) [OF ok])
  note d = node_okD [OF okayD(2) [OF ok]]
  have X: "log_of ?X (r_log r)" using okay_log [OF ok] by simp
  have cx: "take ?c ?X = take ?c x" using leader_committed [OF ok m(1)] by simp
  have lx: "rooted h x" "length x + 1 < W64" using history_okD(3) [OF h m(1)] by (simp_all add: lead_log_ok_def)
  have sx: "?s \<le> length x" by (rule covered_length [OF m(4)])
  have match: "log_match_term (r_log r) ?s (s_term s) = Some (take ?s ?X = take ?s x)" if "?c < ?s"
  proof -
    have "log_base (r_log r) \<le> ?s" using log_ofD(8) [OF X] that by simp
    moreover have "x ! (?s - 1) \<in> set x" using m(2) sx by simp
    then have "s_term s \<noteq> 0" using rooted_term_pos [OF h lx(1)] m(2,3) by (simp add: term_in_def)
    moreover have "?s \<le> length ?X \<and> s_term s = term_in ?X ?s \<longleftrightarrow> take ?s ?X = take ?s x"
    proof
      show "?s \<le> length ?X \<and> s_term s = term_in ?X ?s \<Longrightarrow> take ?s ?X = take ?s x"
        using logs_match [OF d(5) lx(1) _ sx] m(3) by simp
      assume t: "take ?s ?X = take ?s x"
      show "?s \<le> length ?X \<and> s_term s = term_in ?X ?s"
        using take_eq_length [OF t [symmetric] sx] term_in_prefix [OF t] m(3) by simp
    qed
    ultimately show ?thesis using log_of_match [OF X, of ?s "s_term s"] by simp
  qed
  from a show ?thesis
  proof (cases rule: raft_restore_cases)
    case (kept l)
    have "r' = r \<or> ?c < ?s \<and> take ?s ?X = take ?s x \<and>
        (\<exists>l. log_commit_to (r_log r) ?s = Some l \<and> r' = r\<lparr>r_log := l\<rparr>)"
      using a kept(3) match
      by (auto simp: raft_restore_def Let_def split: if_splits Option.bind_splits)
    then have "okay M i h r'" using ok okay_advance [OF ok m(1,4)] by auto
    then show ?thesis using goes_onI kept(2) st by simp
  next
    case (restored r2)
    have c: "?c < ?s" by (rule restored(2))
    have ne: "take ?s ?X \<noteq> take ?s x"
      using a restored(1) c match [OF c]
      by (auto simp: raft_restore_def split: if_splits Option.bind_splits)
    let ?l = "log_restore (r_log r) s"
    have Y: "follow ?s x ?X = take ?s x" using ne by (simp add: follow_def)
    have lY: "log_of (take ?s x) ?l" by (rule log_of_restore [OF X sx m(3) lx(2)])
    have tc: "take ?c (take ?s x) = take ?c ?X" using c cx by simp
    have "snap_in ?X ?c (ms_snapshot (l_storage (r_log r)))" by (rule log_goodD(4) [OF d(4)])
    then have old: "s_index (ms_snapshot (l_storage (r_log r))) \<le> ?c"
      by (auto simp: snap_in_def snapshot_is_empty_def)
    have w: "add64 ?s 1 = ?s + 1" using sx lx(2) by (simp add: u64)
    have good: "log_good (follow ?s x ?X) ?l"
      unfolding log_good_def Y
      using lY snap_in_later [OF log_goodD(4) [OF d(4)] less_imp_le [OF c] tc] log_goodD(2) [OF d(4)] c old w
      by (auto simp: log_restore_def unstable_restore_def)
    have "covered M h (r_term r) (follow ?s x ?X) (l_committed ?l)"
      unfolding Y log_restore_def using covered_prefix [OF m(4), of "take ?s x"] by simp
    from okay_follow [OF ok st m(1) sx lead good] this obtain h' where h': "grown i h h'"
        "okay M i h' (r\<lparr>r_log := ?l\<rparr>)" by blast
    have safe: "cand_ok M (h_votes h') r \<Longrightarrow> cand_ok M (h_votes h') r'"
      using raft_restore_safe [OF a conf] by (rule safe_stepD(6))
    have "cand_ok M (h_votes h') r"
      using node_okD(3) [OF okayD(2) [OF h'(2)]] cand_ok_cong [of "r\<lparr>r_log := ?l\<rparr>" r] by simp
    then have "cand_ok M (h_votes h') r'" by (rule safe)
    moreover obtain ps ls2 il2 where e2: "r2 = r\<lparr>r_log := ?l, r_prs := [], r_learner_prs := []\<rparr>
        \<lparr>r_is_learner := il2, r_prs := ps, r_learner_prs := ls2\<rparr>"
      using restore_node_restores [OF restored(3)] by (auto simp: restores_def)
    moreover obtain ls il where "r' = r2\<lparr>r_is_learner := il, r_prs := ps, r_learner_prs := ls\<rparr>"
      using restore_node_restores [OF restored(4)] e2 by (auto simp: restores_def)
    ultimately have r': "r' = r\<lparr>r_log := ?l\<rparr>\<lparr>r_is_learner := il, r_prs := ps, r_learner_prs := ls\<rparr>"
      "cand_ok M (h_votes h') r'" by simp_all
    then have "okay M i h' r'" by (intro okay_members [OF h'(2) _ r'(2,1)]) (simp add: st)
    then have "goes_on M i h r'" using h'(1) unfolding goes_on_def by blast
    then show ?thesis using st by (simp add: r'(1))
  qed
qed

lemma handle_snapshot_okay:
  assumes ok: "okay M i h r" and st: "r_state r = Follower" and lead: "r_lead r \<noteq> 0"
    and m: "carried M h m" "m_term m = r_term r" "snap_conf M (m_snapshot m)"
    and a: "handle_snapshot r m = Some r'"
  shows "goes_on M i h r'"
proof -
  obtain x where x: "h_lead_log h (r_term r) = Some x" "0 < s_index (m_snapshot m)"
      "s_term (m_snapshot m) = term_in x (s_index (m_snapshot m))"
      "covered M h (r_term r) x (s_index (m_snapshot m))"
    using m by (auto simp: carried_def)
  obtain b r1 where r1: "raft_restore r (m_snapshot m) = Some (b, r1)"
    and s: "raft_send r1 (new_message\<lparr>m_to := m_from m, m_type := MsgAppResp\<rparr>) = Some r'"
    using a by (auto simp: handle_snapshot_def split: Option.bind_splits)
  have f: "goes_on M i h r1" "r_state r1 = Follower"
    using raft_restore_okay [OF ok st lead x m(3) r1] by auto
  then obtain h' where h': "grown i h h'" "okay M i h' r1" unfolding goes_on_def by blast
  have "okay M i h' r'"
    by (rule okay_reply [OF h'(2) s]) (use f(2) in \<open>simp_all add: msg_ok_def new_message_def\<close>)
  then show ?thesis using h'(1) unfolding goes_on_def by blast
qed

section \<open>Votes\<close>

lemma acked_ahead:
  assumes ok: "okay M i h r" and t: "0 < k" "k \<le> h_acked h i t" "h_lead_log h t = Some x" "term_in x k = t"
  shows "ahead (h_log h i) t k \<or> passed_over h t k r"
proof -
  let ?X = "h_log h i"
  note d = node_okD [OF okayD(2) [OF ok]] and h = okayD(1) [OF ok]
  have "k \<le> length x" using history_okD(9) [OF h, of i t] t(1-3) by auto
  show ?thesis
  proof (cases "take k ?X = take k x")
    case True
    then have "k \<le> length ?X" using \<open>k \<le> length x\<close> take_eq_length by metis
    moreover have "term_in ?X k = t" using term_in_prefix [OF True] t(4) by simp
    ultimately have "t \<le> term_in ?X (length ?X)"
      using terms_sortedD [OF rooted_sorted [OF h d(5)], of k "length ?X"] by simp
    then show ?thesis using \<open>k \<le> length ?X\<close> by (auto simp: ahead_def)
  next
    case False
    then show ?thesis using acks_keptD(2) [OF d(7) t(1,2)] t(3) by simp
  qed
qed

lemma vote_sound_now:
  assumes ok: "okay M i h r" and v: "r_vote r = 0" "r_lead r = 0"
    and u: "term_in (h_log h i) (length (h_log h i)) < term_in C (length C) \<or>
      term_in (h_log h i) (length (h_log h i)) = term_in C (length C) \<and> length (h_log h i) \<le> length C"
    and C: "C = h_cand_log h c (r_term r)"
  shows "vote_sound h i c (r_term r)"
  unfolding vote_sound_def
proof (intro allI impI)
  fix t k x assume t: "t < r_term r" "0 < k" "k \<le> h_acked h i t" "h_lead_log h t = Some x" "term_in x k = t"
  have "ahead (h_log h i) t k \<Longrightarrow> ahead C t k" using u by (auto simp: ahead_def)
  moreover have "passed_over h t k r \<Longrightarrow> \<exists>s'. s' < r_term r \<and> began_without h t k s'"
    unfolding passed_over_def using v by (metis le_neq_implies_less)
  ultimately show "ahead (h_cand_log h c (r_term r)) t k \<or> (\<exists>s'. s' < r_term r \<and> began_without h t k s')"
    using acked_ahead [OF ok t(2-5)] C by blast
qed

text \<open>The node gives its vote of this term, or gives it again.\<close>

lemma okay_vote:
  assumes ok: "okay M i h r" and c: "(c, c, r_term r) \<in> h_votes h" "c \<noteq> 0"
    and v: "r_vote r = 0" "vote_sound h i c (r_term r)"
  shows "okay M i (add_vote h i c (r_term r)) (r\<lparr>r_vote := c\<rparr>)"
proof -
  let ?h = "add_vote h i c (r_term r)" and ?r = "r\<lparr>r_vote := c\<rparr>"
  have h: "history_ok M h" and n: "node_ok M h i r" using okayD(1,2) [OF ok] .
  note d = node_okD [OF n]
  have g: "grown i h ?h" by (rule add_vote_grown)
  have none: "(i, c', r_term r) \<notin> h_votes h" for c'
    using d(8) v(1) by (auto simp: votes_kept_def)
  have h': "history_ok M ?h" by (rule add_vote_ok [OF h c(1) v(2)]) (use none in blast)
  have st: "r_state r \<noteq> Candidate" "r_state r \<noteq> Leader"
    using d(3) v(1) unfolding cand_ok_def by auto
  have eq: "h_log ?h = h_log h" "h_lead_log ?h = h_lead_log h" "h_acked ?h = h_acked h"
      "h_votes ?h = insert (i, c, r_term r) (h_votes h)" by (simp_all add: add_vote_def)
  have bw: "began_without ?h = began_without h" by (intro ext) (simp add: began_without_def add_vote_def)
  have "acks_kept ?h i r" using d(7) by (simp add: acks_kept_def passed_over_def eq bw)
  then have "acks_kept ?h i ?r" by (rule acks_kept_later) (use c(2) in auto)
  moreover have "votes_kept ?h i ?r" using d(8) c(2) none by (auto simp: votes_kept_def eq)
  moreover have "cand_ok M (h_votes h) ?r" using d(3) st unfolding cand_ok_def backed_def by simp
  then have "cand_ok M (h_votes ?h) ?r" by (rule cand_ok_mono [rotated]) (auto simp: eq)
  ultimately have "node_ok M ?h i ?r"
    using d(1,2,4,6,12) rooted_grown [OF g d(5)] covered_grown [OF g d(9)] st by (simp add: node_ok_def eq)
  then show ?thesis using h' msg_ok_grown [OF g] okayD(3) [OF ok] by (simp add: okay_def)
qed

lemma step_vote_cases:
  assumes s: "step_vote r m = Some r'" and ty: "m_type m = MsgVote" "m_term m = r_term r"
  obtains (same) "r' = r"
  | (no) x where "r' = r\<lparr>r_msgs := r_msgs r @ [x]\<rparr>" "m_type x = MsgVoteResp" "m_reject x"
  | (yes) x where "r' = r\<lparr>r_msgs := r_msgs r @ [x], r_election_elapsed := 0, r_vote := m_from m\<rparr>"
      "r_vote r = m_from m \<or> r_vote r = 0 \<and> r_lead r = 0"
      "log_is_up_to_date (r_log r) (m_index m) (m_log_term m) = Some True"
      "m_type x = MsgVoteResp" "m_from x = r_id r" "m_to x = m_from m" "m_term x = r_term r"
proof -
  have resp: "vote_resp_msg_type MsgVote = Some MsgVoteResp" by (simp add: vote_resp_msg_type_def)
  have "r' = r \<or> (\<exists>x. r' = r\<lparr>r_msgs := r_msgs r @ [x]\<rparr> \<and> m_type x = MsgVoteResp \<and> m_reject x) \<or>
      (\<exists>x. r' = r\<lparr>r_msgs := r_msgs r @ [x], r_election_elapsed := 0, r_vote := m_from m\<rparr> \<and>
         can_vote r m \<and> log_is_up_to_date (r_log r) (m_index m) (m_log_term m) = Some True \<and>
         m_type x = MsgVoteResp \<and> m_from x = r_id r \<and> m_to x = m_from m \<and> m_term x = r_term r)"
    using s ty resp
    by (auto simp: step_vote_def raft_send_def Let_def new_message_def
        split: if_splits Option.bind_splits)
  then show ?thesis using same no yes ty by (auto simp: can_vote_def)
qed

lemma step_vote_okay:
  assumes ok: "okay M i h r" and m: "asked h m" "m_type m = MsgVote" "m_term m = r_term r" "m_from m \<noteq> 0"
    and s: "step_vote r m = Some r'"
  shows "goes_on M i h r'"
proof -
  note d = node_okD [OF okayD(2) [OF ok]]
  from s m(2,3) show ?thesis
  proof (cases rule: step_vote_cases)
    case same
    then show ?thesis using goes_onI [OF ok] by simp
  next
    case (no x)
    have "okay M i h r'" by (rule okay_says [OF ok]) (use no in \<open>auto simp: unmoved_def msg_ok_def\<close>)
    then show ?thesis by (rule goes_onI)
  next
    case (yes x)
    let ?c = "m_from m" and ?T = "r_term r"
    have c: "(?c, ?c, ?T) \<in> h_votes h" using m(1,3) by (simp add: asked_def)
    have "\<exists>h'. grown i h h' \<and> okay M i h' (r\<lparr>r_vote := ?c\<rparr>) \<and> (i, ?c, ?T) \<in> h_votes h'"
    proof (cases "r_vote r = ?c")
      case True
      then have "r\<lparr>r_vote := ?c\<rparr> = r" by simp
      moreover have "(i, ?c, ?T) \<in> h_votes h" using True d(8) m(4) by (auto simp: votes_kept_def)
      ultimately show ?thesis using ok grown_refl by metis
    next
      case False
      then have v: "r_vote r = 0" "r_lead r = 0" using yes(2) by auto
      have X: "log_of (h_log h i) (r_log r)" using okay_log [OF ok] by simp
      have "vote_sound h i ?c ?T"
        by (rule vote_sound_now [OF ok v _ refl])
          (use yes(3) log_of_up_to_date [OF X] m(1,3) in \<open>auto simp: asked_def\<close>)
      then have "okay M i (add_vote h i ?c ?T) (r\<lparr>r_vote := ?c\<rparr>)" by (rule okay_vote [OF ok c m(4) v(1)])
      moreover have "(i, ?c, ?T) \<in> h_votes (add_vote h i ?c ?T)" by (simp add: add_vote_def)
      ultimately show ?thesis using add_vote_grown by blast
    qed
    then obtain h' where h': "grown i h h'" "okay M i h' (r\<lparr>r_vote := ?c\<rparr>)" "(i, ?c, ?T) \<in> h_votes h'" by blast
    have "okay M i h' r'"
      by (rule okay_says [OF h'(2)]) (use yes d(1) h'(3) in \<open>auto simp: unmoved_def msg_ok_def\<close>)
    then show ?thesis using h'(1) unfolding goes_on_def by blast
  qed
qed

end
