(* ===== verification/Replica_Lead.thy ===== *)
theory Replica_Lead
  imports Replica_Follow
begin

text \<open>
  Leaders and candidates: appending, the answers of followers, campaigns, and the election of a
  leader.
\<close>

section \<open>Appending\<close>

definition leads_on :: "nat set \<Rightarrow> nat \<Rightarrow> history \<Rightarrow> raft \<Rightarrow> bool" where
  "leads_on M i h r \<longleftrightarrow> (\<exists>h'. grown i h h' \<and> leads M i h' r)"

lemma leads_onI: "leads M i h r \<Longrightarrow> leads_on M i h r"
  unfolding leads_on_def using grown_refl by blast

lemma leads_on_goes: "leads_on M i h r \<Longrightarrow> goes_on M i h r"
  unfolding leads_on_def goes_on_def leads_def by blast

lemma number_entries_terms: "e \<in> set (number_entries t li es) \<Longrightarrow> e_term e = t"
  by (auto simp: number_entries_def)

lemma okay_append:
  assumes l: "leads M i h r" and es: "\<forall>e \<in> set es. e_term e = r_term r" "consec (length (h_log h i) + 1) es"
    and room: "length (h_log h i) + length es + 1 < W64" and a: "log_append (r_log r) es = Some (li, l')"
  shows "\<exists>h'. grown i h h' \<and> leads M i h' (r\<lparr>r_log := l'\<rparr>) \<and> li \<le> h_acked h' i (r_term r)"
proof (intro exI conjI)
  let ?X = "h_log h i" and ?T = "r_term r" and ?r = "r\<lparr>r_log := l'\<rparr>"
  let ?Y = "?X @ es" and ?h = "add_entries h i ?T es"
  have ok: "okay M i h r" and h: "history_ok M h" by (rule leadsD(1) [OF l], rule okayD(1) [OF leadsD(1) [OF l]])
  note d = node_okD [OF okayD(2) [OF ok]] and X = leadsD(7) [OF l] and x = leadsD(4,5) [OF l]
  show g: "grown i h ?h" by (rule add_entries_grown [OF h x])
  have h': "history_ok M ?h"
    by (rule add_entries_ok [OF h x es]) (use room okay_votes_term [OF ok] in auto)
  have eq: "h_log ?h i = ?Y" "h_votes ?h = h_votes h" "h_lead_log ?h = (h_lead_log h)(?T \<mapsto> ?Y)"
      "h_acked ?h i = (h_acked h i)(?T := length ?Y)" "h_winner ?h = h_winner h"
    by (simp_all add: add_entries_def)
  have app: "li = length ?Y \<and> log_of ?Y l' \<and> l_committed l' = l_committed (r_log r) \<and>
      l_applied l' = l_applied (r_log r) \<and> same_snap (r_log r) l'"
  proof (cases "es = []")
    case True
    then show ?thesis using a X log_of_last [OF X] by (auto simp: log_append_def)
  next
    case False
    show ?thesis by (rule log_of_append [OF X False es(2) room a])
  qed
  then show "li \<le> h_acked ?h i ?T" by (simp add: eq)
  let ?c = "l_committed (r_log r)"
  have c: "take ?c ?Y = take ?c ?X" using log_ofD(9) [OF X] by simp
  have "es \<noteq> [] \<Longrightarrow> 0 < e_index (hd es)" using es(2) consec_hd by fastforce
  from log_append_offset [OF a this] have good: "log_good ?Y l'"
    by (intro log_good_change [OF d(4) _ c]) (use app in auto)
  have lx: "lead_log_ok ?h ?T ?Y" by (rule history_okD(3) [OF h']) (simp add: eq)
  have "acks_kept ?h i ?r"
    unfolding acks_kept_def
  proof (intro allI impI)
    fix t k assume k: "0 < k" "k \<le> h_acked ?h i t"
    show "t \<le> r_term ?r \<and> (take k (h_log ?h i) = take k (the (h_lead_log ?h t)) \<or> passed_over ?h t k ?r)"
    proof (cases "t = ?T")
      case False
      then have ka: "k \<le> h_acked h i t" using k(2) by (simp add: eq)
      obtain z where z: "h_lead_log h t = Some z" "k \<le> length z"
        using history_okD(9) [OF h, of i t] k(1) ka by auto
      note old = acks_keptD [OF d(7) k(1) ka]
      have "take k ?Y = take k z" if kz: "take k ?X = take k z"
        using take_eq_length [OF kz [symmetric] z(2)] kz by simp
      moreover have "passed_over ?h t k ?r" if "passed_over h t k r"
        using passed_over_grown [OF g h z that] by (simp add: passed_over_def)
      ultimately show ?thesis using old z(1) False by (auto simp: eq)
    qed (simp add: eq)
  qed
  moreover have "cand_ok M (h_votes ?h) ?r" using d(3) cand_ok_cong [of ?r r M "h_votes h"] eq by simp
  moreover have "votes_kept ?h i ?r" using d(8) by (simp add: votes_kept_def eq)
  moreover have "covered M ?h ?T ?Y (l_committed l')"
    using covered_prefix [OF covered_grown [OF g d(9)] c [symmetric]] app by simp
  moreover have "leader_ok ?h i ?r"
  proof -
    have "get_progress ?r = get_progress r" by (rule get_progress_cong) simp_all
    moreover have "follower_ok ?h i ?T v p" if "get_progress r v = Some p" for v p
      using leadsD(6) [OF l that] grownD(8) [OF g, of v ?T]
      by (auto simp: follower_ok_def eq intro: le_trans)
    ultimately show ?thesis using x by (simp add: leader_ok_def followers_ok_def eq)
  qed
  ultimately have "node_ok M ?h i ?r"
    using d(1,2,12) good lx leadsD(2) [OF l] by (simp add: node_ok_def eq lead_log_ok_def)
  then show "leads M i ?h ?r"
    using h' msg_ok_grown [OF g] okayD(3) [OF ok] leadsD(2) [OF l] by (simp add: leads_def okay_def)
qed

lemma append_entry_leads:
  assumes l: "leads M i h r" and room: "length (h_log h i) + length es + 1 < W64"
    and a: "append_entry r es = Some (b, r')"
  shows "leads_on M i h r'"
proof -
  let ?X = "h_log h i" and ?T = "r_term r"
  have last: "log_last_index (r_log r) = Some (length ?X)" by (rule log_of_last [OF leadsD(7) [OF l]])
  let ?ents = "number_entries ?T (length ?X) es"
  obtain fits r1 where inc: "increase_uncommitted_size r ?ents = (fits, r1)" by fastforce
  have r1: "r1 = r \<or> (\<exists>s. r1 = r\<lparr>r_uncommitted_size := s\<rparr>)"
    using inc by (auto simp: increase_uncommitted_size_def Let_def split: if_splits)
  have l1: "leads M i h r1" by (rule leads_same [OF l]) (use r1 in \<open>auto simp: unmoved_def\<close>)
  have eq1: "r_log r1 = r_log r" "r_id r1 = i" "r_term r1 = ?T"
    using r1 leadsD(8) [OF l] by auto
  show ?thesis
  proof (cases fits)
    case False
    then have "r' = r1" using a last inc by (simp add: append_entry_def Let_def)
    then show ?thesis using leads_onI [OF l1] by simp
  next
    case True
    then obtain li log pr c where ap: "log_append (r_log r1) ?ents = Some (li, log)"
        and pr: "get_progress (r1\<lparr>r_log := log\<rparr>) i = Some pr"
        and mc: "raft_maybe_commit (put_progress (r1\<lparr>r_log := log\<rparr>) i
              (snd (progress_maybe_update pr li))) = Some (c, r')"
      using a last inc eq1 by (auto simp: append_entry_def Let_def split: Option.bind_splits)
    have "consec (length ?X + 1) ?ents" using number_entries_consec [of "length ?X" es ?T] room by simp
    then obtain h' where h': "grown i h h'" "leads M i h' (r1\<lparr>r_log := log\<rparr>)" "li \<le> h_acked h' i ?T"
      using okay_append [OF l1 _ _ _ ap] room number_entries_terms eq1 by fastforce
    obtain u p' where u: "progress_maybe_update pr li = (u, p')" by fastforce
    have "follower_ok h' i (r_term (r1\<lparr>r_log := log\<rparr>)) i p'"
      by (rule follower_update [OF h'(2) leadsD(6) [OF h'(2) pr] _ u]) (use h'(3) eq1 in simp)
    then have "leads M i h' (put_progress (r1\<lparr>r_log := log\<rparr>) i p')"
      by (intro leads_put [OF h'(2)]) (simp_all add: pr)
    then have "leads M i h' r'" using raft_maybe_commit_leads mc u by simp
    then show ?thesis using h'(1) unfolding leads_on_def by blast
  qed
qed

section \<open>What a leader does with messages\<close>

lemma prop_scan_leads:
  "prop_scan r k es = Some (r', es') \<Longrightarrow> leads M i h r \<Longrightarrow> leads M i h r'"
proof (induction es arbitrary: r k es')
  case (Cons e es)
  then obtain r1 e1 es1 where c: "prop_one r k e = Some (r1, e1)" "prop_scan r1 (Suc k) es = Some (r', es1)"
    by (auto simp: bind_eq_Some_conv)
  have "r1 = r \<or> (\<exists>p. r1 = r\<lparr>r_pending_conf_index := p\<rparr>)"
    using c(1) by (auto simp: prop_one_def bind_eq_Some_conv split: if_splits)
  then have "leads M i h r1" by (intro leads_same [OF Cons.prems(2)]) (auto simp: unmoved_def)
  then show ?case by (rule Cons.IH [OF c(2)])
qed simp

lemma leader_prop_leads:
  assumes l: "leads M i h r" and room: "length (h_log h i) + length (m_entries m) + 1 < W64"
    and p: "leader_prop r m = Some (st, r')"
  shows "leads_on M i h r'"
proof -
  have "r' = r \<or> (\<exists>r1 es b r2. prop_scan r 0 (m_entries m) = Some (r1, es) \<and>
      append_entry r1 es = Some (b, r2) \<and> (r' = r2 \<or> bcast_append r2 = Some r'))"
    using p by (auto simp: leader_prop_def ok_with_def split: Option.bind_splits if_splits)
  then consider "r' = r" | r1 es b r2 where "prop_scan r 0 (m_entries m) = Some (r1, es)"
      "append_entry r1 es = Some (b, r2)" "r' = r2 \<or> bcast_append r2 = Some r'" by blast
  then show ?thesis
  proof cases
    case (2 r1 es b r2)
    have "length es = length (m_entries m)" using prop_scan_log [OF 2(1)] by simp
    then have "leads_on M i h r2"
      by (intro append_entry_leads [OF prop_scan_leads [OF 2(1) l] _ 2(2)]) (use room in simp)
    then show ?thesis using 2(3) bcast_append_leads unfolding leads_on_def by blast
  qed (use l leads_onI in auto)
qed

lemma leads_read_state [simp]: "leads M i h r \<Longrightarrow> leads M i h (push_read_state r k ctx)"
  by (erule leads_same) (auto simp: unmoved_def push_read_state_def)

lemma leads_read_only [simp]: "leads M i h r \<Longrightarrow> leads M i h (r\<lparr>r_read_only := ro\<rparr>)"
  by (erule leads_same) (auto simp: unmoved_def)

lemma answer_read_leads: "leads M i h r \<Longrightarrow> answer_read r req k = Some r' \<Longrightarrow> leads M i h r'"
  by (auto simp: answer_read_def msg_ok_def split: Option.bind_splits if_splits intro: leads_send)

lemma read_only_leads:
  assumes "leads M i h r"
  shows "bcast_heartbeat_with_ctx (r\<lparr>r_read_only := ro\<rparr>) ctx = Some r' \<Longrightarrow> leads M i h r'"
    "each (\<lambda>rs r. answer_read r (ri_req rs) (ri_index rs)) rss (r\<lparr>r_read_only := ro\<rparr>) = Some r' \<Longrightarrow> leads M i h r'"
proof -
  have l: "leads M i h (r\<lparr>r_read_only := ro\<rparr>)" using assms by simp
  show "bcast_heartbeat_with_ctx (r\<lparr>r_read_only := ro\<rparr>) ctx = Some r' \<Longrightarrow> leads M i h r'"
    by (rule bcast_heartbeat_with_ctx_leads [OF l])
  show "each (\<lambda>rs r. answer_read r (ri_req rs) (ri_index rs)) rss (r\<lparr>r_read_only := ro\<rparr>) = Some r' \<Longrightarrow> leads M i h r'"
    by (erule each_keeps [where I = "leads M i h", OF _ l]) (rule answer_read_leads)
qed

lemma leader_read_index_leads:
  assumes l: "leads M i h r" and a: "leader_read_index r m = Some r'"
  shows "leads M i h r'"
  using a l
  by (auto simp: leader_read_index_def split: Option.bind_splits if_splits read_only_option.splits
      intro: answer_read_leads dest: read_only_leads [OF l])

lemma ack_progress_ok:
  assumes l: "leads M i h r" and p: "follower_ok h i (r_term r) v p" and a: "ack_progress p k = Some p'"
  shows "follower_ok h i (r_term r) v p'"
  using a p follower_probe_replicate [OF l p]
  by (auto simp: ack_progress_def split: if_splits Option.bind_splits)

lemma leader_app_accepted_leads:
  assumes l: "leads M i h r" and v: "get_progress r (m_from m) \<noteq> None"
    and p: "follower_ok h i (r_term r) (m_from m) pr" and n: "m_index m \<le> h_acked h (m_from m) (r_term r)"
    and a: "leader_app_accepted r m pr = Some r'"
  shows "leads M i h r'"
proof -
  obtain u pr1 where u: "progress_maybe_update pr (m_index m) = (u, pr1)" by fastforce
  have p1: "follower_ok h i (r_term r) (m_from m) pr1" by (rule follower_update [OF l p n u])
  show ?thesis
  proof (cases u)
    case False
    then show ?thesis using a u leads_put [OF l v p1] by (simp add: leader_app_accepted_def)
  next
    case True
    then obtain pr2 c r1 r2 r3 where pr2: "ack_progress pr1 (m_index m) = Some pr2"
      and mc: "raft_maybe_commit (put_progress r (m_from m) pr2) = Some (c, r1)"
      and r2: "(if c then bcast_append r1
             else if progress_is_paused pr then send_append r1 (m_from m) else Some r1) = Some r2"
      and r3: "send_all r2 (m_from m) = Some r3"
      and rest: "r3 = r' \<or> send_timeout_now r3 (m_from m) = Some r'"
      using a u by (auto simp: leader_app_accepted_def Let_def split: Option.bind_splits if_splits)
    have "leads M i h (put_progress r (m_from m) pr2)"
      by (rule leads_put [OF l v ack_progress_ok [OF l p1 pr2]])
    then have "leads M i h r1" using mc by (rule raft_maybe_commit_leads)
    then have "leads M i h r2" using r2 by (auto split: if_splits intro: leader_sends)
    then have "leads M i h r3" using r3 by (rule send_all_leads)
    then show ?thesis using rest by (auto intro: leader_sends)
  qed
qed

lemma leader_app_resp_leads:
  assumes l: "leads M i h r" and pr: "get_progress r (m_from m) = Some pr"
    and n: "m_reject m \<or> m_index m \<le> h_acked h (m_from m) (r_term r)" and a: "leader_app_resp r m pr = Some r'"
  shows "leads M i h r'"
proof -
  let ?pr = "pr\<lparr>pr_recent_active := True\<rparr>" and ?v = "m_from m"
  have v: "get_progress r ?v \<noteq> None" by (simp add: pr)
  have p: "follower_ok h i (r_term r) ?v ?pr" using leadsD(6) [OF l pr] by simp
  show ?thesis
  proof (cases "m_reject m")
    case True
    obtain d pr1 where d: "progress_maybe_decreases_to ?pr (m_index m) (m_reject_hint m) = (d, pr1)" by fastforce
    have p1: "follower_ok h i (r_term r) ?v pr1" by (rule follower_decreases [OF l p d])
    have put: "leads M i h (put_progress r ?v q)" if "q = pr1 \<or> q = progress_become_probe pr1" for q
      using leads_put [OF l v] p1 follower_probe_replicate(1) [OF l p1] that by auto
    show ?thesis using a True d put
      by (auto simp: leader_app_resp_def Let_def split: if_splits intro: leader_sends)
  next
    case False
    have l': "leads M i h (put_progress r ?v ?pr)" by (rule leads_put [OF l v p])
    have "leader_app_accepted (put_progress r ?v ?pr) m ?pr = Some r'"
      using a False by (simp add: leader_app_resp_def Let_def)
    then show ?thesis
      by (rule leader_app_accepted_leads [OF l', rotated 3]) (use p n False get_put_same [OF v] in simp_all)
  qed
qed

lemma leader_heartbeat_resp_leads:
  assumes l: "leads M i h r" and pr: "get_progress r (m_from m) = Some pr"
    and a: "leader_heartbeat_resp r m pr = Some r'"
  shows "leads M i h r'"
proof -
  obtain pr2 r2 where pr2: "heard_progress pr = Some pr2"
    and r2: "r2 = put_progress r (m_from m) pr2 \<or> send_append (put_progress r (m_from m) pr2) (m_from m) = Some r2"
    and acks: "leader_read_acks r2 m = Some r'"
    using a by (auto simp: leader_heartbeat_resp_def Let_def split: Option.bind_splits if_splits)
  have "follower_ok h i (r_term r) (m_from m) pr2"
    using pr2 leadsD(6) [OF l pr] by (auto simp: heard_progress_def Let_def split: if_splits Option.bind_splits)
  then have "leads M i h (put_progress r (m_from m) pr2)" by (intro leads_put [OF l]) (simp_all add: pr)
  then have l2: "leads M i h r2" using r2 by (auto intro: leader_sends)
  show ?thesis
    using acks l2 by (auto simp: leader_read_acks_def Let_def split: if_splits prod.splits Option.bind_splits
        dest: read_only_leads [OF l2])
qed

lemma leader_transfer_leads:
  assumes l: "leads M i h r" and a: "leader_transfer r m pr = Some r'"
  shows "leads M i h r'"
proof -
  let ?a = "if r_lead_transferee r \<noteq> 0 then abort_leader_transfer r else r"
  let ?b = "?a\<lparr>r_election_elapsed := 0, r_lead_transferee := m_from m\<rparr>"
  have la: "leads M i h ?a" by (rule leads_same [OF l]) (auto simp: unmoved_def abort_leader_transfer_def)
  have lb: "leads M i h ?b" by (rule leads_same [OF l]) (auto simp: unmoved_def abort_leader_transfer_def)
  have "r' = r \<or> r' = ?a \<or> send_timeout_now ?b (m_from m) = Some r' \<or> send_append ?b (m_from m) = Some r'"
    using a by (auto simp: leader_transfer_def Let_def split: if_splits Option.bind_splits)
  then show ?thesis
    using l la send_timeout_now_leads [OF lb] send_append_leads [OF lb] by (elim disjE) simp_all
qed

lemma step_leader_progress_leads:
  assumes l: "leads M i h r" and pr: "get_progress r (m_from m) = Some pr"
    and m: "m_type m = MsgAppResp \<Longrightarrow> m_reject m \<or> m_index m \<le> h_acked h (m_from m) (r_term r)"
    and a: "step_leader_progress r m pr = Some r'"
  shows "leads M i h r'"
proof -
  have p: "follower_ok h i (r_term r) (m_from m) pr" by (rule leadsD(6) [OF l pr])
  have put: "leads M i h (put_progress r (m_from m) q)" if "follower_ok h i (r_term r) (m_from m) q" for q
    using leads_put [OF l _ that] pr by simp
  have f: "follower_ok h i (r_term r) (m_from m) (progress_snapshot_failure pr)"
    using p by (simp add: follower_ok_def progress_defs)
  have "leads M i h (leader_snap_status r m pr)"
    using l put follower_probe_replicate(1) [OF l p] follower_probe_replicate(1) [OF l f]
    by (simp add: leader_snap_status_def)
  moreover have "leads M i h (leader_unreachable r m pr)"
    using l put follower_probe_replicate(1) [OF l p] by (simp add: leader_unreachable_def)
  ultimately show ?thesis
    using a m l leader_app_resp_leads [OF l pr] leader_heartbeat_resp_leads [OF l pr] leader_transfer_leads [OF l]
    by (auto simp: step_leader_progress_def split: msg_type.splits)
qed

end
