(* ===== verification/Replica_Elect.thy ===== *)
theory Replica_Elect
  imports Replica_Lead
begin

text \<open>
  Changes of role: a follower of a later term, a candidate with its log as it is, and the leader that
  a majority has voted for.
\<close>

section \<open>Followers and candidates\<close>

lemma okay_follower:
  assumes ok: "okay M i h r" and f: "become_follower r t lead = Some r'" and t: "r_term r \<le> t"
    and lead: "t = r_term r \<Longrightarrow> r_lead r \<noteq> 0 \<Longrightarrow> lead \<noteq> 0 \<or> r_vote r \<noteq> 0"
  shows "okay M i h r'"
proof -
  have n: "node_ok M h i r" by (rule okayD(2) [OF ok])
  note d = node_okD [OF n] and s = become_follower_sel [OF f]
  have "node_ok M h i r'"
  proof (rule node_ok_change [OF n])
    show "cand_ok M (h_votes h) r'" by (rule safe_stepD(6) [OF become_follower_safe [OF f t] d(3)])
    show "votes_kept h i r'" using d(8) t by (force simp: votes_kept_def s)
  qed (use s t lead in auto)
  then show ?thesis using ok by (simp add: okay_def s)
qed

lemma acks_kept_grown:
  assumes g: "grown i h h'" and h: "history_ok M h" and a: "acks_kept h i r"
    and eq: "h_log h' i = h_log h i" "h_acked h' i = h_acked h i"
  shows "acks_kept h' i r"
  unfolding acks_kept_def eq
proof (intro allI impI)
  fix t k assume k: "0 < k" "k \<le> h_acked h i t"
  obtain x where x: "h_lead_log h t = Some x" "k \<le> length x"
    using history_okD(9) [OF h, of i t] k by auto
  obtain y where "h_lead_log h' t = Some (x @ y)" using grownD(2) [OF g x(1)] by blast
  then show "t \<le> r_term r \<and> (take k (h_log h i) = take k (the (h_lead_log h' t)) \<or> passed_over h' t k r)"
    using acks_keptD [OF a k] passed_over_grown [OF g h x] x by auto
qed

lemma terms_uptoD:
  assumes "terms_upto t X" "e \<in> set X"
  shows "e_term e \<le> t"
proof -
  obtain k where k: "k < length X" "e = X ! k" using assms(2) by (auto simp: in_set_conv_nth)
  then have "term_in X (Suc k) \<le> t" using assms(1) unfolding terms_upto_def by (meson Suc_leI)
  then show ?thesis using k by (simp add: term_in_def)
qed

lemma okay_candidate:
  assumes ok: "okay M i h r" and c: "become_candidate r = Some r'" and w: "r_term r + 1 < W64"
  shows "\<exists>h'. grown i h h' \<and> okay M i h' r' \<and> h_log h' = h_log h"
proof (intro exI conjI)
  let ?t = "Suc (r_term r)"
  let ?h = "add_candidate h i ?t"
  have h: "history_ok M h" and n: "node_ok M h i r" using okayD(1,2) [OF ok] .
  note d = node_okD [OF n] and s = become_candidate_sel [OF c]
  have t: "r_term r' = ?t" using s(2) w by (simp add: u64)
  have new: "(i, c', ?t) \<notin> h_votes h" for c' using okay_votes_term [OF ok, of c' ?t] by auto
  show g: "grown i h ?h" by (rule add_candidate_grown [OF new])
  show log: "h_log ?h = h_log h" by (simp add: add_candidate_def)
  have ahead: "ahead (h_log h i) u k \<or> (\<exists>s'. s' < ?t \<and> began_without h u k s')"
    if "0 < k" "k \<le> h_acked h i u" "h_lead_log h u = Some x" "term_in x k = u" for u k x
    using acked_ahead [OF ok that] by (auto simp: passed_over_def less_Suc_eq_le)
  have h': "history_ok M ?h"
    by (rule add_candidate_ok [OF h new _ d(5)])
      (use d(2) terms_uptoD [OF d(6)] ahead in \<open>auto simp: less_Suc_eq_le\<close>)
  have eq: "h_lead_log ?h = h_lead_log h" "h_acked ?h = h_acked h" "h_winner ?h = h_winner h"
      "h_votes ?h = insert (i, i, ?t) (h_votes h)" "h_cand_log ?h i ?t = h_log h i"
    by (simp_all add: add_candidate_def)
  have i0: "i \<noteq> 0" using d(1,3) by (auto simp: cand_ok_def)
  have "cand_ok M (h_votes ?h) r'"
    using safe_stepD(6) [OF become_candidate_safe [OF c w] d(3)]
    by (rule cand_ok_mono [rotated]) (auto simp: add_candidate_def)
  moreover have "acks_kept ?h i r'"
    by (rule acks_kept_later [OF acks_kept_grown [OF g h d(7)]]) (use t eq log in simp_all)
  moreover have "votes_kept ?h i r'"
    using d(1,8) i0 new by (auto simp: votes_kept_def eq t s(3) intro: le_SucI)
  moreover have "h_winner h ?t \<noteq> i" if "h_lead_log h ?t = Some x" for x
  proof
    assume "h_winner h ?t = i"
    moreover have "elected M h ?t x" by (rule history_okD(4) [OF h that]) (use d(2) in simp)
    ultimately show False using new by (auto simp: elected_def Let_def)
  qed
  then have "candidate_ok ?h i r'" using d(2) log by (auto simp: candidate_ok_def eq t)
  moreover have "covered M ?h ?t (h_log h i) (l_committed (r_log r))"
    by (rule covered_later [OF covered_grown [OF g d(9)]]) simp
  moreover have "terms_upto ?t (h_log h i)" using d(6) by (auto simp: terms_upto_def intro: le_SucI)
  ultimately have "node_ok M ?h i r'"
    using d(1,4) rooted_grown [OF g d(5)] log by (simp add: node_ok_def s(1) s(4,6,9) t)
  then show "okay M i ?h r'"
    using h' msg_ok_grown [OF g] okayD(3) [OF ok] by (simp add: okay_def s)
qed

lemma okay_poll:
  assumes ok: "okay M i h r" and p: "poll r j ty v = Some (n, r')" and j: "j \<in> M" and st: "r_state r = Candidate"
    and b: "v \<Longrightarrow> backed (h_votes h) r j"
  shows "okay M i h r'"
proof -
  have n: "node_ok M h i r" by (rule okayD(2) [OF ok])
  note d = node_okD [OF n] and r' = poll_sel(2) [OF p]
  have "cand_ok M (h_votes h) r'" by (rule safe_stepD(6) [OF poll_safe [OF p j b] d(3)])
  then have "node_ok M h i r'"
    by (rule node_ok_change [OF n, rotated 3])
      (use d(8,10,12) st in \<open>auto simp: r' votes_kept_def candidate_ok_def\<close>)
  then show ?thesis using ok by (simp add: okay_def r')
qed

lemma send_vote_request_okay:
  assumes ok: "okay M i h r" and st: "r_state r = Candidate" and s: "send_vote_request ct MsgVote (r_term r) j r = Some r'"
  shows "okay M i h r' \<and> r_state r' = Candidate \<and> r_term r' = r_term r"
proof (cases "j = r_id r")
  case False
  note d = node_okD [OF okayD(2) [OF ok]]
  have X: "log_of (h_log h i) (r_log r)" using okay_log [OF ok] by simp
  obtain m where m: "r' = r\<lparr>r_msgs := r_msgs r @ [m]\<rparr>" "m_type m = MsgVote" "m_from m = i"
      "m_term m = r_term r" "m_index m = length (h_log h i)"
      "m_log_term m = term_in (h_log h i) (length (h_log h i))"
    using s False d(1) log_of_last [OF X] log_of_last_term [OF X]
    by (auto simp: send_vote_request_def raft_send_def Let_def split: Option.bind_splits)
  have "(i, i, r_term r) \<in> h_votes h" using d(1,3,8) st by (auto simp: cand_ok_def votes_kept_def)
  moreover have "h_cand_log h i (r_term r) = h_log h i" using d(10) [OF st] by (simp add: candidate_ok_def)
  ultimately have "asked h m" using m by (simp add: asked_def)
  then have "okay M i h r'" by (intro okay_says [OF ok]) (use m in \<open>auto simp: unmoved_def msg_ok_def\<close>)
  then show ?thesis using st m(1) by simp
qed (use s ok st in \<open>simp add: send_vote_request_def\<close>)

lemma send_vote_requests_okay:
  assumes ok: "okay M i h r" and st: "r_state r = Candidate"
    and s: "send_vote_requests r ct MsgVote (r_term r) = Some r'"
  shows "okay M i h r'"
proof -
  let ?I = "\<lambda>a. okay M i h a \<and> r_state a = Candidate \<and> r_term a = r_term r"
  have "?I r'"
    using s unfolding send_vote_requests_def
  proof (rule each_keeps [where I = ?I])
    show "?I r" using ok st by simp
    show "?I b" if "send_vote_request ct MsgVote (r_term r) x a = Some b" "?I a" for x a b
      using send_vote_request_okay [of M i h a ct x b] that by simp
  qed
  then show ?thesis by simp
qed

section \<open>Leaders\<close>

lemma map_of_reset: "map_of (map (reset_progress r n) xs) v = map_option (\<lambda>p. snd (reset_progress r n (v, p))) (map_of xs v)"
  by (induction xs) (auto simp: reset_progress_def)

lemma raft_reset_progress:
  assumes r': "raft_reset r t = Some r'" and l: "log_last_index (r_log r) = Some n" and p: "get_progress r' v = Some p"
  shows "pr_match p = (if v = r_id r then n else 0) \<and> pr_next p = add64 n 1 \<and> pr_pending_snapshot p = 0"
proof -
  obtain r2 m where r2: "reset_randomized_election_timeout
        ((if r_term r \<noteq> t then r\<lparr>r_term := t, r_vote := 0\<rparr> else r)
          \<lparr>r_lead := 0, r_election_elapsed := 0, r_heartbeat_elapsed := 0\<rparr>) = Some r2"
    and m: "(if progress_ids ((abort_leader_transfer r2)\<lparr>r_votes := []\<rparr>) = [] then Some 0
        else log_last_index (r_log ((abort_leader_transfer r2)\<lparr>r_votes := []\<rparr>))) = Some m"
    and r'_eq: "r' = ((abort_leader_transfer r2)\<lparr>r_votes := []\<rparr>)
        \<lparr>r_prs := map (reset_progress ((abort_leader_transfer r2)\<lparr>r_votes := []\<rparr>) m) (r_prs r2),
         r_learner_prs := map (reset_progress ((abort_leader_transfer r2)\<lparr>r_votes := []\<rparr>) m) (r_learner_prs r2),
         r_pending_conf_index := 0, r_uncommitted_size := 0,
         r_read_only := readonly_clear (r_read_only r2)\<rparr>"
    using r' unfolding raft_reset_def Let_def bind_eq_Some_conv by (auto simp: abort_leader_transfer_def)
  define r3 where "r3 = (abort_leader_transfer r2)\<lparr>r_votes := []\<rparr>"
  have "r_id r2 = r_id r \<and> r_log r2 = r_log r"
    using r2 by (auto simp: reset_randomized_election_timeout_def rand_gen_def Let_def split: if_splits Option.bind_splits)
  then have eq: "r_prs r' = map (reset_progress r3 m) (r_prs r3)"
      "r_learner_prs r' = map (reset_progress r3 m) (r_learner_prs r3)" "r_id r3 = r_id r"
      "(if progress_ids r3 = [] then Some 0 else log_last_index (r_log r)) = Some m"
    using m by (auto simp: r'_eq r3_def abort_leader_transfer_def split: if_splits)
  obtain q where "map_of (r_prs r3) v = Some q \<or> map_of (r_learner_prs r3) v = Some q"
      and p': "p = snd (reset_progress r3 m (v, q))"
    using p by (auto simp: get_progress_def eq(1,2) map_of_reset split: option.splits)
  then have "progress_ids r3 \<noteq> []" by (auto simp: progress_ids_def)
  then have "m = n" using eq(4) l by simp
  then show ?thesis using p' by (simp add: reset_progress_def new_progress_def eq(3))
qed

text \<open>A node that has the grants of a quorum is the first leader of its term.\<close>

lemma no_leader_yet:
  assumes ok: "okay M i h r" and st: "r_state r = Candidate"
    and Q: "majority M Q" "\<forall>v \<in> Q. (v, i, r_term r) \<in> h_votes h"
  shows "h_lead_log h (r_term r) = None"
proof (cases "h_lead_log h (r_term r)")
  case (Some x)
  have h: "history_ok M h" by (rule okayD(1) [OF ok])
  have c: "r_term r \<noteq> 1" "h_winner h (r_term r) \<noteq> i"
    using node_okD(10) [OF okayD(2) [OF ok] st] Some by (simp_all add: candidate_ok_def)
  have "elected M h (r_term r) x" by (rule history_okD(4) [OF h Some c(1)])
  then obtain P where P: "majority M P" "\<forall>j \<in> P. (j, h_winner h (r_term r), r_term r) \<in> h_votes h"
    by (auto simp: elected_def Let_def)
  obtain j where j: "(j, h_winner h (r_term r), r_term r) \<in> h_votes h" "(j, i, r_term r) \<in> h_votes h"
    using maj.witness [OF P(1), of "\<lambda>j. (j, h_winner h (r_term r), r_term r) \<in> h_votes h" Q
        "\<lambda>j. (j, i, r_term r) \<in> h_votes h"] P(2) Q by blast
  have "h_winner h (r_term r) = i" by (rule votes_onceD [OF history_okD(10) [OF h] j(2,1)])
  then show ?thesis using c(2) by simp
qed simp

lemma okay_leader:
  assumes ok: "okay M i h r" and st: "r_state r = Candidate"
    and Q: "majority M Q" "\<forall>v \<in> Q. (v, i, r_term r) \<in> h_votes h"
    and r1: "raft_reset (r\<lparr>r_step_fn := StepLeader\<rparr>) (r_term r) = Some r1"
    and r2: "r2 = r1\<lparr>r_tick_fn := TickHeartbeat, r_lead := r_id r1, r_state := Leader\<rparr>"
    and c: "cand_ok M (h_votes h) r2"
  shows "leads M i (add_leader h i (r_term r)) r2"
proof -
  let ?T = "r_term r" and ?X = "h_log h i"
  let ?h = "add_leader h i ?T"
  have h: "history_ok M h" and n: "node_ok M h i r" using okayD(1,2) [OF ok] .
  note d = node_okD [OF n] and s = raft_reset_sel [OF r1, simplified]
  have X: "log_of ?X (r_log r)" using okay_log [OF ok] by simp
  have none: "h_lead_log h ?T = None" by (rule no_leader_yet [OF ok st Q])
  have i0: "i \<noteq> 0" and vote: "r_vote r = i" using d(1,3) st by (auto simp: cand_ok_def)
  then have v: "(i, i, ?T) \<in> h_votes h" using d(8) by (auto simp: votes_kept_def)
  have cX: "?X = h_cand_log h i ?T" using d(10) [OF st] by (simp add: candidate_ok_def)
  have h': "history_ok M ?h"
    by (rule add_leader_ok [OF h none d(2) cX log_ofD(7) [OF X] v Q])
  have g: "grown i h ?h" by (rule add_leader_grown [OF h none])
  have eq: "h_lead_log ?h = (h_lead_log h)(?T \<mapsto> ?X)" "h_votes ?h = h_votes h" "h_log ?h = h_log h"
      "h_winner ?h ?T = i" "h_acked ?h i = (h_acked h i)(?T := length ?X)"
    by (simp_all add: add_leader_def)
  have sel: "r_id r2 = i" "r_term r2 = ?T" "r_vote r2 = i" "r_state r2 = Leader" "r_step_fn r2 = StepLeader"
      "r_log r2 = r_log r" "r_lead r2 \<noteq> 0" "r_msgs r2 = r_msgs r"
    using d(1) i0 vote by (simp_all add: r2 s)
  have "acks_kept ?h i r2"
    unfolding acks_kept_def
  proof (intro allI impI)
    fix t k assume k: "0 < k" "k \<le> h_acked ?h i t"
    show "t \<le> r_term r2 \<and> (take k (h_log ?h i) = take k (the (h_lead_log ?h t)) \<or> passed_over ?h t k r2)"
    proof (cases "t = ?T")
      case False
      then have ka: "k \<le> h_acked h i t" using k(2) by (simp add: eq)
      obtain z where z: "h_lead_log h t = Some z" "k \<le> length z"
        using history_okD(9) [OF h, of i t] k(1) ka by auto
      have "acks_kept h i r2" by (rule acks_kept_later [OF d(7)]) (use sel in simp_all)
      from acks_keptD [OF this k(1) ka] show ?thesis
        using passed_over_grown [OF g h z, of r2] z(1) False by (auto simp: eq)
    qed (simp add: eq sel)
  qed
  moreover have "votes_kept ?h i r2" using d(8) vote by (simp add: votes_kept_def eq sel)
  moreover have "leader_ok ?h i r2"
  proof -
    have "follower_ok ?h i ?T w p" if p: "get_progress r2 w = Some p" for w p
    proof -
      have "get_progress r2 = get_progress r1" by (rule get_progress_cong) (simp_all add: r2)
      then have "pr_match p = (if w = i then length ?X else 0) \<and> pr_next p = add64 (length ?X) 1 \<and>
          pr_pending_snapshot p = 0"
        using raft_reset_progress [OF r1] log_of_last [OF X] p d(1) by simp
      then show ?thesis using log_ofD(7) [OF X] by (simp add: follower_ok_def eq u64)
    qed
    then show ?thesis by (simp add: leader_ok_def followers_ok_def eq sel)
  qed
  moreover have "covered M ?h ?T ?X (l_committed (r_log r))" by (rule covered_grown [OF g d(9)])
  ultimately have "node_ok M ?h i r2"
    using d(2,4,6) c rooted_grown [OF g d(5)] by (simp add: node_ok_def sel eq)
  then show ?thesis
    using h' msg_ok_grown [OF g] okayD(3) [OF ok] sel by (simp add: leads_def okay_def)
qed

lemma become_leader_leads:
  assumes ok: "okay M i h r" and st: "r_state r = Candidate"
    and q: "length (filter snd (r_votes r)) = quorum r" and room: "length (h_log h i) + 2 < W64"
    and b: "become_leader r = Some r'"
  shows "leads_on M i h r'"
proof -
  let ?T = "r_term r"
  note d = node_okD [OF okayD(2) [OF ok]]
  obtain r1 pr lst r4 where r1: "raft_reset (r\<lparr>r_step_fn := StepLeader\<rparr>) ?T = Some r1"
      and pr: "map_of (r_prs r1) (r_id r1) = Some pr"
      and ap: "append_entry ((put_progress (r1\<lparr>r_tick_fn := TickHeartbeat, r_lead := r_id r1, r_state := Leader\<rparr>)
                 (r_id r1) (progress_become_replicate pr)) \<lparr>r_pending_conf_index := lst\<rparr>) [new_entry] = Some (True, r4)"
      and r': "r' = reduce_uncommitted_size r4 [new_entry]"
    using b st by (auto simp: become_leader_def Let_def split: Option.bind_splits)
  define r2 where "r2 = r1\<lparr>r_tick_fn := TickHeartbeat, r_lead := r_id r1, r_state := Leader\<rparr>"
  note s = raft_reset_sel [OF r1, simplified]
  have c2: "cand_ok M (h_votes h) r2 \<and> (\<exists>Q. majority M Q \<and> (\<forall>v \<in> Q. backed (h_votes h) r v))"
    using elected_majority [OF d(3) st q] d(3) st
    by (auto simp: r2_def cand_ok_def s backed_def)
  then obtain Q where Q: "majority M Q" "\<forall>v \<in> Q. backed (h_votes h) r v" by blast
  have "(i, i, ?T) \<in> h_votes h" using d(1,3,8) st by (auto simp: cand_ok_def votes_kept_def)
  then have "\<forall>v \<in> Q. (v, i, ?T) \<in> h_votes h" using Q(2) d(1) by (auto simp: backed_def)
  from okay_leader [OF ok st Q(1) this r1 r2_def] c2
  have l2: "leads M i (add_leader h i ?T) r2" by simp
  let ?h = "add_leader h i ?T"
  have none: "h_lead_log h ?T = None"
    by (rule no_leader_yet [OF ok st Q(1)]) fact
  have g: "grown i h ?h" by (rule add_leader_grown [OF okayD(1) [OF ok] none])
  have p2: "get_progress r2 (r_id r1) = Some pr" using pr by (simp add: r2_def get_progress_def)
  let ?r3 = "put_progress r2 (r_id r1) (progress_become_replicate pr)"
  have l3: "leads M i ?h ?r3"
    by (rule leads_put [OF l2 _ follower_probe_replicate(2) [OF l2 leadsD(6) [OF l2 p2]]]) (simp add: p2)
  then have "leads M i ?h (?r3\<lparr>r_pending_conf_index := lst\<rparr>)" by (rule leads_same) (simp_all add: unmoved_def)
  from append_entry_leads [OF this _ ap [folded r2_def]] room have "leads_on M i ?h r4"
    by (simp add: add_leader_def)
  then obtain h' where h': "grown i ?h h'" "leads M i h' r4" unfolding leads_on_def by blast
  have "leads M i h' r'"
    by (rule leads_same [OF h'(2)]) (simp_all add: r' reduce_uncommitted_size_def unmoved_def Let_def)
  then show ?thesis using grown_trans [OF g h'(1)] unfolding leads_on_def by blast
qed

section \<open>Campaigns and answers\<close>

lemma campaign_goes:
  assumes ok: "okay M i h r" and c: "campaign r ct = Some r'" and ct: "ct \<noteq> CampaignPreElection"
    and t: "r_term r + 1 < W64" and room: "length (h_log h i) + 2 < W64"
  shows "goes_on M i h r'"
proof -
  obtain r1 granted r2 where r1: "become_candidate r = Some r1"
      and r2: "poll r1 (r_id r1) MsgVoteResp True = Some (granted, r2)"
      and rest: "(if quorum r2 = granted then become_leader r2
                  else send_vote_requests r2 ct MsgVote (r_term r2)) = Some r'"
    using c campaign_real [OF ct] by (auto split: Option.bind_splits)
  obtain h1 where h1: "grown i h h1" "okay M i h1 r1" "h_log h1 = h_log h"
    using okay_candidate [OF ok r1 t] by blast
  have st1: "r_state r1 = Candidate" by (rule become_candidate_sel(4) [OF r1])
  have me: "r_id r1 \<in> M" using node_okD(3) [OF okayD(2) [OF h1(2)]] by (simp add: cand_ok_def)
  have ok2: "okay M i h1 r2" by (rule okay_poll [OF h1(2) r2 me st1]) (simp add: backed_def)
  have st2: "r_state r2 = Candidate" using st1 by (simp add: poll_sel(2) [OF r2])
  have "goes_on M i h1 r'"
  proof (cases "quorum r2 = granted")
    case True
    then have "become_leader r2 = Some r'" "length (filter snd (r_votes r2)) = quorum r2"
      using rest poll_sel(1) [OF r2] by simp_all
    then show ?thesis using leads_on_goes become_leader_leads [OF ok2 st2] h1(3) room by simp
  next
    case False
    then show ?thesis using rest send_vote_requests_okay [OF ok2 st2] goes_onI by simp
  qed
  then show ?thesis by (rule goes_on_trans [OF h1(1)])
qed

lemma candidate_vote_resp_goes:
  assumes ok: "okay M i h r" and st: "r_state r = Candidate" and c: "candidate_vote_resp r m = Some r'"
    and m: "m_from m \<in> M" "m_reject m \<or> (m_from m, i, r_term r) \<in> h_votes h"
    and room: "length (h_log h i) + 2 < W64"
  shows "goes_on M i h r'"
proof -
  note d = node_okD [OF okayD(2) [OF ok]]
  obtain gr r1 where p: "poll r (m_from m) (m_type m) (\<not> m_reject m) = Some (gr, r1)"
    using c by (auto simp: candidate_vote_resp_def split: Option.bind_splits)
  note r1 = poll_sel [OF p]
  have ok1: "okay M i h r1"
    by (rule okay_poll [OF ok p m(1) st]) (use m(2) d(1) in \<open>auto simp: backed_def\<close>)
  have st1: "r_state r1 = Candidate" using st by (simp add: r1(2))
  have vote: "r_vote r1 \<noteq> 0"
    using node_okD(3) [OF okayD(2) [OF ok1]] st1 by (simp add: cand_ok_def)
  from c p show ?thesis
  proof (cases rule: candidate_vote_resp_cases)
    case next_campaign
    then show ?thesis using st1 by simp
  next
    case (won r2)
    have "leads_on M i h r2"
      by (rule become_leader_leads [OF ok1 st1 _ room won(3)]) (use won(1) r1(1) in \<open>simp (no_asm_simp)\<close>)
    then have "leads_on M i h r'" using bcast_append_leads [OF _ won(4)] unfolding leads_on_def by blast
    then show ?thesis by (rule leads_on_goes)
  next
    case lost
    have "okay M i h r'" by (rule okay_follower [OF ok1 lost(2)]) (use vote in auto)
    then show ?thesis by (rule goes_onI)
  next
    case waiting
    then show ?thesis using goes_onI [OF ok1] by simp
  qed
qed

end
