(* ===== verification/Replica_Step.thy ===== *)
theory Replica_Step
  imports Replica_Elect
begin

text \<open>
  The entry points of a node: \<open>step\<close> on a message that was sent, and the clock.
\<close>

section \<open>Messages that reach a node\<close>

definition between_voters :: "msg_type \<Rightarrow> bool" where
  "between_voters t \<longleftrightarrow> t = MsgVote \<or> t = MsgVoteResp \<or> t = MsgApp \<or> t = MsgAppResp \<or>
     t = MsgHeartbeat \<or> t = MsgSnap"

definition heard :: "nat set \<Rightarrow> history \<Rightarrow> nat \<Rightarrow> message \<Rightarrow> bool" where
  "heard M h i m \<longleftrightarrow>
     msg_ok M h m \<and> m_type m \<noteq> MsgPreVote \<and> m_type m \<noteq> MsgPreVoteResp \<and> m_term m + 1 < W64 \<and>
     (between_voters (m_type m) \<longrightarrow> m_term m \<noteq> 0 \<and> m_from m \<in> M \<and> m_from m \<noteq> 0 \<and> m_to m = i) \<and>
     (m_type m = MsgSnap \<longrightarrow> snap_conf M (m_snapshot m))"

lemma heard_known: "heard M h i m \<Longrightarrow> msg_known M (h_votes h) i m"
  by (auto simp: heard_def msg_known_def between_voters_def is_vote_type_def is_grant_def msg_ok_def)

lemma heardD:
  assumes "heard M h i m"
  shows "m_type m = MsgApp \<Longrightarrow> offered M h m" "m_type m = MsgHeartbeat \<Longrightarrow> beaten M h m"
    "m_type m = MsgSnap \<Longrightarrow> carried M h m" "m_type m = MsgSnap \<Longrightarrow> snap_conf M (m_snapshot m)"
    "m_type m = MsgVote \<Longrightarrow> asked h m"
    "m_type m = MsgVoteResp \<Longrightarrow> m_reject m \<or> (m_from m, i, m_term m) \<in> h_votes h"
    "m_type m = MsgAppResp \<Longrightarrow> m_reject m \<or> m_index m \<le> h_acked h (m_from m) (m_term m)"
    "between_voters (m_type m) \<Longrightarrow> m_term m \<noteq> 0 \<and> m_from m \<in> M \<and> m_from m \<noteq> 0 \<and> m_to m = i"
proof -
  have m: "msg_ok M h m" and v: "between_voters (m_type m) \<longrightarrow> m_term m \<noteq> 0 \<and> m_from m \<in> M \<and> m_from m \<noteq> 0 \<and> m_to m = i"
    and c: "m_type m = MsgSnap \<longrightarrow> snap_conf M (m_snapshot m)"
    using assms by (simp_all add: heard_def)
  show "m_type m = MsgVoteResp \<Longrightarrow> m_reject m \<or> (m_from m, i, m_term m) \<in> h_votes h"
    using m v by (simp add: msg_ok_def between_voters_def)
qed (use assms in \<open>simp_all add: heard_def msg_ok_def\<close>)

lemma from_leader_term:
  assumes "heard M h i m" "between_voters (m_type m)" "m_term m = 0 \<or> m_term m = t"
  shows "m_term m = t" "m_from m \<noteq> 0" "m_to m = i" "m_from m \<in> M"
  using heardD(8) [OF assms(1,2)] assms(3) by auto

lemma okay_forward:
  assumes ok: "okay M i h r" and s: "raft_send r m = Some r'"
    and t: "m_type m = MsgProp \<or> m_type m = MsgReadIndex \<or> m_type m = MsgTransferLeader"
  shows "okay M i h r'"
proof -
  obtain x where x: "r' = r\<lparr>r_msgs := r_msgs r @ [x]\<rparr>" "m_type x = m_type m"
    using s t by (auto simp: raft_send_def is_vote_type_def Let_def split: Option.bind_splits)
  show ?thesis by (rule okay_says [OF ok]) (use x t in \<open>auto simp: unmoved_def msg_ok_def\<close>)
qed

section \<open>The term of a message\<close>

lemma step_term_okay:
  assumes ok: "okay M i h r" and m: "heard M h i m" and s: "step_term r m = Some (b, r')"
  shows "okay M i h r'"
proof -
  consider "r' = r" | "step_lower_term r m = Some r'" | "r_term r < m_term m" "step_higher_term r m = Some (b, r')"
    using s by (auto simp: step_term_def split: if_splits Option.bind_splits)
  then show ?thesis
  proof cases
    case 2
    have "r' = r \<or> raft_send r (new_message\<lparr>m_to := m_from m, m_type := MsgAppResp\<rparr>) = Some r'"
      using 2 m by (auto simp: step_lower_term_def heard_def split: if_splits Option.bind_splits)
    then show ?thesis
      using ok okay_reply [OF ok, of "new_message\<lparr>m_to := m_from m, m_type := MsgAppResp\<rparr>" r']
      by (auto simp: msg_ok_def new_message_def)
  next
    case 3
    have "r' = r \<or> (\<exists>lead. become_follower r (m_term m) lead = Some r')"
      using step_higher_term_cases [OF 3(2)] m by (auto simp: heard_def)
    then show ?thesis using ok okay_follower [OF ok, of "m_term m"] 3(1) by auto
  qed (use ok in simp)
qed

section \<open>The three roles\<close>

lemma role_of_step_fn:
  assumes "node_ok M h i r"
  shows "r_step_fn r = StepFollower \<Longrightarrow> r_state r = Follower" "r_step_fn r = StepCandidate \<Longrightarrow> r_state r = Candidate"
    "r_step_fn r = StepLeader \<Longrightarrow> r_state r = Leader"
proof -
  have "r_step_fn r = StepLeader \<longleftrightarrow> r_state r = Leader" "r_state r \<noteq> PreCandidate"
    "r_step_fn r = StepCandidate \<longleftrightarrow> r_state r = Candidate"
    using node_okD(3,12) [OF assms] by (auto simp: cand_ok_def)
  then show "r_step_fn r = StepFollower \<Longrightarrow> r_state r = Follower" "r_step_fn r = StepCandidate \<Longrightarrow> r_state r = Candidate"
    "r_step_fn r = StepLeader \<Longrightarrow> r_state r = Leader"
    by (cases "r_state r"; simp)+
qed

lemma follower_handles_okay:
  assumes ok: "okay M i h r" and st: "r_state r = Follower" and lead: "r_lead r = m_from m"
    and m: "heard M h i m" "m_term m = 0 \<or> m_term m = r_term r"
  shows "m_type m = MsgApp \<Longrightarrow> handle_append_entries r m = Some r' \<Longrightarrow> goes_on M i h r'"
    "m_type m = MsgHeartbeat \<Longrightarrow> handle_heartbeat r m = Some r' \<Longrightarrow> goes_on M i h r'"
    "m_type m = MsgSnap \<Longrightarrow> handle_snapshot r m = Some r' \<Longrightarrow> goes_on M i h r'"
proof -
  have f: "m_term m = r_term r \<and> r_lead r \<noteq> 0 \<and> m_to m = i" if "between_voters (m_type m)"
    using from_leader_term [OF m(1) that m(2)] lead by simp
  show "goes_on M i h r'" if "m_type m = MsgApp" "handle_append_entries r m = Some r'"
    by (rule handle_append_entries_okay [OF ok st _ heardD(1) [OF m(1) that(1)] _ that(2)])
      (use f that in \<open>auto simp: between_voters_def\<close>)
  show "goes_on M i h r'" if "m_type m = MsgHeartbeat" "handle_heartbeat r m = Some r'"
    by (rule goes_onI, rule handle_heartbeat_okay [OF ok st heardD(2) [OF m(1) that(1)] _ _ that(2)])
      (use f that in \<open>auto simp: between_voters_def\<close>)
  show "goes_on M i h r'" if "m_type m = MsgSnap" "handle_snapshot r m = Some r'"
    by (rule handle_snapshot_okay [OF ok st _ heardD(3) [OF m(1) that(1)] _ heardD(4) [OF m(1) that(1)] that(2)])
      (use f that in \<open>auto simp: between_voters_def\<close>)
qed

lemma step_follower_okay:
  assumes ok: "okay M i h r" and st: "r_state r = Follower" and m: "heard M h i m" "m_term m = 0 \<or> m_term m = r_term r"
    and t: "r_term r + 1 < W64" and room: "length (h_log h i) + 2 < W64" and s: "step_follower r m = Some (b, r')"
  shows "goes_on M i h r'"
proof -
  let ?r = "heard_from r m"
  have eq: "r_state ?r = Follower" "r_lead ?r = m_from m" "r_term ?r = r_term r"
    using st by (simp_all add: heard_from_def)
  have h: "okay M i h ?r" if "between_voters (m_type m)"
    using okay_heard [OF ok] from_leader_term [OF m(1) that m(2)] by simp
  have fwd: "raft_send r (m\<lparr>m_to := r_lead r\<rparr>) = Some r' \<Longrightarrow>
      m_type m = MsgProp \<or> m_type m = MsgReadIndex \<or> m_type m = MsgTransferLeader \<Longrightarrow> okay M i h r'"
    using okay_forward [OF ok] by simp
  have rs: "okay M i h (r\<lparr>r_read_states := x\<rparr>)" for x
    by (rule okay_says [OF ok]) (auto simp: unmoved_def)
  have "m_type m = MsgApp \<and> handle_append_entries ?r m = Some r' \<or>
      m_type m = MsgHeartbeat \<and> handle_heartbeat ?r m = Some r' \<or>
      m_type m = MsgSnap \<and> handle_snapshot ?r m = Some r' \<or> campaign r CampaignTransfer = Some r' \<or>
      r' = r \<or> (\<exists>x. r' = r\<lparr>r_read_states := x\<rparr>) \<or>
      (m_type m = MsgProp \<or> m_type m = MsgReadIndex \<or> m_type m = MsgTransferLeader) \<and>
        raft_send r (m\<lparr>m_to := r_lead r\<rparr>) = Some r'"
    using s by (cases "m_type m")
      (auto simp: step_follower_def ok_with_def forward_to_leader_def split: if_splits list.splits Option.bind_splits)
  then consider (app) "m_type m = MsgApp" "handle_append_entries ?r m = Some r'"
    | (beat) "m_type m = MsgHeartbeat" "handle_heartbeat ?r m = Some r'"
    | (snap) "m_type m = MsgSnap" "handle_snapshot ?r m = Some r'"
    | (now) "campaign r CampaignTransfer = Some r'" | (rest) "okay M i h r'"
    using ok rs fwd by blast
  then show ?thesis
  proof cases
    case app
    have "okay M i h ?r" by (rule h) (simp add: app(1) between_voters_def)
    then show ?thesis using follower_handles_okay(1) [OF _ eq(1,2) m(1)] m(2) app eq(3) by simp
  next
    case beat
    have "okay M i h ?r" by (rule h) (simp add: beat(1) between_voters_def)
    then show ?thesis using follower_handles_okay(2) [OF _ eq(1,2) m(1)] m(2) beat eq(3) by simp
  next
    case snap
    have "okay M i h ?r" by (rule h) (simp add: snap(1) between_voters_def)
    then show ?thesis using follower_handles_okay(3) [OF _ eq(1,2) m(1)] m(2) snap eq(3) by simp
  next
    case now
    show ?thesis by (rule campaign_goes [OF ok now _ t room]) simp
  qed (rule goes_onI)
qed

lemma step_candidate_okay:
  assumes ok: "okay M i h r" and st: "r_state r = Candidate" and m: "heard M h i m" "m_term m = 0 \<or> m_term m = r_term r"
    and room: "length (h_log h i) + 2 < W64" and s: "step_candidate r m = Some (b, r')"
  shows "goes_on M i h r'"
proof -
  have follow: "okay M i h r1 \<and> r_state r1 = Follower \<and> r_lead r1 = m_from m \<and> r_term r1 = r_term r"
    if "become_follower r (m_term m) (m_from m) = Some r1" "between_voters (m_type m)" for r1
  proof -
    have f: "m_term m = r_term r" "m_from m \<noteq> 0" using from_leader_term [OF m(1) that(2) m(2)] by simp_all
    have "okay M i h r1" by (rule okay_follower [OF ok that(1)]) (use f in auto)
    then show ?thesis using become_follower_sel [OF that(1)] f by simp
  qed
  consider (same) "r' = r" | (resp) "m_type m = MsgVoteResp" "candidate_vote_resp r m = Some r'"
    | (hand) r1 where "become_follower r (m_term m) (m_from m) = Some r1"
        "m_type m = MsgApp \<and> handle_append_entries r1 m = Some r' \<or>
         m_type m = MsgHeartbeat \<and> handle_heartbeat r1 m = Some r' \<or>
         m_type m = MsgSnap \<and> handle_snapshot r1 m = Some r'"
    using s m(1)
    by (cases "m_type m") (auto simp: step_candidate_def ok_with_def heard_def split: Option.bind_splits)
  then show ?thesis
  proof cases
    case same
    then show ?thesis using goes_onI [OF ok] by simp
  next
    case resp
    have b: "between_voters (m_type m)" by (simp add: resp(1) between_voters_def)
    note f = from_leader_term [OF m(1) b m(2)]
    show ?thesis
      by (rule candidate_vote_resp_goes [OF ok st resp(2) f(4) _ room]) (use heardD(6) [OF m(1) resp(1)] f in simp)
  next
    case (hand r1)
    have "between_voters (m_type m)" using hand(2) by (auto simp: between_voters_def)
    then have r1: "okay M i h r1" "r_state r1 = Follower" "r_lead r1 = m_from m" "m_term m = 0 \<or> m_term m = r_term r1"
      using follow [OF hand(1)] m(2) by auto
    show ?thesis using hand(2) follower_handles_okay [OF r1(1,2,3) m(1) r1(4)] by blast
  qed
qed

lemma step_leader_okay:
  assumes ok: "okay M i h r" and st: "r_state r = Leader" and m: "heard M h i m" "m_term m = 0 \<or> m_term m = r_term r"
    and room: "length (h_log h i) + length (m_entries m) + 1 < W64" and s: "step_leader r m = Some (b, r')"
  shows "goes_on M i h r'"
proof -
  have l: "leads M i h r" using ok st by (simp add: leads_def)
  have vote: "r_vote r \<noteq> 0" using node_okD(3) [OF okayD(2) [OF ok]] st by (simp add: cand_ok_def)
  have down: "become_follower r (r_term r) 0 = Some r' \<Longrightarrow> okay M i h r'"
    by (rule okay_follower [OF ok]) (use vote in auto)
  have beat: "bcast_heartbeat r = Some r' \<Longrightarrow> leads M i h r'"
    using bcast_heartbeat_with_ctx_leads [OF l] by (auto simp: bcast_heartbeat_def)
  have resp: "leads M i h r'"
    if "get_progress r (m_from m) = Some pr" "step_leader_progress r m pr = Some r'" for pr
  proof (rule step_leader_progress_leads [OF l that(1) _ that(2)])
    assume ty: "m_type m = MsgAppResp"
    then have "m_term m = r_term r"
      using from_leader_term(1) [OF m(1) _ m(2)] by (simp add: between_voters_def)
    then show "m_reject m \<or> m_index m \<le> h_acked h (m_from m) (r_term r)"
      using heardD(7) [OF m(1) ty] by simp
  qed
  consider (beat) "bcast_heartbeat r = Some r'" | (down) "become_follower r (r_term r) 0 = Some r'"
    | (same) "r' = r" | (proposed) "leader_prop r m = Some (b, r')" | (reads) "leader_read_index r m = Some r'"
    | (prog) pr where "get_progress r (m_from m) = Some pr" "step_leader_progress r m pr = Some r'"
    using s by (cases "m_type m") (auto simp: step_leader_def ok_with_def split: if_splits option.splits Option.bind_splits)
  then show ?thesis
  proof cases
    case proposed
    then show ?thesis using leader_prop_leads [OF l room] leads_on_goes by blast
  next
    case reads
    then show ?thesis using leads_on_goes [OF leads_onI] leader_read_index_leads [OF l] by blast
  next
    case (prog pr)
    then show ?thesis using resp leads_on_goes [OF leads_onI] by blast
  qed (use beat down ok goes_onI leads_on_goes [OF leads_onI] in auto)
qed

lemma step_hup_okay:
  assumes ok: "okay M i h r" and t: "r_term r + 1 < W64" and room: "length (h_log h i) + 2 < W64"
    and s: "step_hup r = Some r'"
  shows "goes_on M i h r'"
proof -
  have "\<not> r_pre_vote r" using node_okD(3) [OF okayD(2) [OF ok]] by (simp add: cand_ok_def)
  then have "r' = r \<or> campaign r CampaignElection = Some r'"
    using s by (auto simp: step_hup_def split: if_splits Option.bind_splits sum.splits)
  then show ?thesis using goes_onI [OF ok] campaign_goes [OF ok _ _ t room] by auto
qed

theorem raft_step_goes:
  assumes ok: "okay M i h r" and m: "heard M h i m" and t: "r_term r + 1 < W64"
    and room: "length (h_log h i) + length (m_entries m) + 2 < W64" and s: "raft_step r m = Some (st, r')"
  shows "goes_on M i h r'"
proof -
  have id: "r_id r = i" by (rule node_okD(1) [OF okayD(2) [OF ok]])
  obtain b r1 where st1: "step_term r m = Some (b, r1)"
    using s by (auto simp: raft_step_def split: Option.bind_splits)
  have ok1: "okay M i h r1" by (rule step_term_okay [OF ok m st1])
  have r1: "r_term r1 + 1 < W64" "b \<or> m_term m = 0 \<or> m_term m = r_term r1"
    using step_term_safe [OF st1 _ t] heard_known [OF m] id by auto
  show ?thesis
  proof (cases b)
    case True
    then show ?thesis using s st1 goes_onI [OF ok1] by (simp add: raft_step_def)
  next
    case False
    then have mt: "m_term m = 0 \<or> m_term m = r_term r1" using r1(2) by simp
    note role = role_of_step_fn [OF okayD(2) [OF ok1]]
    have no_pre: "m_type m \<noteq> MsgPreVote" using m by (simp add: heard_def)
    have room2: "length (h_log h i) + 2 < W64" using room by simp
    consider (hup) "step_hup r1 = Some r'" | (vote) "m_type m = MsgVote" "step_vote r1 m = Some r'"
      | (follower) "r_step_fn r1 = StepFollower" "step_follower r1 m = Some (st, r')"
      | (candidate) "r_step_fn r1 = StepCandidate" "step_candidate r1 m = Some (st, r')"
      | (leader) "r_step_fn r1 = StepLeader" "step_leader r1 m = Some (st, r')"
      using s st1 False no_pre
      by (cases "m_type m"; cases "r_step_fn r1") (auto simp: raft_step_def ok_with_def split: Option.bind_splits)
    then show ?thesis
    proof cases
      case hup
      then show ?thesis by (rule step_hup_okay [OF ok1 r1(1) room2])
    next
      case vote
      have "between_voters (m_type m)" by (simp add: vote(1) between_voters_def)
      from from_leader_term [OF m this mt] show ?thesis
        using step_vote_okay [OF ok1 heardD(5) [OF m vote(1)] vote(1) _ _ vote(2)] by simp
    next
      case follower
      then show ?thesis using step_follower_okay [OF ok1 role(1) m mt r1(1) room2] by blast
    next
      case candidate
      then show ?thesis using step_candidate_okay [OF ok1 role(2) m mt room2] by blast
    next
      case leader
      show ?thesis by (rule step_leader_okay [OF ok1 role(3) m mt _ leader(2)]) (use leader(1) room in simp_all)
    qed
  qed
qed

section \<open>The clock\<close>

lemma local_heard: "local_msg m \<Longrightarrow> heard M h i m"
  by (auto simp: local_msg_def heard_def msg_ok_def between_voters_def)

lemma okay_clocks:
  assumes "okay M i h r"
  shows "okay M i h (r\<lparr>r_election_elapsed := a\<rparr>)" "okay M i h (r\<lparr>r_heartbeat_elapsed := b\<rparr>)"
    "okay M i h (abort_leader_transfer r)"
  by (rule okay_says [OF assms]; simp add: unmoved_def abort_leader_transfer_def)+

lemma check_quorum_okay:
  assumes ok: "okay M i h r" and s: "raft_step r m = Some (st, r')" and m: "m_type m = MsgCheckQuorum" "m_term m = 0"
  shows "okay M i h r'"
proof -
  have "r' = r \<or> r_step_fn r = StepLeader \<and> become_follower r (r_term r) 0 = Some r'"
    using s m by (auto simp: raft_step_def step_term_def step_follower_def step_candidate_def step_leader_def ok_with_def
        split: step_fn.splits if_splits Option.bind_splits)
  then show ?thesis
  proof (elim disjE conjE)
    assume f: "r_step_fn r = StepLeader" "become_follower r (r_term r) 0 = Some r'"
    then have "r_vote r \<noteq> 0"
      using node_okD(3) [OF okayD(2) [OF ok]] role_of_step_fn(3) [OF okayD(2) [OF ok]] by (simp add: cand_ok_def)
    then show ?thesis by (intro okay_follower [OF ok f(2)]) auto
  qed (use ok in simp)
qed

lemma tick_check_quorum_okay:
  assumes ok: "okay M i h r" and s: "tick_check_quorum r = Some r'"
  shows "okay M i h r' \<and> r_term r' = r_term r"
proof -
  let ?ra = "r\<lparr>r_election_elapsed := 0\<rparr>"
  let ?m = "new_message\<lparr>m_from := r_id ?ra, m_type := MsgCheckQuorum\<rparr>"
  have m: "m_type ?m = MsgCheckQuorum" "m_term ?m = 0" by (simp_all add: new_message_def)
  obtain rb where rb: "rb = ?ra \<or> (\<exists>st. raft_step ?ra ?m = Some (st, rb))"
      and r': "r' = rb \<or> r' = abort_leader_transfer rb"
    using s by (auto simp: tick_check_quorum_def Let_def split: if_split_asm Option.bind_splits)
  have "okay M i h rb \<and> r_term rb = r_term r"
    using rb okay_clocks(1) [OF ok] check_quorum_okay [OF okay_clocks(1) [OF ok] _ m] check_quorum_term [OF _ m]
    by fastforce
  then show ?thesis using r' okay_clocks(3) by (auto simp: abort_leader_transfer_def)
qed

theorem raft_tick_goes:
  assumes ok: "okay M i h r" and t: "r_term r + 1 < W64" and room: "length (h_log h i) + 2 < W64"
    and s: "raft_tick r = Some r'"
  shows "goes_on M i h r'"
proof -
  have step: "goes_on M i h b"
    if "okay M i h a" "r_term a = r_term r" "local_msg m" "m_entries m = []" "raft_step a m = Some (st, b)" for a b m st
    by (rule raft_step_goes [OF that(1) local_heard [OF that(3)] _ _ that(5)]) (use that t room in simp_all)
  show ?thesis
  proof (cases "r_tick_fn r")
    case TickElection
    let ?r1 = "r\<lparr>r_election_elapsed := add32 (r_election_elapsed r) 1\<rparr>"
    let ?m = "new_message\<lparr>m_from := r_id ?r1, m_type := MsgHup\<rparr>"
    have m: "local_msg ?m" "m_entries ?m = []" by (simp_all add: local_msg_def new_message_def)
    have "?r1 = r' \<or> (\<exists>st. raft_step (?r1\<lparr>r_election_elapsed := 0\<rparr>) ?m = Some (st, r'))"
      using s TickElection
      by (auto simp: raft_tick_def tick_election_def Let_def split: if_splits Option.bind_splits)
    then show ?thesis
      using goes_onI okay_clocks(1) [OF ok] step [OF okay_clocks(1) [OF okay_clocks(1) [OF ok]] _ m] by auto
  next
    case TickHeartbeat
    let ?r1 = "r\<lparr>r_heartbeat_elapsed := add32 (r_heartbeat_elapsed r) 1,
               r_election_elapsed := add32 (r_election_elapsed r) 1\<rparr>"
    have ok1: "okay M i h ?r1" by (intro okay_clocks ok)
    obtain r2 where r2: "r2 = ?r1 \<or> tick_check_quorum ?r1 = Some r2"
      and rest: "r2 = r' \<or> (\<exists>st. raft_step (r2\<lparr>r_heartbeat_elapsed := 0\<rparr>)
            (new_message\<lparr>m_from := r_id r2, m_type := MsgBeat\<rparr>) = Some (st, r'))"
    proof -
      obtain r2 where a: "(if r_election_elapsed ?r1 \<ge> r_election_timeout ?r1
            then tick_check_quorum ?r1 else Some ?r1) = Some r2"
        and b: "(if r_state r2 \<noteq> Leader then Some r2
         else if r_heartbeat_elapsed r2 \<ge> r_heartbeat_timeout r2 then do {
           (_, r3) \<leftarrow> raft_step (r2\<lparr>r_heartbeat_elapsed := 0\<rparr>)
                       (new_message\<lparr>m_from := r_id r2, m_type := MsgBeat\<rparr>);
           Some r3
         }
         else Some r2) = Some r'"
        using s TickHeartbeat unfolding raft_tick_def tick_heartbeat_def Let_def
        by (simp only: tick_fn.case bind_eq_Some_conv) blast
      show ?thesis
        by (rule that [of r2]) (use a b in \<open>auto split: if_split_asm Option.bind_splits\<close>)
    qed
    have ok2: "okay M i h r2 \<and> r_term r2 = r_term r" using r2 ok1 tick_check_quorum_okay [OF ok1] by auto
    have m: "local_msg (new_message\<lparr>m_from := r_id r2, m_type := MsgBeat\<rparr>)"
        "m_entries (new_message\<lparr>m_from := r_id r2, m_type := MsgBeat\<rparr>) = []"
      by (simp_all add: local_msg_def new_message_def)
    show ?thesis
      using rest ok2 goes_onI step [OF okay_clocks(2) _ m] by auto
  qed
qed

end
