(* ===== verification/Snapshotter.thy ===== *)
theory Snapshotter
  imports Wal_Dir
begin

text \<open>
  \<open>snap/snapshotter.cpp\<close>: snapshots as files of a directory, each a length, a checksum and the msgpack
  encoding of the snapshot.  The encoding is a parameter; a conversion that throws may have written a
  part of its result, so a decoder takes the old value and returns the new one with its verdict.
\<close>

section \<open>Operations\<close>

record snap_codec =
  pk_snapshot :: "snapshot \<Rightarrow> string"
  up_snapshot :: "string \<Rightarrow> snapshot \<Rightarrow> bool \<times> snapshot"

definition snap_codec_ok :: "snap_codec \<Rightarrow> bool" where
  "snap_codec_ok k \<longleftrightarrow> (\<forall>s old. up_snapshot k (pk_snapshot k s) old = (True, s))"

definition snap_name :: "nat \<Rightarrow> nat \<Rightarrow> string" where
  "snap_name tm index = hex_pad 16 tm @ ''-'' @ hex_pad 16 index @ ''.snap''"

definition snap_bytes :: "codec \<Rightarrow> snap_codec \<Rightarrow> snapshot \<Rightarrow> string" where
  "snap_bytes c k snap =
     (let buf = pk_snapshot k snap;
          data_len = length buf mod W32
      in le_bytes 4 data_len @ le_bytes 4 (compute_crc32 c buf) @ take data_len buf)"

definition snapper_save :: "codec \<Rightarrow> snap_codec \<Rightarrow> snapshot \<Rightarrow> dir \<Rightarrow> status \<times> dir" where
  "snapper_save c k snap d =
     (StatusOk, AList.update (snap_name (s_term snap) (s_index snap)) (snap_bytes c k snap) d)"

definition get_snap_names :: "dir \<Rightarrow> string list" where
  "get_snap_names d = rev (sort (filter (\<lambda>n. path_extension n = ''.snap'') (map fst d)))"

text \<open>A file that cannot be used is set aside.  Renaming a file that is not there throws.\<close>

definition break_snap :: "string \<Rightarrow> dir \<Rightarrow> dir option" where
  "break_snap name d = do {
     content \<leftarrow> map_of d name;
     Some (AList.update (name @ ''.broken'') content (AList.delete name d))
   }"

definition unexpected_empty_snapshot :: status where
  "unexpected_empty_snapshot = IOError ''unexpected empty snapshot''"

definition load_snap ::
  "codec \<Rightarrow> snap_codec \<Rightarrow> string \<Rightarrow> snapshot \<Rightarrow> dir \<Rightarrow> (status \<times> snapshot \<times> dir) option" where
  "load_snap c k name snap d =
     (let invalid = (\<lambda>snap. do { d' \<leftarrow> break_snap name d; Some (unexpected_empty_snapshot, snap, d') })
      in case map_of d name of
           None \<Rightarrow> invalid snap
         | Some content \<Rightarrow>
             if length content < 8 then invalid snap
             else
               let data_len = of_le (take 4 content);
                   crc = of_le (take 4 (drop 4 content));
                   rest = drop 8 content
               in if data_len = 0 \<or> crc = 0 then invalid snap
                  else if length rest < data_len then invalid snap
                  else
                    let data = take data_len rest
                    in if compute_crc32 c data \<noteq> crc then invalid snap
                       else
                         let (ok, snap') = up_snapshot k data snap
                         in if ok then Some (StatusOk, snap', d) else invalid snap')"

primrec load_first ::
  "codec \<Rightarrow> snap_codec \<Rightarrow> string list \<Rightarrow> snapshot \<Rightarrow> dir \<Rightarrow> (status \<times> snapshot \<times> dir) option" where
  "load_first c k [] snap d = Some (NotFound ''snap not found in Snapshooter::load()'', snap, d)"
| "load_first c k (name # names) snap d = do {
     (st, snap', d') \<leftarrow> load_snap c k name snap d;
     if is_ok st then Some (StatusOk, snap', d') else load_first c k names snap' d'
   }"

definition snapper_load ::
  "codec \<Rightarrow> snap_codec \<Rightarrow> snapshot \<Rightarrow> dir \<Rightarrow> (status \<times> snapshot \<times> dir) option" where
  "snapper_load c k snap d = load_first c k (get_snap_names d) snap d"

section \<open>Round trip\<close>

text \<open>A snapshot that the format can hold: less than 4 GiB, not empty, and with a checksum other than 0.\<close>

definition snap_fits :: "codec \<Rightarrow> snap_codec \<Rightarrow> snapshot \<Rightarrow> bool" where
  "snap_fits c k snap \<longleftrightarrow>
     0 < length (pk_snapshot k snap) \<and> length (pk_snapshot k snap) < W32 \<and>
     compute_crc32 c (pk_snapshot k snap) \<noteq> 0"

lemma compute_crc32_lt [simp]: "compute_crc32 c d < W32"
  by (simp add: compute_crc32_def)

lemma length_snap_bytes:
  "snap_fits c k snap \<Longrightarrow> length (snap_bytes c k snap) = 8 + length (pk_snapshot k snap)"
  by (simp add: snap_bytes_def snap_fits_def Let_def)

lemma snap_bytes_parts:
  assumes "snap_fits c k snap"
  shows "of_le (take 4 (snap_bytes c k snap)) = length (pk_snapshot k snap)"
    "of_le (take 4 (drop 4 (snap_bytes c k snap))) = compute_crc32 c (pk_snapshot k snap)"
    "drop 8 (snap_bytes c k snap) = pk_snapshot k snap"
  using assms by (simp_all add: snap_bytes_def snap_fits_def of_le_4 Let_def)

lemma load_snap_saved:
  assumes "snap_codec_ok k" "snap_fits c k snap" "map_of d name = Some (snap_bytes c k snap)"
  shows "load_snap c k name old d = Some (StatusOk, snap, d)"
proof -
  have "\<not> length (snap_bytes c k snap) < 8" "length (pk_snapshot k snap) \<noteq> 0"
    using length_snap_bytes [OF assms(2)] assms(2) by (auto simp: snap_fits_def)
  then show ?thesis
    using assms by (simp add: load_snap_def snap_bytes_parts snap_codec_ok_def snap_fits_def Let_def)
qed

lemma load_snap_torn:
  assumes "snap_fits c k snap" "map_of d name = Some (take n (snap_bytes c k snap))"
    "n < length (snap_bytes c k snap)"
  shows "load_snap c k name old d =
    Some (unexpected_empty_snapshot, old,
          AList.update (name @ ''.broken'') (take n (snap_bytes c k snap)) (AList.delete name d))"
proof (cases "n < 8")
  case True
  then show ?thesis using assms by (simp add: load_snap_def break_snap_def Let_def)
next
  case False
  then have "take 4 (take n (snap_bytes c k snap)) = take 4 (snap_bytes c k snap)"
    "length (drop 8 (take n (snap_bytes c k snap))) < length (pk_snapshot k snap)"
    using assms(3) length_snap_bytes [OF assms(1)] by (simp_all add: min_def)
  then show ?thesis
    using False assms snap_bytes_parts(1) [OF assms(1)]
    by (simp add: load_snap_def break_snap_def Let_def)
qed

section \<open>The newest snapshot first\<close>

lemma path_extension_snap: "path_extension (s @ ''.snap'') = ''.snap''"
  by (auto simp: path_extension_def)

lemma snap_name_extension: "path_extension (snap_name t i) = ''.snap''"
  using path_extension_snap [of "hex_pad 16 t @ ''-'' @ hex_pad 16 i"]
  by (simp only: snap_name_def append_assoc)

lemma snap_name_less:
  assumes "t < W64" "i < W64" "t' < W64" "i' < W64"
  shows "snap_name t i < snap_name t' i' \<longleftrightarrow> t < t' \<or> t = t' \<and> i < i'"
proof -
  have p: "(16::nat) ^ 16 = W64" by (simp add: W64_def)
  show ?thesis
    using assms hex_pad_less [of _ 16, unfolded p] hex_pad_eq [of _ 16, unfolded p]
    by (simp add: snap_name_def less_append_same_length)
qed

lemma greatest_first:
  fixes x :: "'a :: linorder"
  assumes "x \<in> set xs" "\<forall>y \<in> set xs. y \<le> x"
  shows "\<exists>ys. rev (sort xs) = x # ys"
proof -
  have ne: "sort xs \<noteq> []" using assms(1) by (cases xs) auto
  obtain i where i: "i < length (sort xs)" "x = sort xs ! i"
    using assms(1) by (metis in_set_conv_nth set_sort)
  then have "x \<le> sort xs ! (length (sort xs) - 1)"
    by (auto intro!: sorted_nth_mono)
  then have "x \<le> last (sort xs)" using ne by (simp add: last_conv_nth)
  moreover have "last (sort xs) \<le> x" using assms(2) last_in_set [OF ne] by simp
  ultimately have "last (sort xs) = x" by simp
  then have "sort xs = butlast (sort xs) @ [x]" using ne append_butlast_last_id by metis
  then have "rev (sort xs) = x # rev (butlast (sort xs))" by (metis rev_eq_Cons_iff rev_rev_ident)
  then show ?thesis by blast
qed

theorem snapshot_saved_loads:
  assumes "snap_codec_ok k" "snap_fits c k snap"
    and newest: "\<forall>n \<in> set (map fst d). path_extension n = ''.snap'' \<longrightarrow> n \<le> snap_name (s_term snap) (s_index snap)"
  shows "snapper_load c k old (snd (snapper_save c k snap d)) =
    Some (StatusOk, snap, snd (snapper_save c k snap d))"
proof -
  let ?n = "snap_name (s_term snap) (s_index snap)" and ?d = "snd (snapper_save c k snap d)"
  let ?names = "filter (\<lambda>n. path_extension n = ''.snap'') (map fst ?d)"
  have "?n \<in> set ?names" "\<forall>y \<in> set ?names. y \<le> ?n"
    using newest by (auto simp: snapper_save_def snap_name_extension)
  then obtain ns where "get_snap_names ?d = ?n # ns"
    using greatest_first [of ?n ?names] by (auto simp: get_snap_names_def)
  moreover have "load_snap c k ?n old ?d = Some (StatusOk, snap, ?d)"
    by (rule load_snap_saved [OF assms(1,2)]) (simp add: snapper_save_def)
  ultimately show ?thesis by (simp add: snapper_load_def)
qed

text \<open>
  A crash during the last save: the newest file is torn.  It is set aside, and the newest of the older
  ones is loaded.
\<close>

theorem torn_snapshot_falls_back:
  assumes "snap_codec_ok k" "snap_fits c k snap" "snap_fits c k prev"
    and n: "n < length (snap_bytes c k snap)"
    and names: "get_snap_names d = snap_name (s_term snap) (s_index snap) # snap_name (s_term prev) (s_index prev) # ns"
    and distinct: "snap_name (s_term snap) (s_index snap) \<noteq> snap_name (s_term prev) (s_index prev)"
    and torn: "map_of d (snap_name (s_term snap) (s_index snap)) = Some (take n (snap_bytes c k snap))"
    and good: "map_of d (snap_name (s_term prev) (s_index prev)) = Some (snap_bytes c k prev)"
  shows "snapper_load c k old d = Some (StatusOk, prev,
    AList.update (snap_name (s_term snap) (s_index snap) @ ''.broken'') (take n (snap_bytes c k snap))
      (AList.delete (snap_name (s_term snap) (s_index snap)) d))"
proof -
  let ?n = "snap_name (s_term snap) (s_index snap)" and ?p = "snap_name (s_term prev) (s_index prev)"
  let ?d = "AList.update (?n @ ''.broken'') (take n (snap_bytes c k snap)) (AList.delete ?n d)"
  have "path_extension (?n @ ''.broken'') \<noteq> ''.snap''"
    by (auto simp: path_extension_def)
  then have "?n @ ''.broken'' \<noteq> ?p" using snap_name_extension by metis
  then have "map_of ?d ?p = Some (snap_bytes c k prev)" using distinct good by simp
  then have "load_snap c k ?p old ?d = Some (StatusOk, prev, ?d)"
    by (rule load_snap_saved [OF assms(1,3)])
  then show ?thesis
    using load_snap_torn [OF assms(2) torn n, of old] names
    by (simp add: snapper_load_def unexpected_empty_snapshot_def)
qed

end
