(* ===== verification/Server.thy ===== *)
theory Server
  imports Node Snapshotter
begin

text \<open>
  \<open>server/raft_node.cpp\<close>: the server around a node.  It replays the write-ahead log at start, drives the
  node by its clock, by proposals and by messages, and works off the batches the node hands out:
  save, send, apply, and take snapshots.

  The storage of the server is the one its log reads (a shared pointer), so it has no field here.  What
  the server asks of the key-value store and of the transport is a list of events.  \<open>kv_data\<close> is what
  the store answers to \<open>get_snapshot\<close> after these events; it and the encodings are parameters, held
  by the record \<open>env\<close>.
\<close>

section \<open>State\<close>

datatype event =
    Send "message list"
  | AddPeer nat string
  | RemovePeer nat
  | Commit entry
  | Recover string
  | StartStore string
  | Reply status

record env =
  en_codec :: codec
  en_snaps :: snap_codec
  en_ser :: "conf_change \<Rightarrow> string"
  en_conf :: "string \<Rightarrow> conf_change option"
  kv_data :: "event list \<Rightarrow> string"

record server =
  sv_id :: nat
  sv_last_index :: nat
  sv_conf_state :: conf_state
  sv_snapshot_index :: nat
  sv_applied_index :: nat
  sv_node :: raw_node
  sv_snap_data :: string
  sv_snap_count :: nat
  sv_snaps :: dir
  sv_wal :: wal
  sv_events :: "event list"

definition defaultSnapCount :: nat where
  "defaultSnapCount = 100000"

definition snapshotCatchUpEntriesN :: nat where
  "snapshotCatchUpEntriesN = 100000"

abbreviation sv_log :: "server \<Rightarrow> raft_log" where
  "sv_log s \<equiv> r_log (n_raft (sv_node s))"

definition put_storage :: "memory_storage \<Rightarrow> server \<Rightarrow> server" where
  "put_storage st s =
     s\<lparr>sv_node := (sv_node s)\<lparr>n_raft :=
         (n_raft (sv_node s))\<lparr>r_log := (sv_log s)\<lparr>l_storage := st\<rparr>\<rparr>\<rparr>\<rparr>"

definition emit :: "event \<Rightarrow> server \<Rightarrow> server" where
  "emit e s = s\<lparr>sv_events := sv_events s @ [e]\<rparr>"

section \<open>Snapshots\<close>

text \<open>The return statement behind the first one is never reached.\<close>

definition save_snap :: "env \<Rightarrow> snapshot \<Rightarrow> server \<Rightarrow> (status \<times> server) option" where
  "save_snap env snap s = do {
     w \<leftarrow> wal_save_snapshot (en_codec env) \<lparr>ws_index = s_index snap, ws_term = s_term snap\<rparr> (sv_wal s);
     let (st, d) = snapper_save (en_codec env) (en_snaps env) snap (sv_snaps s);
     check (is_ok st);
     Some (st, s\<lparr>sv_wal := w, sv_snaps := d\<rparr>)
   }"

definition publish_snapshot :: "snapshot \<Rightarrow> server \<Rightarrow> server option" where
  "publish_snapshot snap s =
     (if snapshot_is_empty snap then Some s
      else do {
        check (\<not> s_index snap \<le> sv_applied_index s);
        Some (emit (Recover (s_data snap))
          (s\<lparr>sv_conf_state := s_conf snap, sv_snapshot_index := s_index snap,
             sv_applied_index := s_index snap\<rparr>))
      })"

definition maybe_trigger_snapshot :: "env \<Rightarrow> server \<Rightarrow> server option" where
  "maybe_trigger_snapshot env s =
     (if sub64 (sv_applied_index s) (sv_snapshot_index s) \<le> sv_snap_count s then Some s
      else do {
        let data = kv_data env (sv_events s);
        ((st, snap), storage) \<leftarrow> storage_create_snapshot (l_storage (sv_log s)) (sv_applied_index s)
          (Some (sv_conf_state s)) data;
        check (is_ok st);
        (st, s1) \<leftarrow> save_snap env snap (put_storage storage s);
        check (is_ok st);
        let compact_index = (if sv_applied_index s1 > snapshotCatchUpEntriesN
                             then sv_applied_index s1 - snapshotCatchUpEntriesN else 1);
        (st, storage) \<leftarrow> storage_compact (l_storage (sv_log s1)) compact_index;
        check (is_ok st);
        Some ((put_storage storage s1)\<lparr>sv_snapshot_index := sv_applied_index s1\<rparr>)
      })"

section \<open>Committed entries\<close>

text \<open>The pointer arithmetic adds before it subtracts; its sum is the same modulo \<open>2^64\<close>.\<close>

definition entries_to_apply :: "entry list \<Rightarrow> nat \<Rightarrow> entry list option" where
  "entries_to_apply es applied =
     (case es of
        [] \<Rightarrow> Some []
      | e # _ \<Rightarrow> do {
          let first = e_index e;
          check (\<not> first > add64 applied 1);
          let skip = add64 (sub64 applied first) 1;
          if skip < length es then vec_range es skip (length es) else Some []
        })"

text \<open>
  \<open>publish_entries\<close>.  A configuration change that does not unpack is skipped with a \<open>continue\<close>, and the
  removal of the node itself returns \<open>false\<close>; neither reaches the assignment of \<open>applied_index_\<close>.
\<close>

fun publish_entries :: "env \<Rightarrow> entry list \<Rightarrow> server \<Rightarrow> (bool \<times> server) option" where
  "publish_entries env [] s = Some (True, s)"
| "publish_entries env (e # es) s =
     (if e_type e = EntryNormal then
        publish_entries env es
          ((if e_data e = '''' then s else emit (Commit e) s)\<lparr>sv_applied_index := e_index e\<rparr>)
      else if e_type e = EntryConfChange then
        (case en_conf env (e_data e) of
           None \<Rightarrow> publish_entries env es s
         | Some cc \<Rightarrow> do {
             (cs, n) \<leftarrow> node_apply_conf_change (sv_node s) cc;
             let s1 = s\<lparr>sv_conf_state := cs, sv_node := n\<rparr>;
             if cc_type cc = ConfChangeRemoveNode \<and> cc_node_id cc = sv_id s then Some (False, s1)
             else
               let s2 = (if cc_type cc = ConfChangeAddNode then
                           (if cc_context cc = '''' then s1
                            else emit (AddPeer (cc_node_id cc) (cc_context cc)) s1)
                         else if cc_type cc = ConfChangeRemoveNode then emit (RemovePeer (cc_node_id cc)) s1
                         else s1)
               in publish_entries env es (s2\<lparr>sv_applied_index := e_index e\<rparr>)
           })
      else None)"

section \<open>The ready loop\<close>

definition ready_body :: "env \<Rightarrow> ready \<Rightarrow> server \<Rightarrow> server option" where
  "ready_body env rd s = do {
     w \<leftarrow> wal_save (en_codec env) (rd_hard_state rd) (rd_entries rd) (sv_wal s);
     let s = s\<lparr>sv_wal := w\<rparr>;
     s \<leftarrow> (if snapshot_is_empty (rd_snapshot rd) then Some s
          else do {
            (st, s) \<leftarrow> save_snap env (rd_snapshot rd) s;
            check (is_ok st);
            let s = put_storage (snd (storage_apply_snapshot (l_storage (sv_log s)) (rd_snapshot rd))) s;
            publish_snapshot (rd_snapshot rd) s
          });
     s \<leftarrow> (if rd_entries rd = [] then Some s
          else do {
            st \<leftarrow> storage_append (l_storage (sv_log s)) (rd_entries rd);
            Some (put_storage st s)
          });
     let s = (if rd_messages rd = [] then s else emit (Send (rd_messages rd)) s);
     s \<leftarrow> (if rd_committed rd = [] then Some s
          else do {
            ents \<leftarrow> entries_to_apply (rd_committed rd) (sv_applied_index s);
            if ents = [] then Some s
            else do {
              (b, s) \<leftarrow> publish_entries env ents s;
              Some s
            }
          });
     s \<leftarrow> maybe_trigger_snapshot env s;
     n \<leftarrow> node_advance (sv_node s) rd;
     Some (s\<lparr>sv_node := n\<rparr>)
   }"

partial_function (option) pull_ready_events :: "env \<Rightarrow> server \<Rightarrow> server option" where
  "pull_ready_events env s = do {
     more \<leftarrow> node_has_ready (sv_node s);
     if \<not> more then Some s
     else do {
       (rd, n) \<leftarrow> node_ready (sv_node s);
       if \<not> ready_contains_updates rd then Some (s\<lparr>sv_node := n\<rparr>)
       else do {
         s1 \<leftarrow> ready_body env rd (s\<lparr>sv_node := n\<rparr>);
         pull_ready_events env s1
       }
     }
   }"

declare pull_ready_events.simps [code]

section \<open>Inputs\<close>

definition on_timer :: "env \<Rightarrow> server \<Rightarrow> server option" where
  "on_timer env s = do {
     n \<leftarrow> node_tick (sv_node s);
     pull_ready_events env (s\<lparr>sv_node := n\<rparr>)
   }"

definition server_propose :: "env \<Rightarrow> string \<Rightarrow> server \<Rightarrow> server option" where
  "server_propose env data s = do {
     (st, n) \<leftarrow> node_propose (sv_node s) data;
     pull_ready_events env (emit (Reply st) (s\<lparr>sv_node := n\<rparr>))
   }"

definition server_process :: "env \<Rightarrow> message \<Rightarrow> server \<Rightarrow> server option" where
  "server_process env m s = do {
     (st, n) \<leftarrow> node_step (sv_node s) m;
     pull_ready_events env (emit (Reply st) (s\<lparr>sv_node := n\<rparr>))
   }"

definition is_id_removed :: "nat \<Rightarrow> server \<Rightarrow> bool" where
  "is_id_removed i s = False"

definition server_report_unreachable :: "nat \<Rightarrow> server \<Rightarrow> server" where
  "server_report_unreachable i s = s"

definition server_report_snapshot :: "nat \<Rightarrow> nat \<Rightarrow> server \<Rightarrow> server" where
  "server_report_snapshot i st s = s"

section \<open>Start\<close>

text \<open>The directories on disk; the log directory may not exist yet.\<close>

record disk =
  dk_wal :: "dir option"
  dk_snap :: dir

definition open_WAL :: "env \<Rightarrow> (string \<Rightarrow> nat) \<Rightarrow> snapshot \<Rightarrow> dir option \<Rightarrow> wal option" where
  "open_WAL env tell snap d =
     wal_open tell (case d of Some d \<Rightarrow> d | None \<Rightarrow> wal_create (en_codec env) [])
       \<lparr>ws_index = s_index snap, ws_term = s_term snap\<rparr>"

text \<open>Appending a list with a null pointer in it reads through the pointer.\<close>

primrec all_some :: "'a option list \<Rightarrow> 'a list option" where
  "all_some [] = Some []"
| "all_some (x # xs) = do { y \<leftarrow> x; ys \<leftarrow> all_some xs; Some (y # ys) }"

text \<open>\<open>replay_WAL\<close> returns the storage, the log, \<open>last_index_\<close>, \<open>snap_data_\<close> and the snapshot directory.\<close>

definition replay_WAL ::
  "env \<Rightarrow> (string \<Rightarrow> nat) \<Rightarrow> disk \<Rightarrow> (memory_storage \<times> wal \<times> nat \<times> string \<times> dir) option" where
  "replay_WAL env tell dk = do {
     (st, snap, snaps) \<leftarrow> snapper_load (en_codec env) (en_snaps env) empty_snapshot (dk_snap dk);
     check (is_ok st \<or> is_not_found st);
     let storage = (if is_ok st then snd (storage_apply_snapshot new_memory_storage snap)
                    else new_memory_storage);
     w \<leftarrow> open_WAL env tell snap (dk_wal dk);
     (hs, ents, w) \<leftarrow> wal_read_all (en_codec env) w;
     es \<leftarrow> all_some ents;
     storage \<leftarrow> storage_append (storage_set_hard_state storage hs) es;
     Some (storage, w, if es = [] then 0 else e_index (last es), if es = [] then s_data snap else '''', snaps)
   }"

definition server_config :: "nat \<Rightarrow> memory_storage \<Rightarrow> config" where
  "server_config i storage = new_config\<lparr>c_id := i, c_election_tick := 10, c_heartbeat_tick := 1,
     c_storage := Some storage, c_applied := 0, c_max_size_per_msg := 1024 * 1024,
     c_max_committed_size_per_ready := 0, c_max_uncommitted_entries_size := 2 ^ 30,
     c_max_inflight_msgs := 256, c_check_quorum := True, c_pre_vote := True,
     c_read_only_option := ReadOnlySafe, c_disable_fwd := False\<rparr>"

text \<open>
  The constructor, for a cluster of \<open>peers\<close> addresses.  It tests whether the log directory exists while
  the name of the directory is still empty, so it always takes the branch of a first start.
\<close>

definition new_server ::
  "env \<Rightarrow> (string \<Rightarrow> nat) \<Rightarrow> (nat \<Rightarrow> nat) \<Rightarrow> nat \<Rightarrow> nat \<Rightarrow> disk \<Rightarrow> server option" where
  "new_server env tell rnd i peers dk = do {
     (storage, w, lst, data, snaps) \<leftarrow> replay_WAL env tell dk;
     let (st, c) = config_validate (server_config i storage);
     check (is_ok st);
     n \<leftarrow> new_raw_node (en_ser env) c rnd (map (\<lambda>j. (j + 1, '''')) [0..<peers]);
     Some \<lparr>sv_id = i, sv_last_index = lst, sv_conf_state = empty_conf_state, sv_snapshot_index = 0,
       sv_applied_index = 0, sv_node = n, sv_snap_data = data, sv_snap_count = defaultSnapCount,
       sv_snaps = snaps, sv_wal = w, sv_events = []\<rparr>
   }"

text \<open>
  \<open>schedule\<close>, up to the event loop.  The snapshot is shared with the storage, so that moving its data to
  the store leaves the snapshot of the storage without data.
\<close>

definition take_snap_data :: "memory_storage \<Rightarrow> memory_storage" where
  "take_snap_data st = st\<lparr>ms_snapshot := (ms_snapshot st)\<lparr>s_data := ''''\<rparr>\<rparr>"

definition schedule :: "server \<Rightarrow> server" where
  "schedule s =
     (let st = l_storage (sv_log s); snap = storage_snapshot st
      in emit (StartStore (s_data snap))
           ((put_storage (take_snap_data st) s)\<lparr>sv_conf_state := s_conf snap, sv_snapshot_index := s_index snap,
              sv_applied_index := s_index snap, sv_snap_data := ''''\<rparr>))"

end
