(* ===== verification/Server_Rounds.thy ===== *)
theory Server_Rounds
  imports Server Log_Persist
begin

text \<open>
  The ready loop of the server, on committed entries that are not configuration changes: a round
  saves what the node hands out, applies the committed entries it has not applied yet, each once and
  in order, and takes a snapshot when enough of them have accumulated; the loop returns, and has then
  applied every committed entry.
\<close>

section \<open>Pieces of a round\<close>

lemma storage_append_frame:
  "storage_append s es = Some s' \<Longrightarrow> ms_snapshot s' = ms_snapshot s \<and> ms_hard_state s' = ms_hard_state s"
  by (auto simp: storage_append_def Let_def split: list.splits if_splits Option.bind_splits)

lemma storage_compact_frame:
  "storage_compact s i = Some (st, s') \<Longrightarrow> ms_snapshot s' = ms_snapshot s"
  by (auto simp: storage_compact_def Let_def split: if_splits Option.bind_splits)

text \<open>
  Persisting, cut into its two calls: the append works on the storage, the confirmation on the
  unstable part, whatever storage and applied index it finds.
\<close>

lemma persist_parts:
  assumes ok: "log_ok l" and ns: "u_snapshot (l_unstable l) = None"
  obtains lp where "log_ok lp" "log_base lp = log_base l" "log_bterm lp = log_bterm l" "log_ents lp = log_ents l"
    "u_entries (l_unstable lp) = []" "u_snapshot (l_unstable lp) = None"
    "storage_ents (l_storage lp) = log_ents l" "l_committed lp = l_committed l"
    "ms_snapshot (l_storage lp) = ms_snapshot (l_storage l)"
    "l_max_next_ents_size lp = l_max_next_ents_size l"
    "(if u_entries (l_unstable l) = [] then Some (l_storage l)
      else storage_append (l_storage l) (u_entries (l_unstable l))) = Some (l_storage lp)"
    "\<And>st a. (if u_entries (l_unstable l) = [] then Some (l\<lparr>l_storage := st, l_applied := a\<rparr>)
      else log_stable_to (l\<lparr>l_storage := st, l_applied := a\<rparr>) (e_index (last (u_entries (l_unstable l))))
             (e_term (last (u_entries (l_unstable l))))) = Some (lp\<lparr>l_storage := st, l_applied := a\<rparr>)"
proof -
  let ?u = "l_unstable l"
  obtain lp where lp: "log_persist l = Some lp" "log_ok lp" "log_base lp = log_base l"
      "log_bterm lp = log_bterm l" "log_ents lp = log_ents l" "u_entries (l_unstable lp) = []" "u_snapshot (l_unstable lp) = None"
      "storage_ents (l_storage lp) = log_ents l" "l_committed lp = l_committed l"
    using log_persist_plain [OF ok ns] by blast
  show thesis
  proof (cases "u_entries ?u = []")
    case True
    then have "lp = l" using lp(1) by (simp add: log_persist_def)
    then show thesis using that [of lp] lp True by simp
  next
    case False
    have "unstable_ok ?u" using ok by (simp add: log_ok_def log_shape_def)
    note st = stable_to_last [OF this False]
    obtain s where s: "storage_append (l_storage l) (u_entries ?u) = Some s"
      using lp(1) False by (auto simp: log_persist_def split: Option.bind_splits)
    have "lp = l\<lparr>l_storage := s, l_unstable := ?u\<lparr>u_entries := [], u_offset := u_offset ?u + length (u_entries ?u)\<rparr>\<rparr>"
      using lp(1) False s st by (simp add: log_persist_def log_stable_to_def)
    then show thesis
      using that [of lp] lp(2-) False s st storage_append_frame [OF s] by (simp add: log_stable_to_def)
  qed
qed

text \<open>The same behind a snapshot that the storage takes over first.\<close>

lemma persist_snapshot_parts:
  assumes ok: "log_ok l" and sn: "u_snapshot (l_unstable l) = Some snap"
    and newer: "s_index (ms_snapshot (l_storage l)) < s_index snap"
  obtains st0 lp where "storage_apply_snapshot (l_storage l) snap = (StatusOk, st0)"
    "log_ok lp" "log_base lp = s_index snap" "log_bterm lp = log_bterm l" "log_ents lp = log_ents l"
    "u_entries (l_unstable lp) = []" "u_snapshot (l_unstable lp) = None"
    "l_committed lp = l_committed l" "ms_snapshot (l_storage lp) = snap"
    "(if u_entries (l_unstable l) = [] then Some st0
      else storage_append st0 (u_entries (l_unstable l))) = Some (l_storage lp)"
    "\<And>st a. (do {
        l2 \<leftarrow> (if u_entries (l_unstable l) = [] then Some (l\<lparr>l_storage := st, l_applied := a\<rparr>)
               else log_stable_to (l\<lparr>l_storage := st, l_applied := a\<rparr>) (e_index (last (u_entries (l_unstable l))))
                      (e_term (last (u_entries (l_unstable l)))));
        Some (log_stable_snap_to l2 (s_index snap))
      }) = Some (lp\<lparr>l_storage := st, l_applied := a\<rparr>)"
proof -
  let ?u = "l_unstable l"
  have shape: "log_shape l" and uok: "unstable_ok ?u" using ok by (auto simp: log_ok_def log_shape_def)
  have base: "log_base l = s_index snap" using sn by (auto intro: log_shape_cases [OF shape])
  have w: "s_index snap + 1 < W64" using log_shape_bound [OF shape] base by simp
  obtain st0 where st0: "storage_apply_snapshot (l_storage l) snap = (StatusOk, st0)" "ms_snapshot st0 = snap"
    using storage_apply_snapshot_view [OF newer w] by blast
  obtain lp where lp: "log_persist_snapshot l snap = Some lp" "log_ok lp" "log_base lp = log_base l"
      "log_bterm lp = log_bterm l" "log_ents lp = log_ents l" "u_entries (l_unstable lp) = []" "u_snapshot (l_unstable lp) = None"
      "l_committed lp = l_committed l"
    using log_persist_with_snapshot [OF ok sn newer] by blast
  have snapto: "unstable_stable_snap_to (u'\<lparr>u_snapshot := Some snap\<rparr>) (s_index snap) = u'\<lparr>u_snapshot := None\<rparr>" for u'
    by (simp add: unstable_stable_snap_to_def)
  show thesis
  proof (cases "u_entries ?u = []")
    case True
    then have "lp = l\<lparr>l_storage := st0, l_unstable := ?u\<lparr>u_snapshot := None\<rparr>\<rparr>"
      using lp(1) st0 sn by (simp add: log_persist_snapshot_def log_persist_def log_stable_snap_to_def
          unstable_stable_snap_to_def)
    then show thesis
      using that [of st0 lp] lp(2-) base True st0 sn
      by (simp add: log_stable_snap_to_def unstable_stable_snap_to_def)
  next
    case False
    note st = stable_to_last [OF uok False]
    obtain s' where s': "storage_append st0 (u_entries ?u) = Some s'"
      using lp(1) False st0(1) by (auto simp: log_persist_snapshot_def log_persist_def split: Option.bind_splits)
    have "lp = l\<lparr>l_storage := s', l_unstable :=
        ?u\<lparr>u_entries := [], u_offset := u_offset ?u + length (u_entries ?u), u_snapshot := None\<rparr>\<rparr>"
      using lp(1) False st0(1) s' st sn
      by (simp add: log_persist_snapshot_def log_persist_def log_stable_to_def log_stable_snap_to_def
          unstable_stable_snap_to_def)
    then show thesis
      using that [of st0 lp] lp(2-) base False s' st st0 sn storage_append_frame [OF s']
      by (simp add: log_stable_to_def log_stable_snap_to_def unstable_stable_snap_to_def)
  qed
qed

lemma storage_create_snapshot_view:
  assumes ok: "storage_ok s" and i: "storage_base s \<le> i" "i \<le> storage_base s + length (storage_ents s)"
    and new: "s_index (ms_snapshot s) < i"
  shows "\<exists>snap. storage_create_snapshot s i (Some cs) d = Some ((StatusOk, snap), s\<lparr>ms_snapshot := snap\<rparr>) \<and>
    s_index snap = i \<and> s_data snap = d \<and> s_conf snap = cs \<and>
    s_term snap = term_at (storage_base s) (storage_bterm s) (storage_ents s) i"
proof -
  obtain d0 ds where s: "ms_entries s = d0 # ds" "consec (e_index d0 + 1) ds"
      "e_index d0 + length ds + 1 < W64" and v: "storage_base s = e_index d0"
      "storage_bterm s = e_term d0" "storage_ents s = ds"
    using ok by (rule storage_okE)
  have lst: "storage_last_index s = Some (e_index d0 + length ds)"
    using stor.view_last [OF ok] v by simp
  have "vec_at (ms_entries s) (sub64 i (e_index d0)) = Some ((d0 # ds) ! (i - e_index d0))"
    using i v s(1) by (simp add: sub64_exact vec_at_def)
  moreover have "e_term ((d0 # ds) ! (i - e_index d0)) = term_at (e_index d0) (e_term d0) ds i"
    using i v by (auto simp: term_at_def nth_Cons')
  ultimately show ?thesis
    using s(1) lst new i v by (simp add: storage_create_snapshot_def Let_def not_le)
qed

lemma wal_save_total:
  assumes "w_files w \<noteq> []"
  shows "\<exists>w'. wal_save c hs es w = Some w' \<and> w_files w' \<noteq> []"
proof -
  have onb: "\<exists>w'. on_back f w = Some w' \<and> w_files w' \<noteq> []" if "w_files w \<noteq> []" for f w
    using that by (simp add: on_back_def)
  have entry: "\<exists>w'. wal_save_entry c e w = Some w' \<and> w_files w' \<noteq> []" if "w_files w \<noteq> []" for e w
    using onb [OF that, of "file_append c wal_EntryType (pk_entry c e)"] by (auto simp: wal_save_entry_def)
  obtain w1 where w1: "each (wal_save_entry c) es w = Some w1" "w_files w1 \<noteq> []"
    using each_total [of "\<lambda>w. w_files w \<noteq> []" w es "wal_save_entry c"] assms entry by blast
  have "\<exists>w'. wal_save_hard_state c hs w1 = Some w' \<and> w_files w' \<noteq> []"
    using w1(2) onb [of "w1\<lparr>w_state := hs\<rparr>"] by (auto simp: wal_save_hard_state_def)
  then obtain w2 where w2: "wal_save_hard_state c hs w1 = Some w2" "w_files w2 \<noteq> []" by blast
  show ?thesis
    using w1(1) w2 onb [OF w2(2), of file_sync] assms by (auto simp: wal_save_def wal_cut_def Let_def)
qed

lemma wal_save_snapshot_total:
  "w_files w \<noteq> [] \<Longrightarrow> \<exists>w'. wal_save_snapshot c s w = Some w' \<and> w_files w' \<noteq> []"
  by (auto simp: wal_save_snapshot_def on_back_def Let_def)

section \<open>Entries to apply\<close>

text \<open>Of consecutive entries that start at most one behind the applied index, those beyond it.\<close>

theorem entries_to_apply_eq:
  assumes "consec i es" "i \<le> a + 1" "0 < i" "a + 1 < W64" "i + length es < W64"
  shows "entries_to_apply es a = Some (drop (a + 1 - i) es)"
proof (cases es)
  case (Cons e r)
  have skip: "add64 (sub64 a i) 1 = a + 1 - i"
  proof (cases "i \<le> a")
    case True
    then show ?thesis using assms(4) by (simp add: sub64_exact add64_exact)
  next
    case False
    then have "i = a + 1" using assms(2) by simp
    then show ?thesis by (simp add: sub64_def add64_def)
  qed
  have "e_index e = i" using assms(1) Cons by simp
  moreover have "\<not> i > add64 a 1" using assms(2,4) by (simp add: add64_exact)
  ultimately show ?thesis
    using skip by (simp add: entries_to_apply_def Cons Let_def)
qed (simp add: entries_to_apply_def)

lemma entries_to_apply_gap:
  assumes "a + 1 < e_index e" "a + 1 < W64"
  shows "entries_to_apply (e # es) a = None"
  using assms by (simp add: entries_to_apply_def add64_exact Let_def)

section \<open>Publishing entries\<close>

text \<open>
  The entries these theorems are about: ordinary ones, and changes of the membership that unpack and
  remove nobody.
\<close>

definition plain_entry :: "env \<Rightarrow> entry \<Rightarrow> bool" where
  "plain_entry env e \<longleftrightarrow> e_type e = EntryNormal \<or>
     e_type e = EntryConfChange \<and>
     (case en_conf env (e_data e) of
        None \<Rightarrow> False
      | Some cc \<Rightarrow> cc_type cc \<in> {ConfChangeAddNode, ConfChangeAddLearnerNode, ConfChangeUpdateNode})"

definition plain :: "env \<Rightarrow> entry list \<Rightarrow> bool" where
  "plain env es \<longleftrightarrow> (\<forall>e \<in> set es. plain_entry env e)"

lemma plain_simps [simp]:
  "plain env []" "plain env (e # es) \<longleftrightarrow> plain_entry env e \<and> plain env es"
  "plain env (xs @ ys) \<longleftrightarrow> plain env xs \<and> plain env ys"
  by (auto simp: plain_def)

lemma plain_drop: "plain env es \<Longrightarrow> plain env (drop n es)"
  by (auto simp: plain_def dest: in_set_dropD)

lemma plain_take: "plain env es \<Longrightarrow> plain env (take n es)"
  by (auto simp: plain_def dest: in_set_takeD)

text \<open>What the server tells the store and the transport when it applies them.\<close>

definition entry_events :: "env \<Rightarrow> entry \<Rightarrow> event list" where
  "entry_events env e =
     (if e_type e = EntryNormal then (if e_data e = '''' then [] else [Commit e])
      else case en_conf env (e_data e) of
        None \<Rightarrow> []
      | Some cc \<Rightarrow>
          if cc_type cc = ConfChangeAddNode \<and> cc_context cc \<noteq> ''''
          then [AddPeer (cc_node_id cc) (cc_context cc)] else [])"

definition effects :: "env \<Rightarrow> entry list \<Rightarrow> event list" where
  "effects env es = concat (map (entry_events env) es)"

lemma effects_simps [simp]:
  "effects env [] = []" "effects env (e # es) = entry_events env e @ effects env es"
  "effects env (xs @ ys) = effects env xs @ effects env ys"
  by (simp_all add: effects_def)

text \<open>Applying them changes the membership at most.\<close>

definition same_group :: "raft \<Rightarrow> raft \<Rightarrow> bool" where
  "same_group r r' \<longleftrightarrow>
     r' = r\<lparr>r_prs := r_prs r', r_learner_prs := r_learner_prs r', r_is_learner := r_is_learner r'\<rparr>"

lemma same_group_refl [simp]: "same_group r r"
  by (simp add: same_group_def)

lemma same_group_iff:
  "same_group r r' \<longleftrightarrow> (\<exists>ps ls b. r' = r\<lparr>r_prs := ps, r_learner_prs := ls, r_is_learner := b\<rparr>)"
proof
  assume "\<exists>ps ls b. r' = r\<lparr>r_prs := ps, r_learner_prs := ls, r_is_learner := b\<rparr>"
  then obtain ps ls b where "r' = r\<lparr>r_prs := ps, r_learner_prs := ls, r_is_learner := b\<rparr>" by blast
  then show "same_group r r'" by (simp add: same_group_def)
qed (unfold same_group_def, blast)

lemma same_group_trans:
  assumes "same_group a b" "same_group b c"
  shows "same_group a c"
proof -
  obtain ps ls x ps' ls' x' where "b = a\<lparr>r_prs := ps, r_learner_prs := ls, r_is_learner := x\<rparr>"
    "c = b\<lparr>r_prs := ps', r_learner_prs := ls', r_is_learner := x'\<rparr>"
    using assms unfolding same_group_iff by blast
  then have "c = a\<lparr>r_prs := ps', r_learner_prs := ls', r_is_learner := x'\<rparr>" by simp
  then show ?thesis unfolding same_group_iff by blast
qed

lemma same_groupD:
  assumes "same_group r r'"
  shows "r_log r' = r_log r" "r_msgs r' = r_msgs r" "r_read_states r' = r_read_states r"
    "raft_soft_state r' = raft_soft_state r" "raft_hard_state r' = raft_hard_state r"
  by (subst assms [unfolded same_group_def]; simp add: raft_soft_state_def raft_hard_state_def)+

definition member_step :: "server \<Rightarrow> server \<Rightarrow> bool" where
  "member_step s s' \<longleftrightarrow>
     s' = s\<lparr>sv_conf_state := sv_conf_state s', sv_node := (sv_node s)\<lparr>n_raft := n_raft (sv_node s')\<rparr>\<rparr> \<and>
     same_group (n_raft (sv_node s)) (n_raft (sv_node s'))"

lemma member_step_refl [simp]: "member_step s s"
  by (simp add: member_step_def)

lemma member_step_iff:
  "member_step s s' \<longleftrightarrow> (\<exists>cs r. s' = s\<lparr>sv_conf_state := cs, sv_node := (sv_node s)\<lparr>n_raft := r\<rparr>\<rparr> \<and>
     same_group (n_raft (sv_node s)) r)"
proof
  assume "\<exists>cs r. s' = s\<lparr>sv_conf_state := cs, sv_node := (sv_node s)\<lparr>n_raft := r\<rparr>\<rparr> \<and>
     same_group (n_raft (sv_node s)) r"
  then obtain cs r where "s' = s\<lparr>sv_conf_state := cs, sv_node := (sv_node s)\<lparr>n_raft := r\<rparr>\<rparr>"
    "same_group (n_raft (sv_node s)) r" by blast
  then show "member_step s s'" by (simp add: member_step_def)
qed (unfold member_step_def, blast)

lemma member_step_trans:
  assumes "member_step a b" "member_step b c"
  shows "member_step a c"
proof -
  obtain cs r cs' r' where "b = a\<lparr>sv_conf_state := cs, sv_node := (sv_node a)\<lparr>n_raft := r\<rparr>\<rparr>"
    "same_group (n_raft (sv_node a)) r" and c: "c = b\<lparr>sv_conf_state := cs', sv_node := (sv_node b)\<lparr>n_raft := r'\<rparr>\<rparr>"
    "same_group (n_raft (sv_node b)) r'"
    using assms unfolding member_step_iff by blast
  then have "c = a\<lparr>sv_conf_state := cs', sv_node := (sv_node a)\<lparr>n_raft := r'\<rparr>\<rparr>"
    "same_group (n_raft (sv_node a)) r'"
    using same_group_trans by auto
  then show ?thesis unfolding member_step_iff by blast
qed

lemma member_step_sel:
  assumes "member_step s s'"
  shows "sv_log s' = sv_log s" "sv_events s' = sv_events s" "sv_applied_index s' = sv_applied_index s"
  using assms same_groupD(1) unfolding member_step_iff by auto

lemma add_node_members:
  assumes "log_last_index (r_log r) = Some lst"
  shows "\<exists>r'. add_node_or_learner r i l = Some r' \<and> same_group r r'"
  using assms
  by (auto simp: add_node_or_learner_def set_progress_def get_progress_def put_progress_def
      same_group_def Let_def split: option.splits)

lemma apply_conf_members:
  assumes "log_last_index (r_log (n_raft n)) = Some lst"
    and "cc_type cc \<in> {ConfChangeAddNode, ConfChangeAddLearnerNode, ConfChangeUpdateNode}"
  shows "\<exists>cs r. node_apply_conf_change n cc = Some (cs, n\<lparr>n_raft := r\<rparr>) \<and> same_group (n_raft n) r"
proof -
  obtain r1 r2 where "add_node_or_learner (n_raft n) (cc_node_id cc) False = Some r1"
      "add_node_or_learner (n_raft n) (cc_node_id cc) True = Some r2"
      "same_group (n_raft n) r1" "same_group (n_raft n) r2"
    using add_node_members [OF assms(1)] by metis
  moreover have "\<exists>r. n = n\<lparr>n_raft := r\<rparr> \<and> same_group (n_raft n) r"
    by (rule exI [of _ "n_raft n"]) simp
  ultimately show ?thesis
    using assms(2)
    by (auto simp: node_apply_conf_change_def ConfChangeRemoveNode_def ConfChangeAddNode_def
        ConfChangeAddLearnerNode_def ConfChangeUpdateNode_def)
qed

lemma publish_plain:
  assumes "plain env es" "log_last_index (sv_log s) = Some lst"
  shows "\<exists>s'. publish_entries env es s = Some (True, s'\<lparr>sv_events := sv_events s @ effects env es,
      sv_applied_index := (if es = [] then sv_applied_index s else e_index (last es))\<rparr>) \<and> member_step s s'"
  using assms
proof (induction es arbitrary: s)
  case (Cons e es)
  let ?put = "\<lambda>s' evs i. s'\<lparr>sv_events := evs, sv_applied_index := i\<rparr>"
  obtain s1 where s1: "member_step s s1"
    "publish_entries env (e # es) s = publish_entries env es
       (?put s1 (sv_events s @ entry_events env e) (e_index e))"
  proof (cases "e_type e = EntryNormal")
    case True
    then show thesis using that [of s] by (auto simp: entry_events_def emit_def)
  next
    case False
    then obtain cc where cc: "en_conf env (e_data e) = Some cc" "e_type e = EntryConfChange"
      "cc_type cc \<in> {ConfChangeAddNode, ConfChangeAddLearnerNode, ConfChangeUpdateNode}"
      using Cons.prems(1) by (auto simp: plain_entry_def split: option.splits)
    obtain cs r where r: "node_apply_conf_change (sv_node s) cc = Some (cs, (sv_node s)\<lparr>n_raft := r\<rparr>)"
      "same_group (n_raft (sv_node s)) r"
      using apply_conf_members [OF Cons.prems(2) cc(3)] by blast
    have "cc_type cc \<noteq> ConfChangeRemoveNode"
      using cc(3) by (auto simp: ConfChangeRemoveNode_def ConfChangeAddNode_def
          ConfChangeAddLearnerNode_def ConfChangeUpdateNode_def)
    then have "publish_entries env (e # es) s = publish_entries env es
        (?put (s\<lparr>sv_conf_state := cs, sv_node := (sv_node s)\<lparr>n_raft := r\<rparr>\<rparr>)
          (sv_events s @ entry_events env e) (e_index e))"
      using False cc r(1) by (simp add: entry_events_def emit_def Let_def)
    then show thesis
      using that [of "s\<lparr>sv_conf_state := cs, sv_node := (sv_node s)\<lparr>n_raft := r\<rparr>\<rparr>"] r(2)
      by (simp add: member_step_def)
  qed
  let ?s2 = "?put s1 (sv_events s @ entry_events env e) (e_index e)"
  have "log_last_index (sv_log ?s2) = Some lst"
    using member_step_sel [OF s1(1)] Cons.prems(2) by simp
  then obtain s' where s': "publish_entries env es ?s2 = Some (True, ?put s' (sv_events ?s2 @ effects env es)
      (if es = [] then sv_applied_index ?s2 else e_index (last es)))" "member_step ?s2 s'"
    using Cons.IH [of ?s2] Cons.prems(1) by auto
  let ?t = "?put s' (sv_events s) (sv_applied_index s)"
  obtain cs r where s'_eq: "s' = ?s2\<lparr>sv_conf_state := cs, sv_node := (sv_node s1)\<lparr>n_raft := r\<rparr>\<rparr>"
    "same_group (n_raft (sv_node s1)) r"
    using s'(2) unfolding member_step_iff by auto
  have "?t = s1\<lparr>sv_conf_state := cs, sv_node := (sv_node s1)\<lparr>n_raft := r\<rparr>\<rparr>"
    using member_step_sel [OF s1(1)] s'_eq(1) by simp
  then have "member_step s1 ?t" using s'_eq(2) unfolding member_step_iff by blast
  then have "member_step s ?t" using member_step_trans [OF s1(1)] by simp
  moreover have "publish_entries env (e # es) s = Some (True, ?put ?t (sv_events s @ effects env (e # es))
      (if e # es = [] then sv_applied_index s else e_index (last (e # es))))"
    using s1(2) s'(1) by simp
  ultimately show ?case by blast
next
  case Nil
  have "s = s\<lparr>sv_events := sv_events s @ effects env [], sv_applied_index := sv_applied_index s\<rparr>" by simp
  then show ?case using member_step_refl [of s] by (intro exI [of _ s]) simp
qed

text \<open>
  What \<open>publish_entries\<close> leaves undone: behind a configuration change that does not unpack, the applied
  index is that of the entry before, and the next batch is fatal.
\<close>

theorem malformed_conf_change_fatal:
  assumes "e_type e = EntryConfChange" "en_conf env (e_data e) = None"
    and "sv_applied_index s + 1 = e_index e" "e_index e + 1 < W64" "e_index e' = e_index e + 1"
  shows "\<exists>s'. publish_entries env [e] s = Some (True, s') \<and>
    entries_to_apply (e' # es) (sv_applied_index s') = None"
  using assms by (simp add: EntryConfChange_def EntryNormal_def entries_to_apply_gap)

section \<open>Taking a snapshot\<close>

text \<open>
  The invariant of the server between two inputs: its counters and the indices of its log.
\<close>

definition server_ok :: "server \<Rightarrow> bool" where
  "server_ok s \<longleftrightarrow>
     log_ok (sv_log s) \<and> u_snapshot (l_unstable (sv_log s)) = None \<and>
     log_base (sv_log s) \<le> sv_snapshot_index s \<and>
     s_index (ms_snapshot (l_storage (sv_log s))) \<le> sv_snapshot_index s \<and>
     sv_snapshot_index s \<le> sv_applied_index s \<and> sv_applied_index s = l_applied (sv_log s) \<and>
     l_applied (sv_log s) \<le> l_committed (sv_log s) \<and>
     sv_snap_count s = defaultSnapCount \<and> w_files (sv_wal s) \<noteq> []"

text \<open>
  When it triggers, \<open>maybe_trigger_snapshot\<close> succeeds: the snapshot is of the applied index, and the
  compaction keeps \<open>snapshotCatchUpEntriesN\<close> entries behind it.
\<close>

definition compacted_to :: "nat \<Rightarrow> memory_storage \<Rightarrow> memory_storage \<Rightarrow> bool" where
  "compacted_to i st st' \<longleftrightarrow>
     storage_ok st' \<and> storage_base st' = i \<and>
     storage_bterm st' = term_at (storage_base st) (storage_bterm st) (storage_ents st) i \<and>
     storage_ents st' = drop (i - storage_base st) (storage_ents st)"

lemma compacted_to_refl: "storage_ok st \<Longrightarrow> compacted_to (storage_base st) st st"
  by (simp add: compacted_to_def term_at_def)

theorem trigger_snapshot:
  assumes st: "st = l_storage (sv_log s)" "storage_ok st"
    and a: "storage_base st \<le> sv_snapshot_index s" "s_index (ms_snapshot st) \<le> sv_snapshot_index s"
      "sv_snapshot_index s \<le> sv_applied_index s" "sv_applied_index s \<le> storage_base st + length (storage_ents st)"
    and w: "w_files (sv_wal s) \<noteq> []" and n: "sv_snap_count s = defaultSnapCount"
  shows "\<exists>st' w d i. maybe_trigger_snapshot env s =
      Some ((put_storage st' s)\<lparr>sv_wal := w, sv_snaps := d, sv_snapshot_index := i\<rparr>) \<and>
    w_files w \<noteq> [] \<and>
    (if sv_applied_index s - sv_snapshot_index s \<le> defaultSnapCount
     then st' = st \<and> w = sv_wal s \<and> d = sv_snaps s \<and> i = sv_snapshot_index s
     else i = sv_applied_index s \<and> s_index (ms_snapshot st') = i \<and>
       s_data (ms_snapshot st') = kv_data env (sv_events s) \<and>
       s_conf (ms_snapshot st') = sv_conf_state s \<and>
       compacted_to (sv_applied_index s - snapshotCatchUpEntriesN) st st')"
proof (cases "sv_applied_index s - sv_snapshot_index s \<le> defaultSnapCount")
  case True
  have "put_storage st s = s" by (simp add: put_storage_def st(1))
  then have "(put_storage st s)\<lparr>sv_wal := sv_wal s, sv_snaps := sv_snaps s, sv_snapshot_index := sv_snapshot_index s\<rparr> = s"
    by simp
  then show ?thesis
    using True a(3) n w
    by (intro exI [of _ st] exI [of _ "sv_wal s"] exI [of _ "sv_snaps s"] exI [of _ "sv_snapshot_index s"])
       (simp add: maybe_trigger_snapshot_def sub64_exact)
next
  case False
  let ?a = "sv_applied_index s"
  have big: "?a > snapshotCatchUpEntriesN" "sv_snapshot_index s < ?a - snapshotCatchUpEntriesN"
    using False by (auto simp: defaultSnapCount_def snapshotCatchUpEntriesN_def)
  obtain snap where snap: "storage_create_snapshot st ?a (Some (sv_conf_state s)) (kv_data env (sv_events s)) =
      Some ((StatusOk, snap), st\<lparr>ms_snapshot := snap\<rparr>)" "s_index snap = ?a"
      "s_data snap = kv_data env (sv_events s)" "s_conf snap = sv_conf_state s"
  proof -
    have "storage_base st \<le> ?a" "s_index (ms_snapshot st) < ?a" using a big by linarith+
    then show thesis
      using storage_create_snapshot_view [OF st(2) _ a(4), of "sv_conf_state s" "kv_data env (sv_events s)"] that
      by blast
  qed
  let ?st = "st\<lparr>ms_snapshot := snap\<rparr>"
  have view: "storage_ok ?st" "storage_base ?st = storage_base st" "storage_bterm ?st = storage_bterm st"
      "storage_ents ?st = storage_ents st"
    using st(2) by (simp_all add: storage_ok_def storage_base_def storage_bterm_def storage_ents_def)
  obtain w' where w': "wal_save_snapshot (en_codec env) \<lparr>ws_index = s_index snap, ws_term = s_term snap\<rparr>
      (sv_wal s) = Some w'" "w_files w' \<noteq> []"
    using wal_save_snapshot_total [OF w] by blast
  obtain st' where st': "storage_compact ?st (?a - snapshotCatchUpEntriesN) = Some (StatusOk, st')"
      "compacted_to (?a - snapshotCatchUpEntriesN) st st'"
  proof -
    have "storage_base ?st < ?a - snapshotCatchUpEntriesN"
      "?a - snapshotCatchUpEntriesN \<le> storage_base ?st + length (storage_ents ?st)"
      unfolding view(2-4) using a big diff_le_self [of ?a snapshotCatchUpEntriesN] by linarith+
    from storage_compact_view [OF view(1) this] show thesis
      unfolding view(2-4) using that by (auto simp: compacted_to_def)
  qed
  let ?d = "snd (snapper_save (en_codec env) (en_snaps env) snap (sv_snaps s))"
  have "maybe_trigger_snapshot env s =
      Some ((put_storage st' s)\<lparr>sv_wal := w', sv_snaps := ?d, sv_snapshot_index := ?a\<rparr>)"
    using False a(3) n snap(1) w'(1) st'(1) big(1) st(1)
    by (simp add: maybe_trigger_snapshot_def sub64_exact Let_def put_storage_def save_snap_def snapper_save_def)
  then show ?thesis
    using False w'(2) st'(2) snap storage_compact_frame [OF st'(1)]
    by (intro exI [of _ st'] exI [of _ w'] exI [of _ ?d] exI [of _ ?a]) simp
qed

end
