(* ===== verification/Server_Loop.thy ===== *)
theory Server_Loop
  imports Server_Rounds
begin

text \<open>
  The ready loop as a whole: one round on committed entries that are not configuration changes, and
  the loop, which ends with all of them applied.
\<close>

section \<open>The log after a compaction\<close>

lemma log_with_compacted:
  assumes ok: "log_ok lp" and u: "u_snapshot (l_unstable lp) = None" "u_entries (l_unstable lp) = []"
    and c: "compacted_to i (l_storage lp) st" and i: "log_base lp \<le> i" "i \<le> l_committed lp"
  shows "log_ok (lp\<lparr>l_storage := st\<rparr>)" "log_base (lp\<lparr>l_storage := st\<rparr>) = i"
    "log_ents (lp\<lparr>l_storage := st\<rparr>) = drop (i - log_base lp) (log_ents lp)"
proof -
  have shape: "log_shape lp" using ok by (simp add: log_ok_def)
  obtain k where k: "storage_ok (l_storage lp)" "log_base lp = storage_base (l_storage lp)"
      "unstable_ok (l_unstable lp)"
      "u_offset (l_unstable lp) = storage_base (l_storage lp) + 1 + k"
      "k = length (storage_ents (l_storage lp))" "log_ents lp = storage_ents (l_storage lp)"
    using u by (auto intro: log_shape_cases [OF shape])
  have e: "i \<le> storage_base (l_storage lp) + k" using i ok k by (simp add: log_ok_def)
  have c': "storage_ok st" "storage_base st = i"
      "storage_ents st = drop (i - storage_base (l_storage lp)) (storage_ents (l_storage lp))"
    using c by (simp_all add: compacted_to_def)
  have len: "length (storage_ents st) = storage_base (l_storage lp) + k - i"
    using c'(3) k(5) i(1) k(2) by simp
  have base: "log_base (lp\<lparr>l_storage := st\<rparr>) = i" using u(1) c'(2) by (simp add: log_base_def)
  have ents: "log_ents (lp\<lparr>l_storage := st\<rparr>) = storage_ents st"
    using u k(4) c'(2) len e by (simp add: log_ents_def)
  have "log_shape (lp\<lparr>l_storage := st\<rparr>)"
    using u k(3,4) c'(1,2) len e by (simp add: log_shape_def storage_end_def)
  moreover have "l_committed lp \<le> i + length (storage_ents st)"
    using ok len k e by (simp add: log_ok_def)
  ultimately show "log_ok (lp\<lparr>l_storage := st\<rparr>)"
    using base ents i(2) by (simp add: log_ok_def)
  show "log_base (lp\<lparr>l_storage := st\<rparr>) = i" by (rule base)
  show "log_ents (lp\<lparr>l_storage := st\<rparr>) = drop (i - log_base lp) (log_ents lp)"
    using ents c'(3) k(2,6) by simp
qed

lemma stable_log_storage:
  assumes "log_ok l" "u_snapshot (l_unstable l) = None" "u_entries (l_unstable l) = []"
  shows "storage_ok (l_storage l)" "storage_base (l_storage l) = log_base l" "storage_ents (l_storage l) = log_ents l"
proof -
  have "log_shape l" using assms(1) by (simp add: log_ok_def)
  then have "storage_ok (l_storage l) \<and> storage_base (l_storage l) = log_base l \<and> storage_ents (l_storage l) = log_ents l"
    by (rule log_shape_cases) (use assms(2,3) in auto)
  then show "storage_ok (l_storage l)" "storage_base (l_storage l) = log_base l"
    "storage_ents (l_storage l) = log_ents l" by blast+
qed

section \<open>The entries that wait to be applied\<close>

text \<open>Behind a snapshot that waits to be installed, these are the committed entries after it.\<close>

definition waiting :: "raft_log \<Rightarrow> entry list" where
  "waiting l = take (l_committed l - max (l_applied l) (log_base l))
     (drop (l_applied l - log_base l) (log_ents l))"

lemma server_okD:
  assumes "server_ok s"
  shows "log_ok (sv_log s)" "u_snapshot (l_unstable (sv_log s)) = None"
    "log_base (sv_log s) \<le> l_applied (sv_log s)" "l_applied (sv_log s) \<le> l_committed (sv_log s)"
    "sv_applied_index s = l_applied (sv_log s)" "w_files (sv_wal s) \<noteq> []"
    "l_committed (sv_log s) + 1 < W64"
  using assms log_shape_bound [of "sv_log s"] by (auto simp: server_ok_def log_ok_def)

lemma waiting_facts:
  assumes "log_ok l" "l_applied l \<le> l_committed l"
  shows "length (waiting l) = l_committed l - max (l_applied l) (log_base l)"
    "consec (max (l_applied l) (log_base l) + 1) (waiting l)"
proof -
  show "length (waiting l) = l_committed l - max (l_applied l) (log_base l)"
    using assms by (auto simp: waiting_def log_ok_def min_def max_def)
  have "consec (log_base l + 1) (log_ents l)" using rlog.view_consec [OF assms(1)] by simp
  from consec_take [OF consec_drop [OF this, of "l_applied l - log_base l"]]
  moreover have "log_base l + 1 + (l_applied l - log_base l) = max (l_applied l) (log_base l) + 1" by simp
  ultimately show "consec (max (l_applied l) (log_base l) + 1) (waiting l)"
    by (simp only: waiting_def)
qed

lemma next_entries_waiting:
  assumes "log_ok l" "l_applied l \<le> l_committed l"
  shows "\<exists>k > 0. log_next_entries l = Some (take k (waiting l))"
proof -
  have w: "log_range l (max (l_applied l) (log_base l) + 1) (l_committed l + 1) = waiting l"
    by (simp add: log_range_def waiting_def max_def)
  obtain k where k: "entry_limit_size (l_max_next_ents_size l) (waiting l) = take k (waiting l)"
      "waiting l \<noteq> [] \<longrightarrow> 0 < k"
    using entry_limit_size_prefix by blast
  show ?thesis
  proof (cases "waiting l = []")
    case True
    then show ?thesis
      using log_next_entries_eq [OF assms] k w by (intro exI [of _ 1]) simp
  next
    case False
    then show ?thesis using log_next_entries_eq [OF assms] k w by auto
  qed
qed

section \<open>One round\<close>

text \<open>A node with nothing left to hand out but committed entries.\<close>

definition quiet :: "raw_node \<Rightarrow> bool" where
  "quiet n \<longleftrightarrow>
     raft_soft_state (n_raft n) = n_prev_soft n \<and>
     (hs_is_empty (raft_hard_state (n_raft n)) \<or> raft_hard_state (n_raft n) = n_prev_hard n) \<and>
     r_msgs (n_raft n) = [] \<and> u_entries (l_unstable (r_log (n_raft n))) = [] \<and>
     r_read_states (n_raft n) = []"

definition sends :: "message list \<Rightarrow> event list" where
  "sends ms = (if ms = [] then [] else [Send ms])"

lemma put_storage_simps [simp]:
  "sv_applied_index (put_storage st s) = sv_applied_index s"
  "sv_snapshot_index (put_storage st s) = sv_snapshot_index s"
  "sv_events (put_storage st s) = sv_events s" "sv_wal (put_storage st s) = sv_wal s"
  "sv_snap_count (put_storage st s) = sv_snap_count s" "sv_conf_state (put_storage st s) = sv_conf_state s"
  "sv_node (put_storage st s) = (sv_node s)\<lparr>n_raft := (n_raft (sv_node s))\<lparr>r_log := (sv_log s)\<lparr>l_storage := st\<rparr>\<rparr>\<rparr>"
  "sv_id (put_storage st s) = sv_id s" "sv_snaps (put_storage st s) = sv_snaps s"
  by (simp_all add: put_storage_def)

lemma reduce_frame [simp]:
  "r_log (reduce_uncommitted_size r es) = r_log r" "r_msgs (reduce_uncommitted_size r es) = r_msgs r"
  "raft_soft_state (reduce_uncommitted_size r es) = raft_soft_state r"
  "raft_hard_state (reduce_uncommitted_size r es) = raft_hard_state r"
  "r_read_states (reduce_uncommitted_size r es) = r_read_states r"
  by (auto simp: reduce_uncommitted_size_def raft_soft_state_def raft_hard_state_def Let_def)

lemma raft_state_frame [simp]:
  "raft_soft_state (r\<lparr>r_log := l\<rparr>) = raft_soft_state r"
  "raft_soft_state (r\<lparr>r_msgs := ms\<rparr>) = raft_soft_state r"
  "raft_soft_state (r\<lparr>r_read_states := rs\<rparr>) = raft_soft_state r"
  "raft_hard_state (r\<lparr>r_msgs := ms\<rparr>) = raft_hard_state r"
  "raft_hard_state (r\<lparr>r_read_states := rs\<rparr>) = raft_hard_state r"
  "l_committed l = l_committed (r_log r) \<Longrightarrow> raft_hard_state (r\<lparr>r_log := l\<rparr>) = raft_hard_state r"
  by (simp_all add: raft_soft_state_def raft_hard_state_def)

text \<open>What the node hands out.\<close>

definition hands_out :: "ready \<Rightarrow> raw_node \<Rightarrow> bool" where
  "hands_out rd n \<longleftrightarrow>
     rd_entries rd = u_entries (l_unstable (r_log (n_raft n))) \<and>
     rd_read_states rd = r_read_states (n_raft n) \<and>
     rd_soft_state rd = (if raft_soft_state (n_raft n) \<noteq> n_prev_soft n
                         then Some (raft_soft_state (n_raft n)) else None) \<and>
     rd_hard_state rd = (if raft_hard_state (n_raft n) \<noteq> n_prev_hard n
                         then raft_hard_state (n_raft n) else empty_hard_state)"

lemma node_ready_hands_out:
  assumes "log_next_entries (r_log (n_raft n)) = Some es"
  shows "\<exists>rd n'. node_ready n = Some (rd, n') \<and> rd_committed rd = es \<and>
    rd_messages rd = r_msgs (n_raft n) \<and> hands_out rd n \<and>
    rd_snapshot rd = (case u_snapshot (l_unstable (r_log (n_raft n))) of
      Some s \<Rightarrow> s | None \<Rightarrow> empty_snapshot) \<and>
    n' = n\<lparr>n_raft := reduce_uncommitted_size ((n_raft n)\<lparr>r_msgs := []\<rparr>) es\<rparr>"
  using assms by (simp add: node_ready_def new_ready_def hands_out_def Let_def)

text \<open>
  The body of the loop behind the part that installs a snapshot, and its last call, cut into the move
  of the applied index and the confirmation of what was saved.
\<close>

definition finish_body :: "env \<Rightarrow> ready \<Rightarrow> server \<Rightarrow> server option" where
  "finish_body env rd s = do {
     s \<leftarrow> (if rd_entries rd = [] then Some s
          else do {
            st \<leftarrow> storage_append (l_storage (sv_log s)) (rd_entries rd);
            Some (put_storage st s)
          });
     let s = (if rd_messages rd = [] then s else emit (Send (rd_messages rd)) s);
     s \<leftarrow> (if rd_committed rd = [] then Some s
          else do {
            ents \<leftarrow> entries_to_apply (rd_committed rd) (sv_applied_index s);
            if ents = [] then Some s
            else do {
              (b, s) \<leftarrow> publish_entries env ents s;
              Some s
            }
          });
     s \<leftarrow> maybe_trigger_snapshot env s;
     n \<leftarrow> node_advance (sv_node s) rd;
     Some (s\<lparr>sv_node := n\<rparr>)
   }"

lemma ready_body_finish:
  "ready_body env rd s = do {
     w \<leftarrow> wal_save (en_codec env) (rd_hard_state rd) (rd_entries rd) (sv_wal s);
     let s = s\<lparr>sv_wal := w\<rparr>;
     s \<leftarrow> (if snapshot_is_empty (rd_snapshot rd) then Some s
          else do {
            (st, s) \<leftarrow> save_snap env (rd_snapshot rd) s;
            check (is_ok st);
            let s = put_storage (snd (storage_apply_snapshot (l_storage (sv_log s)) (rd_snapshot rd))) s;
            publish_snapshot (rd_snapshot rd) s
          });
     finish_body env rd s
   }"
  by (simp only: ready_body_def finish_body_def)

definition move_cursor :: "ready \<Rightarrow> raft_log \<Rightarrow> raft_log" where
  "move_cursor rd l = (if ready_applied_cursor rd > 0 then log_applied_to l (ready_applied_cursor rd) else l)"

definition confirm :: "ready \<Rightarrow> raft_log \<Rightarrow> raft_log option" where
  "confirm rd l = do {
     l2 \<leftarrow> (if rd_entries rd = [] then Some l
           else log_stable_to l (e_index (last (rd_entries rd))) (e_term (last (rd_entries rd))));
     Some (if snapshot_is_empty (rd_snapshot rd) then l2 else log_stable_snap_to l2 (s_index (rd_snapshot rd)))
   }"

lemma confirm_eq:
  "confirm rd l = do {
     l2 \<leftarrow> (if rd_entries rd \<noteq> []
           then log_stable_to l (e_index (last (rd_entries rd))) (e_term (last (rd_entries rd))) else Some l);
     Some (if \<not> snapshot_is_empty (rd_snapshot rd) then log_stable_snap_to l2 (s_index (rd_snapshot rd)) else l2)
   }"
  by (cases "rd_entries rd = []"; cases "snapshot_is_empty (rd_snapshot rd)") (simp_all add: confirm_def)

lemma node_advance_confirm:
  assumes "confirm rd (move_cursor rd (r_log (n_raft n))) = Some l3"
  shows "node_advance n rd = Some (n\<lparr>
    n_raft := (n_raft n)\<lparr>r_log := l3,
      r_read_states := if rd_read_states rd \<noteq> [] then [] else r_read_states (n_raft n)\<rparr>,
    n_prev_soft := (case rd_soft_state rd of Some ss \<Rightarrow> ss | None \<Rightarrow> n_prev_soft n),
    n_prev_hard := (if hs_is_empty (rd_hard_state rd) then n_prev_hard n else rd_hard_state rd)\<rparr>)"
proof -
  let ?l1 = "move_cursor rd (r_log (n_raft n))"
  define n2 where "n2 = n\<lparr>n_prev_soft := (case rd_soft_state rd of Some ss \<Rightarrow> ss | None \<Rightarrow> n_prev_soft n),
    n_prev_hard := (if hs_is_empty (rd_hard_state rd) then n_prev_hard n else rd_hard_state rd)\<rparr>"
  have n2: "(if \<not> hs_is_empty (rd_hard_state rd)
      then (case rd_soft_state rd of Some ss \<Rightarrow> n\<lparr>n_prev_soft := ss\<rparr> | None \<Rightarrow> n)\<lparr>n_prev_hard := rd_hard_state rd\<rparr>
      else (case rd_soft_state rd of Some ss \<Rightarrow> n\<lparr>n_prev_soft := ss\<rparr> | None \<Rightarrow> n)) = n2"
    by (cases "rd_soft_state rd") (simp_all add: n2_def)
  have r2: "n_raft n2 = n_raft n" by (simp add: n2_def)
  obtain l2 where l2: "(if rd_entries rd \<noteq> []
      then log_stable_to ?l1 (e_index (last (rd_entries rd))) (e_term (last (rd_entries rd))) else Some ?l1) = Some l2"
    "(if \<not> snapshot_is_empty (rd_snapshot rd) then log_stable_snap_to l2 (s_index (rd_snapshot rd)) else l2) = l3"
    using assms [unfolded confirm_eq] unfolding bind_eq_Some_conv option.inject by blast
  have "node_advance n rd = Some (n2\<lparr>n_raft :=
      (if rd_read_states rd \<noteq> [] then ((n_raft n)\<lparr>r_log := l3\<rparr>)\<lparr>r_read_states := []\<rparr>
       else (n_raft n)\<lparr>r_log := l3\<rparr>)\<rparr>)"
    by (simp only: node_advance_def Let_def n2 r2 l2 bind.bind_lunit flip: move_cursor_def)
  then show ?thesis by (simp add: n2_def)
qed

text \<open>The first part: append, send, apply.\<close>

lemma log_last_index_filled: "ms_entries (l_storage l) \<noteq> [] \<Longrightarrow> log_last_index l \<noteq> None"
  by (auto simp: log_last_index_def storage_last_index_def split: option.splits Option.bind_splits)

lemma finish_body_plain:
  assumes rd: "plain env (rd_committed rd)"
    and st: "(if rd_entries rd = [] then Some (l_storage (sv_log s))
              else storage_append (l_storage (sv_log s)) (rd_entries rd)) = Some st"
    and es: "consec (sv_applied_index s + 1) (rd_committed rd)"
      "sv_applied_index s + length (rd_committed rd) + 1 < W64"
    and filled: "ms_entries st \<noteq> []"
  shows "\<exists>s4. member_step (put_storage st s) s4 \<and> finish_body env rd s = do {
    s5 \<leftarrow> maybe_trigger_snapshot env
      (s4\<lparr>sv_events := sv_events s @ sends (rd_messages rd) @ effects env (rd_committed rd),
          sv_applied_index := sv_applied_index s + length (rd_committed rd)\<rparr>);
    n \<leftarrow> node_advance (sv_node s5) rd;
    Some (s5\<lparr>sv_node := n\<rparr>)
  }"
proof -
  let ?a = "sv_applied_index s" and ?es = "rd_committed rd"
  define s1 where "s1 = put_storage st s"
  define s2 where "s2 = (if rd_messages rd = [] then s1 else emit (Send (rd_messages rd)) s1)"
  let ?put = "\<lambda>s. s\<lparr>sv_events := sv_events s2 @ effects env ?es, sv_applied_index := ?a + length ?es\<rparr>"
  have app: "(if rd_entries rd = [] then Some s
      else do { st \<leftarrow> storage_append (l_storage (sv_log s)) (rd_entries rd);
                Some (put_storage st s) }) = Some s1"
    using st by (auto simp: s1_def put_storage_def split: if_splits)
  have s2: "sv_events s2 = sv_events s @ sends (rd_messages rd)" "sv_applied_index s2 = ?a"
      "sv_log s2 = sv_log s1" "sv_node s2 = sv_node s1"
    by (simp_all add: s2_def s1_def emit_def sends_def)
  obtain lst where lst: "log_last_index (sv_log s2) = Some lst"
    using log_last_index_filled [of "sv_log s2"] filled s2(3) by (auto simp: s1_def)
  have todo: "entries_to_apply ?es (sv_applied_index s2) = Some ?es"
    using entries_to_apply_eq [OF es(1), of ?a] es(2) s2(2) by simp
  have at_end: "(if ?es = [] then sv_applied_index s2 else e_index (last ?es)) = ?a + length ?es"
    using consec_last [OF es(1)] s2(2) by simp
  obtain s3 where s3: "publish_entries env ?es s2 = Some (True, ?put s3)" "member_step s2 s3"
    using publish_plain [OF rd lst] unfolding at_end by blast
  have pub: "(if ?es = [] then Some s2
      else do { ents \<leftarrow> entries_to_apply ?es (sv_applied_index s2);
                if ents = [] then Some s2
                else do { (b, s) \<leftarrow> publish_entries env ents s2; Some s } }) = Some (?put s3)"
  proof (cases "?es = []")
    case True
    then have "s2 = ?put s3" using s3(1) by (simp only: publish_entries.simps option.inject prod.inject simp_thms)
    then show ?thesis by (subst if_P [OF True]) (rule arg_cong)
  qed (simp only: if_False todo s3(1) bind.bind_lunit prod.case)
  obtain cs r where r: "s3 = s2\<lparr>sv_conf_state := cs, sv_node := (sv_node s1)\<lparr>n_raft := r\<rparr>\<rparr>"
    "same_group (n_raft (sv_node s1)) r"
    using s3(2) s2(4) unfolding member_step_iff by (simp only:) blast
  let ?s4 = "s1\<lparr>sv_conf_state := cs, sv_node := (sv_node s1)\<lparr>n_raft := r\<rparr>\<rparr>"
  have m4: "member_step s1 ?s4" using r(2) unfolding member_step_iff by blast
  have e4: "?put s3 = ?s4\<lparr>sv_events := sv_events s @ sends (rd_messages rd) @ effects env ?es,
      sv_applied_index := ?a + length ?es\<rparr>"
    unfolding r(1) s2(1) by (simp add: s2_def emit_def)
  have "finish_body env rd s = do {
      s5 \<leftarrow> maybe_trigger_snapshot env (?put s3);
      n \<leftarrow> node_advance (sv_node s5) rd;
      Some (s5\<lparr>sv_node := n\<rparr>) }"
    by (simp only: finish_body_def bind.bind_lunit Let_def app pub flip: s2_def)
  then show ?thesis unfolding e4 using m4 unfolding s1_def by (intro exI [of _ "s1\<lparr>sv_conf_state := cs, sv_node := (sv_node s1)\<lparr>n_raft := r\<rparr>\<rparr>"] conjI) (simp_all only: s1_def)
qed

text \<open>The snapshot, if it is time for one.\<close>

lemma trigger_weak:
  assumes st: "storage_ok (l_storage (sv_log s))"
    and a: "storage_base (l_storage (sv_log s)) \<le> sv_snapshot_index s"
      "s_index (ms_snapshot (l_storage (sv_log s))) \<le> sv_snapshot_index s"
      "sv_snapshot_index s \<le> sv_applied_index s"
      "sv_applied_index s \<le> storage_base (l_storage (sv_log s)) + length (storage_ents (l_storage (sv_log s)))"
    and w: "w_files (sv_wal s) \<noteq> []" and n: "sv_snap_count s = defaultSnapCount"
  shows "\<exists>st' w' d i b. maybe_trigger_snapshot env s =
      Some ((put_storage st' s)\<lparr>sv_wal := w', sv_snaps := d, sv_snapshot_index := i\<rparr>) \<and>
    w_files w' \<noteq> [] \<and> compacted_to b (l_storage (sv_log s)) st' \<and>
    storage_base (l_storage (sv_log s)) \<le> b \<and> b \<le> i \<and> i \<le> sv_applied_index s \<and>
    s_index (ms_snapshot st') \<le> i"
proof -
  obtain st' w' d i where t: "maybe_trigger_snapshot env s =
      Some ((put_storage st' s)\<lparr>sv_wal := w', sv_snaps := d, sv_snapshot_index := i\<rparr>)" "w_files w' \<noteq> []"
    and c: "if sv_applied_index s - sv_snapshot_index s \<le> defaultSnapCount
      then st' = l_storage (sv_log s) \<and> w' = sv_wal s \<and> d = sv_snaps s \<and> i = sv_snapshot_index s
      else i = sv_applied_index s \<and> s_index (ms_snapshot st') = i \<and>
        s_data (ms_snapshot st') = kv_data env (sv_events s) \<and>
        s_conf (ms_snapshot st') = sv_conf_state s \<and>
        compacted_to (sv_applied_index s - snapshotCatchUpEntriesN) (l_storage (sv_log s)) st'"
    using trigger_snapshot [OF refl st a w n, of env] by blast
  let ?b = "if sv_applied_index s - sv_snapshot_index s \<le> defaultSnapCount
    then storage_base (l_storage (sv_log s)) else sv_applied_index s - snapshotCatchUpEntriesN"
  have "compacted_to ?b (l_storage (sv_log s)) st'" "storage_base (l_storage (sv_log s)) \<le> ?b" "?b \<le> i"
    "i \<le> sv_applied_index s" "s_index (ms_snapshot st') \<le> i"
    using c a compacted_to_refl [OF st]
    by (auto simp: defaultSnapCount_def snapshotCatchUpEntriesN_def split: if_splits)
  then show ?thesis using t by blast
qed

text \<open>
  The rest of a round.  \<open>lp\<close> is the log once everything is saved; the server has been told of every
  entry up to its applied index, and \<open>rd\<close> continues there.
\<close>

lemma finish_ok:
  assumes lp: "log_ok lp" "u_entries (l_unstable lp) = []" "u_snapshot (l_unstable lp) = None"
      "l_committed lp = l_committed (sv_log s)"
    and app: "(if rd_entries rd = [] then Some (l_storage (sv_log s))
      else storage_append (l_storage (sv_log s)) (rd_entries rd)) = Some (l_storage lp)"
    and cur: "\<And>st. confirm rd (move_cursor rd ((sv_log s)\<lparr>l_storage := st\<rparr>)) =
      Some (lp\<lparr>l_storage := st, l_applied := sv_applied_index s + length (rd_committed rd)\<rparr>)"
    and es: "consec (sv_applied_index s + 1) (rd_committed rd)" "plain env (rd_committed rd)"
      "sv_applied_index s + length (rd_committed rd) \<le> l_committed lp"
    and sn: "log_base lp \<le> sv_snapshot_index s" "s_index (ms_snapshot (l_storage lp)) \<le> sv_snapshot_index s"
      "sv_snapshot_index s \<le> sv_applied_index s" "sv_snap_count s = defaultSnapCount"
    and w: "w_files (sv_wal s) \<noteq> []"
    and rd: "rd_read_states rd = r_read_states (n_raft (sv_node s))"
      "rd_soft_state rd = (if raft_soft_state (n_raft (sv_node s)) \<noteq> n_prev_soft (sv_node s)
                           then Some (raft_soft_state (n_raft (sv_node s))) else None)"
      "rd_hard_state rd = (if raft_hard_state (n_raft (sv_node s)) \<noteq> n_prev_hard (sv_node s)
                           then raft_hard_state (n_raft (sv_node s)) else empty_hard_state)"
      "r_msgs (n_raft (sv_node s)) = []"
  shows "\<exists>s'. finish_body env rd s = Some s' \<and> server_ok s' \<and> quiet (sv_node s') \<and>
    l_committed (sv_log s') = l_committed lp \<and>
    l_applied (sv_log s') = sv_applied_index s + length (rd_committed rd) \<and>
    waiting (sv_log s') = drop (length (rd_committed rd))
      (take (l_committed lp - sv_applied_index s) (drop (sv_applied_index s - log_base lp) (log_ents lp))) \<and>
    sv_events s' = sv_events s @ sends (rd_messages rd) @ effects env (rd_committed rd)"
proof -
  let ?a = "sv_applied_index s + length (rd_committed rd)" and ?r = "n_raft (sv_node s)"
  have lps: "storage_ok (l_storage lp)" "storage_base (l_storage lp) = log_base lp"
      "storage_ents (l_storage lp) = log_ents lp"
    using stable_log_storage [OF lp(1,3,2)] by blast+
  have filled: "ms_entries (l_storage lp) \<noteq> []" using lps(1) by (auto simp: storage_ok_def)
  have shape: "log_shape lp" using lp(1) by (simp add: log_ok_def)
  have bound: "l_committed lp \<le> log_base lp + length (log_ents lp)" "l_committed lp + 1 < W64"
    using lp(1) log_shape_bound [OF shape] by (auto simp: log_ok_def)
  then have fits: "?a + 1 < W64" using es(3) by linarith
  obtain s3 where s3: "member_step (put_storage (l_storage lp) s) s3"
    "finish_body env rd s = do {
      s5 \<leftarrow> maybe_trigger_snapshot env
        (s3\<lparr>sv_events := sv_events s @ sends (rd_messages rd) @ effects env (rd_committed rd),
            sv_applied_index := ?a\<rparr>);
      n \<leftarrow> node_advance (sv_node s5) rd;
      Some (s5\<lparr>sv_node := n\<rparr>) }"
    using finish_body_plain [OF es(2) app es(1) fits filled] by blast
  define s4 where "s4 = s3\<lparr>sv_events := sv_events s @ sends (rd_messages rd) @ effects env (rd_committed rd),
       sv_applied_index := ?a\<rparr>"
  obtain cs r3 where r3: "s3 = (put_storage (l_storage lp) s)
      \<lparr>sv_conf_state := cs, sv_node := (sv_node s)\<lparr>n_raft := r3\<rparr>\<rparr>"
    and g3: "same_group (?r\<lparr>r_log := (sv_log s)\<lparr>l_storage := l_storage lp\<rparr>\<rparr>) r3"
    using s3(1) unfolding member_step_iff by auto
  note g = same_groupD [OF g3, simplified]
  have s4: "sv_log s4 = (sv_log s)\<lparr>l_storage := l_storage lp\<rparr>" "sv_applied_index s4 = ?a"
      "sv_snapshot_index s4 = sv_snapshot_index s" "sv_wal s4 = sv_wal s" "sv_snap_count s4 = defaultSnapCount"
      "sv_events s4 = sv_events s @ sends (rd_messages rd) @ effects env (rd_committed rd)"
    using g(1) sn(4) by (simp_all add: s4_def r3)
  have le: "?a \<le> log_base lp + length (log_ents lp)" using es(3) bound(1) by linarith
  obtain st' w' d i b where tr: "maybe_trigger_snapshot env s4 =
      Some ((put_storage st' s4)\<lparr>sv_wal := w', sv_snaps := d, sv_snapshot_index := i\<rparr>)" "w_files w' \<noteq> []"
    and b: "compacted_to b (l_storage lp) st'" "log_base lp \<le> b" "b \<le> i" "i \<le> ?a" "s_index (ms_snapshot st') \<le> i"
  proof -
    have st4: "l_storage (sv_log s4) = l_storage lp" using s4(1) by simp
    have sa: "sv_snapshot_index s \<le> ?a" using sn(3) by simp
    show thesis
      using trigger_weak [of s4 env, unfolded st4 s4(2-5) lps(2,3)] lps(1) sn(1,2) sa le w that by metis
  qed
  define s5 where "s5 = (put_storage st' s4)\<lparr>sv_wal := w', sv_snaps := d, sv_snapshot_index := i\<rparr>"
  have n5: "r_log (n_raft (sv_node s5)) = (sv_log s)\<lparr>l_storage := st'\<rparr>" using s4(1) by (simp add: s5_def)
  have f5: "r_msgs (n_raft (sv_node s5)) = []" "raft_soft_state (n_raft (sv_node s5)) = raft_soft_state ?r"
      "raft_hard_state (n_raft (sv_node s5)) = raft_hard_state ?r"
      "n_prev_soft (sv_node s5) = n_prev_soft (sv_node s)" "n_prev_hard (sv_node s5) = n_prev_hard (sv_node s)"
      "r_read_states (n_raft (sv_node s5)) = r_read_states ?r"
    using rd g by (simp_all add: s5_def s4_def r3)
  note n6 = node_advance_confirm [of rd "sv_node s5", unfolded n5, OF cur]
  let ?n6 = "(sv_node s5)\<lparr>
    n_raft := (n_raft (sv_node s5))\<lparr>r_log := lp\<lparr>l_storage := st', l_applied := ?a\<rparr>,
      r_read_states := if rd_read_states rd \<noteq> [] then [] else r_read_states (n_raft (sv_node s5))\<rparr>,
    n_prev_soft := (case rd_soft_state rd of Some ss \<Rightarrow> ss | None \<Rightarrow> n_prev_soft (sv_node s5)),
    n_prev_hard := (if hs_is_empty (rd_hard_state rd) then n_prev_hard (sv_node s5) else rd_hard_state rd)\<rparr>"
  let ?s6 = "s5\<lparr>sv_node := ?n6\<rparr>"
  have cm: "l_committed (r_log (n_raft (sv_node s5))) = l_committed lp" using n5 lp(4) by simp
  have quiet: "quiet ?n6"
    using rd f5 lp(2) cm by (auto simp: quiet_def hs_is_empty_def empty_hard_state_def)
  have cle: "b \<le> l_committed lp" using b(3,4) es(3) by linarith
  note view = log_with_compacted [OF lp(1,3,2) b(1,2) cle]
  have log6: "sv_log ?s6 = lp\<lparr>l_storage := st', l_applied := ?a\<rparr>" by simp
  have "server_ok ?s6"
    using view b lp(3) es(3) s4(2,5) tr(2) unfolding server_ok_def log6 by (simp add: s5_def)
  moreover have "waiting (sv_log ?s6) = drop (length (rd_committed rd))
      (take (l_committed lp - sv_applied_index s) (drop (sv_applied_index s - log_base lp) (log_ents lp)))"
  proof -
    have "b \<le> ?a" using b(3,4) by linarith
    moreover have "?a - b + (b - log_base lp) = length (rd_committed rd) + (sv_applied_index s - log_base lp)"
      using b(2) \<open>b \<le> ?a\<close> sn(1,3) by linarith
    ultimately show ?thesis
      unfolding log6 using view(2,3) by (simp add: waiting_def drop_take max_def)
  qed
  ultimately show ?thesis
    using quiet s4(6) s3(2) tr(1) n6 by (intro exI [of _ ?s6]) (simp add: s4_def s5_def)
qed

text \<open>The server after a round that handed out \<open>es\<close>.\<close>

definition after_round :: "env \<Rightarrow> entry list \<Rightarrow> message list \<Rightarrow> server \<Rightarrow> server \<Rightarrow> bool" where
  "after_round env es ms s s' \<longleftrightarrow>
     server_ok s' \<and> quiet (sv_node s') \<and>
     l_committed (sv_log s') = l_committed (sv_log s) \<and>
     l_applied (sv_log s') = l_applied (sv_log s) + length es \<and>
     waiting (sv_log s') = drop (length es) (waiting (sv_log s)) \<and>
     sv_events s' = sv_events s @ sends ms @ effects env es"

lemma move_cursor_to:
  assumes "consec (i + 1) (rd_committed rd)"
    and "rd_committed rd = [] \<Longrightarrow> (s_index (rd_snapshot rd) = 0 \<and> l_applied l = i) \<or> 0 < i \<and> s_index (rd_snapshot rd) = i"
  shows "move_cursor rd l = l\<lparr>l_applied := i + length (rd_committed rd)\<rparr>"
proof (cases "rd_committed rd = []")
  case True
  then show ?thesis
    using assms(2) by (auto simp: move_cursor_def ready_applied_cursor_def log_applied_to_def)
next
  case False
  then show ?thesis
    using consec_last [OF assms(1)] by (simp add: move_cursor_def ready_applied_cursor_def log_applied_to_def)
qed

lemma round_ok:
  assumes ok: "server_ok s" and nw: "plain env (waiting (sv_log s))"
    and rdy: "node_ready (sv_node s) = Some (rd, n)"
  shows "\<exists>s' k. ready_body env rd (s\<lparr>sv_node := n\<rparr>) = Some s' \<and> 0 < k \<and>
    rd_committed rd = take k (waiting (sv_log s)) \<and>
    after_round env (rd_committed rd) (r_msgs (n_raft (sv_node s))) s s'"
proof -
  let ?l = "sv_log s"
  note l = server_okD [OF ok]
  have mx: "max (l_applied ?l) (log_base ?l) = l_applied ?l" using l(3) by simp
  obtain k where k: "0 < k" "log_next_entries ?l = Some (take k (waiting ?l))"
    using next_entries_waiting [OF l(1,4)] by blast
  let ?es = "take k (waiting ?l)"
  note rd = node_ready_hands_out [OF k(2), unfolded rdy l(2), simplified]
  note out = rd [unfolded hands_out_def]
  note wait = waiting_facts [OF l(1,4), unfolded mx]
  have es: "consec (l_applied ?l + 1) ?es" "plain env ?es" "l_applied ?l + length ?es \<le> l_committed ?l"
    using wait l(4) nw by (auto simp: consec_take plain_take)
  obtain lp where lp: "log_ok lp" "log_base lp = log_base ?l" "log_ents lp = log_ents ?l"
    "u_entries (l_unstable lp) = []" "u_snapshot (l_unstable lp) = None"
    "l_committed lp = l_committed ?l" "ms_snapshot (l_storage lp) = ms_snapshot (l_storage ?l)"
    and app: "(if u_entries (l_unstable ?l) = [] then Some (l_storage ?l)
      else storage_append (l_storage ?l) (u_entries (l_unstable ?l))) = Some (l_storage lp)"
    and stab: "\<And>st a. (if u_entries (l_unstable ?l) = [] then Some (?l\<lparr>l_storage := st, l_applied := a\<rparr>)
      else log_stable_to (?l\<lparr>l_storage := st, l_applied := a\<rparr>) (e_index (last (u_entries (l_unstable ?l))))
             (e_term (last (u_entries (l_unstable ?l))))) = Some (lp\<lparr>l_storage := st, l_applied := a\<rparr>)"
    using persist_parts [OF l(1,2)] by metis
  obtain w where w: "wal_save (en_codec env) (rd_hard_state rd) (rd_entries rd) (sv_wal s) = Some w" "w_files w \<noteq> []"
    using wal_save_total [OF l(6)] by blast
  define s1 where "s1 = s\<lparr>sv_node := n, sv_wal := w\<rparr>"
  have s1: "sv_log s1 = ?l" "sv_applied_index s1 = l_applied ?l" "sv_events s1 = sv_events s"
    "sv_snapshot_index s1 = sv_snapshot_index s" "sv_snap_count s1 = defaultSnapCount" "w_files (sv_wal s1) \<noteq> []"
    using rd l(5) w(2) ok by (simp_all add: s1_def server_ok_def)
  have body: "ready_body env rd (s\<lparr>sv_node := n\<rparr>) = finish_body env rd s1"
    using w(1) rd by (simp add: ready_body_finish s1_def empty_snapshot_def snapshot_is_empty_def)
  have cur: "confirm rd (move_cursor rd ((sv_log s1)\<lparr>l_storage := st\<rparr>)) =
      Some (lp\<lparr>l_storage := st, l_applied := sv_applied_index s1 + length (rd_committed rd)\<rparr>)" for st
  proof -
    have "move_cursor rd (?l\<lparr>l_storage := st\<rparr>) = ?l\<lparr>l_storage := st, l_applied := l_applied ?l + length (rd_committed rd)\<rparr>"
      using move_cursor_to [of "l_applied ?l" rd "?l\<lparr>l_storage := st\<rparr>"] es(1) rd by (simp add: empty_snapshot_def)
    moreover have "rd_entries rd = u_entries (l_unstable ?l)" "snapshot_is_empty (rd_snapshot rd)"
      using out by (auto simp: empty_snapshot_def snapshot_is_empty_def)
    ultimately show ?thesis
      unfolding s1 confirm_def using stab [where st = st and a = "l_applied ?l + length (rd_committed rd)"]
      by (simp only: if_True bind_runit)
  qed
  have sn: "log_base ?l \<le> sv_snapshot_index s" "s_index (ms_snapshot (l_storage ?l)) \<le> sv_snapshot_index s"
      "sv_snapshot_index s \<le> l_applied ?l"
    using ok by (auto simp: server_ok_def)
  have node: "r_read_states (n_raft (sv_node s1)) = r_read_states (n_raft (sv_node s))"
    "raft_soft_state (n_raft (sv_node s1)) = raft_soft_state (n_raft (sv_node s))"
    "raft_hard_state (n_raft (sv_node s1)) = raft_hard_state (n_raft (sv_node s))"
    "n_prev_soft (sv_node s1) = n_prev_soft (sv_node s)" "n_prev_hard (sv_node s1) = n_prev_hard (sv_node s)"
    "r_msgs (n_raft (sv_node s1)) = []"
    using rd by (simp_all add: s1_def)
  have "\<exists>s'. finish_body env rd s1 = Some s' \<and> server_ok s' \<and> quiet (sv_node s') \<and>
    l_committed (sv_log s') = l_committed lp \<and>
    l_applied (sv_log s') = sv_applied_index s1 + length (rd_committed rd) \<and>
    waiting (sv_log s') = drop (length (rd_committed rd))
      (take (l_committed lp - sv_applied_index s1) (drop (sv_applied_index s1 - log_base lp) (log_ents lp))) \<and>
    sv_events s' = sv_events s1 @ sends (rd_messages rd) @ effects env (rd_committed rd)"
  proof (rule finish_ok [OF lp(1,4,5) _ _ cur])
    show "(if rd_entries rd = [] then Some (l_storage (sv_log s1))
        else storage_append (l_storage (sv_log s1)) (rd_entries rd)) = Some (l_storage lp)"
      using app out s1(1) by (simp only:)
  qed (use s1 es lp(2,6,7) sn rd node out in auto)
  moreover have "take (l_committed lp - sv_applied_index s1) (drop (sv_applied_index s1 - log_base lp) (log_ents lp))
      = waiting ?l"
    unfolding waiting_def mx using s1(2) lp by simp
  ultimately show ?thesis
    using body k(1) rd s1(1-3) lp(6) by (auto simp: after_round_def)
qed

section \<open>A round that installs a snapshot\<close>

definition installing :: "snapshot \<Rightarrow> server \<Rightarrow> bool" where
  "installing snap s \<longleftrightarrow>
     log_ok (sv_log s) \<and> u_snapshot (l_unstable (sv_log s)) = Some snap \<and>
     s_index (ms_snapshot (l_storage (sv_log s))) \<le> sv_snapshot_index s \<and>
     sv_snapshot_index s \<le> sv_applied_index s \<and> sv_applied_index s = l_applied (sv_log s) \<and>
     l_applied (sv_log s) < s_index snap \<and>
     sv_snap_count s = defaultSnapCount \<and> w_files (sv_wal s) \<noteq> []"

lemma install_ok:
  assumes ok: "installing snap s" and nw: "plain env (waiting (sv_log s))"
    and rdy: "node_ready (sv_node s) = Some (rd, n)"
  shows "\<exists>s' k. ready_body env rd (s\<lparr>sv_node := n\<rparr>) = Some s' \<and> 0 < k \<and>
    rd_committed rd = take k (waiting (sv_log s)) \<and> rd_snapshot rd = snap \<and>
    server_ok s' \<and> quiet (sv_node s') \<and> l_committed (sv_log s') = l_committed (sv_log s) \<and>
    l_applied (sv_log s') = s_index snap + length (rd_committed rd) \<and>
    waiting (sv_log s') = drop (length (rd_committed rd)) (waiting (sv_log s)) \<and>
    sv_events s' = sv_events s @ [Recover (s_data snap)] @ sends (r_msgs (n_raft (sv_node s))) @
      effects env (rd_committed rd)"
proof -
  let ?l = "sv_log s"
  have l: "log_ok ?l" "u_snapshot (l_unstable ?l) = Some snap" "sv_applied_index s = l_applied ?l"
    "l_applied ?l < s_index snap" "w_files (sv_wal s) \<noteq> []"
    and newer: "s_index (ms_snapshot (l_storage ?l)) < s_index snap"
    using ok by (auto simp: installing_def)
  have shape: "log_shape ?l" using l(1) by (simp add: log_ok_def)
  have base: "log_base ?l = s_index snap" using l(2) by (auto intro: log_shape_cases [OF shape])
  have cmt: "s_index snap \<le> l_committed ?l" using l(1) base by (simp add: log_ok_def)
  have mx: "max (l_applied ?l) (log_base ?l) = s_index snap" using l(4) base by simp
  have ac: "l_applied ?l \<le> l_committed ?l" using l(4) cmt by simp
  obtain k where k: "0 < k" "log_next_entries ?l = Some (take k (waiting ?l))"
    using next_entries_waiting [OF l(1) ac] by blast
  let ?es = "take k (waiting ?l)"
  note rd = node_ready_hands_out [OF k(2), unfolded rdy l(2), simplified]
  note out = rd [unfolded hands_out_def]
  note wait = waiting_facts [OF l(1) ac, unfolded mx]
  have es: "consec (s_index snap + 1) ?es" "plain env ?es" "s_index snap + length ?es \<le> l_committed ?l"
    using wait cmt nw by (auto simp: consec_take plain_take)
  have ne: "\<not> snapshot_is_empty snap" using l(4) by (simp add: snapshot_is_empty_def)
  obtain st0 lp where st0: "storage_apply_snapshot (l_storage ?l) snap = (StatusOk, st0)"
    and lp: "log_ok lp" "log_base lp = s_index snap" "log_ents lp = log_ents ?l"
    "u_entries (l_unstable lp) = []" "u_snapshot (l_unstable lp) = None"
    "l_committed lp = l_committed ?l" "ms_snapshot (l_storage lp) = snap"
    and app: "(if u_entries (l_unstable ?l) = [] then Some st0
      else storage_append st0 (u_entries (l_unstable ?l))) = Some (l_storage lp)"
    and stab: "\<And>st a. (do {
        l2 \<leftarrow> (if u_entries (l_unstable ?l) = [] then Some (?l\<lparr>l_storage := st, l_applied := a\<rparr>)
               else log_stable_to (?l\<lparr>l_storage := st, l_applied := a\<rparr>) (e_index (last (u_entries (l_unstable ?l))))
                      (e_term (last (u_entries (l_unstable ?l)))));
        Some (log_stable_snap_to l2 (s_index snap))
      }) = Some (lp\<lparr>l_storage := st, l_applied := a\<rparr>)"
    by (rule persist_snapshot_parts [OF l(1,2) newer]) (rule that; assumption)
  obtain w where w: "wal_save (en_codec env) (rd_hard_state rd) (rd_entries rd) (sv_wal s) = Some w" "w_files w \<noteq> []"
    using wal_save_total [OF l(5)] by blast
  obtain w2 where w2: "wal_save_snapshot (en_codec env) \<lparr>ws_index = s_index snap, ws_term = s_term snap\<rparr> w = Some w2"
    "w_files w2 \<noteq> []"
    using wal_save_snapshot_total [OF w(2)] by blast
  let ?d = "snd (snapper_save (en_codec env) (en_snaps env) snap (sv_snaps s))"
  define s1 where "s1 = emit (Recover (s_data snap)) ((put_storage st0 (s\<lparr>sv_node := n, sv_wal := w2, sv_snaps := ?d\<rparr>))
      \<lparr>sv_conf_state := s_conf snap, sv_snapshot_index := s_index snap, sv_applied_index := s_index snap\<rparr>)"
  have s1: "sv_log s1 = ?l\<lparr>l_storage := st0\<rparr>" "sv_applied_index s1 = s_index snap"
    "sv_events s1 = sv_events s @ [Recover (s_data snap)]"
    "sv_snapshot_index s1 = s_index snap" "sv_snap_count s1 = defaultSnapCount" "w_files (sv_wal s1) \<noteq> []"
    using rd w2(2) ok by (simp_all add: s1_def installing_def emit_def)
  have st1: "l_storage (sv_log s1) = st0" using s1(1) by simp
  have body: "ready_body env rd (s\<lparr>sv_node := n\<rparr>) = finish_body env rd s1"
    using w(1) w2(1) rd ne l(3,4) st0
    by (simp add: ready_body_finish s1_def save_snap_def snapper_save_def publish_snapshot_def Let_def not_le)
  have cur: "confirm rd (move_cursor rd ((sv_log s1)\<lparr>l_storage := st\<rparr>)) =
      Some (lp\<lparr>l_storage := st, l_applied := sv_applied_index s1 + length (rd_committed rd)\<rparr>)" for st
  proof -
    have mv: "move_cursor rd ((sv_log s1)\<lparr>l_storage := st\<rparr>) =
        ?l\<lparr>l_storage := st, l_applied := s_index snap + length (rd_committed rd)\<rparr>"
      using move_cursor_to [of "s_index snap" rd "?l\<lparr>l_storage := st\<rparr>"] es(1) rd l(4) s1(1) by simp
    have ents: "rd_entries rd = u_entries (l_unstable ?l)" "rd_snapshot rd = snap" using out by auto
    show ?thesis unfolding confirm_def mv s1(2) ents if_not_P [OF ne] by (rule stab)
  qed
  have node: "r_read_states (n_raft (sv_node s1)) = r_read_states (n_raft (sv_node s))"
    "raft_soft_state (n_raft (sv_node s1)) = raft_soft_state (n_raft (sv_node s))"
    "raft_hard_state (n_raft (sv_node s1)) = raft_hard_state (n_raft (sv_node s))"
    "n_prev_soft (sv_node s1) = n_prev_soft (sv_node s)" "n_prev_hard (sv_node s1) = n_prev_hard (sv_node s)"
    "r_msgs (n_raft (sv_node s1)) = []"
    using rd by (simp_all add: s1_def emit_def)
  have "\<exists>s'. finish_body env rd s1 = Some s' \<and> server_ok s' \<and> quiet (sv_node s') \<and>
    l_committed (sv_log s') = l_committed lp \<and>
    l_applied (sv_log s') = sv_applied_index s1 + length (rd_committed rd) \<and>
    waiting (sv_log s') = drop (length (rd_committed rd))
      (take (l_committed lp - sv_applied_index s1) (drop (sv_applied_index s1 - log_base lp) (log_ents lp))) \<and>
    sv_events s' = sv_events s1 @ sends (rd_messages rd) @ effects env (rd_committed rd)"
  proof (rule finish_ok [OF lp(1,4,5) _ _ cur])
    show "(if rd_entries rd = [] then Some (l_storage (sv_log s1))
        else storage_append (l_storage (sv_log s1)) (rd_entries rd)) = Some (l_storage lp)"
      using app out st1 by (simp only:)
  qed (use s1 es lp(2,6,7) rd node out in auto)
  moreover have "take (l_committed lp - sv_applied_index s1) (drop (sv_applied_index s1 - log_base lp) (log_ents lp))
      = waiting ?l"
    unfolding waiting_def mx using s1(2) lp base l(4) by simp
  ultimately show ?thesis
    using body k(1) rd s1(1-3) lp(6) by auto
qed

section \<open>The loop\<close>

lemma waiting_empty:
  assumes "log_ok l" "log_base l \<le> l_applied l" "l_applied l \<le> l_committed l"
  shows "waiting l = [] \<longleftrightarrow> l_applied l = l_committed l"
  using waiting_facts(1) [OF assms(1,3)] assms by (auto simp: max_def simp flip: length_0_conv)

lemma has_ready_cases:
  assumes ok: "server_ok s"
  shows "\<exists>b. node_has_ready (sv_node s) = Some b \<and>
    (quiet (sv_node s) \<longrightarrow> b = (waiting (sv_log s) \<noteq> [])) \<and>
    (\<not> b \<longrightarrow> waiting (sv_log s) = [] \<and> quiet (sv_node s))"
proof -
  note l = server_okD [OF ok]
  have "log_has_next_entries (sv_log s) = Some (l_applied (sv_log s) < l_committed (sv_log s))"
    using log_has_next_entries_eq [OF l(1,4)] l(3) by (simp add: max_def)
  moreover have "waiting (sv_log s) \<noteq> [] \<longleftrightarrow> l_applied (sv_log s) < l_committed (sv_log s)"
    using waiting_empty [OF l(1,3,4)] l(4) by auto
  ultimately show ?thesis
    using l(2) by (auto simp: node_has_ready_def quiet_def Let_def)
qed

lemma effects_split: "effects env w = effects env (take k w) @ effects env (drop (length (take k w)) w)"
  by (cases "k \<le> length w") (simp_all flip: effects_simps(3))

lemma quiet_updates:
  "rd_committed rd \<noteq> [] \<Longrightarrow> ready_contains_updates rd"
  by (simp add: ready_contains_updates_def)

text \<open>The state the loop ends in.\<close>

definition installs :: "raft_log \<Rightarrow> event list" where
  "installs l = (case u_snapshot (l_unstable l) of Some snap \<Rightarrow> [Recover (s_data snap)] | None \<Rightarrow> [])"

lemma installs_none: "server_ok s \<Longrightarrow> installs (sv_log s) = []"
  by (simp add: installs_def server_ok_def)

definition drained :: "env \<Rightarrow> server \<Rightarrow> server \<Rightarrow> bool" where
  "drained env s s' \<longleftrightarrow>
     server_ok s' \<and> l_committed (sv_log s') = l_committed (sv_log s) \<and>
     sv_applied_index s' = l_committed (sv_log s) \<and> r_msgs (n_raft (sv_node s')) = [] \<and>
     u_entries (l_unstable (sv_log s')) = [] \<and>
     sv_events s' = sv_events s @ installs (sv_log s) @ sends (r_msgs (n_raft (sv_node s))) @
       effects env (waiting (sv_log s))"

lemma drained_quiet:
  assumes "server_ok s" "quiet (sv_node s)" "waiting (sv_log s) = []"
  shows "drained env s s"
  using assms server_okD [OF assms(1)] waiting_empty [of "sv_log s"] installs_none [OF assms(1)]
  by (simp add: drained_def quiet_def sends_def)

lemma pull_quiet:
  assumes "server_ok s" "quiet (sv_node s)" "plain env (waiting (sv_log s))"
  shows "\<exists>s'. pull_ready_events env s = Some s' \<and> drained env s s'"
  using assms
proof (induction "length (waiting (sv_log s))" arbitrary: s rule: less_induct)
  case less
  note l = server_okD [OF less.prems(1)]
  have has: "node_has_ready (sv_node s) = Some (waiting (sv_log s) \<noteq> [])"
    using has_ready_cases [OF less.prems(1)] less.prems(2) by auto
  show ?case
  proof (cases "waiting (sv_log s) = []")
    case True
    then show ?thesis
      using has drained_quiet [OF less.prems(1,2)] by (subst pull_ready_events.simps) simp
  next
    case False
    obtain k0 where "log_next_entries (sv_log s) = Some (take k0 (waiting (sv_log s)))"
      using next_entries_waiting [OF l(1,4)] by blast
    then obtain rd n where rd: "node_ready (sv_node s) = Some (rd, n)"
      using node_ready_hands_out by blast
    obtain s1 k where s1: "ready_body env rd (s\<lparr>sv_node := n\<rparr>) = Some s1" "0 < k"
      "rd_committed rd = take k (waiting (sv_log s))"
      "after_round env (rd_committed rd) (r_msgs (n_raft (sv_node s))) s s1"
      using round_ok [OF less.prems(1,3) rd] by blast
    have ne: "rd_committed rd \<noteq> []" using s1(2,3) False by simp
    have r: "server_ok s1" "quiet (sv_node s1)" "waiting (sv_log s1) = drop (length (rd_committed rd)) (waiting (sv_log s))"
      using s1(4) by (simp_all add: after_round_def)
    have "length (waiting (sv_log s1)) < length (waiting (sv_log s))"
      using r(3) ne False by (simp add: Suc_le_eq)
    then obtain s' where s': "pull_ready_events env s1 = Some s'" "drained env s1 s'"
      using less.hyps [OF _ r(1,2)] r(3) less.prems(3) plain_drop by metis
    have "pull_ready_events env s = Some s'"
      using has False rd quiet_updates [OF ne] s1(1) s'(1) by (subst pull_ready_events.simps) simp
    moreover have "effects env (waiting (sv_log s)) =
        effects env (rd_committed rd) @ effects env (waiting (sv_log s1))"
      unfolding r(3) s1(3) by (rule effects_split)
    moreover have "r_msgs (n_raft (sv_node s1)) = []" "r_msgs (n_raft (sv_node s)) = []"
      using r(2) less.prems(2) by (simp_all add: quiet_def)
    ultimately show ?thesis
      using s'(2) s1(4) installs_none [OF r(1)] installs_none [OF less.prems(1)]
      by (simp add: drained_def after_round_def sends_def)
  qed
qed

theorem pull_ready_applies_all:
  assumes "server_ok s" "plain env (waiting (sv_log s))"
  shows "\<exists>s'. pull_ready_events env s = Some s' \<and> drained env s s'"
proof -
  note l = server_okD [OF assms(1)]
  obtain b where b: "node_has_ready (sv_node s) = Some b"
    "\<not> b \<longrightarrow> waiting (sv_log s) = [] \<and> quiet (sv_node s)"
    using has_ready_cases [OF assms(1)] by blast
  show ?thesis
  proof (cases b)
    case False
    then show ?thesis
      using b drained_quiet [OF assms(1)] by (subst pull_ready_events.simps) simp
  next
    case True
    obtain k0 where next_es: "log_next_entries (sv_log s) = Some (take k0 (waiting (sv_log s)))" "0 < k0"
      using next_entries_waiting [OF l(1,4)] by blast
    obtain rd n where rd: "node_ready (sv_node s) = Some (rd, n)"
      and n: "n = (sv_node s)\<lparr>n_raft := reduce_uncommitted_size ((n_raft (sv_node s))\<lparr>r_msgs := []\<rparr>)
        (take k0 (waiting (sv_log s)))\<rparr>"
      and f: "rd_messages rd = r_msgs (n_raft (sv_node s))" "rd_entries rd = u_entries (l_unstable (sv_log s))"
        "rd_committed rd = take k0 (waiting (sv_log s))"
      using node_ready_hands_out [OF next_es(1)] unfolding hands_out_def by blast
    show ?thesis
    proof (cases "ready_contains_updates rd")
      case True
      obtain s1 k where s1: "ready_body env rd (s\<lparr>sv_node := n\<rparr>) = Some s1" "0 < k"
        "rd_committed rd = take k (waiting (sv_log s))"
        "after_round env (rd_committed rd) (r_msgs (n_raft (sv_node s))) s s1"
        using round_ok [OF assms rd] by blast
      have r: "server_ok s1" "quiet (sv_node s1)" "waiting (sv_log s1) = drop (length (rd_committed rd)) (waiting (sv_log s))"
        using s1(4) by (simp_all add: after_round_def)
      obtain s' where s': "pull_ready_events env s1 = Some s'" "drained env s1 s'"
        using pull_quiet [OF r(1,2)] r(3) assms(2) plain_drop by metis
      have "pull_ready_events env s = Some s'"
        using b(1) \<open>b\<close> rd True s1(1) s'(1) by (subst pull_ready_events.simps) simp
      moreover have "effects env (waiting (sv_log s)) =
          effects env (rd_committed rd) @ effects env (waiting (sv_log s1))"
        unfolding r(3) s1(3) by (rule effects_split)
      moreover have "r_msgs (n_raft (sv_node s1)) = []" using r(2) by (simp add: quiet_def)
      ultimately show ?thesis
        using s'(2) s1(4) installs_none [OF r(1)] installs_none [OF assms(1)]
        by (auto simp: drained_def after_round_def sends_def)
    next
      case False
      then have none: "waiting (sv_log s) = []" "r_msgs (n_raft (sv_node s)) = []"
          "u_entries (l_unstable (sv_log s)) = []"
        using f next_es(2) by (auto simp: ready_contains_updates_def)
      let ?s = "s\<lparr>sv_node := n\<rparr>"
      have "pull_ready_events env s = Some ?s"
        using b(1) \<open>b\<close> rd False by (subst pull_ready_events.simps) simp
      moreover have "sv_log ?s = sv_log s" "r_msgs (n_raft (sv_node ?s)) = []" using n by simp_all
      moreover have "server_ok ?s" using assms(1) calculation(2) by (simp add: server_ok_def)
      ultimately show ?thesis
        using none l(5) waiting_empty [OF l(1,3,4)] installs_none [OF assms(1)]
        by (auto simp: drained_def sends_def)
    qed
  qed
qed

text \<open>The loop of a server whose node has received a snapshot: installed in its first round.\<close>

theorem pull_ready_installs:
  assumes "installing snap s" "plain env (waiting (sv_log s))"
  shows "\<exists>s'. pull_ready_events env s = Some s' \<and> drained env s s'"
proof -
  have l: "log_ok (sv_log s)" "u_snapshot (l_unstable (sv_log s)) = Some snap"
    "l_applied (sv_log s) < s_index snap"
    using assms(1) by (auto simp: installing_def)
  have shape: "log_shape (sv_log s)" using l(1) by (simp add: log_ok_def)
  have "log_base (sv_log s) = s_index snap" using l(2) by (auto intro: log_shape_cases [OF shape])
  then have ac: "l_applied (sv_log s) \<le> l_committed (sv_log s)" using l(1,3) by (simp add: log_ok_def)
  have ne: "\<not> snapshot_is_empty snap" using l(3) by (simp add: snapshot_is_empty_def)
  have has: "node_has_ready (sv_node s) = Some True"
    using l(2) ne by (simp add: node_has_ready_def Let_def)
  obtain k0 where "log_next_entries (sv_log s) = Some (take k0 (waiting (sv_log s)))"
    using next_entries_waiting [OF l(1) ac] by blast
  then obtain rd n where rd: "node_ready (sv_node s) = Some (rd, n)"
    using node_ready_hands_out by blast
  obtain s1 k where s1: "ready_body env rd (s\<lparr>sv_node := n\<rparr>) = Some s1"
    "rd_committed rd = take k (waiting (sv_log s))" "rd_snapshot rd = snap" "server_ok s1" "quiet (sv_node s1)"
    "l_committed (sv_log s1) = l_committed (sv_log s)"
    "waiting (sv_log s1) = drop (length (rd_committed rd)) (waiting (sv_log s))"
    "sv_events s1 = sv_events s @ [Recover (s_data snap)] @ sends (r_msgs (n_raft (sv_node s))) @
      effects env (rd_committed rd)"
    using install_ok [OF assms rd] by blast
  obtain s' where s': "pull_ready_events env s1 = Some s'" "drained env s1 s'"
    using pull_quiet [OF s1(4,5)] s1(7) assms(2) plain_drop by metis
  have "pull_ready_events env s = Some s'"
    using has rd s1(1,3) s'(1) ne by (subst pull_ready_events.simps) (simp add: ready_contains_updates_def)
  moreover have "effects env (waiting (sv_log s)) = effects env (rd_committed rd) @ effects env (waiting (sv_log s1))"
    unfolding s1(2,7) by (rule effects_split)
  moreover have "r_msgs (n_raft (sv_node s1)) = []" using s1(5) by (simp add: quiet_def)
  ultimately show ?thesis
    using s'(2) s1(6,8) l(2) installs_none [OF s1(4)] by (auto simp: drained_def sends_def installs_def)
qed

text \<open>What a server may look like when an input has reached its node.\<close>

definition receptive :: "server \<Rightarrow> bool" where
  "receptive s \<longleftrightarrow> server_ok s \<or> (\<exists>snap. installing snap s)"

theorem pull_ready_drains:
  assumes "receptive s" "plain env (waiting (sv_log s))"
  shows "\<exists>s'. pull_ready_events env s = Some s' \<and> drained env s s'"
  using assms pull_ready_applies_all pull_ready_installs unfolding receptive_def by blast

end
