(* ===== verification/Replica_Ready.thy ===== *)
theory Replica_Ready
  imports Replica_Step Server_Loop
begin

text \<open>
  A round of the ready loop and the compaction of applied entries keep what a node's log stands for.
\<close>

section \<open>The ready loop\<close>

lemma last_next_entry:
  assumes ok: "log_ok l" and a: "l_applied l \<le> l_committed l" and es: "log_next_entries l = Some es" "es \<noteq> []"
  shows "e_index (last es) \<le> l_committed l"
proof -
  obtain k where k: "es = take k (waiting l)" using next_entries_waiting [OF ok a] es(1) by auto
  note w = waiting_facts [OF ok a]
  have "consec (max (l_applied l) (log_base l) + 1) es" unfolding k by (rule consec_take [OF w(2)])
  then have "e_index (last es) = max (l_applied l) (log_base l) + 1 + length es - 1" by (rule consec_last [OF _ es(2)])
  moreover have "length es \<le> length (waiting l)" by (simp add: k)
  moreover have "length es \<noteq> 0" using es(2) by simp
  ultimately show ?thesis using w(1) a by linarith
qed

lemma stable_offset:
  assumes "log_ok l" "u_entries (l_unstable l) = []" "u_snapshot (l_unstable l) = None"
  shows "u_offset (l_unstable l) = log_end l + 1"
proof -
  have "log_shape l" using assms(1) by (simp add: log_ok_def)
  then show ?thesis using assms(2,3) by (cases rule: log_shape_cases) simp_all
qed

lemma node_ready_eq:
  assumes "node_ready n = Some (rd, n')"
  obtains us where "n' = n\<lparr>n_raft := (n_raft n)\<lparr>r_msgs := [], r_uncommitted_size := us\<rparr>\<rparr>"
    "rd_entries rd = u_entries (l_unstable (r_log (n_raft n)))"
    "rd_snapshot rd = (case u_snapshot (l_unstable (r_log (n_raft n))) of Some s \<Rightarrow> s | None \<Rightarrow> empty_snapshot)"
    "log_next_entries (r_log (n_raft n)) = Some (rd_committed rd)" "rd_messages rd = r_msgs (n_raft n)"
proof -
  obtain r0 where n: "new_ready (n_raft n) (n_prev_soft n) (n_prev_hard n) = Some (rd, r0)"
      and n': "n' = n\<lparr>n_raft := reduce_uncommitted_size (r0\<lparr>r_msgs := []\<rparr>) (rd_committed rd)\<rparr>"
    using assms by (auto simp: node_ready_def split: Option.bind_splits)
  have r0: "r0 = (n_raft n)\<lparr>r_msgs := []\<rparr>"
    using n by (auto simp: new_ready_def Let_def split: Option.bind_splits)
  have "\<exists>us. reduce_uncommitted_size r es = r\<lparr>r_uncommitted_size := us\<rparr>" for r es
    by (auto simp: reduce_uncommitted_size_def Let_def intro: exI [of _ "r_uncommitted_size r"])
  then obtain us where "reduce_uncommitted_size (r0\<lparr>r_msgs := []\<rparr>) (rd_committed rd) =
      (r0\<lparr>r_msgs := []\<rparr>)\<lparr>r_uncommitted_size := us\<rparr>" by blast
  then have "n' = n\<lparr>n_raft := (n_raft n)\<lparr>r_msgs := [], r_uncommitted_size := us\<rparr>\<rparr>"
    by (simp add: n' r0)
  then show ?thesis
    by (rule that) (use n in \<open>auto simp: new_ready_def Let_def split: Option.bind_splits\<close>)
qed

definition cursor_at :: "ready \<Rightarrow> raft_log \<Rightarrow> nat" where
  "cursor_at rd l = (if ready_applied_cursor rd > 0 then ready_applied_cursor rd else l_applied l)"

lemma move_cursor_at: "move_cursor rd l = l\<lparr>l_applied := cursor_at rd l\<rparr>"
  by (simp add: move_cursor_def cursor_at_def log_applied_to_def)

text \<open>The log after one round of persisting, confirming and applying.\<close>

lemma persisted_log:
  assumes g: "log_good X l" and p: "log_next_entries l = Some (rd_committed rd)"
    "rd_entries rd = u_entries (l_unstable l)"
    "rd_snapshot rd = (case u_snapshot (l_unstable l) of Some s \<Rightarrow> s | None \<Rightarrow> empty_snapshot)"
    and s: "s1 = (if \<not> snapshot_is_empty (rd_snapshot rd)
               then snd (storage_apply_snapshot (l_storage l) (rd_snapshot rd)) else l_storage l)"
      "(if rd_entries rd \<noteq> [] then storage_append s1 (rd_entries rd) else Some s1) = Some s2"
  shows "\<exists>l3. confirm rd (l\<lparr>l_storage := s2, l_applied := cursor_at rd l\<rparr>) = Some l3 \<and> log_good X l3 \<and>
    l_committed l3 = l_committed l"
proof -
  let ?a = "cursor_at rd l"
  note X = log_goodD(1) [OF g]
  note d = log_ofD [OF X]
  have cur: "?a \<le> l_committed l"
  proof (cases "rd_committed rd = []")
    case True
    have "s_index (rd_snapshot rd) \<le> l_committed l"
      using p(3) d(8) by (auto simp: empty_snapshot_def log_base_def split: option.splits)
    then show ?thesis using True log_goodD(2) [OF g] by (simp add: cursor_at_def ready_applied_cursor_def)
  next
    case False
    then show ?thesis
      using last_next_entry [OF d(1) log_goodD(2) [OF g] p(1)] log_goodD(2) [OF g]
      by (simp add: cursor_at_def ready_applied_cursor_def)
  qed
  have kept: "log_good X (lp\<lparr>l_applied := ?a\<rparr>)"
    if lp: "log_ok lp" "log_base lp = log_base l" "log_bterm lp = log_bterm l" "log_ents lp = log_ents l"
      "u_entries (l_unstable lp) = []" "u_snapshot (l_unstable lp) = None" "l_committed lp = l_committed l"
      "snap_in X (l_committed l) (ms_snapshot (l_storage lp))" for lp
  proof -
    have "log_of X (lp\<lparr>l_applied := ?a\<rparr>)" using lp(1-4) d(3-5) by (simp add: log_of_def)
    moreover have "l_committed l \<le> log_end lp" using d(6,9) lp(2,4) by simp
    then have "?a < u_offset (l_unstable lp)" using stable_offset [OF lp(1,5,6)] cur by simp
    ultimately show ?thesis using lp(6-8) cur by (simp add: log_good_def)
  qed
  show ?thesis
  proof (cases "u_snapshot (l_unstable l)")
    case None
    obtain lp where lp: "log_ok lp" "log_base lp = log_base l" "log_bterm lp = log_bterm l" "log_ents lp = log_ents l"
        "u_entries (l_unstable lp) = []" "u_snapshot (l_unstable lp) = None" "l_committed lp = l_committed l"
        "ms_snapshot (l_storage lp) = ms_snapshot (l_storage l)"
      and app: "(if u_entries (l_unstable l) = [] then Some (l_storage l)
        else storage_append (l_storage l) (u_entries (l_unstable l))) = Some (l_storage lp)"
      and stab: "\<And>st a. (if u_entries (l_unstable l) = [] then Some (l\<lparr>l_storage := st, l_applied := a\<rparr>)
        else log_stable_to (l\<lparr>l_storage := st, l_applied := a\<rparr>) (e_index (last (u_entries (l_unstable l))))
               (e_term (last (u_entries (l_unstable l))))) = Some (lp\<lparr>l_storage := st, l_applied := a\<rparr>)"
      by (rule persist_parts [OF d(1) None]) (rule that; assumption)
    have sn: "rd_snapshot rd = empty_snapshot" "snapshot_is_empty (rd_snapshot rd)"
      using p(3) None by (simp_all add: empty_snapshot_def snapshot_is_empty_def)
    then have s2: "s2 = l_storage lp" using s app p(2) by (auto split: if_splits)
    have "confirm rd (l\<lparr>l_storage := s2, l_applied := ?a\<rparr>) = Some (lp\<lparr>l_storage := s2, l_applied := ?a\<rparr>)"
      unfolding confirm_def p(2) using stab [where st = s2 and a = ?a] sn(2) by (simp only: if_True bind_runit)
    then have "confirm rd (l\<lparr>l_storage := s2, l_applied := ?a\<rparr>) = Some (lp\<lparr>l_applied := ?a\<rparr>)"
      by (simp add: s2)
    moreover have "log_good X (lp\<lparr>l_applied := ?a\<rparr>)"
      by (rule kept [OF lp(1-7)]) (use log_goodD(4) [OF g] lp(8) in simp)
    ultimately show ?thesis using lp(7) by simp
  next
    case (Some snap)
    have newer: "s_index (ms_snapshot (l_storage l)) < s_index snap" by (rule log_goodD(5) [OF g Some])
    obtain st0 lp where st0: "storage_apply_snapshot (l_storage l) snap = (StatusOk, st0)"
      and lp: "log_ok lp" "log_base lp = s_index snap" "log_bterm lp = log_bterm l" "log_ents lp = log_ents l"
        "u_entries (l_unstable lp) = []" "u_snapshot (l_unstable lp) = None" "l_committed lp = l_committed l"
        "ms_snapshot (l_storage lp) = snap"
      and app: "(if u_entries (l_unstable l) = [] then Some st0
        else storage_append st0 (u_entries (l_unstable l))) = Some (l_storage lp)"
      and stab: "\<And>st a. (do {
        l2 \<leftarrow> (if u_entries (l_unstable l) = [] then Some (l\<lparr>l_storage := st, l_applied := a\<rparr>)
               else log_stable_to (l\<lparr>l_storage := st, l_applied := a\<rparr>) (e_index (last (u_entries (l_unstable l))))
                      (e_term (last (u_entries (l_unstable l)))));
        Some (log_stable_snap_to l2 (s_index snap))
      }) = Some (lp\<lparr>l_storage := st, l_applied := a\<rparr>)"
      by (rule persist_snapshot_parts [OF d(1) Some newer]) (rule that; assumption)
    have sn: "rd_snapshot rd = snap" "\<not> snapshot_is_empty (rd_snapshot rd)"
      using p(3) Some newer by (simp_all add: snapshot_is_empty_def)
    then have s2: "s2 = l_storage lp" using s app p(2) st0 by (auto split: if_splits)
    have "confirm rd (l\<lparr>l_storage := s2, l_applied := ?a\<rparr>) = Some (lp\<lparr>l_storage := s2, l_applied := ?a\<rparr>)"
      unfolding confirm_def p(2) using stab [where st = s2 and a = ?a] sn by (simp only: if_False)
    then have "confirm rd (l\<lparr>l_storage := s2, l_applied := ?a\<rparr>) = Some (lp\<lparr>l_applied := ?a\<rparr>)"
      by (simp add: s2)
    moreover have b: "log_base l = s_index snap" "log_bterm l = s_term snap"
      using Some by (simp_all add: log_view_defs)
    have "log_good X (lp\<lparr>l_applied := ?a\<rparr>)"
      by (rule kept [OF lp(1) _ lp(3-7)]) (use lp(2,8) b d(5,8) in \<open>simp_all add: snap_in_def\<close>)
    ultimately show ?thesis using lp(7) by simp
  qed
qed

lemma okay_ready:
  assumes ok: "okay M i h (n_raft n)" and p: "pull_ready n = Some (ms, n')"
  shows "okay M i h (n_raft n')"
proof -
  let ?r = "n_raft n" and ?l = "r_log (n_raft n)"
  note d = node_okD [OF okayD(2) [OF ok]]
  obtain rd n1 n2 where 1: "node_ready n = Some (rd, n1)" "persist_ready n1 rd = Some n2"
      "node_advance n2 rd = Some n'" "ms = rd_messages rd"
    using p by (auto simp: pull_ready_def split: Option.bind_splits)
  obtain us where rd: "n1 = n\<lparr>n_raft := ?r\<lparr>r_msgs := [], r_uncommitted_size := us\<rparr>\<rparr>"
    "rd_entries rd = u_entries (l_unstable ?l)"
    "rd_snapshot rd = (case u_snapshot (l_unstable ?l) of Some s \<Rightarrow> s | None \<Rightarrow> empty_snapshot)"
    "log_next_entries ?l = Some (rd_committed rd)" "rd_messages rd = r_msgs ?r"
    by (rule node_ready_eq [OF 1(1)])
  define s1 where "s1 = (if \<not> snapshot_is_empty (rd_snapshot rd)
               then snd (storage_apply_snapshot (l_storage ?l) (rd_snapshot rd)) else l_storage ?l)"
  have st1: "l_storage (r_log (n_raft n1)) = l_storage ?l" by (simp add: rd(1))
  obtain s2 where s2: "(if rd_entries rd \<noteq> [] then storage_append s1 (rd_entries rd) else Some s1) = Some s2"
    "n2 = with_storage n1 s2"
    using 1(2) unfolding persist_ready_def Let_def bind_eq_Some_conv st1 s1_def [symmetric] option.inject by blast
  obtain l3 where l3: "confirm rd (?l\<lparr>l_storage := s2, l_applied := cursor_at rd ?l\<rparr>) = Some l3"
    "log_good (h_log h i) l3" "l_committed l3 = l_committed ?l"
    using persisted_log [OF d(4) rd(4,2,3) s1_def s2(1)] by blast
  have r2: "n_raft n2 = ?r\<lparr>r_msgs := [], r_uncommitted_size := us, r_log := ?l\<lparr>l_storage := s2\<rparr>\<rparr>"
    by (simp add: s2(2) with_storage_def rd(1))
  have "confirm rd (move_cursor rd (r_log (n_raft n2))) = Some l3"
  proof -
    have c: "cursor_at rd (?l\<lparr>l_storage := s2\<rparr>) = cursor_at rd ?l" by (simp add: cursor_at_def)
    have "r_log (n_raft n2) = ?l\<lparr>l_storage := s2\<rparr>" by (simp add: r2)
    then show ?thesis by (simp only: move_cursor_at c) (rule l3(1))
  qed
  note adv = node_advance_confirm [OF this]
  define rs where "rs = (if rd_read_states rd \<noteq> [] then [] else r_read_states (n_raft n2))"
  from trans [OF 1(3) [symmetric] adv, folded rs_def]
  have r': "n_raft n' = (?r\<lparr>r_log := l3\<rparr>)\<lparr>r_msgs := [], r_uncommitted_size := us, r_read_states := rs\<rparr>"
    by (simp add: r2)
  have "okay M i h (?r\<lparr>r_log := l3\<rparr>)"
    by (rule okay_commit [OF ok l3(2)]) (use d(9) l3(3) in simp)
  then show ?thesis by (rule okay_says) (simp_all add: r' unmoved_def)
qed

section \<open>Compaction\<close>

lemma storage_term_in:
  assumes X: "log_of X l" and ns: "u_snapshot (l_unstable l) = None"
    and k: "log_base l \<le> k" "k < u_offset (l_unstable l)"
  shows "term_at (storage_base (l_storage l)) (storage_bterm (l_storage l)) (storage_ents (l_storage l)) k = term_in X k"
proof -
  note d = log_ofD [OF X]
  from d(2) show ?thesis
  proof (cases rule: log_shape_cases)
    case (plain n)
    have e: "drop (log_base l) X = take n (storage_ents (l_storage l)) @ u_entries (l_unstable l)"
      using plain(9) d(4) by simp
    show ?thesis
    proof (cases "k = log_base l")
      case True
      then show ?thesis using plain(4,5) d(5) by (simp add: term_at_def)
    next
      case False
      then obtain j where j: "k = log_base l + Suc j" "j < n"
        using k plain(4,6) by (metis add.assoc add_Suc_right add_less_cancel_left le_neq_implies_less less_imp_Suc_add
            less_Suc_eq plus_1_eq_Suc add.commute Suc_less_eq)
      have "drop (log_base l) X ! j = storage_ents (l_storage l) ! j"
        unfolding e using j(2) plain(7) by (simp add: nth_append)
      then have "X ! (k - 1) = storage_ents (l_storage l) ! j" using j(1) d(3) by simp
      then show ?thesis using j(1) plain(4) by (simp add: term_at_def term_in_def)
    qed
  qed (use ns in simp)
qed

lemma compacted_log:
  assumes g: "log_good X l" and ns: "u_snapshot (l_unstable l) = None" and a: "ci \<le> applied" "applied \<le> l_applied l"
    and c: "storage_create_snapshot (l_storage l) applied (Some cs) d = Some ((StatusOk, snap), s1)"
    and k: "storage_compact s1 ci = Some (StatusOk, s2)"
  shows "log_good X (l\<lparr>l_storage := s2\<rparr>)"
proof -
  note X = log_goodD(1) [OF g] and lc = log_goodD(2,3) [OF g]
  note f = log_ofD [OF X]
  from f(2) show ?thesis
  proof (cases rule: log_shape_cases)
    case (plain n)
    let ?st = "l_storage l"
    have older: "s_index (ms_snapshot ?st) < applied"
      using c by (auto simp: storage_create_snapshot_def older_snapshot_def split: if_splits)
    have s1: "s1 = ?st\<lparr>ms_snapshot := snap\<rparr>"
      using c older by (auto simp: storage_create_snapshot_def Let_def split: if_splits Option.bind_splits)
    have v1: "storage_base s1 = storage_base ?st" "storage_bterm s1 = storage_bterm ?st" "storage_ents s1 = storage_ents ?st"
        "storage_ok s1 = storage_ok ?st" "storage_end s1 = storage_end ?st"
      by (simp_all add: s1 storage_base_def storage_bterm_def storage_ents_def storage_ok_def storage_end_def)
    have base: "storage_base ?st < ci"
    proof (rule ccontr)
      assume n: "\<not> storage_base ?st < ci"
      obtain e0 es where "ms_entries s1 = e0 # es" "storage_base s1 = e_index e0"
        using plain(3) v1(4) by (auto elim: storage_okE)
      then show False using k n v1(1) by (simp add: storage_compact_def Let_def compacted_def)
    qed
    have in_st: "applied < u_offset (l_unstable l)" "storage_base ?st \<le> applied"
      using a lc base by simp_all
    have snap: "s_index snap = applied \<and> s_term snap = term_in X applied"
      using storage_create_snapshot_view [OF plain(3) in_st(2) _ older, of cs d] c in_st plain(4,6,7)
        storage_term_in [OF X ns, of applied] by auto
    have w: "log_base (l\<lparr>l_storage := s1\<rparr>) = log_base l" "log_bterm (l\<lparr>l_storage := s1\<rparr>) = log_bterm l"
        "log_ents (l\<lparr>l_storage := s1\<rparr>) = log_ents l" "log_shape (l\<lparr>l_storage := s1\<rparr>)"
      using f(2) v1 ns by (simp_all add: log_view_defs log_shape_def)
    then have "log_ok (l\<lparr>l_storage := s1\<rparr>)" using f(1) by (simp add: log_ok_def)
    from log_compact_view [OF this, of ci] k base plain(4) a lc in_st ns w
    have z: "log_ok (l\<lparr>l_storage := s2\<rparr>)" "log_base (l\<lparr>l_storage := s2\<rparr>) = ci"
        "log_bterm (l\<lparr>l_storage := s2\<rparr>) = term_at (log_base l) (log_bterm l) (log_ents l) ci"
        "log_ents (l\<lparr>l_storage := s2\<rparr>) = drop (ci - log_base l) (log_ents l)"
      by simp_all
    have ci: "log_base l \<le> ci" "ci \<le> length X" using base plain(4) a lc(1) f(9) by simp_all
    have "log_term l ci = Some (Inr (term_in X ci))" by (rule log_of_term [OF X ci])
    moreover have "log_term l ci = Some (Inr (term_at (log_base l) (log_bterm l) (log_ents l) ci))"
      using rlog.view_term [OF f(1) ci(1)] ci(2) f(6) by simp
    ultimately have "log_of X (l\<lparr>l_storage := s2\<rparr>)"
      using z ci f(4) by (simp add: log_of_def)
    moreover have "ms_snapshot s2 = snap" using storage_compact_frame [OF k] s1 by simp
    ultimately show ?thesis using snap lc a ns by (simp add: log_good_def snap_in_def)
  qed (use ns in simp)
qed

lemma okay_compact:
  assumes ok: "okay M i h (n_raft n)" and ns: "u_snapshot (l_unstable (r_log (n_raft n))) = None"
    and a: "ci \<le> applied" "applied \<le> l_applied (r_log (n_raft n))" and t: "take_snapshot n applied d ci = Some n'"
  shows "okay M i h (n_raft n')"
proof -
  let ?r = "n_raft n"
  obtain st snap s1 st' s2 where "storage_create_snapshot (l_storage (r_log ?r)) applied (Some (conf_state_of ?r)) d
      = Some ((st, snap), s1)" "is_ok st" "storage_compact s1 ci = Some (st', s2)" "is_ok st'"
      "n' = with_storage n s2"
    using t by (auto simp: take_snapshot_def split: Option.bind_splits)
  then have c: "storage_create_snapshot (l_storage (r_log ?r)) applied (Some (conf_state_of ?r)) d
      = Some ((StatusOk, snap), s1)" "storage_compact s1 ci = Some (StatusOk, s2)"
    and n': "n_raft n' = ?r\<lparr>r_log := (r_log ?r)\<lparr>l_storage := s2\<rparr>\<rparr>"
    by (cases st; cases st'; simp add: with_storage_def)+
  note d = node_okD [OF okayD(2) [OF ok]]
  show ?thesis unfolding n'
    by (rule okay_commit [OF ok compacted_log [OF d(4) ns a c]]) (use d(9) in simp)
qed

end
