(* ===== verification/Node_Boot.thy ===== *)
theory Node_Boot
  imports Node Raft_Logs
begin

text \<open>
  The log of a node that has just been built: on a new storage it holds one membership change for
  every peer, all committed.
\<close>

section \<open>A new node\<close>

text \<open>The log of a node that has just been built on a storage.\<close>

definition fresh_log :: "memory_storage \<Rightarrow> raft_log \<Rightarrow> bool" where
  "fresh_log st l \<longleftrightarrow>
     log_ok l \<and> l_storage l = st \<and> u_snapshot (l_unstable l) = None \<and> u_entries (l_unstable l) = [] \<and>
     l_applied l = storage_base st"

lemma new_raft_log_fresh:
  assumes "storage_ok st" "new_raft_log st n = Some l"
  shows "fresh_log st l"
proof -
  have b: "storage_base st + length (storage_ents st) + 1 < W64"
    using assms(1) by (auto elim!: storage_okE)
  have "storage_first_index st = Some (storage_base st + 1)"
    "storage_last_index st = Some (storage_base st + length (storage_ents st))"
    using stor.view_first [OF assms(1)] stor.view_last [OF assms(1)] by simp_all
  then have "l = \<lparr>l_storage = st,
      l_unstable = \<lparr>u_snapshot = None, u_entries = [], u_offset = storage_base st + length (storage_ents st) + 1\<rparr>,
      l_committed = storage_base st, l_applied = storage_base st, l_max_next_ents_size = n\<rparr>"
    using assms(2) b by (simp add: new_raft_log_def new_unstable_def u64)
  then show ?thesis
    using assms(1) b
    by (simp add: fresh_log_def log_ok_def log_shape_def log_view_defs unstable_ok_def storage_end_def)
qed

lemma load_state_fresh:
  assumes "fresh_log st (r_log r)" "load_state r hs = Some r'"
  shows "fresh_log st (r_log r')"
proof -
  have ok: "log_ok (r_log r)" using assms(1) by (simp add: fresh_log_def)
  have "log_last_index (r_log r) = Some (log_end (r_log r))"
    using log_shape_last ok by (simp add: log_ok_def)
  then have "r_log r' = (r_log r)\<lparr>l_committed := hs_commit hs\<rparr>"
    "l_committed (r_log r) \<le> hs_commit hs" "hs_commit hs \<le> log_end (r_log r)"
    using assms(2) by (auto simp: load_state_def bind_eq_Some_conv)
  then show ?thesis
    using assms(1) by (auto simp: fresh_log_def log_ok_def log_shape_def log_view_defs)
qed

lemma new_raft_fresh:
  assumes st: "c_storage c = Some st" "storage_ok st" and a: "c_applied c = 0" and r: "new_raft c rnd = Some r"
  shows "fresh_log st (r_log r)"
proof -
  obtain hs cs where init: "storage_initial_state st = (hs, cs)" by fastforce
  obtain l r0 xs ys r1 r2 r3 where l: "new_raft_log st (c_max_committed_size_per_ready c) = Some l"
    and r0: "r_log r0 = l" and s: "each add_peer xs r0 = Some r1" "each add_learner_peer ys r1 = Some r2"
    "(if \<not> hs_is_empty hs then load_state r2 hs else Some r2) = Some r3"
    "become_follower r3 (r_term r3) 0 = Some r"
    using r unfolding new_raft_def st(1) bind.bind_lunit init prod.case Let_def bind_eq_Some_conv a
      less_irrefl if_False option.inject
    by (elim exE conjE) (rule that, assumption, rule raft.select_convs(5), assumption+, simp)
  have "r_log r1 = r_log r0" by (rule each_log [OF s(1)]) (auto simp: add_peer_def)
  moreover have "r_log r2 = r_log r1"
    by (rule each_log [OF s(2)]) (auto simp: add_learner_peer_def bind_eq_Some_conv)
  ultimately have "fresh_log st (r_log r2)" using new_raft_log_fresh [OF st(2) l] r0 by simp
  then have "fresh_log st (r_log r3)" using s(3) load_state_fresh by (auto split: if_splits)
  then show ?thesis using become_follower_log [OF s(4)] by simp
qed

lemma add_nodes_log: "each (\<lambda>p r. add_node r (fst p)) peers r = Some r' \<Longrightarrow> r_log r' = r_log r"
proof (erule each_log)
  fix p a b
  assume "add_node a (fst p) = Some b"
  then show "r_log b = r_log a"
    by (cases "get_progress a (fst p)")
       (auto simp: add_node_def add_node_or_learner_def set_progress_def put_progress_def Let_def
        split: Option.bind_splits if_split_asm)
qed

text \<open>The entries of a first start: one membership change for every address, all committed.\<close>

definition first_entries :: "(conf_change \<Rightarrow> string) \<Rightarrow> (nat \<times> string) list \<Rightarrow> entry list" where
  "first_entries ser peers = map (\<lambda>(i, p). bootstrap_entry ser i p) (List.enumerate 0 peers)"

lemma first_entries_facts:
  "length (first_entries ser peers) = length peers" "consec 1 (first_entries ser peers)"
proof -
  show l: "length (first_entries ser peers) = length peers" by (simp add: first_entries_def)
  show "consec 1 (first_entries ser peers)"
    unfolding consec_def
    by (rule nth_equalityI)
       (simp_all add: first_entries_def bootstrap_entry_def nth_enumerate_eq split_beta del: upt_Suc)
qed

lemma bootstrap_log:
  assumes l: "fresh_log st (r_log r)" "storage_base st = 0" "storage_ents st = []"
    and p: "peers \<noteq> []" "length peers + 1 < W64" and b: "bootstrap ser r peers = Some r'"
  shows "log_ok (r_log r') \<and> l_storage (r_log r') = st \<and> u_snapshot (l_unstable (r_log r')) = None \<and>
    l_applied (r_log r') = 0 \<and> log_base (r_log r') = 0 \<and>
    l_committed (r_log r') = length peers \<and> log_ents (r_log r') = first_entries ser peers"
proof -
  let ?es = "first_entries ser peers"
  obtain r1 x where r1: "become_follower r 1 0 = Some r1" and x: "log_append (r_log r1) ?es = Some x"
    "(case x of (_, l) \<Rightarrow> each (\<lambda>p r. add_node r (fst p)) peers (r1\<lparr>r_log := l\<lparr>l_committed := length ?es\<rparr>\<rparr>)) = Some r'"
    using b unfolding bootstrap_def Let_def first_entries_def [symmetric] bind_eq_Some_conv by blast
  obtain j l1 where l1: "log_append (r_log r1) ?es = Some (j, l1)"
    and e: "each (\<lambda>p r. add_node r (fst p)) peers (r1\<lparr>r_log := l1\<lparr>l_committed := length ?es\<rparr>\<rparr>) = Some r'"
    using x by (cases x) auto
  have fr: "fresh_log st (r_log r1)" using l(1) become_follower_log [OF r1] by simp
  then have ok: "log_ok (r_log r1)" "log_base (r_log r1) = 0" "log_ents (r_log r1) = []"
    using l(2,3) by (simp_all add: fresh_log_def log_view_defs)
  have "?es \<noteq> []" using p(1) first_entries_facts(1) [of ser peers] by (metis length_0_conv)
  moreover have "consec (log_end (r_log r1) + 1) ?es" "log_end (r_log r1) + length ?es + 1 < W64"
    using p(2) ok(2,3) first_entries_facts [of ser peers] by simp_all
  ultimately have g: "log_grows (r_log r1) l1" "log_ents l1 = ?es"
    using log_append_end [OF ok(1) _ _ _ l1] ok(3) by simp_all
  then have g1: "log_ok l1" "log_base l1 = 0" "l_applied l1 = 0" "l_storage l1 = st" "u_snapshot (l_unstable l1) = None"
    using ok fr l(2) by (auto simp: log_grows_def same_snap_def fresh_log_def)
  let ?l = "l1\<lparr>l_committed := length ?es\<rparr>"
  have v: "log_base ?l = 0" "log_ents ?l = ?es" "log_shape ?l"
    using g(2) g1 by (simp_all add: log_view_defs log_ok_def log_shape_def)
  then have "log_ok ?l" unfolding log_ok_def by simp
  then show ?thesis
    using v(1,2) g1 add_nodes_log [OF e] first_entries_facts(1) [of ser peers] by simp
qed

end
