(* ===== verification/Replica_Cluster.thy ===== *)
theory Replica_Cluster
  imports Replica_Ready Node_Boot
begin

text \<open>
  The cluster of \<open>Cluster\<close> as it replicates: steps for which the indices have room, and compaction of
  applied entries only.  Its invariant relates the nodes and the network to a history, from which
  log matching, leader completeness and state machine safety follow.
\<close>

section \<open>Inputs of a node\<close>

definition has_room :: "raft \<Rightarrow> nat \<Rightarrow> bool" where
  "has_room r n \<longleftrightarrow> log_end (r_log r) + n + 2 < W64"

lemma okay_room: "okay M i h r \<Longrightarrow> has_room r n \<longleftrightarrow> length (h_log h i) + n + 2 < W64"
  using log_ofD(6) [of "h_log h i" "r_log r"] okay_log [of M i h r] by (simp add: has_room_def)

lemma node_input_goes:
  assumes ok: "okay M i h (n_raft n)" and t: "can_step (n_raft n)" and room: "has_room (n_raft n) (length (m_entries m))"
    and m: "heard M h i m" and s: "node_input n m = Some (st, n')"
  shows "goes_on M i h (n_raft n')"
proof -
  have "raft_step (n_raft n) m = Some (st, n_raft n')"
    using s by (auto simp: node_input_def split: Option.bind_splits)
  then show ?thesis
    by (rule raft_step_goes [OF ok m, rotated 2]) (use t room okay_room [OF ok] in \<open>simp_all add: can_step_def\<close>)
qed

lemma local_input_heard:
  "m_term m = 0 \<Longrightarrow> \<not> between_voters (m_type m) \<Longrightarrow> m_type m \<noteq> MsgPreVote \<Longrightarrow> m_type m \<noteq> MsgPreVoteResp \<Longrightarrow>
   heard M h i m"
  by (auto simp: heard_def msg_ok_def between_voters_def split: msg_type.splits)

lemma add_member_okay:
  assumes ok: "okay M i h r" and a: "add_node_or_learner r j False = Some r'" and j: "map_of (r_prs r) j = Some pr"
  shows "okay M i h r'"
proof -
  let ?ps = "AList.update j (pr\<lparr>pr_is_learner := False\<rparr>) (r_prs r)"
  let ?pr = "pr\<lparr>pr_is_learner := False, pr_recent_active := True\<rparr>"
  let ?r = "(if r_id r = j then r\<lparr>r_is_learner := False\<rparr> else r)
        \<lparr>r_learner_prs := AList.delete j (r_learner_prs r), r_prs := AList.update j ?pr ?ps\<rparr>"
  have k: "map fst (AList.update j p ?ps) = map fst (r_prs r)" for p
    using update_keys_in [of "r_prs r" j] update_keys_in [of ?ps j p] j by simp
  have "r' = r \<or> r' = ?r"
    using a j
    by (auto simp: add_node_or_learner_def get_progress_def put_progress_def Let_def split: if_split_asm)
  then show ?thesis
  proof
    assume r': "r' = ?r"
    show ?thesis
    proof (rule okay_unmoved [OF ok])
      show "unmoved r r'" using k by (simp add: r' unmoved_def)
      assume "r_state r = Leader"
      then have f: "get_progress r v = Some p \<Longrightarrow> follower_ok h i (r_term r) v p" for v p
        using ok leadsD(6) by (auto simp: leads_def)
      have g: "get_progress r' v = (if v = j then Some ?pr else get_progress r v)" for v
        by (auto simp: r' get_progress_def update_conv' delete_conv' split: option.split)
      have "follower_ok h i (r_term r) j ?pr" using f [of j pr] j by (simp add: get_progress_def)
      moreover have "r_term r' = r_term r" by (simp add: r')
      ultimately show "followers_ok h i r'" using f by (simp add: followers_ok_def g)
    qed (simp add: r' split: if_splits)
  qed (use ok in simp)
qed

lemma input_call_goes:
  assumes ok: "okay M i h (n_raft n)" and t: "can_step (n_raft n)" and room: "has_room (n_raft n) 1" and M: "0 \<notin> M"
    and c: "input_call ser M n n'"
  shows "goes_on M i h (n_raft n')"
proof -
  have input: "goes_on M i h (n_raft n')"
    if "node_input n m = Some (st, n')" "m_term m = 0" "\<not> between_voters (m_type m)" "m_type m \<noteq> MsgPreVote"
      "m_type m \<noteq> MsgPreVoteResp" "length (m_entries m) \<le> 1" for m st
    by (rule node_input_goes [OF ok t _ local_input_heard that(1)])
      (use that room in \<open>simp_all add: has_room_def\<close>)
  note intro = input [unfolded between_voters_def]
  from c show ?thesis
  proof cases
    case tick
    then have "raft_tick (n_raft n) = Some (n_raft n')"
      by (auto simp: node_tick_def split: Option.bind_splits)
    then show ?thesis
      by (rule raft_tick_goes [OF ok, rotated 2]) (use t room okay_room [OF ok] in \<open>simp_all add: can_step_def\<close>)
  next
    case (campaign st)
    then show ?thesis unfolding node_campaign_def by (rule intro) (simp_all add: new_message_def)
  next
    case (propose d st)
    then show ?thesis unfolding node_propose_def by (rule intro) (simp_all add: new_message_def)
  next
    case (propose_conf cc st)
    then show ?thesis unfolding node_propose_conf_change_def by (rule intro) (simp_all add: new_message_def)
  next
    case (read ctx st)
    then show ?thesis unfolding node_read_index_def by (rule intro) (simp_all add: new_message_def)
  next
    case (transfer lead to)
    then obtain st where "node_input n
        (new_message\<lparr>m_type := MsgTransferLeader, m_from := to, m_to := lead\<rparr>) = Some (st, n')"
      by (auto simp: node_transfer_leadership_def split: Option.bind_splits)
    then show ?thesis by (rule intro) (simp_all add: new_message_def)
  next
    case (unreachable j)
    then obtain st where "node_input n (new_message\<lparr>m_type := MsgUnreachable, m_from := j\<rparr>) = Some (st, n')"
      by (auto simp: node_report_unreachable_def split: Option.bind_splits)
    then show ?thesis by (rule intro) (simp_all add: new_message_def)
  next
    case (snapshot_done j s)
    then obtain st where "node_input n (new_message\<lparr>m_type := MsgSnapStatus, m_from := j,
        m_reject := (s = SnapshotFailure)\<rparr>) = Some (st, n')"
      by (auto simp: node_report_snapshot_def split: Option.bind_splits)
    then show ?thesis by (rule intro) (simp_all add: new_message_def)
  next
    case (conf cc cs)
    have keys: "set (map fst (r_prs (n_raft n))) = M"
      using node_okD(3) [OF okayD(2) [OF ok]] by (simp add: cand_ok_def)
    obtain pr where pr: "map_of (r_prs (n_raft n)) (cc_node_id cc) = Some pr"
      using conf(3) keys map_of_eq_None_iff' [of "r_prs (n_raft n)" "cc_node_id cc"]
      by (cases "map_of (r_prs (n_raft n)) (cc_node_id cc)") auto
    have "cc_node_id cc \<noteq> 0" using conf(3) M by metis
    then have "add_node_or_learner (n_raft n) (cc_node_id cc) False = Some (n_raft n')"
      using conf(1,2) by (auto simp: node_apply_conf_change_def split: Option.bind_splits)
    then show ?thesis using goes_onI add_member_okay [OF ok _ pr] by blast
  qed
qed

section \<open>Steps\<close>

inductive replica_step ::
  "(conf_change \<Rightarrow> string) \<Rightarrow> nat set \<Rightarrow> cluster \<Rightarrow> cluster \<Rightarrow> bool"
  for ser :: "conf_change \<Rightarrow> string" and M :: "nat set" where
  input: "i \<in> M \<Longrightarrow> can_step (cl_raft cl i) \<Longrightarrow> has_room (cl_raft cl i) 1 \<Longrightarrow>
    input_call ser M (cl_nodes cl i) n \<Longrightarrow> replica_step ser M cl (set_node cl i n)"
| compact: "i \<in> M \<Longrightarrow> can_step (cl_raft cl i) \<Longrightarrow> u_snapshot (l_unstable (r_log (cl_raft cl i))) = None \<Longrightarrow>
    ci \<le> applied \<Longrightarrow> applied \<le> l_applied (r_log (cl_raft cl i)) \<Longrightarrow>
    take_snapshot (cl_nodes cl i) applied d ci = Some n \<Longrightarrow> replica_step ser M cl (set_node cl i n)"
| deliver: "i \<in> M \<Longrightarrow> can_step (cl_raft cl i) \<Longrightarrow> m \<in> cl_net cl \<Longrightarrow> m_to m = i \<Longrightarrow>
    m_term m + 1 < W64 \<Longrightarrow> has_room (cl_raft cl i) (length (m_entries m)) \<Longrightarrow>
    node_step (cl_nodes cl i) m = Some (st, n) \<Longrightarrow> replica_step ser M cl (set_node cl i n)"
| ready: "i \<in> M \<Longrightarrow> pull_ready (cl_nodes cl i) = Some (ms, n) \<Longrightarrow>
    replica_step ser M cl ((set_node cl i n)\<lparr>cl_net := cl_net cl \<union> set ms\<rparr>)"

lemma replica_step_cluster: "replica_step ser M cl cl' \<Longrightarrow> cluster_step ser M cl cl'"
  by (elim replica_step.cases)
    (auto intro: cluster_step.intros node_call.intros)

definition replica_inv :: "nat set \<Rightarrow> history \<Rightarrow> cluster \<Rightarrow> bool" where
  "replica_inv M h cl \<longleftrightarrow>
     cluster_inv M cl \<and> history_ok M h \<and> (\<forall>i \<in> M. node_ok M h i (cl_raft cl i)) \<and>
     (\<forall>m \<in> all_msgs M cl. msg_ok M h m)"

lemma replica_okay: "replica_inv M h cl \<Longrightarrow> i \<in> M \<Longrightarrow> okay M i h (cl_raft cl i)"
  using msgs_in_all [of i M cl] by (auto simp: replica_inv_def okay_def)

lemma replica_change:
  assumes inv: "replica_inv M h cl" and i: "i \<in> M" and g: "goes_on M i h (n_raft n)"
    and cl': "cluster_inv M cl'" "cl' = (set_node cl i n)\<lparr>cl_net := N\<rparr>" "N \<subseteq> all_msgs M cl"
  shows "\<exists>h'. grown i h h' \<and> replica_inv M h' cl'"
proof -
  obtain h' where h': "grown i h h'" "okay M i h' (n_raft n)" using g by (auto simp: goes_on_def)
  have h: "history_ok M h" using inv by (simp add: replica_inv_def)
  have r: "cl_raft cl' j = (if j = i then n_raft n else cl_raft cl j)" for j
    by (simp add: cl'(2) cl_raft_set_node)
  have "node_ok M h' j (cl_raft cl' j)" if "j \<in> M" for j
    using that inv okayD(2) [OF h'(2)] node_ok_others [OF h'(1) h] by (simp add: r replica_inv_def)
  moreover have "msg_ok M h' m" if m: "m \<in> all_msgs M cl'" for m
  proof -
    have "m \<in> N \<or> (\<exists>j \<in> M. m \<in> set (r_msgs (cl_raft cl' j)))" using m by (auto simp: all_msgs_def cl'(2))
    then have "m \<in> all_msgs M cl \<or> m \<in> set (r_msgs (n_raft n))"
      using cl'(3) by (auto simp: r split: if_splits dest: set_mp [OF msgs_in_all])
    then show ?thesis
      using inv msg_ok_grown [OF h'(1)] okayD(3) [OF h'(2)] by (auto simp: replica_inv_def)
  qed
  ultimately have "replica_inv M h' cl'" using cl'(1) okayD(1) [OF h'(2)] by (simp add: replica_inv_def)
  then show ?thesis using h'(1) by blast
qed

lemma delivered_heard:
  assumes inv: "replica_inv M h cl" and m: "m \<in> cl_net cl" "m_to m = i" "m_term m + 1 < W64"
  shows "heard M h i m"
proof -
  have A: "m \<in> all_msgs M cl" using m(1) by (simp add: all_msgs_def)
  have "msg_inv M m" "0 \<notin> M" using inv A by (auto simp: replica_inv_def cluster_inv_def)
  moreover from this have "m_from m \<noteq> 0" by (metis msg_inv_def)
  moreover have "msg_ok M h m" using inv A by (simp add: replica_inv_def)
  ultimately show ?thesis using m(2,3) by (auto simp: heard_def msg_inv_def between_voters_def)
qed

theorem replica_inv_step:
  assumes inv: "replica_inv M h cl" and s: "replica_step ser M cl cl'"
  shows "\<exists>i h'. grown i h h' \<and> replica_inv M h' cl'"
proof -
  have c': "cluster_inv M cl'"
    using inv cluster_inv_preserved [OF _ replica_step_cluster [OF s]] by (simp add: replica_inv_def)
  have M: "0 \<notin> M" using inv by (simp add: replica_inv_def cluster_inv_def)
  have net: "cl_net cl \<subseteq> all_msgs M cl" by (simp add: all_msgs_def)
  have eq: "set_node cl i n = (set_node cl i n)\<lparr>cl_net := cl_net cl\<rparr>" for i n by (simp add: set_node_def)
  from s show ?thesis
  proof cases
    case (input i n)
    have ok: "okay M i h (n_raft (cl_nodes cl i))" using replica_okay [OF inv input(2)] by (simp add: cl_raft_def)
    have "goes_on M i h (n_raft n)"
      by (rule input_call_goes [OF ok _ _ M input(5)]) (use input(3,4) in \<open>simp_all add: cl_raft_def\<close>)
    then show ?thesis using replica_change [OF inv input(2) _ c' _ net] input(1) eq by blast
  next
    case (compact i ci applied d n)
    have ok: "okay M i h (n_raft (cl_nodes cl i))" using replica_okay [OF inv compact(2)] by (simp add: cl_raft_def)
    have "okay M i h (n_raft n)"
      by (rule okay_compact [OF ok _ compact(5) _ compact(7)]) (use compact(4,6) in \<open>simp_all add: cl_raft_def\<close>)
    then show ?thesis using replica_change [OF inv compact(2) goes_onI c' _ net] compact(1) eq by blast
  next
    case (deliver i m st n)
    have ok: "okay M i h (n_raft (cl_nodes cl i))" using replica_okay [OF inv deliver(2)] by (simp add: cl_raft_def)
    have "n = cl_nodes cl i \<or> node_input (cl_nodes cl i) m = Some (st, n)"
      using deliver(8) by (auto simp: node_step_def split: if_splits)
    then have "goes_on M i h (n_raft n)"
    proof
      assume n: "node_input (cl_nodes cl i) m = Some (st, n)"
      show ?thesis
        by (rule node_input_goes [OF ok _ _ delivered_heard [OF inv deliver(4-6)] n])
          (use deliver(3,7) in \<open>simp_all add: cl_raft_def\<close>)
    qed (use goes_onI [OF ok] in simp)
    then show ?thesis using replica_change [OF inv deliver(2) _ c' _ net] deliver(1) eq by blast
  next
    case (ready i ms n)
    have ok: "okay M i h (n_raft (cl_nodes cl i))" using replica_okay [OF inv ready(2)] by (simp add: cl_raft_def)
    have "ms = r_msgs (cl_raft cl i)" using pull_ready_frame(1) [OF ready(3)] by (simp add: cl_raft_def)
    then have "cl_net cl \<union> set ms \<subseteq> all_msgs M cl" using ready(2) by (auto simp: all_msgs_def)
    then show ?thesis
      using replica_change [OF inv ready(2) goes_onI [OF okay_ready [OF ok ready(3)]] c' ready(1)] by blast
  qed
qed

section \<open>The start\<close>

text \<open>The entries of the first start are those of term 1, and all nodes have them.\<close>

definition boot_history :: "nat set \<Rightarrow> entry list \<Rightarrow> history" where
  "boot_history M es =
     \<lparr>h_lead_log = [1 \<mapsto> es], h_winner = (\<lambda>_. 0), h_cand_log = (\<lambda>_ _. []), h_votes = {},
      h_acked = (\<lambda>j t. if j \<in> M \<and> t = 1 then length es else 0), h_log = (\<lambda>_. es)\<rparr>"

lemma term_in_const: "\<forall>e \<in> set X. e_term e = t \<Longrightarrow> 0 < k \<Longrightarrow> k \<le> length X \<Longrightarrow> term_in X k = t"
  by (simp add: term_in_def)

definition boot_log :: "nat set \<Rightarrow> entry list \<Rightarrow> bool" where
  "boot_log M es \<longleftrightarrow>
     finite M \<and> M \<noteq> {} \<and> es \<noteq> [] \<and> consec 1 es \<and> (\<forall>e \<in> set es. e_term e = 1) \<and> length es + 1 < W64"

lemma boot_log_terms:
  "boot_log M es \<Longrightarrow> k \<le> length es \<Longrightarrow> term_in es k = (if k = 0 then 0 else 1)"
  using term_in_const [of es 1 k] by (auto simp: boot_log_def)

lemma boot_rooted: "boot_log M es \<Longrightarrow> rooted (boot_history M es) es"
  by (auto simp: rooted_def boot_history_def boot_log_terms)

lemma boot_upto: "boot_log M es \<Longrightarrow> terms_upto 1 es"
  by (simp add: terms_upto_def boot_log_terms)

lemma boot_history_ok:
  assumes b: "boot_log M es"
  shows "history_ok M (boot_history M es)"
proof -
  have "terms_sorted es" by (simp add: terms_sorted_def boot_log_terms [OF b])
  then have "lead_log_ok (boot_history M es) 1 es"
    using boot_rooted [OF b] boot_upto [OF b] b by (simp add: lead_log_ok_def boot_log_def)
  then show ?thesis
    using b by (auto simp: history_ok_def votes_once_def boot_history_def boot_log_def)
qed

lemma boot_covered:
  assumes b: "boot_log M es"
  shows "covered M (boot_history M es) 1 es (length es)"
proof -
  have "majority M M" using b by (simp add: majority_def boot_log_def card_gt_0_iff)
  then have "chosen M (boot_history M es) 1 (length es)"
    using b boot_log_terms [OF b, of "length es"] by (simp add: chosen_def boot_history_def boot_log_def)
  then show ?thesis unfolding covered_def
    by (intro disjI2 exI [of _ 1] exI [of _ "length es"] exI [of _ es]) (simp add: boot_history_def)
qed

lemma storage_new: "storage_ok new_memory_storage" "storage_base new_memory_storage = 0"
  "storage_bterm new_memory_storage = 0" "storage_ents new_memory_storage = []"
  by (simp_all add: new_memory_storage_def storage_ok_def storage_base_def storage_bterm_def storage_ents_def
      new_entry_def u64)

lemma boot_node_log:
  assumes c: "boot_config False i c" and n: "new_raw_node ser c rnd peers = Some n"
    and p: "peers \<noteq> []" "length peers + 1 < W64"
  shows "log_good (first_entries ser peers) (r_log (n_raft n)) \<and> l_committed (r_log (n_raft n)) = length peers"
proof -
  let ?es = "first_entries ser peers" and ?l = "r_log (n_raft n)"
  have cf: "c_storage c = Some new_memory_storage" "c_applied c = 0" using c by (simp_all add: boot_config_def)
  obtain r where r: "new_raft c rnd = Some r"
    using n by (auto simp: new_raw_node_def split: Option.bind_splits)
  have "storage_last_index new_memory_storage = Some 0"
    using stor.view_last [OF storage_new(1)] storage_new(2,4) by simp
  then have b: "bootstrap ser r peers = Some (n_raft n)"
    using n r cf by (auto simp: new_raw_node_def split: Option.bind_splits)
  have l: "log_ok ?l" "l_storage ?l = new_memory_storage" "u_snapshot (l_unstable ?l) = None"
    "l_applied ?l = 0" "log_base ?l = 0" "l_committed ?l = length peers" "log_ents ?l = ?es"
    using bootstrap_log [OF new_raft_fresh [OF cf(1) storage_new(1) cf(2) r] storage_new(2,4) p b] by simp_all
  have "log_bterm ?l = 0" using l(2,3) storage_new(3) by (simp add: log_bterm_def)
  then have "log_of ?es ?l" using l by (simp add: log_of_def)
  moreover have "0 < u_offset (l_unstable ?l)"
    using l(1,3) by (auto simp: log_ok_def log_shape_def)
  moreover have "snapshot_is_empty (ms_snapshot (l_storage ?l))"
    by (simp add: l(2) new_memory_storage_def empty_snapshot_def snapshot_is_empty_def)
  ultimately show ?thesis using l by (simp add: log_good_def snap_in_def)
qed

lemma replica_inv_start:
  assumes b: "cluster_boot False ser peers cl" and p: "peers \<noteq> []"
  shows "\<exists>h. replica_inv (fst ` set peers) h cl"
proof -
  let ?M = "fst ` set peers" and ?es = "first_entries ser peers"
  let ?h = "boot_history ?M ?es"
  have inv: "cluster_inv ?M cl" by (rule cluster_inv_start [OF b])
  have len: "length peers + 1 < W64" using b by (simp add: cluster_boot_def W64_def)
  note fe = first_entries_facts [of ser peers]
  have "?es \<noteq> []" using fe(1) p by (metis length_0_conv)
  moreover have "\<forall>e \<in> set ?es. e_term e = 1" by (auto simp: first_entries_def bootstrap_entry_def)
  ultimately have bl: "boot_log ?M ?es" using p fe len by (simp add: boot_log_def)
  note bh = boot_rooted [OF bl] boot_upto [OF bl] boot_covered [OF bl]
  have node: "node_ok ?M ?h i (cl_raft cl i) \<and> r_msgs (cl_raft cl i) = []" if i: "i \<in> ?M" for i
  proof -
    let ?r = "cl_raft cl i"
    obtain c rnd where c: "boot_config False i c" "new_raw_node ser c rnd peers = Some (cl_nodes cl i)"
      using b i unfolding cluster_boot_def by blast
    have bt: "booted i 1 ?M ?r" using booted_node [OF c] by (simp add: cl_raft_def)
    then have r: "r_id ?r = i" "r_term ?r = 1" "r_vote ?r = 0" "r_state ?r = Follower" "r_step_fn ?r = StepFollower"
        "r_msgs ?r = []"
      by (simp_all add: booted_def)
    have l: "log_good ?es (r_log ?r)" "l_committed (r_log ?r) = length ?es"
      using boot_node_log [OF c p len] first_entries_facts(1) [of ser peers] by (simp_all add: cl_raft_def)
    have "cand_ok ?M (grants (all_msgs ?M cl)) ?r" using inv i unfolding cluster_inv_def node_inv_def by blast
    then have "cand_ok ?M (h_votes ?h) ?r" using r(4) by (simp add: cand_ok_def)
    moreover have "acks_kept ?h i ?r" using r(2) by (auto simp: acks_kept_def boot_history_def)
    moreover have "votes_kept ?h i ?r" using r(3) by (simp add: votes_kept_def boot_history_def)
    ultimately show ?thesis
      using r l bh by (simp add: node_ok_def) (simp add: boot_history_def)
  qed
  then have "all_msgs ?M cl = {}" using b by (auto simp: all_msgs_def cluster_boot_def)
  then have "replica_inv ?M ?h cl" using inv boot_history_ok [OF bl] node by (simp add: replica_inv_def)
  then show ?thesis by blast
qed

end
