(* ===== verification/Replica_Safety.thy ===== *)
theory Replica_Safety
  imports Replica_Cluster
begin

text \<open>
  What the invariant says of two nodes at two moments of a run, in terms of what the code reads from
  their logs and hands to the application.
\<close>

section \<open>Two moments of a run\<close>

definition later :: "history \<Rightarrow> history \<Rightarrow> bool" where
  "later = (\<lambda>a b. \<exists>i. grown i a b)\<^sup>*\<^sup>*"

lemma later_keeps:
  assumes "later h h'"
  shows "rooted h X \<Longrightarrow> rooted h' X" "covered M h t X n \<Longrightarrow> covered M h' t X n"
proof -
  have "(rooted h X \<longrightarrow> rooted h' X) \<and> (covered M h t X n \<longrightarrow> covered M h' t X n)"
    using assms unfolding later_def
    by (induction rule: rtranclp_induct) (use rooted_grown covered_grown in blast)+
  then show "rooted h X \<Longrightarrow> rooted h' X" "covered M h t X n \<Longrightarrow> covered M h' t X n" by blast+
qed

lemma replica_inv_later:
  assumes "replica_inv M h cl" "(replica_step ser M)\<^sup>*\<^sup>* cl cl'"
  shows "\<exists>h'. later h h' \<and> replica_inv M h' cl'"
  using assms(2)
proof (induction rule: rtranclp_induct)
  case base
  then show ?case using assms(1) unfolding later_def by blast
next
  case (step a b)
  then obtain h1 where h1: "later h h1" "replica_inv M h1 a" by blast
  obtain i h2 where "grown i h1 h2" "replica_inv M h2 b" using replica_inv_step [OF h1(2) step(2)] by blast
  moreover from this h1(1) have "later h h2" unfolding later_def by (metis (mono_tags, lifting) rtranclp.rtrancl_into_rtrancl)
  ultimately show ?case by blast
qed

text \<open>The log that a node's log stands for, its committed part covered by majorities.\<close>

definition stands_for :: "nat set \<Rightarrow> history \<Rightarrow> entry list \<Rightarrow> raft \<Rightarrow> bool" where
  "stands_for M h X r \<longleftrightarrow>
     log_good X (r_log r) \<and> rooted h X \<and> covered M h (r_term r) X (l_committed (r_log r))"

lemma two_moments:
  assumes b: "cluster_boot False ser peers cl0"
    and s: "(replica_step ser (fst ` set peers))\<^sup>*\<^sup>* cl0 cl" "(replica_step ser (fst ` set peers))\<^sup>*\<^sup>* cl cl'"
    and i: "i \<in> fst ` set peers" and j: "j \<in> fst ` set peers"
  obtains h X Y where "history_ok (fst ` set peers) h"
    "stands_for (fst ` set peers) h X (cl_raft cl i)" "stands_for (fst ` set peers) h Y (cl_raft cl' j)"
    "r_state (cl_raft cl' j) = Leader \<Longrightarrow> h_lead_log h (r_term (cl_raft cl' j)) = Some Y"
proof -
  let ?M = "fst ` set peers"
  have "peers \<noteq> []" using i by auto
  then obtain h0 where "replica_inv ?M h0 cl0" using replica_inv_start [OF b] by blast
  then obtain h1 where h1: "replica_inv ?M h1 cl" using replica_inv_later [OF _ s(1)] by blast
  obtain h2 where h2: "later h1 h2" "replica_inv ?M h2 cl'" using replica_inv_later [OF h1 s(2)] by blast
  have "node_ok ?M h1 i (cl_raft cl i)" using h1 i unfolding replica_inv_def by blast
  note ni = node_okD [OF this]
  have "node_ok ?M h2 j (cl_raft cl' j)" using h2(2) j unfolding replica_inv_def by blast
  note nj = node_okD [OF this]
  show ?thesis
  proof (rule that [of h2 "h_log h1 i" "h_log h2 j"])
    show "history_ok ?M h2" using h2(2) by (simp add: replica_inv_def)
    show "stands_for ?M h2 (h_log h1 i) (cl_raft cl i)"
      using ni(4,5,9) later_keeps [OF h2(1)] by (simp add: stands_for_def)
    show "stands_for ?M h2 (h_log h2 j) (cl_raft cl' j)" using nj(4,5,9) by (simp add: stands_for_def)
    show "r_state (cl_raft cl' j) = Leader \<Longrightarrow> h_lead_log h2 (r_term (cl_raft cl' j)) = Some (h_log h2 j)"
      using nj(11) by (simp add: leader_ok_def)
  qed
qed

section \<open>What the code reads\<close>

text \<open>The entry at position \<open>k\<close>, as \<open>slice\<close> reads it.\<close>

definition entry_at :: "raft_log \<Rightarrow> nat \<Rightarrow> entry option" where
  "entry_at l k = (case log_slice l k (k + 1) unlimited of Some (Inr [e]) \<Rightarrow> Some e | _ \<Rightarrow> None)"

lemma slice_one:
  assumes X: "log_of X l" and k: "log_base l < k" "k \<le> length X"
  shows "log_slice l k (k + 1) unlimited = Some (Inr [X ! (k - 1)])"
proof -
  note d = log_ofD [OF X]
  have "log_range l k (k + 1) = [X ! (k - 1)]"
    using k d(4) by (simp add: log_range_def take_Suc_conv_app_nth [of 0, simplified] hd_drop_conv_nth take_Suc)
  then show ?thesis
    using log_slice_eq [OF d(1) k(1), of "k + 1" unlimited] k(2) d(6) by (simp add: entry_limit_size_def)
qed

lemma slice_out:
  assumes X: "log_of X l" and k: "\<not> (log_base l < k \<and> k \<le> length X)"
  shows "log_slice l k (k + 1) unlimited = (if k \<le> log_base l then Some (Inl compacted) else None)"
proof -
  note d = log_ofD [OF X]
  show ?thesis
    using log_must_check_eq [OF d(1), of k "k + 1"] k d(6) by (auto simp: log_slice_def compacted_def)
qed

lemma entry_at_eq:
  assumes X: "log_of X l"
  shows "entry_at l k = (if log_base l < k \<and> k \<le> length X then Some (X ! (k - 1)) else None)"
proof (cases "log_base l < k \<and> k \<le> length X")
  case True
  then show ?thesis using slice_one [OF X] by (simp add: entry_at_def)
next
  case False
  then show ?thesis using slice_out [OF X False] by (auto simp: entry_at_def)
qed

text \<open>A term that is not 0 is that of an entry, or of the last one that was compacted.\<close>

lemma log_term_read:
  assumes X: "log_of X l" and t: "log_term l k = Some (Inr t)" "t \<noteq> 0"
  shows "k \<le> length X \<and> t = term_in X k"
proof -
  have "\<not> (k < log_base l \<or> length X < k)" using log_of_term_out [OF X] t by auto
  then show ?thesis using log_of_term [OF X, of k] t by auto
qed

text \<open>What \<open>Ready\<close> hands to the application.\<close>

lemma handed_out:
  assumes h: "history_ok M h" and s: "stands_for M h X (n_raft n)"
    and r: "node_ready n = Some (rd, n')" and e: "e \<in> set (rd_committed rd)"
  shows "0 < e_index e \<and> e_index e \<le> l_committed (r_log (n_raft n)) \<and> e = X ! (e_index e - 1)"
proof -
  let ?l = "r_log (n_raft n)"
  have g: "log_good X ?l" and X: "rooted h X" using s by (simp_all add: stands_for_def)
  note d = log_ofD [OF log_goodD(1) [OF g]]
  have "log_next_entries ?l = Some (rd_committed rd)" by (rule node_ready_eq [OF r])
  then obtain k where "rd_committed rd = take k (waiting ?l)"
    using next_entries_waiting [OF d(1) log_goodD(2) [OF g]] by auto
  then have "e \<in> set (waiting ?l)" using e in_set_takeD by metis
  then obtain p where p: "p < length (waiting ?l)" "e = waiting ?l ! p" by (auto simp: in_set_conv_nth)
  note w = waiting_facts [OF d(1) log_goodD(2) [OF g]]
  let ?m = "max (l_applied ?l) (log_base ?l)"
  have "waiting ?l ! p = X ! (?m + p)"
    using p(1) d(3,4,9) w(1) log_goodD(2) [OF g] by (simp add: waiting_def max_def split: if_splits)
  moreover have "e_index e = ?m + 1 + p" using consec_nth [OF w(2) p(1)] p(2) by simp
  ultimately show ?thesis using p w(1) by simp
qed

section \<open>Safety\<close>

lemma committed_same:
  assumes h: "history_ok M h" and s: "stands_for M h X r" "stands_for M h Y r'"
    and k: "0 < k" "k \<le> l_committed (r_log r)" "k \<le> l_committed (r_log r')"
  shows "X ! (k - 1) = Y ! (k - 1)"
proof -
  have "take k X = take k Y"
    by (rule committed_agree [OF h, of "r_term r" X _ "r_term r'" Y, OF _ _ k(2,3)])
      (use s in \<open>simp_all add: stands_for_def\<close>)
  then show ?thesis using k(1) nth_take [of "k - 1" k X] nth_take [of "k - 1" k Y] by simp
qed

lemma matching_same:
  assumes s: "stands_for M h X r" "stands_for M h Y r'"
    and t: "log_term (r_log r) k = Some (Inr t)" "log_term (r_log r') k = Some (Inr t)" "t \<noteq> 0"
    and n: "n \<le> k" "entry_at (r_log r) n = Some e" "entry_at (r_log r') n = Some e'"
  shows "e = e'"
proof -
  have X: "log_of X (r_log r)" "rooted h X" and Y: "log_of Y (r_log r')" "rooted h Y"
    using s log_goodD(1) by (auto simp: stands_for_def)
  have "take k X = take k Y"
    by (rule logs_match [OF X(2) Y(2)]) (use log_term_read [OF X(1) t(1,3)] log_term_read [OF Y(1) t(2,3)] in simp_all)
  moreover have "0 < n" "e = X ! (n - 1)" "e' = Y ! (n - 1)"
    using n(2,3) entry_at_eq [OF X(1)] entry_at_eq [OF Y(1)] by (auto split: if_splits)
  ultimately show ?thesis using n(1) nth_take [of "n - 1" k X] nth_take [of "n - 1" k Y] by simp
qed

lemma leader_has:
  assumes h: "history_ok M h" and s: "stands_for M h X r" "stands_for M h Y r'"
    and y: "h_lead_log h (r_term r') = Some Y" "r_term r \<le> r_term r'"
    and k: "k \<le> l_committed (r_log r)" "entry_at (r_log r) k = Some e"
  shows "entry_at (r_log r') k = Some e \<or> log_slice (r_log r') k (k + 1) unlimited = Some (Inl compacted)"
proof -
  have X: "log_of X (r_log r)" and Y: "log_of Y (r_log r')"
    using s log_goodD(1) by (auto simp: stands_for_def)
  let ?c = "l_committed (r_log r)"
  have c: "take ?c X = take ?c Y" "?c \<le> length Y"
    using covered_lead [OF h _ y] s(1) by (auto simp: stands_for_def)
  have e: "0 < k" "e = X ! (k - 1)" using k(2) entry_at_eq [OF X] by (auto split: if_splits)
  have "X ! (k - 1) = Y ! (k - 1)"
    using c(1) e(1) k(1) nth_take [of "k - 1" ?c X] nth_take [of "k - 1" ?c Y] by simp
  then show ?thesis
    using entry_at_eq [OF Y, of k] slice_out [OF Y, of k] c(2) k(1) e by (cases "k \<le> log_base (r_log r')") auto
qed

end
