(* ===== verification/Runs.thy ===== *)
theory Runs
  imports Replica_Safety "HOL-Library.Code_Target_Nat"
begin

text \<open>
  Concrete runs.  \<open>exec\<close> drives the nodes of a cluster by a list of commands and is sound for
  \<open>replica_step\<close>, so that a schedule is checked by evaluation.
\<close>

section \<open>Schedules\<close>

text \<open>\<open>Deliver k\<close> gives the \<open>k\<close>-th message ever sent to its addressee.\<close>

datatype command =
    Campaign nat
  | Propose nat string
  | Tick nat
  | Ready nat
  | Deliver nat

type_synonym machine = "(nat \<times> raw_node) list \<times> message list"

definition cluster_of :: "machine \<Rightarrow> cluster" where
  "cluster_of s = \<lparr>cl_nodes = (\<lambda>i. the (map_of (fst s) i)), cl_net = set (snd s)\<rparr>"

definition on_node ::
  "nat list \<Rightarrow> nat \<Rightarrow> nat \<Rightarrow> (raw_node \<Rightarrow> raw_node option) \<Rightarrow> machine \<Rightarrow> machine option" where
  "on_node ids i k f s = do {
     check (i \<in> set ids);
     n \<leftarrow> map_of (fst s) i;
     check (can_step (n_raft n) \<and> has_room (n_raft n) k);
     n' \<leftarrow> f n;
     Some (AList.update i n' (fst s), snd s)
   }"

fun exec1 :: "nat list \<Rightarrow> command \<Rightarrow> machine \<Rightarrow> machine option" where
  "exec1 ids (Campaign i) s = on_node ids i 1 (\<lambda>n. map_option snd (node_campaign n)) s"
| "exec1 ids (Propose i d) s = on_node ids i 1 (\<lambda>n. map_option snd (node_propose n d)) s"
| "exec1 ids (Tick i) s = on_node ids i 1 node_tick s"
| "exec1 ids (Ready i) s = do {
     check (i \<in> set ids);
     n \<leftarrow> map_of (fst s) i;
     (ms, n') \<leftarrow> pull_ready n;
     Some (AList.update i n' (fst s), snd s @ ms)
   }"
| "exec1 ids (Deliver k) s = do {
     m \<leftarrow> vec_at (snd s) k;
     check (m_term m + 1 < W64);
     on_node ids (m_to m) (length (m_entries m)) (\<lambda>n. map_option snd (node_step n m)) s
   }"

definition exec :: "nat list \<Rightarrow> command list \<Rightarrow> machine \<Rightarrow> machine option" where
  "exec ids cs s = each (exec1 ids) cs s"

lemma on_node_steps:
  assumes "on_node ids i k f s = Some s'"
    and step: "\<And>n n'. i \<in> set ids \<Longrightarrow> cl_nodes (cluster_of s) i = n \<Longrightarrow> can_step (n_raft n) \<Longrightarrow>
      has_room (n_raft n) k \<Longrightarrow> f n = Some n' \<Longrightarrow>
      replica_step ser (set ids) (cluster_of s) (set_node (cluster_of s) i n')"
  shows "replica_step ser (set ids) (cluster_of s) (cluster_of s')"
proof -
  obtain n n' where n: "i \<in> set ids" "map_of (fst s) i = Some n" "can_step (n_raft n)" "has_room (n_raft n) k"
    "f n = Some n'" "s' = (AList.update i n' (fst s), snd s)"
    using assms(1) by (auto simp: on_node_def bind_eq_Some_conv)
  have "cluster_of s' = set_node (cluster_of s) i n'"
    by (auto simp: n(6) cluster_of_def set_node_def fun_eq_iff)
  then show ?thesis using step [of n n'] n by (simp add: cluster_of_def)
qed

lemma exec1_step:
  assumes "exec1 ids c s = Some s'"
  shows "replica_step ser (set ids) (cluster_of s) (cluster_of s')"
proof (cases c)
  case (Campaign i)
  then have "on_node ids i 1 (\<lambda>n. map_option snd (node_campaign n)) s = Some s'" using assms by simp
  then show ?thesis
    by (rule on_node_steps)
      (auto intro!: replica_step.input intro: input_call.campaign simp: cl_raft_def)
next
  case (Propose i d)
  then have "on_node ids i 1 (\<lambda>n. map_option snd (node_propose n d)) s = Some s'" using assms by simp
  then show ?thesis
    by (rule on_node_steps)
      (auto intro!: replica_step.input intro: input_call.propose simp: cl_raft_def)
next
  case (Tick i)
  then have "on_node ids i 1 node_tick s = Some s'" using assms by simp
  then show ?thesis
    by (rule on_node_steps)
      (auto intro!: replica_step.input intro: input_call.tick simp: cl_raft_def)
next
  case (Ready i)
  then obtain n ms n' where n: "i \<in> set ids" "map_of (fst s) i = Some n"
    "pull_ready n = Some (ms, n')" "s' = (AList.update i n' (fst s), snd s @ ms)"
    using assms by (auto simp: bind_eq_Some_conv)
  have "cluster_of s' = (set_node (cluster_of s) i n')\<lparr>cl_net := cl_net (cluster_of s) \<union> set ms\<rparr>"
    by (auto simp: n(4) cluster_of_def set_node_def fun_eq_iff)
  then show ?thesis
    using replica_step.ready [of i "set ids" "cluster_of s" ms n' ser] n by (simp add: cluster_of_def)
next
  case (Deliver k)
  define m where "m = snd s ! k"
  from Deliver have k: "k < length (snd s)" "m_term m + 1 < W64"
    and o: "on_node ids (m_to m) (length (m_entries m)) (\<lambda>n. map_option snd (node_step n m)) s = Some s'"
    using assms by (auto simp: bind_eq_Some_conv vec_at_eq_Some m_def)
  have m: "m \<in> set (snd s)" "m_term m + 1 < W64" using k by (simp_all add: m_def)
  from o show ?thesis
    by (rule on_node_steps)
      (use m(1,2) in \<open>auto intro!: replica_step.deliver simp: cl_raft_def cluster_of_def\<close>)
qed

lemma exec_steps:
  "exec ids cs s = Some s' \<Longrightarrow> (replica_step ser (set ids))\<^sup>*\<^sup>* (cluster_of s) (cluster_of s')"
proof (induction cs arbitrary: s)
  case (Cons c cs)
  then obtain t where t: "exec1 ids c s = Some t" "exec ids cs t = Some s'"
    by (auto simp: exec_def bind_eq_Some_conv)
  then show ?case
    using Cons.IH [OF t(2)] exec1_step [OF t(1), of ser] by (metis converse_rtranclp_into_rtranclp)
qed (simp add: exec_def)

section \<open>Three nodes\<close>

definition text_of :: "conf_change \<Rightarrow> string" where
  "text_of cc = [char_of (cc_node_id cc)]"

definition trio :: "(nat \<times> string) list" where
  "trio = [(1, ''''), (2, ''''), (3, '''')]"

definition node_config :: "bool \<Rightarrow> nat \<Rightarrow> config" where
  "node_config pv i = new_config\<lparr>c_id := i, c_election_tick := 10, c_heartbeat_tick := 1,
     c_storage := Some new_memory_storage, c_max_size_per_msg := 1048576,
     c_max_committed_size_per_ready := 1048576, c_max_uncommitted_entries_size := 1073741824,
     c_max_inflight_msgs := 256, c_check_quorum := True, c_pre_vote := pv\<rparr>"

definition boot_node :: "bool \<Rightarrow> nat \<Rightarrow> raw_node option" where
  "boot_node pv i = new_raw_node text_of (node_config pv i) (\<lambda>_. 0) trio"

definition boot_trio :: "bool \<Rightarrow> machine option" where
  "boot_trio pv = do {
     a \<leftarrow> boot_node pv 1;
     b \<leftarrow> boot_node pv 2;
     c \<leftarrow> boot_node pv 3;
     Some ([(1, a), (2, b), (3, c)], [])
   }"

lemma boot_trio_boots:
  assumes "boot_trio pv = Some s"
  shows "cluster_boot pv text_of trio (cluster_of s)"
proof -
  have c: "boot_config pv i (node_config pv i)" for i
    by (simp add: boot_config_def node_config_def new_config_def)
  obtain a b d where n: "boot_node pv 1 = Some a" "boot_node pv 2 = Some b" "boot_node pv 3 = Some d"
    "s = ([(1, a), (2, b), (3, d)], [])"
    using assms by (auto simp: boot_trio_def bind_eq_Some_conv)
  have ids: "fst ` set trio = {1, 2, 3}" "length trio < 2 ^ 31" by (auto simp: trio_def)
  have "new_raw_node text_of (node_config pv i) (\<lambda>_. 0) trio = Some (cl_nodes (cluster_of s) i)"
    if "i \<in> {1, 2, 3}" for i
    using n that unfolding boot_node_def cluster_of_def by auto
  moreover have "cl_net (cluster_of s) = {}" by (simp add: n(4) cluster_of_def)
  ultimately show ?thesis unfolding cluster_boot_def ids(1) using c ids(2) by auto
qed

text \<open>What the nodes show after a schedule, and in particular their roles, terms and commit indices.\<close>

definition observe :: "(raw_node \<Rightarrow> 'a) \<Rightarrow> bool \<Rightarrow> command list \<Rightarrow> 'a list option" where
  "observe f pv cs = do {
     s0 \<leftarrow> boot_trio pv;
     s \<leftarrow> exec [1, 2, 3] cs s0;
     Some (map (\<lambda>(_, n). f n) (fst s))
   }"

definition outcome :: "bool \<Rightarrow> command list \<Rightarrow> (raft_state \<times> nat \<times> nat) list option" where
  "outcome = observe (\<lambda>n. (r_state (n_raft n), r_term (n_raft n), l_committed (r_log (n_raft n))))"

text \<open>The nodes of a machine keep their numbers.\<close>

lemma exec_ids: "exec ids cs s = Some s' \<Longrightarrow> map fst (fst s') = map fst (fst s)"
proof (induction cs arbitrary: s)
  case (Cons c cs)
  have upd: "map_of xs k = Some v \<Longrightarrow> map fst (AList.update k w xs) = map fst xs" for xs k v and w :: raw_node
    by (rule map_fst_update_in) (metis map_of_some_in)
  have "exec1 ids c s = Some t \<Longrightarrow> map fst (fst t) = map fst (fst s)" for t
    by (cases c) (auto simp: on_node_def bind_eq_Some_conv upd)
  then show ?case using Cons by (auto simp: exec_def bind_eq_Some_conv)
qed (simp add: exec_def)

lemma trio_ids: "fst ` set trio = set [1, 2, 3]"
  by (auto simp: trio_def)

text \<open>What the nodes of a run of three are, as a statement about its cluster.\<close>

lemma observe_cluster:
  assumes "observe f pv cs = Some [x1, x2, x3]"
  shows "\<exists>cl0 cl. cluster_boot pv text_of trio cl0 \<and>
    (replica_step text_of (fst ` set trio))\<^sup>*\<^sup>* cl0 cl \<and>
    f (cl_nodes cl 1) = x1 \<and> f (cl_nodes cl 2) = x2 \<and> f (cl_nodes cl 3) = x3"
proof -
  obtain s0 s where s: "boot_trio pv = Some s0" "exec [1, 2, 3] cs s0 = Some s"
    "map (\<lambda>(_, n). f n) (fst s) = [x1, x2, x3]"
    using assms by (auto simp: observe_def bind_eq_Some_conv)
  have "map fst (fst s0) = [1, 2, 3]" using s(1) by (auto simp: boot_trio_def bind_eq_Some_conv)
  then have "map fst (fst s) = [1, 2, 3]" using exec_ids [OF s(2)] by simp
  then obtain a b c where "fst s = [(1, a), (2, b), (3, c)]" by (auto simp: map_eq_Cons_conv)
  then have "cl_nodes (cluster_of s) 1 = a" "cl_nodes (cluster_of s) 2 = b"
    "cl_nodes (cluster_of s) 3 = c" "fst s = [(1, a), (2, b), (3, c)]"
    by (simp_all add: cluster_of_def)
  then show ?thesis
    using s(3) boot_trio_boots [OF s(1)] exec_steps [OF s(2), of text_of] unfolding trio_ids
    by (intro exI [of _ "cluster_of s0"] exI [of _ "cluster_of s"]) simp
qed

lemma replica_run_cluster: "(replica_step ser M)\<^sup>*\<^sup>* cl cl' \<Longrightarrow> (cluster_step ser M)\<^sup>*\<^sup>* cl cl'"
  by (erule mono_rtranclp [rule_format, rotated]) (rule replica_step_cluster)

lemma outcome_cluster:
  assumes "outcome pv cs = Some [(s1, t1, c1), (s2, t2, c2), (s3, t3, c3)]"
  shows "\<exists>cl0 cl. cluster_boot pv text_of trio cl0 \<and>
    (cluster_step text_of (fst ` set trio))\<^sup>*\<^sup>* cl0 cl \<and>
    r_state (cl_raft cl 1) = s1 \<and> r_term (cl_raft cl 1) = t1 \<and> l_committed (r_log (cl_raft cl 1)) = c1 \<and>
    r_state (cl_raft cl 2) = s2 \<and> r_term (cl_raft cl 2) = t2 \<and> l_committed (r_log (cl_raft cl 2)) = c2 \<and>
    r_state (cl_raft cl 3) = s3 \<and> r_term (cl_raft cl 3) = t3 \<and> l_committed (r_log (cl_raft cl 3)) = c3"
proof -
  obtain cl0 cl where cl: "cluster_boot pv text_of trio cl0"
    "(replica_step text_of (fst ` set trio))\<^sup>*\<^sup>* cl0 cl"
    "r_state (cl_raft cl 1) = s1 \<and> r_term (cl_raft cl 1) = t1 \<and> l_committed (r_log (cl_raft cl 1)) = c1 \<and>
     r_state (cl_raft cl 2) = s2 \<and> r_term (cl_raft cl 2) = t2 \<and> l_committed (r_log (cl_raft cl 2)) = c2 \<and>
     r_state (cl_raft cl 3) = s3 \<and> r_term (cl_raft cl 3) = t3 \<and> l_committed (r_log (cl_raft cl 3)) = c3"
    using observe_cluster [OF assms [unfolded outcome_def]] unfolding cl_raft_def prod.inject by blast
  then show ?thesis using replica_run_cluster [OF cl(2)] by blast
qed

section \<open>Schedules that are used as witnesses\<close>

text \<open>Node 1 asks for votes, node 2 grants, node 1 leads.\<close>

definition elect_schedule :: "command list" where
  "elect_schedule = [Ready 1, Ready 2, Ready 3, Campaign 1, Ready 1, Deliver 0, Ready 2, Deliver 2]"

lemma elect_outcome:
  "outcome False elect_schedule = Some [(Leader, 2, 3), (Follower, 2, 3), (Follower, 1, 3)]"
  by code_simp

text \<open>The leader replicates its first entry and a proposal, and tells the others that both are committed.\<close>

definition replicate_schedule :: "command list" where
  "replicate_schedule = elect_schedule @ [Ready 1, Deliver 3, Deliver 4, Ready 2, Ready 3, Deliver 5,
     Deliver 6, Ready 1, Propose 1 ''x'', Ready 1, Deliver 7, Deliver 8, Deliver 9, Deliver 10,
     Ready 2, Ready 3, Deliver 12, Ready 1, Deliver 15, Deliver 16]"

lemma replicate_outcome:
  "outcome False replicate_schedule = Some [(Leader, 2, 5), (Follower, 2, 5), (Follower, 2, 5)]"
  by code_simp

text \<open>
  What the nodes show there: the entries they would hand out next, role, term and commit index, and the
  last two entries of their logs.
\<close>

definition shown ::
  "raw_node \<Rightarrow> entry list option \<times> (raft_state \<times> nat \<times> nat) \<times> entry option \<times> entry option" where
  "shown n =
     (map_option (\<lambda>(rd, _). rd_committed rd) (node_ready n),
      (r_state (n_raft n), r_term (n_raft n), l_committed (r_log (n_raft n))),
      entry_at (r_log (n_raft n)) 4, entry_at (r_log (n_raft n)) 5)"

definition entry_x :: entry where
  "entry_x = \<lparr>e_type = EntryNormal, e_term = 2, e_index = 5, e_data = ''x''\<rparr>"

definition entry_blank :: entry where
  "entry_blank = \<lparr>e_type = EntryNormal, e_term = 2, e_index = 4, e_data = ''''\<rparr>"

lemma replicate_shown:
  "observe shown False replicate_schedule = Some
     [(Some [], (Leader, 2, 5), Some entry_blank, Some entry_x),
      (Some [entry_x], (Follower, 2, 5), Some entry_blank, Some entry_x),
      (Some [entry_x], (Follower, 2, 5), Some entry_blank, Some entry_x)]"
  by code_simp

definition last_terms :: "raw_node \<Rightarrow> (status + nat) option \<times> entry option" where
  "last_terms n = (log_term (r_log (n_raft n)) 5, entry_at (r_log (n_raft n)) 4)"

lemma replicate_terms:
  "observe last_terms False replicate_schedule = Some
     [(Some (Inr 2), Some entry_blank), (Some (Inr 2), Some entry_blank), (Some (Inr 2), Some entry_blank)]"
  by code_simp

text \<open>With pre-vote on, nodes 1 and 2 both ask all others for a pre-vote and then for a vote.\<close>

definition prevote_schedule :: "command list" where
  "prevote_schedule = [Ready 1, Ready 2, Ready 3, Campaign 1, Ready 1, Campaign 2, Ready 2,
     Deliver 2, Deliver 0, Deliver 1, Deliver 3, Ready 1, Ready 2, Ready 3,
     Deliver 5, Deliver 6, Deliver 4, Deliver 7]"

lemma prevote_outcome:
  "outcome True prevote_schedule = Some [(Leader, 2, 3), (Leader, 2, 3), (Follower, 1, 3)]"
  by code_simp

end
