(* ===== verification/Samples.thy ===== *)
theory Samples
  imports Runs Raft_Replicate
begin

text \<open>
  Concrete states at which the hypotheses of the properties hold: a log with compacted, stable and
  unstable entries, and a leader of three nodes.
\<close>

definition mk_entry :: "nat \<Rightarrow> nat \<Rightarrow> string \<Rightarrow> entry" where
  "mk_entry t i d = \<lparr>e_type = EntryNormal, e_term = t, e_index = i, e_data = d\<rparr>"

text \<open>Compacted up to 2, stable 3 and 4, unstable 5 and 6; committed up to 4, applied up to 3.\<close>

definition sample_storage :: memory_storage where
  "sample_storage = new_memory_storage\<lparr>ms_entries :=
     [mk_entry 1 2 '''', mk_entry 1 3 ''a'', mk_entry 2 4 ''b'']\<rparr>"

definition sample_log :: raft_log where
  "sample_log = \<lparr>l_storage = sample_storage,
     l_unstable = \<lparr>u_snapshot = None, u_entries = [mk_entry 2 5 ''c'', mk_entry 2 6 ''d''], u_offset = 5\<rparr>,
     l_committed = 4, l_applied = 3, l_max_next_ents_size = 1000\<rparr>"

lemma sample_storage_ok: "storage_ok sample_storage"
  by code_simp

lemma sample_log_ok: "log_ok sample_log"
  by code_simp

lemma sample_log_view:
  "log_base sample_log = 2" "log_end sample_log = 6" "log_bterm sample_log = 1"
  "l_committed sample_log = 4" "l_applied sample_log = 3" "u_offset (l_unstable sample_log) = 5"
  "u_snapshot (l_unstable sample_log) = None"
  by code_simp+

definition sample_snapshot :: snapshot where
  "sample_snapshot = \<lparr>s_data = ''kv'', s_metadata =
     \<lparr>sm_conf_state = \<lparr>cs_nodes = [1, 2, 3], cs_learners = []\<rparr>, sm_index = 9, sm_term = 3\<rparr>\<rparr>"

text \<open>A leader of term 2: node 2 has the log up to 5, node 3 only up to 3.\<close>

definition sample_progress :: "nat \<Rightarrow> progress" where
  "sample_progress i = (new_progress 4)\<lparr>pr_match := i, pr_next := i + 1,
     pr_state := ProgressStateReplicate, pr_recent_active := True\<rparr>"

definition sample_leader :: raft where
  "sample_leader = \<lparr>r_id = 1, r_term = 2, r_vote = 1, r_read_states = [], r_log = sample_log,
     r_max_msg_size = 1000, r_max_uncommitted_size = 1000, r_max_inflight = 4,
     r_prs = [(1, sample_progress 6), (2, sample_progress 5), (3, sample_progress 3)],
     r_learner_prs = [], r_state = Leader, r_is_learner = False, r_votes = [], r_msgs = [],
     r_lead = 1, r_lead_transferee = 0, r_pending_conf_index = 0, r_uncommitted_size = 0,
     r_read_only = new_read_only ReadOnlySafe, r_election_elapsed = 0, r_heartbeat_elapsed = 0,
     r_check_quorum = True, r_pre_vote = False, r_heartbeat_timeout = 1, r_election_timeout = 10,
     r_rand_timeout = 10, r_disable_fwd = False, r_tick_fn = TickHeartbeat, r_step_fn = StepLeader,
     r_rand = (\<lambda>_. 0)\<rparr>"

definition sample_follower :: raft where
  "sample_follower = sample_leader\<lparr>r_id := 2, r_lead := 1, r_state := Follower, r_vote := 1,
     r_tick_fn := TickElection, r_step_fn := StepFollower\<rparr>"

text \<open>Messages to them, and logs in the states the properties distinguish.\<close>

definition sample_append :: message where
  "sample_append = new_message\<lparr>m_type := MsgApp, m_to := 2, m_from := 1, m_term := 2,
     m_index := 5, m_log_term := 2, m_entries := [mk_entry 2 6 ''d'', mk_entry 2 7 ''e''],
     m_commit := 6\<rparr>"

definition sample_proposal :: message where
  "sample_proposal = new_message\<lparr>m_type := MsgProp, m_from := 1, m_entries := [new_entry\<lparr>e_data := ''v''\<rparr>]\<rparr>"

definition sample_snap_log :: raft_log where
  "sample_snap_log = log_restore sample_log sample_snapshot"

definition sample_window :: inflights where
  "sample_window = \<lparr>if_start = 2, if_count = 2, if_size = 3, if_buffer = [7, 0, 6]\<rparr>"

definition read_msg :: "string \<Rightarrow> message" where
  "read_msg ctx = new_message\<lparr>m_type := MsgReadIndex, m_context := ctx, m_entries := [new_entry\<lparr>e_data := ctx\<rparr>]\<rparr>"

definition sample_reads :: read_only where
  "sample_reads = \<lparr>ro_option = ReadOnlySafe,
     ro_pending = [(''a'', \<lparr>ri_req = read_msg ''a'', ri_index = 3, ri_acks = [2]\<rparr>),
                   (''b'', \<lparr>ri_req = read_msg ''b'', ri_index = 4, ri_acks = [2, 3]\<rparr>)],
     ro_queue = [''a'', ''b'']\<rparr>"

end
