(* ===== verification/Wal_Sample.thy ===== *)
theory Wal_Sample
  imports Wal_Dir Samples
begin

text \<open>
  An encoding that satisfies \<open>codec_ok\<close>, for the witnesses of the properties of the log: numbers in
  unary, each closed by a semicolon, and the data of an entry as it is.
\<close>

definition put_num :: "nat \<Rightarrow> string" where
  "put_num n = replicate n (CHR ''1'') @ '';''"

definition get_num :: "string \<Rightarrow> nat \<times> string" where
  "get_num s = (length (takeWhile (\<lambda>ch. ch = CHR ''1'') s), tl (dropWhile (\<lambda>ch. ch = CHR ''1'') s))"

lemma get_put_num [simp]: "get_num (put_num n @ s) = (n, s)"
proof -
  have "takeWhile (\<lambda>ch. ch = CHR ''1'') (replicate n (CHR ''1'') @ CHR '';'' # s) = replicate n (CHR ''1'')"
    "dropWhile (\<lambda>ch. ch = CHR ''1'') (replicate n (CHR ''1'') @ CHR '';'' # s) = CHR '';'' # s"
    by (induction n) auto
  then show ?thesis by (simp add: get_num_def put_num_def)
qed

definition sample_codec :: codec where
  "sample_codec = \<lparr>
     pk_entry = (\<lambda>e. put_num (e_type e) @ put_num (e_term e) @ put_num (e_index e) @ e_data e),
     up_entry = (\<lambda>s. let (t, s1) = get_num s; (tm, s2) = get_num s1; (i, s3) = get_num s2 in
       Some \<lparr>e_type = t, e_term = tm, e_index = i, e_data = s3\<rparr>),
     pk_state = (\<lambda>h. put_num (hs_term h) @ put_num (hs_vote h) @ put_num (hs_commit h)),
     up_state = (\<lambda>s. let (t, s1) = get_num s; (v, s2) = get_num s1; (c, s3) = get_num (s2 @ '''') in
       Some \<lparr>hs_term = t, hs_vote = v, hs_commit = c\<rparr>),
     pk_snap = (\<lambda>s. put_num (ws_index s) @ put_num (ws_term s)),
     up_snap = (\<lambda>s. let (i, s1) = get_num s; (t, s2) = get_num s1 in
       Some \<lparr>ws_index = i, ws_term = t\<rparr>),
     crc_of = (\<lambda>s. length s + 1)\<rparr>"

lemma sample_codec_ok: "codec_ok sample_codec"
  using get_put_num [of _ "''''"]
  by (simp add: codec_ok_def sample_codec_def)

definition sample_ops :: "wal_op list" where
  "sample_ops =
     [Save \<lparr>hs_term = 1, hs_vote = 2, hs_commit = 0\<rparr> [mk_entry 1 1 ''x'', mk_entry 1 2 ''y''],
      Save \<lparr>hs_term = 2, hs_vote = 2, hs_commit = 1\<rparr> [mk_entry 2 2 ''z'']]"

definition sample_wal :: wal where
  "sample_wal = \<lparr>w_state = empty_hard_state, w_start = snap0, w_enti = 0,
     w_files = [new_wal_file length (frames sample_codec [item_record sample_codec (ItemSnap snap0)]) 0]\<rparr>"

lemma sample_wal_holds: "holds sample_codec [ItemSnap snap0] sample_wal"
  by (simp add: holds_def sample_wal_def new_wal_file_def)

end
