(* ===== verification/Glob.thy ===== *)
theory Glob
  imports Prelude
begin

text \<open>
  \<open>string_match_len\<close> of \<open>server/redis_store.cpp\<close>: the glob patterns of the KEYS command.  A pattern is
  followed in memory by a NUL (it comes from a C string), which is what the reads one past its end see;
  no branch takes a NUL for anything but a character that matches nothing, so a list models the
  pointer and the remaining length together.
\<close>

section \<open>Code\<close>

text \<open>A \<open>char\<close> is signed; \<open>tolower\<close> in the C locale.\<close>

definition schar :: "char \<Rightarrow> int" where
  "schar c = (if of_char c < (128 :: nat) then of_char c else of_char c - 256)"

definition lower :: "int \<Rightarrow> int" where
  "lower c = (if 65 \<le> c \<and> c \<le> 90 then c + 32 else c)"

definition same_char :: "bool \<Rightarrow> char \<Rightarrow> char \<Rightarrow> bool" where
  "same_char nocase p c = (if \<not> nocase then p = c else lower (schar p) = lower (schar c))"

text \<open>The bounds are swapped before the case is removed.\<close>

definition in_range :: "bool \<Rightarrow> char \<Rightarrow> char \<Rightarrow> char \<Rightarrow> bool" where
  "in_range nocase a b c =
     (let (s, e) = (if schar a > schar b then (schar b, schar a) else (schar a, schar b));
          f = (if nocase then lower else id)
      in f s \<le> f (schar c) \<and> f (schar c) \<le> f e)"

text \<open>
  The loop over a character class, from the pattern behind the bracket; \<open>prev\<close> is the character before
  it.  At the end of the pattern the loop steps back to it, since the caller steps over the closing
  bracket.
\<close>

fun class_loop :: "bool \<Rightarrow> char \<Rightarrow> char \<Rightarrow> string \<Rightarrow> bool \<Rightarrow> bool \<times> string" where
  "class_loop nocase c prev [] m = (m, [prev])"
| "class_loop nocase c prev [p] m =
     (if p = CHR '']'' then (m, [p]) else class_loop nocase c p [] (m \<or> same_char nocase p c))"
| "class_loop nocase c prev (p # q # ps) m =
     (if p = CHR 0x5C then class_loop nocase c q ps (m \<or> q = c)
      else if p = CHR '']'' then (m, p # q # ps)
      else if q = CHR ''-'' \<and> ps \<noteq> [] then class_loop nocase c (hd ps) (tl ps) (m \<or> in_range nocase p (hd ps) c)
      else class_loop nocase c p (q # ps) (m \<or> same_char nocase p c))"

abbreviation skip_stars :: "string \<Rightarrow> string" where
  "skip_stars \<equiv> dropWhile (\<lambda>c. c = CHR ''*'')"

lemma length_skip_stars [simp]: "length (skip_stars ps) \<le> length ps"
  by (rule length_dropWhile_le)

text \<open>A class takes at most the rest of the pattern.\<close>

lemma class_loop_length:
  "length (snd (class_loop nocase c prev ps m)) \<le> Suc (length ps)"
  by (induction nocase c prev ps m rule: class_loop.induct) auto

text \<open>
  The branches of the switch other than the star: whether the character of the string is accepted,
  and the pattern behind what was consumed.
\<close>

definition glob_switch :: "bool \<Rightarrow> char \<Rightarrow> string \<Rightarrow> char \<Rightarrow> bool \<times> string" where
  "glob_switch nocase p ps c =
     (if p = CHR ''?'' then (True, ps)
      else if p = CHR ''['' then
        let neg = (ps \<noteq> [] \<and> hd ps = CHR ''^'');
            (m, rest) = (if neg then class_loop nocase c (hd ps) (tl ps) False
                         else class_loop nocase c p ps False)
        in (m \<noteq> neg, tl rest)
      else if p = CHR 0x5C \<and> ps \<noteq> [] then (same_char nocase (hd ps) c, tl ps)
      else (same_char nocase p c, ps))"

lemma glob_switch_length: "length (snd (glob_switch nocase p ps c)) \<le> length ps"
  using class_loop_length [of nocase c "hd ps" "tl ps" False] class_loop_length [of nocase c p ps False]
  by (cases ps) (auto simp: glob_switch_def Let_def split: prod.splits)

text \<open>
  A round of the main loop ends with the common statements behind the switch: at the end of the string
  the trailing stars are skipped and the loop is left.  \<open>star_match\<close> is the loop over the positions a
  star may extend to.
\<close>

function glob :: "bool \<Rightarrow> string \<Rightarrow> string \<Rightarrow> bool"
  and star_match :: "bool \<Rightarrow> string \<Rightarrow> string \<Rightarrow> bool" where
  "glob nocase [] s = (s = [])"
| "glob nocase (p # ps) [] = False"
| "glob nocase (p # ps) (c # cs) =
     (if p = CHR ''*'' then skip_stars ps = [] \<or> star_match nocase (skip_stars ps) (c # cs)
      else if \<not> fst (glob_switch nocase p ps c) then False
      else if cs = [] then skip_stars (snd (glob_switch nocase p ps c)) = []
      else glob nocase (snd (glob_switch nocase p ps c)) cs)"
| "star_match nocase ps [] = False"
| "star_match nocase ps (c # cs) = (glob nocase ps (c # cs) \<or> star_match nocase ps cs)"
  by pat_completeness auto
termination
  by (relation "measures [\<lambda>x. case x of Inl (_, p, _) \<Rightarrow> length p | Inr (_, p, _) \<Rightarrow> length p,
      \<lambda>x. case x of Inl (_, _, s) \<Rightarrow> 2 * length s | Inr (_, _, s) \<Rightarrow> 2 * length s + 1]")
     (auto simp: le_imp_less_Suc glob_switch_length)

section \<open>Reference: patterns as tokens\<close>

datatype item = Single bool char | Range char char

datatype token = Star | Any | Class bool "item list" | Lit char

fun class_items :: "string \<Rightarrow> item list \<times> string" where
  "class_items [] = ([], [])"
| "class_items [p] = (if p = CHR '']'' then ([], []) else ([Single False p], []))"
| "class_items (p # q # ps) =
     (if p = CHR 0x5C then apfst ((#) (Single True q)) (class_items ps)
      else if p = CHR '']'' then ([], q # ps)
      else if q = CHR ''-'' \<and> ps \<noteq> [] then apfst ((#) (Range p (hd ps))) (class_items (tl ps))
      else apfst ((#) (Single False p)) (class_items (q # ps)))"

definition item_accepts :: "bool \<Rightarrow> char \<Rightarrow> item \<Rightarrow> bool" where
  "item_accepts nocase c it = (case it of Single esc p \<Rightarrow> same_char (nocase \<and> \<not> esc) p c | Range a b \<Rightarrow> in_range nocase a b c)"

lemma class_items_length: "length (snd (class_items ps)) \<le> length ps"
  by (induction ps rule: class_items.induct) auto

function tokens :: "string \<Rightarrow> token list" where
  "tokens [] = []"
| "tokens (p # ps) =
     (if p = CHR ''*'' then Star # tokens ps
      else if p = CHR ''?'' then Any # tokens ps
      else if p = CHR ''['' then
        let neg = (ps \<noteq> [] \<and> hd ps = CHR ''^'');
            (items, rest) = class_items (if neg then tl ps else ps)
        in Class neg items # tokens rest
      else if p = CHR 0x5C \<and> ps \<noteq> [] then Lit (hd ps) # tokens (tl ps)
      else Lit p # tokens ps)"
  by pat_completeness auto
termination
proof (relation "measure length", goal_cases)
  case (4 p ps x xa items rest)
  then show ?case
    using class_items_length [of ps] class_items_length [of "tl ps"]
    by (cases ps) (auto simp: Let_def le_imp_less_Suc split: if_splits
        dest!: arg_cong [of "(items, rest)" _ "\<lambda>x. length (snd x)"])
qed auto

primrec accepts :: "bool \<Rightarrow> char \<Rightarrow> token \<Rightarrow> bool" where
  "accepts nocase c Star = False"
| "accepts nocase c Any = True"
| "accepts nocase c (Class neg items) = (list_ex (item_accepts nocase c) items \<noteq> neg)"
| "accepts nocase c (Lit p) = same_char nocase p c"

text \<open>A star stands for any string, every other token for one character.\<close>

fun matches :: "bool \<Rightarrow> token list \<Rightarrow> string \<Rightarrow> bool" where
  "matches nocase [] s = (s = [])"
| "matches nocase (t # ts) s =
     (if t = Star then list_ex (\<lambda>i. matches nocase ts (drop i s)) [0..<Suc (length s)]
      else s \<noteq> [] \<and> accepts nocase (hd s) t \<and> matches nocase ts (tl s))"

section \<open>The code agrees with the reference\<close>

lemma class_loop_items:
  "fst (class_loop nocase c prev ps m) = (m \<or> list_ex (item_accepts nocase c) (fst (class_items ps)))"
  "tl (snd (class_loop nocase c prev ps m)) = snd (class_items ps)"
  by (induction nocase c prev ps m rule: class_loop.induct)
     (auto simp: item_accepts_def same_char_def)

lemma matches_empty: "matches nocase (tokens ps) [] \<longleftrightarrow> skip_stars ps = []"
proof (induction ps rule: tokens.induct)
  case (2 p ps)
  then show ?case by (auto simp: Let_def split: prod.splits)
qed simp

lemma matches_star:
  "matches nocase (Star # ts) s \<longleftrightarrow> (\<exists>i \<le> length s. matches nocase ts (drop i s))"
proof -
  have "set [0..<Suc (length s)] = {i. i \<le> length s}" by auto
  then show ?thesis by (simp only: matches.simps list_ex_iff simp_thms if_True) blast
qed

declare matches.simps(2) [simp del]

lemma matches_other:
  "t \<noteq> Star \<Longrightarrow> matches nocase (t # ts) (c # cs) \<longleftrightarrow> accepts nocase c t \<and> matches nocase ts cs"
  by (simp add: matches.simps(2))

lemma matches_star_step:
  "matches nocase (Star # ts) (c # cs) \<longleftrightarrow> matches nocase ts (c # cs) \<or> matches nocase (Star # ts) cs"
  unfolding matches_star
  by (auto simp: less_Suc_eq_le) (metis drop0 drop_Suc_Cons le0 not0_implies_Suc Suc_le_mono)+

lemma matches_stars: "matches nocase (Star # tokens ps) s \<longleftrightarrow> matches nocase (Star # tokens (skip_stars ps)) s"
proof (induction ps)
  case (Cons p ps)
  have "matches nocase (Star # Star # ts) s \<longleftrightarrow> matches nocase (Star # ts) s" for ts
  proof
    assume "matches nocase (Star # Star # ts) s"
    then obtain i j where "i \<le> length s" "j \<le> length s - i" "matches nocase ts (drop (j + i) s)"
      by (auto simp: matches_star)
    then show "matches nocase (Star # ts) s" by (auto simp: matches_star intro!: exI [of _ "j + i"])
  qed (auto simp: matches_star [of _ "Star # ts"] intro!: exI [of _ 0])
  then show ?case using Cons by simp
qed simp

lemma switch_token:
  assumes "p \<noteq> CHR ''*''"
  shows "\<exists>t. t \<noteq> Star \<and> tokens (p # ps) = t # tokens (snd (glob_switch nocase p ps c)) \<and>
    accepts nocase c t = fst (glob_switch nocase p ps c)"
  using assms class_loop_items [of nocase c _ _ False]
  by (auto simp: glob_switch_def Let_def case_prod_beta)

lemma glob_star_matches:
  "s \<noteq> '''' \<Longrightarrow> glob nocase ps s = matches nocase (tokens ps) s"
  "ps \<noteq> '''' \<Longrightarrow> hd ps \<noteq> CHR ''*'' \<Longrightarrow> star_match nocase ps s = matches nocase (Star # tokens ps) s"
proof (induction nocase ps s and nocase ps s rule: glob_star_match.induct)
  case (3 nocase p ps c cs)
  show ?case
  proof (cases "p = CHR ''*''")
    case True
    have all: "matches nocase [Star] (c # cs)" by (simp add: matches_star exI [of _ "length (c # cs)"])
    have tok: "tokens (p # ps) = Star # tokens ps" using True by simp
    have hd: "skip_stars ps \<noteq> [] \<Longrightarrow> hd (skip_stars ps) \<noteq> CHR ''*''" by (rule hd_dropWhile)
    show ?thesis
    proof (cases "skip_stars ps = []")
      case t: True
      then show ?thesis
        unfolding tok matches_stars [of nocase ps] glob.simps(3) if_P [OF True] by (simp only: tokens.simps all simp_thms)
    next
      case False
      then show ?thesis
        unfolding tok matches_stars [of nocase ps] glob.simps(3) if_P [OF True] 3(1) [OF True False hd [OF False]]
        by blast
    qed
  next
    case False
    obtain t where t: "t \<noteq> Star" "tokens (p # ps) = t # tokens (snd (glob_switch nocase p ps c))"
      "accepts nocase c t = fst (glob_switch nocase p ps c)"
      using switch_token [OF False] by blast
    show ?thesis
      unfolding t(2) matches_other [OF t(1)] t(3) glob.simps(3) if_not_P [OF False]
      by (cases "cs = []") (simp_all add: 3(2) False matches_empty)
  qed
next
  case (4 nocase ps)
  then have "skip_stars ps \<noteq> []" by (cases ps) simp_all
  then show ?case by (simp only: matches_star matches_empty star_match.simps) (simp add: matches_empty)
next
  case (5 nocase ps c cs)
  then show ?case by (simp add: matches_star_step)
qed (simp_all only: glob.simps tokens.simps matches.simps list.simps simp_thms)

lemma glob_empty_key: "glob nocase ps '''' \<longleftrightarrow> ps = ''''"
  by (cases ps) simp_all

end
