(* ===== verification/Redis_Store.thy ===== *)
theory Redis_Store
  imports Proto Glob
begin

text \<open>
  \<open>server/redis_store.h\<close> and \<open>server/redis_store.cpp\<close>: the key-value store behind the log.  A request of a
  client becomes a proposal; the entry that comes back committed is applied to the database, and the
  client waiting for it is answered.

  RocksDB and the msgpack encodings are third-party.  The database is a value of any type with the
  operations of a record \<open>database\<close>, whose documented behaviour is \<open>database_ok\<close>; the encodings are a
  record \<open>kv_codec\<close>.  A callback holds the session it answers, here a number.
\<close>

section \<open>What is stored and sent\<close>

type_synonym kvs = "(string \<times> string) list"

record redis_commit_data =
  rc_type :: nat
  rc_strs :: "string list"

record raft_commit =
  cm_node :: nat
  cm_id :: nat
  cm_data :: redis_commit_data

definition kCommitSet :: nat where
  "kCommitSet = 0"

definition kCommitDel :: nat where
  "kCommitDel = 1"

text \<open>
  Unpacking key-value pairs fails either in \<open>unpack\<close>, which is outside of the \<open>try\<close>, or in \<open>convert\<close>,
  which may have filled a part of the vector.
\<close>

datatype unpacked = UnpackError | ConvertError kvs | Pairs kvs

record kv_codec =
  pk_commit :: "raft_commit \<Rightarrow> string"
  up_commit :: "string \<Rightarrow> raft_commit option"
  pk_kvs :: "kvs \<Rightarrow> string"
  up_kvs :: "string \<Rightarrow> unpacked"

section \<open>The database\<close>

datatype answer = Got string | Absent | Failed

datatype batch_op = Put string string | Delete string

text \<open>A write returns whether it succeeded; a scan gives the pairs in the order of the iterator.\<close>

record 'd database =
  db_get :: "'d \<Rightarrow> string \<Rightarrow> answer"
  db_put :: "'d \<Rightarrow> string \<Rightarrow> string \<Rightarrow> bool \<times> 'd"
  db_delete :: "'d \<Rightarrow> string \<Rightarrow> bool \<times> 'd"
  db_write :: "'d \<Rightarrow> batch_op list \<Rightarrow> bool \<times> 'd"
  db_scan :: "'d \<Rightarrow> kvs"

section \<open>The store\<close>

record 'd store =
  st_node :: nat
  st_db :: 'd
  st_next_id :: nat
  st_pending :: "(nat \<times> nat) list"
  st_answers :: "(nat \<times> status) list"

definition answer_to :: "nat \<Rightarrow> status \<Rightarrow> 'd store \<Rightarrow> 'd store" where
  "answer_to client st s = s\<lparr>st_answers := st_answers s @ [(client, st)]\<rparr>"

text \<open>The callback of a request is called and forgotten, if it is still there.\<close>

definition finish_request :: "nat \<Rightarrow> status \<Rightarrow> 'd store \<Rightarrow> 'd store" where
  "finish_request i st s =
     (case map_of (st_pending s) i of
        None \<Rightarrow> s
      | Some client \<Rightarrow> (answer_to client st s)\<lparr>st_pending := AList.delete i (st_pending s)\<rparr>)"

subsection \<open>Loading pairs\<close>

text \<open>
  The test of \<open>found\<close> stands inside the loop over the new pairs: a key is marked for deletion once for
  each new pair before the one with this key, and so not at all if there are no new pairs.
\<close>

primrec mark_key :: "string \<Rightarrow> kvs \<Rightarrow> string list" where
  "mark_key key [] = []"
| "mark_key key (kv # kvs) = (if fst kv = key then [] else key # mark_key key kvs)"

definition load_kv_to_rocksdb :: "'d database \<Rightarrow> kvs \<Rightarrow> 'd \<Rightarrow> 'd" where
  "load_kv_to_rocksdb db kvs d =
     (let keys_to_delete = concat (map (\<lambda>kv. mark_key (fst kv) kvs) (db_scan db d));
          batch = map Delete keys_to_delete @ map (\<lambda>kv. Put (fst kv) (snd kv)) kvs
      in snd (db_write db d batch))"

text \<open>The constructor; \<open>None\<close> is an exception that leaves it.\<close>

definition new_store :: "'d database \<Rightarrow> kv_codec \<Rightarrow> nat \<Rightarrow> 'd \<Rightarrow> string \<Rightarrow> 'd store option" where
  "new_store db c node d snap =
     map_option
       (\<lambda>d. \<lparr>st_node = node, st_db = d, st_next_id = 0, st_pending = [], st_answers = []\<rparr>)
       (if snap = '''' then Some d
        else case up_kvs c snap of
               UnpackError \<Rightarrow> None
             | ConvertError kvs \<Rightarrow> Some (load_kv_to_rocksdb db kvs d)
             | Pairs kvs \<Rightarrow> Some (load_kv_to_rocksdb db kvs d))"

subsection \<open>Requests\<close>

definition store_get :: "'d database \<Rightarrow> string \<Rightarrow> 'd store \<Rightarrow> string option" where
  "store_get db key s = (case db_get db (st_db s) key of Got v \<Rightarrow> Some v | _ \<Rightarrow> None)"

definition putKV :: "'d database \<Rightarrow> string \<Rightarrow> string \<Rightarrow> 'd store \<Rightarrow> bool \<times> 'd store" where
  "putKV db key val s = (case db_put db (st_db s) key val of (fine, d) \<Rightarrow> (fine, s\<lparr>st_db := d\<rparr>))"

definition getKV :: "'d database \<Rightarrow> string \<Rightarrow> 'd store \<Rightarrow> answer" where
  "getKV db key s = db_get db (st_db s) key"

definition store_keys :: "'d database \<Rightarrow> string \<Rightarrow> 'd store \<Rightarrow> string list" where
  "store_keys db pattern s = filter (\<lambda>key. glob False pattern key) (map fst (db_scan db (st_db s)))"

text \<open>The data to propose, and the store with the request pending.\<close>

definition request :: "kv_codec \<Rightarrow> redis_commit_data \<Rightarrow> nat \<Rightarrow> 'd store \<Rightarrow> string \<times> 'd store" where
  "request c d client s =
     (pk_commit c \<lparr>cm_node = st_node s mod W32, cm_id = st_next_id s, cm_data = d\<rparr>,
      s\<lparr>st_next_id := add32 (st_next_id s) 1,
        st_pending := AList.update (st_next_id s) client (st_pending s)\<rparr>)"

definition store_set :: "kv_codec \<Rightarrow> string \<Rightarrow> string \<Rightarrow> nat \<Rightarrow> 'd store \<Rightarrow> string \<times> 'd store" where
  "store_set c key val client s = request c \<lparr>rc_type = kCommitSet, rc_strs = [key, val]\<rparr> client s"

definition store_del :: "kv_codec \<Rightarrow> string list \<Rightarrow> nat \<Rightarrow> 'd store \<Rightarrow> string \<times> 'd store" where
  "store_del c keys client s = request c \<lparr>rc_type = kCommitDel, rc_strs = keys\<rparr> client s"

text \<open>What the two hand to \<open>propose\<close> as its callback: \<open>del\<close> answers in any case.\<close>

definition set_proposed :: "nat \<Rightarrow> status \<Rightarrow> 'd store \<Rightarrow> 'd store" where
  "set_proposed i st s = (if is_ok st then s else finish_request i st s)"

definition del_proposed :: "nat \<Rightarrow> status \<Rightarrow> 'd store \<Rightarrow> 'd store" where
  "del_proposed i st s = finish_request i st s"

subsection \<open>Snapshots\<close>

definition get_snapshot :: "'d database \<Rightarrow> kv_codec \<Rightarrow> 'd store \<Rightarrow> string" where
  "get_snapshot db c s = pk_kvs c (db_scan db (st_db s))"

text \<open>The callback gets the status that is returned.\<close>

definition recover_from_snapshot ::
  "'d database \<Rightarrow> kv_codec \<Rightarrow> string \<Rightarrow> 'd store \<Rightarrow> (status \<times> 'd store) option" where
  "recover_from_snapshot db c snap s =
     (case up_kvs c snap of
        UnpackError \<Rightarrow> None
      | ConvertError kvs \<Rightarrow> Some (IOError ''invalid snapshot'', s)
      | Pairs kvs \<Rightarrow> Some (StatusOk, s\<lparr>st_db := load_kv_to_rocksdb db kvs (st_db s)\<rparr>))"

subsection \<open>Committed entries\<close>

definition apply_commit :: "'d database \<Rightarrow> redis_commit_data \<Rightarrow> 'd \<Rightarrow> 'd option" where
  "apply_commit db c d =
     (if rc_type c = kCommitSet then do {
        check (length (rc_strs c) = 2);
        Some (snd (db_put db d (rc_strs c ! 0) (rc_strs c ! 1)))
      }
      else if rc_type c = kCommitDel then Some (fold (\<lambda>key d. snd (db_delete db d key)) (rc_strs c) d)
      else Some d)"

definition read_commit :: "'d database \<Rightarrow> kv_codec \<Rightarrow> string \<Rightarrow> 'd store \<Rightarrow> 'd store option" where
  "read_commit db c data s =
     (case up_commit c data of
        None \<Rightarrow> Some s
      | Some cm \<Rightarrow> do {
          d \<leftarrow> apply_commit db (cm_data cm) (st_db s);
          let s = s\<lparr>st_db := d\<rparr>;
          Some (if cm_node cm = st_node s then finish_request (cm_id cm) StatusOk s else s)
        })"

section \<open>The abstract store\<close>

text \<open>
  What the code relies on.  \<open>view\<close> is the content of a database; a failed write is only logged, so the
  model of a working database is one whose writes succeed.
\<close>

primrec batch_view :: "batch_op \<Rightarrow> (string \<rightharpoonup> string) \<Rightarrow> (string \<rightharpoonup> string)" where
  "batch_view (Put k v) m = m(k \<mapsto> v)"
| "batch_view (Delete k) m = m(k := None)"

definition database_ok :: "'d database \<Rightarrow> ('d \<Rightarrow> string \<rightharpoonup> string) \<Rightarrow> bool" where
  "database_ok db view \<longleftrightarrow>
     (\<forall>d k. db_get db d k = (case view d k of Some v \<Rightarrow> Got v | None \<Rightarrow> Absent)) \<and>
     (\<forall>d k v. fst (db_put db d k v) \<and> view (snd (db_put db d k v)) = (view d)(k \<mapsto> v)) \<and>
     (\<forall>d k. fst (db_delete db d k) \<and> view (snd (db_delete db d k)) = (view d)(k := None)) \<and>
     (\<forall>d ops. fst (db_write db d ops) \<and> view (snd (db_write db d ops)) = fold batch_view ops (view d)) \<and>
     (\<forall>d. map_of (db_scan db d) = view d \<and> distinct (map fst (db_scan db d)))"

definition kv_codec_ok :: "kv_codec \<Rightarrow> bool" where
  "kv_codec_ok c \<longleftrightarrow> (\<forall>cm. up_commit c (pk_commit c cm) = Some cm) \<and> (\<forall>kvs. up_kvs c (pk_kvs c kvs) = Pairs kvs)"

lemma database_okD:
  assumes "database_ok db view"
  shows "db_get db d k = (case view d k of Some v \<Rightarrow> Got v | None \<Rightarrow> Absent)"
    and "view (snd (db_put db d k v)) = (view d)(k \<mapsto> v)"
    and "view (snd (db_delete db d k)) = (view d)(k := None)"
    and "view (snd (db_write db d ops)) = fold batch_view ops (view d)"
    and "map_of (db_scan db d) = view d" and "distinct (map fst (db_scan db d))"
  using assms by (simp_all add: database_ok_def)

text \<open>The effect of an entry on the content; an entry that faults is \<open>None\<close>.\<close>

definition commit_view :: "redis_commit_data \<Rightarrow> (string \<rightharpoonup> string) \<Rightarrow> (string \<rightharpoonup> string)" where
  "commit_view c m =
     (if rc_type c = kCommitSet then m(rc_strs c ! 0 \<mapsto> rc_strs c ! 1)
      else if rc_type c = kCommitDel then m |` (- set (rc_strs c))
      else m)"

definition well_formed :: "redis_commit_data \<Rightarrow> bool" where
  "well_formed c \<longleftrightarrow> (rc_type c = kCommitSet \<longrightarrow> length (rc_strs c) = 2)"

definition entry_view :: "kv_codec \<Rightarrow> string \<Rightarrow> (string \<rightharpoonup> string) \<Rightarrow> (string \<rightharpoonup> string)" where
  "entry_view c data m = (case up_commit c data of None \<Rightarrow> m | Some cm \<Rightarrow> commit_view (cm_data cm) m)"

definition entry_well_formed :: "kv_codec \<Rightarrow> string \<Rightarrow> bool" where
  "entry_well_formed c data \<longleftrightarrow> (\<forall>cm. up_commit c data = Some cm \<longrightarrow> well_formed (cm_data cm))"

end
