(* ===== verification/Byte_Buffer.thy ===== *)
theory Byte_Buffer
  imports Prelude
begin

text \<open>
  \<open>common/bytebuffer.h\<close> and \<open>common/bytebuffer.cpp\<close>: the buffer of bytes that wait to be sent, a vector
  with a reading and a writing position; the contract its users, the two kinds of network sessions,
  rely on; and the asynchronous writes the sessions begin, which read through a pointer into the vector.
\<close>

section \<open>Operations\<close>

text \<open>
  \<open>bb_block\<close> says which allocation the vector lies in: it counts how often the vector has moved.  The
  vector is always as long as its capacity, so that it moves whenever it grows.
\<close>

record byte_buffer =
  bb_reader :: nat
  bb_writer :: nat
  bb_buff :: string
  bb_block :: nat

definition sub32 :: "nat \<Rightarrow> nat \<Rightarrow> nat" where
  "sub32 a b = (if b \<le> a then a - b else W32 - (b - a))"

definition MIN_BUFFERING :: nat where
  "MIN_BUFFERING = 4096"

definition new_byte_buffer :: byte_buffer where
  "new_byte_buffer = \<lparr>bb_reader = 0, bb_writer = 0, bb_buff = replicate MIN_BUFFERING (CHR 0x00), bb_block = 0\<rparr>"

text \<open>The length is a 32-bit number; copying past the end of the vector is a fault.\<close>

definition buffer_put :: "byte_buffer \<Rightarrow> string \<Rightarrow> byte_buffer option" where
  "buffer_put b data =
     (let len = length data mod W32;
          left = sub32 (length (bb_buff b) mod W32) (bb_writer b);
          buff = (if left < len then vec_resize (CHR 0x00) (length (bb_buff b) * 2 + len) (bb_buff b)
                  else bb_buff b)
      in do {
        check (bb_writer b + len \<le> length buff);
        Some (b\<lparr>bb_buff := take (bb_writer b) buff @ take len data @ drop (bb_writer b + len) buff,
                bb_writer := add32 (bb_writer b) len,
                bb_block := (if left < len then bb_block b + 1 else bb_block b)\<rparr>)
      })"

definition buffer_readable :: "byte_buffer \<Rightarrow> bool" where
  "buffer_readable b \<longleftrightarrow> bb_writer b > bb_reader b"

definition readable_bytes :: "byte_buffer \<Rightarrow> nat option" where
  "readable_bytes b = do { check (bb_writer b \<ge> bb_reader b); Some (bb_writer b - bb_reader b) }"

definition may_shrink_to_fit :: "byte_buffer \<Rightarrow> byte_buffer" where
  "may_shrink_to_fit b = (if bb_reader b = bb_writer b then b\<lparr>bb_reader := 0, bb_writer := 0\<rparr> else b)"

definition read_bytes :: "byte_buffer \<Rightarrow> nat \<Rightarrow> byte_buffer option" where
  "read_bytes b bytes = do {
     n \<leftarrow> readable_bytes b;
     check (n \<ge> bytes);
     Some (may_shrink_to_fit (b\<lparr>bb_reader := add32 (bb_reader b) bytes\<rparr>))
   }"

definition buffer_slice :: "byte_buffer \<Rightarrow> string option" where
  "buffer_slice b = do {
     n \<leftarrow> readable_bytes b;
     Some (take n (drop (bb_reader b) (bb_buff b)))
   }"

definition buffer_reset :: "byte_buffer \<Rightarrow> byte_buffer" where
  "buffer_reset b = b\<lparr>bb_reader := 0, bb_writer := 0,
     bb_buff := vec_resize (CHR 0x00) MIN_BUFFERING (bb_buff b),
     bb_block := (if length (bb_buff b) = MIN_BUFFERING then bb_block b else bb_block b + 1)\<rparr>"

section \<open>Asynchronous writes\<close>

text \<open>
  \<open>boost::asio::buffer(reader(), readable_bytes())\<close>: a pointer, which is an allocation and an offset in it,
  and a length.  The write sends the bytes in one or more pieces, which it reads through the pointer when
  it sends them; reading from an allocation the vector has left is a fault.
\<close>

record async_write =
  wr_block :: nat
  wr_from :: nat
  wr_len :: nat
  wr_sent :: nat

definition begin_write :: "byte_buffer \<Rightarrow> async_write option" where
  "begin_write b = do {
     n \<leftarrow> readable_bytes b;
     Some \<lparr>wr_block = bb_block b, wr_from = bb_reader b, wr_len = n, wr_sent = 0\<rparr>
   }"

definition write_some :: "nat \<Rightarrow> byte_buffer \<Rightarrow> async_write \<Rightarrow> (string \<times> async_write) option" where
  "write_some k b w = do {
     check (wr_block w = bb_block b);
     Some (take k (drop (wr_from w + wr_sent w) (bb_buff b)), w\<lparr>wr_sent := wr_sent w + k\<rparr>)
   }"

section \<open>The contract of a byte queue\<close>

text \<open>
  Bytes put at the end come out at the front.  \<open>fits\<close> is the capacity condition of the provider.
\<close>

locale byte_queue =
  fixes inv :: "'b \<Rightarrow> bool"
    and view :: "'b \<Rightarrow> string"
    and fits :: "'b \<Rightarrow> nat \<Rightarrow> bool"
    and put :: "'b \<Rightarrow> string \<Rightarrow> 'b option"
    and slice :: "'b \<Rightarrow> string option"
    and consume :: "'b \<Rightarrow> nat \<Rightarrow> 'b option"
  assumes put_view: "inv b \<Longrightarrow> fits b (length d) \<Longrightarrow> \<exists>b'. put b d = Some b' \<and> inv b' \<and> view b' = view b @ d"
    and slice_view: "inv b \<Longrightarrow> slice b = Some (view b)"
    and consume_view: "inv b \<Longrightarrow> n \<le> length (view b) \<Longrightarrow>
           \<exists>b'. consume b n = Some b' \<and> inv b' \<and> view b' = drop n (view b)"
    and consume_short: "inv b \<Longrightarrow> length (view b) < n \<Longrightarrow> consume b n = None"
begin

text \<open>A write of everything that is readable empties the queue.\<close>

lemma write_out:
  assumes "inv b" "slice b = Some s"
  shows "\<exists>b'. consume b (length s) = Some b' \<and> inv b' \<and> view b' = ''''"
  using consume_view [OF assms(1), of "length (view b)"] slice_view [OF assms(1)] assms(2) by auto

text \<open>Bytes that are put while a write is under way are still there after it.\<close>

lemma put_then_consume:
  assumes "inv b" "fits b (length d)" "put b d = Some b1" "n \<le> length (view b)"
  shows "\<exists>b'. consume b1 n = Some b' \<and> inv b' \<and> view b' = drop n (view b) @ d"
proof -
  have b1: "inv b1" "view b1 = view b @ d" using put_view [OF assms(1,2)] assms(3) by auto
  then show ?thesis using consume_view [OF b1(1), of n] assms(4) by auto
qed

text \<open>What is sent, piece by piece, and what is left make up what was put.\<close>

lemma nothing_lost:
  assumes "inv b" "n \<le> length (view b)" "consume b n = Some b'"
  shows "take n (view b) @ view b' = view b"
  using consume_view [OF assms(1,2)] assms(3) by auto

end

section \<open>The buffer keeps the contract\<close>

definition buffer_ok :: "byte_buffer \<Rightarrow> bool" where
  "buffer_ok b \<longleftrightarrow> bb_reader b \<le> bb_writer b \<and> bb_writer b \<le> length (bb_buff b) \<and> length (bb_buff b) < W32"

definition buffer_view :: "byte_buffer \<Rightarrow> string" where
  "buffer_view b = take (bb_writer b - bb_reader b) (drop (bb_reader b) (bb_buff b))"

text \<open>There is room if doubling the vector stays below 4 GiB.\<close>

definition buffer_fits :: "byte_buffer \<Rightarrow> nat \<Rightarrow> bool" where
  "buffer_fits b len \<longleftrightarrow> length (bb_buff b) * 2 + len < W32"

lemma buffer_ok_new [simp]: "buffer_ok new_byte_buffer" "buffer_view new_byte_buffer = ''''"
  by (simp_all add: buffer_ok_def new_byte_buffer_def buffer_view_def MIN_BUFFERING_def W32_def)

lemma buffer_put_view:
  assumes ok: "buffer_ok b" and fits: "buffer_fits b (length d)"
  shows "\<exists>b'. buffer_put b d = Some b' \<and> buffer_ok b' \<and> buffer_view b' = buffer_view b @ d"
proof -
  let ?n = "length d"
  define buff where "buff = (if length (bb_buff b) - bb_writer b < ?n
      then vec_resize (CHR 0x00) (length (bb_buff b) * 2 + ?n) (bb_buff b) else bb_buff b)"
  have o: "bb_reader b \<le> bb_writer b" "bb_writer b \<le> length (bb_buff b)" "length (bb_buff b) < W32"
    using ok by (simp_all add: buffer_ok_def)
  have len: "length d mod W32 = ?n" "length (bb_buff b) mod W32 = length (bb_buff b)"
    using fits o(3) by (simp_all add: buffer_fits_def)
  have left: "sub32 (length (bb_buff b)) (bb_writer b) = length (bb_buff b) - bb_writer b"
    using o by (simp add: sub32_def)
  have room: "bb_writer b + ?n \<le> length buff" "length buff < W32"
    using o fits by (auto simp: buff_def buffer_fits_def)
  have keep: "take (bb_writer b) buff = take (bb_writer b) (bb_buff b)"
    using o by (auto simp: buff_def vec_resize_def)
  let ?b = "b\<lparr>bb_buff := take (bb_writer b) buff @ d @ drop (bb_writer b + ?n) buff,
      bb_writer := bb_writer b + ?n,
      bb_block := (if length (bb_buff b) - bb_writer b < ?n then bb_block b + 1 else bb_block b)\<rparr>"
  have "buffer_put b d = Some ?b"
    using room by (simp add: buffer_put_def len left Let_def buff_def [symmetric] add32_exact)
  moreover have "buffer_ok ?b" using o room by (simp add: buffer_ok_def)
  moreover have "buffer_view ?b = buffer_view b @ d"
    using o room by (simp add: buffer_view_def keep drop_take)
  ultimately show ?thesis by blast
qed

lemma readable_bytes_eq: "buffer_ok b \<Longrightarrow> readable_bytes b = Some (length (buffer_view b))"
  by (auto simp: readable_bytes_def buffer_ok_def buffer_view_def)

lemma read_bytes_view:
  assumes "buffer_ok b" "n \<le> length (buffer_view b)"
  shows "\<exists>b'. read_bytes b n = Some b' \<and> buffer_ok b' \<and> buffer_view b' = drop n (buffer_view b)"
proof -
  have n: "n \<le> bb_writer b - bb_reader b" "bb_reader b + n < W32"
    using assms by (auto simp: buffer_ok_def buffer_view_def)
  then show ?thesis
    using assms readable_bytes_eq [OF assms(1)]
    by (auto simp: read_bytes_def may_shrink_to_fit_def add32_exact buffer_ok_def buffer_view_def
        drop_take add.commute)
qed

interpretation bb: byte_queue buffer_ok buffer_view buffer_fits buffer_put buffer_slice read_bytes
proof unfold_locales
  fix b assume ok: "buffer_ok b"
  show "buffer_slice b = Some (buffer_view b)"
    using readable_bytes_eq [OF ok] ok by (auto simp: buffer_slice_def buffer_view_def buffer_ok_def)
  show "length (buffer_view b) < n \<Longrightarrow> read_bytes b n = None" for n
    using readable_bytes_eq [OF ok] by (simp add: read_bytes_def)
qed (use buffer_put_view read_bytes_view in blast)+

section \<open>Room\<close>

text \<open>
  The vector never gets larger than 4096 bytes and three times what was put in all, so that a buffer
  that takes less than 680 MB in its lifetime never overflows.
\<close>

definition buffer_within :: "nat \<Rightarrow> byte_buffer \<Rightarrow> bool" where
  "buffer_within amount b \<longleftrightarrow>
     buffer_ok b \<and> MIN_BUFFERING \<le> length (bb_buff b) \<and>
     length (bb_buff b) \<le> MIN_BUFFERING + 3 * amount \<and> bb_writer b \<le> amount"

definition roomy :: "nat \<Rightarrow> bool" where
  "roomy amount \<longleftrightarrow> 2 * MIN_BUFFERING + 6 * amount < W32"

lemma buffer_within_ok: "buffer_within amount b \<Longrightarrow> buffer_ok b"
  by (simp add: buffer_within_def)

lemma buffer_within_new [simp]: "buffer_within 0 new_byte_buffer"
  by (simp add: buffer_within_def) (simp add: new_byte_buffer_def)

lemma roomy_mono: "roomy amount \<Longrightarrow> n \<le> amount \<Longrightarrow> roomy n"
  by (simp add: roomy_def)

lemma buffer_put_within:
  assumes b: "buffer_within amount b" and room: "roomy (amount + length d)"
  shows "\<exists>b'. buffer_put b d = Some b' \<and> buffer_within (amount + length d) b' \<and>
    buffer_view b' = buffer_view b @ d \<and> bb_reader b' = bb_reader b \<and> bb_writer b' = bb_writer b + length d \<and>
    (if length (bb_buff b) < bb_writer b + length d
     then length (bb_buff b') = length (bb_buff b) * 2 + length d \<and> bb_block b' = bb_block b + 1
     else length (bb_buff b') = length (bb_buff b) \<and> bb_block b' = bb_block b)"
proof -
  have fits: "buffer_fits b (length d)"
    using assms by (auto simp: buffer_within_def roomy_def buffer_fits_def)
  obtain b' where b': "buffer_put b d = Some b'" "buffer_ok b'" "buffer_view b' = buffer_view b @ d"
    using bb.put_view [OF buffer_within_ok [OF b] fits] by blast
  have sizes: "bb_writer b \<le> length (bb_buff b)" "length (bb_buff b) < W32" "length d < W32"
      "bb_writer b + length d < W32"
    using b fits by (auto simp: buffer_within_def buffer_ok_def buffer_fits_def)
  have e: "bb_reader b' = bb_reader b \<and> bb_writer b' = bb_writer b + length d \<and>
      (if length (bb_buff b) < bb_writer b + length d
       then length (bb_buff b') = length (bb_buff b) * 2 + length d \<and> bb_block b' = bb_block b + 1
       else length (bb_buff b') = length (bb_buff b) \<and> bb_block b' = bb_block b)"
    using b'(1) sizes
    by (auto simp: buffer_put_def Let_def sub32_def add32_exact split: if_splits Option.bind_splits)
  then have "buffer_within (amount + length d) b'"
    using b b'(2) sizes by (auto simp: buffer_within_def split: if_splits)
  then show ?thesis using b' e by blast
qed

lemma read_bytes_within:
  assumes b: "buffer_within amount b" and n: "n \<le> length (buffer_view b)"
  shows "\<exists>b'. read_bytes b n = Some b' \<and> buffer_within amount b' \<and> buffer_view b' = drop n (buffer_view b) \<and>
    bb_block b' = bb_block b"
proof -
  obtain b' where b': "read_bytes b n = Some b'" "buffer_ok b'" "buffer_view b' = drop n (buffer_view b)"
    using bb.consume_view [OF buffer_within_ok [OF b] n] by blast
  have "bb_writer b' \<le> bb_writer b \<and> bb_buff b' = bb_buff b \<and> bb_block b' = bb_block b"
    using b'(1) by (auto simp: read_bytes_def may_shrink_to_fit_def split: Option.bind_splits)
  then show ?thesis using b b' by (auto simp: buffer_within_def)
qed

lemma buffer_readable_view: "buffer_ok b \<Longrightarrow> buffer_readable b \<longleftrightarrow> buffer_view b \<noteq> ''''"
  by (auto simp: buffer_readable_def buffer_ok_def buffer_view_def)

section \<open>Writing out a queue\<close>

text \<open>
  Of the bytes that were put, the first are gone and the others are in the buffer.  While there are any,
  one write is under way, of the front of the buffer, and what is on the wire ends with the bytes that it
  has sent.
\<close>

definition sending :: "string \<Rightarrow> byte_buffer \<Rightarrow> async_write list \<Rightarrow> string \<Rightarrow> bool" where
  "sending stream b ws wire \<longleftrightarrow>
     (\<exists>gone. stream = gone @ buffer_view b \<and>
       (if buffer_view b = '''' then ws = [] \<and> wire = gone
        else \<exists>w. ws = [w] \<and> wr_from w = bb_reader b \<and> 0 < wr_len w \<and> wr_len w \<le> length (buffer_view b) \<and>
          wr_sent w \<le> wr_len w \<and> wire = gone @ take (wr_sent w) (buffer_view b)))"

text \<open>A write whose vector has moved before it has sent all its bytes.\<close>

definition overtaken :: "byte_buffer \<Rightarrow> async_write list \<Rightarrow> bool" where
  "overtaken b ws \<longleftrightarrow> (\<exists>w \<in> set ws. wr_block w \<noteq> bb_block b \<and> wr_sent w < wr_len w)"

lemma sending_new [simp]: "sending '''' new_byte_buffer [] ''''"
  by (simp add: sending_def)

lemma sending_wire: "sending stream b ws wire \<Longrightarrow> \<exists>rest. wire @ rest = stream"
  by (auto simp: sending_def split: if_splits) (metis append_take_drop_id)

lemma sending_idle: "sending stream b ws wire \<Longrightarrow> buffer_view b = '''' \<Longrightarrow> wire = stream \<and> ws = []"
  by (auto simp: sending_def)

lemma sending_begin:
  assumes "buffer_ok b" "buffer_view b \<noteq> ''''" "stream = wire @ buffer_view b"
  shows "\<exists>w. begin_write b = Some w \<and> sending stream b [w] wire \<and> \<not> overtaken b [w] \<and> wr_sent w = 0"
  using assms readable_bytes_eq [OF assms(1)] by (auto simp: begin_write_def sending_def overtaken_def)

lemma sending_put:
  assumes "sending stream b ws wire" "buffer_view b \<noteq> ''''" "buffer_view b' = buffer_view b @ d" "bb_reader b' = bb_reader b"
  shows "sending (stream @ d) b' ws wire"
  using assms by (auto simp: sending_def)

lemma sending_write:
  assumes s: "sending stream b ws wire" and i: "i < length ws"
    and k: "wr_sent (ws ! i) + k \<le> wr_len (ws ! i)" and w: "write_some k b (ws ! i) = Some (d, w')"
  shows "sending stream b (ws[i := w']) (wire @ d)"
proof -
  obtain gone w0 where g: "stream = gone @ buffer_view b" "ws = [w0]" "wr_from w0 = bb_reader b" "0 < wr_len w0"
      "wr_len w0 \<le> length (buffer_view b)" "wire = gone @ take (wr_sent w0) (buffer_view b)" "buffer_view b \<noteq> ''''"
    using s i by (auto simp: sending_def split: if_splits)
  have 0: "i = 0" "ws ! i = w0" using i g(2) by auto
  have "take k (drop (wr_from w0 + wr_sent w0) (bb_buff b)) = take k (drop (wr_sent w0) (buffer_view b))"
  proof -
    have "wr_sent w0 + k \<le> bb_writer b - bb_reader b" using g(5) k 0 by (simp add: buffer_view_def)
    then show ?thesis using g(3) by (simp add: buffer_view_def drop_take add.commute min_def)
  qed
  then show ?thesis
    using g w k 0 by (auto simp: sending_def write_some_def take_add split: Option.bind_splits)
qed

lemma sending_done:
  assumes s: "sending stream b (ws @ w # ws') wire" and all: "wr_sent w = wr_len w" and b: "buffer_within amount b"
  shows "ws = [] \<and> ws' = [] \<and> 0 < wr_len w \<and> (\<exists>b'. read_bytes b (wr_len w) = Some b' \<and> buffer_within amount b' \<and>
    stream = wire @ buffer_view b' \<and> bb_block b' = bb_block b \<and> length (buffer_view b') < length (buffer_view b))"
proof -
  obtain gone where g: "stream = gone @ buffer_view b" "ws = []" "ws' = []" "0 < wr_len w"
      "wr_len w \<le> length (buffer_view b)" "wire = gone @ take (wr_len w) (buffer_view b)"
    using s all by (auto simp: sending_def append_eq_Cons_conv split: if_splits)
  moreover obtain b' where "read_bytes b (wr_len w) = Some b'" "buffer_within amount b'"
      "buffer_view b' = drop (wr_len w) (buffer_view b)" "bb_block b' = bb_block b"
    using read_bytes_within [OF b g(5)] by blast
  ultimately show ?thesis by auto
qed

end
