(* ===== verification/Redis_Session.thy ===== *)
theory Redis_Session
  imports Redis_Store Byte_Buffer
begin

text \<open>
  \<open>server/redis_session.h\<close> and \<open>server/redis_session.cpp\<close>: the connection of a Redis client.  It cuts
  what arrives into lines, feeds them to the parser of hiredis, runs the commands and queues the replies.

  The parser is third-party and a parameter.  A step works on a session together with the store it
  asks; what the store proposes is a list of proposals.
\<close>

section \<open>State\<close>

datatype redis_reply = RString string | RArray "redis_reply list" | ROther nat

text \<open>Both functions of the parser return whether they succeeded; there may be no reply yet.\<close>

record 'r redis_reader =
  reader_feed :: "'r \<Rightarrow> string \<Rightarrow> bool \<times> 'r"
  reader_get :: "'r \<Rightarrow> bool \<times> redis_reply option \<times> 'r"

datatype proposal = ProposeSet nat string | ProposeDel nat string

record 'r session =
  ss_client :: nat
  ss_quit :: bool
  ss_reader :: 'r
  ss_send :: byte_buffer
  ss_reads :: nat
  ss_writes :: "async_write list"
  ss_wire :: string

text \<open>The number of reads that were begun, the writes that are under way, and the bytes that have been sent.\<close>

definition session_start :: "'r session \<Rightarrow> 'r session" where
  "session_start s = (if ss_quit s then s else s\<lparr>ss_reads := ss_reads s + 1\<rparr>)"

definition start_send :: "'r session \<Rightarrow> 'r session option" where
  "start_send s =
     (if \<not> buffer_readable (ss_send s) then Some s
      else do {
        w \<leftarrow> begin_write (ss_send s);
        Some (s\<lparr>ss_writes := ss_writes s @ [w]\<rparr>)
      })"

definition send_reply :: "string \<Rightarrow> 'r session \<Rightarrow> 'r session option" where
  "send_reply data s = do {
     bytes \<leftarrow> readable_bytes (ss_send s);
     b \<leftarrow> buffer_put (ss_send s) data;
     let s = s\<lparr>ss_send := b\<rparr>;
     if bytes = 0 then start_send s else Some s
   }"

text \<open>The handler of a write that is no longer under way.\<close>

definition send_done :: "bool \<Rightarrow> nat \<Rightarrow> 'r session \<Rightarrow> 'r session option" where
  "send_done err bytes s =
     (if bytes = 0 \<or> err then Some s
      else do {
        b \<leftarrow> read_bytes (ss_send s) bytes;
        start_send (s\<lparr>ss_send := b\<rparr>)
      })"

section \<open>Replies\<close>

text \<open>
  A C string ends at its first NUL.  \<open>snprintf\<close> into 256 bytes returns the full length, which the
  caller passes on: one byte too many is the terminator, and more is a read behind the array.
\<close>

definition c_str :: "string \<Rightarrow> string" where
  "c_str s = takeWhile (\<lambda>ch. ch \<noteq> CHR 0x00) s"

definition snprintf256 :: "string \<Rightarrow> string option" where
  "snprintf256 out =
     (if length out < 256 then Some out
      else if length out = 256 then Some (take 255 out @ [CHR 0x00])
      else None)"

fun dec :: "nat \<Rightarrow> string" where
  "dec n = (if n < 10 then [char_of (48 + n)] else dec (n div 10) @ [char_of (48 + n mod 10)])"

declare dec.simps [simp del]

definition crlf :: string where
  "crlf = [CHR 0x0D, CHR 0x0A]"

definition ok_reply :: string where
  "ok_reply = ''+OK'' @ crlf"

definition wrong_type :: string where
  "wrong_type = ''-WRONGTYPE Operation against a key holding the wrong kind of value'' @ crlf"

definition pong_reply :: string where
  "pong_reply = ''+PONG'' @ crlf"

definition null_reply :: string where
  "null_reply = ''$-1'' @ crlf"

definition wrong_number_arguments :: "string \<Rightarrow> string" where
  "wrong_number_arguments cmd =
     ''-ERR wrong number of arguments for '' @ [CHR 0x27] @ cmd @ [CHR 0x27] @ '' command'' @ crlf"

definition unknown_command :: "string \<Rightarrow> string" where
  "unknown_command cmd = ''-ERR unknown command '' @ [CHR 0x60] @ c_str cmd @ [CHR 0x60] @ crlf"

definition err_reply :: "status \<Rightarrow> string" where
  "err_reply st = ''-ERR '' @ c_str (status_to_string st) @ crlf"

definition bulk_reply :: "string \<Rightarrow> string" where
  "bulk_reply val = ''$'' @ dec (length val) @ crlf @ c_str val @ crlf"

text \<open>An empty string gets no line of its own.\<close>

definition build_redis_string_array_reply :: "string list \<Rightarrow> string" where
  "build_redis_string_array_reply strs =
     ''*'' @ dec (length strs) @ crlf @
     concat (map (\<lambda>str. ''$'' @ dec (length str) @ crlf @ (if str = '''' then '''' else str @ crlf)) strs)"

text \<open>The callback of \<open>set\<close> and \<open>del\<close>.\<close>

definition reply_status :: "status \<Rightarrow> 'r session \<Rightarrow> 'r session option" where
  "reply_status st s =
     (if is_ok st then send_reply ok_reply s
      else do { out \<leftarrow> snprintf256 (err_reply st); send_reply out s })"

section \<open>Commands\<close>

text \<open>What a command does: a reply at once, or a proposal and a store with the request pending.\<close>

datatype 'd action = ReplyNow string | ReplyFormatted string | Ask proposal "'d store"

definition ping_command :: "redis_reply list \<Rightarrow> 'd action" where
  "ping_command es = ReplyNow pong_reply"

definition get_command :: "'d database \<Rightarrow> 'd store \<Rightarrow> redis_reply list \<Rightarrow> 'd action" where
  "get_command db st es =
     (if length es \<noteq> 2 then ReplyFormatted (wrong_number_arguments ''get'')
      else case es ! 1 of
             RString key \<Rightarrow>
               (case store_get db key st of None \<Rightarrow> ReplyNow null_reply | Some val \<Rightarrow> ReplyNow (bulk_reply val))
           | _ \<Rightarrow> ReplyNow wrong_type)"

definition set_command :: "kv_codec \<Rightarrow> nat \<Rightarrow> 'd store \<Rightarrow> redis_reply list \<Rightarrow> 'd action" where
  "set_command c client st es =
     (if length es \<noteq> 3 then ReplyFormatted (wrong_number_arguments ''set'')
      else case (es ! 1, es ! 2) of
             (RString key, RString val) \<Rightarrow>
               (case store_set c key val client st of (data, st') \<Rightarrow> Ask (ProposeSet (st_next_id st) data) st')
           | _ \<Rightarrow> ReplyNow wrong_type)"

primrec string_args :: "redis_reply list \<Rightarrow> string list option" where
  "string_args [] = Some []"
| "string_args (e # es) = (case e of RString s \<Rightarrow> map_option ((#) s) (string_args es) | _ \<Rightarrow> None)"

definition del_command :: "kv_codec \<Rightarrow> nat \<Rightarrow> 'd store \<Rightarrow> redis_reply list \<Rightarrow> 'd action" where
  "del_command c client st es =
     (if length es \<le> 1 then ReplyFormatted (wrong_number_arguments ''del'')
      else case string_args (tl es) of
             None \<Rightarrow> ReplyNow wrong_type
           | Some keys \<Rightarrow>
               (case store_del c keys client st of (data, st') \<Rightarrow> Ask (ProposeDel (st_next_id st) data) st'))"

definition keys_command :: "'d database \<Rightarrow> 'd store \<Rightarrow> redis_reply list \<Rightarrow> 'd action" where
  "keys_command db st es =
     (if length es \<noteq> 2 then ReplyFormatted (wrong_number_arguments ''keys'')
      else case es ! 1 of
             RString pattern \<Rightarrow> ReplyNow (build_redis_string_array_reply (store_keys db pattern st))
           | _ \<Rightarrow> ReplyNow wrong_type)"

text \<open>The command table has each name in lower and in upper case, and no other spelling.\<close>

definition run_command :: "'d database \<Rightarrow> kv_codec \<Rightarrow> nat \<Rightarrow> 'd store \<Rightarrow> redis_reply \<Rightarrow> 'd action" where
  "run_command db c client st r =
     (case r of
        RArray es \<Rightarrow>
          (case es of
             [] \<Rightarrow> ReplyFormatted (wrong_number_arguments '''')
           | e # _ \<Rightarrow>
             (case e of
                RString cmd \<Rightarrow>
                  if cmd \<in> {''ping'', ''PING''} then ping_command es
                  else if cmd \<in> {''get'', ''GET''} then get_command db st es
                  else if cmd \<in> {''set'', ''SET''} then set_command c client st es
                  else if cmd \<in> {''del'', ''DEL''} then del_command c client st es
                  else if cmd \<in> {''keys'', ''KEYS''} then keys_command db st es
                  else ReplyFormatted (unknown_command cmd)
              | _ \<Rightarrow> ReplyNow wrong_type))
      | _ \<Rightarrow> ReplyNow wrong_type)"

type_synonym ('r, 'd) conn = "'r session \<times> 'd store \<times> proposal list"

definition on_redis_reply ::
  "'d database \<Rightarrow> kv_codec \<Rightarrow> redis_reply \<Rightarrow> ('r, 'd) conn \<Rightarrow> ('r, 'd) conn option" where
  "on_redis_reply db c r x =
     (case x of (s, st, ps) \<Rightarrow>
        case run_command db c (ss_client s) st r of
          ReplyNow out \<Rightarrow> map_option (\<lambda>s. (s, st, ps)) (send_reply out s)
        | ReplyFormatted out \<Rightarrow> do {
            out \<leftarrow> snprintf256 out;
            map_option (\<lambda>s. (s, st, ps)) (send_reply out s)
          }
        | Ask p st \<Rightarrow> Some (s, st, ps @ [p]))"

section \<open>Reading\<close>

text \<open>
  The loop over the lines of what arrived: whether the parser is still fine, the session, and the
  commands found.  Without a newline another read is begun, and what is left is not kept.
\<close>

function read_lines :: "'r redis_reader \<Rightarrow> string \<Rightarrow> 'r session \<Rightarrow> bool \<times> 'r session \<times> redis_reply list" where
  "read_lines rd data s =
     (if ss_quit s \<or> data = '''' then (True, s, [])
      else if CHR 0x0A \<notin> set data then (True, session_start s, [])
      else
        let line = takeWhile (\<lambda>ch. ch \<noteq> CHR 0x0A) data @ [CHR 0x0A];
            (fine, r) = reader_feed rd (ss_reader s) line
        in if \<not> fine then (False, s\<lparr>ss_reader := r, ss_quit := True\<rparr>, [])
           else
             let (fine, reply, r) = reader_get rd r
             in if \<not> fine then (False, s\<lparr>ss_reader := r, ss_quit := True\<rparr>, [])
                else
                  let (fine, s, replies) = read_lines rd (drop (length line) data) (s\<lparr>ss_reader := r\<rparr>)
                  in (fine, s, (case reply of Some x \<Rightarrow> [x] | None \<Rightarrow> []) @ replies))"
  by pat_completeness auto
termination
  by (relation "measure (\<lambda>(rd, data, s). length data)") auto

declare read_lines.simps [simp del]

definition handle_read ::
  "'d database \<Rightarrow> kv_codec \<Rightarrow> 'r redis_reader \<Rightarrow> string \<Rightarrow> ('r, 'd) conn \<Rightarrow> ('r, 'd) conn option" where
  "handle_read db c rd data x =
     (case x of (s, st, ps) \<Rightarrow>
        case read_lines rd data s of (fine, s, replies) \<Rightarrow>
          if fine then do {
            (s, st, ps) \<leftarrow> each (on_redis_reply db c) replies (s, st, ps);
            Some (session_start s, st, ps)
          }
          else Some (s, st, ps))"

end
