(* ===== verification/Store_Correct.thy ===== *)
theory Store_Correct
  imports Redis_Store
begin

text \<open>
  The store against its content: what loading a snapshot and applying an entry do, that a replay of
  entries over a database that already has some of them ends in the same content, and how requests and
  answers balance.
\<close>

section \<open>Loading pairs\<close>

lemma batch_view_deletes: "fold batch_view (map Delete ks) m = m |` (- set ks)"
  by (induction ks arbitrary: m) (auto simp: restrict_map_def fun_eq_iff)

lemma batch_view_puts: "fold batch_view (map (\<lambda>kv. Put (fst kv) (snd kv)) kvs) m = m ++ map_of (rev kvs)"
  by (induction kvs arbitrary: m) (auto simp: map_add_def fun_eq_iff split: option.splits)

lemma set_mark_key: "set (mark_key key kvs) = (if kvs = [] \<or> fst (hd kvs) = key then {} else {key})"
  by (induction kvs) auto

lemma load_kv_view:
  assumes "database_ok db view"
  shows "view (load_kv_to_rocksdb db kvs d) = (if kvs = [] then view d else map_of (rev kvs))"
proof (cases kvs)
  case Nil
  have "concat (map (\<lambda>kv. mark_key (fst kv) kvs) xs) = []" for xs :: kvs
    by (induction xs) (simp_all add: Nil)
  from this [of "db_scan db d"] show ?thesis
    using Nil by (simp add: load_kv_to_rocksdb_def database_okD(4) [OF assms] Let_def del: concat_eq_Nil_conv mark_key.simps)
next
  case (Cons kv r)
  let ?del = "concat (map (\<lambda>kv'. mark_key (fst kv') kvs) (db_scan db d))"
  have del: "set ?del = dom (view d) - {fst kv}"
    using Cons by (auto simp: set_mark_key dom_map_of_conv_image_fst split: if_splits
        simp flip: database_okD(5) [OF assms, of d] simp del: mark_key.simps)
  have in_new: "fst kv \<in> dom (map_of (rev kvs))"
    using Cons by (auto simp: dom_map_of_conv_image_fst)
  have "view (load_kv_to_rocksdb db kvs d) = (view d |` (- set ?del)) ++ map_of (rev kvs)"
    by (simp only: load_kv_to_rocksdb_def Let_def database_okD(4) [OF assms] fold_append comp_apply
        batch_view_deletes batch_view_puts)
  also have "\<dots> = map_of (rev kvs)"
  proof
    fix k
    show "((view d |` (- set ?del)) ++ map_of (rev kvs)) k = map_of (rev kvs) k"
      using in_new unfolding del
      by (cases "k = fst kv") (auto simp: map_add_def restrict_map_def domIff split: option.splits)
  qed
  finally show ?thesis using Cons by simp
qed

section \<open>Applying entries\<close>

lemma apply_commit_view:
  assumes "database_ok db view"
  shows "apply_commit db c d = None \<longleftrightarrow> \<not> well_formed c"
    and "apply_commit db c d = Some d' \<Longrightarrow> view d' = commit_view c (view d)"
proof -
  have del: "view (fold (\<lambda>key d. snd (db_delete db d key)) ks d) = view d |` (- set ks)" for ks d
    by (induction ks arbitrary: d) (auto simp: database_okD(3) [OF assms] restrict_map_def fun_eq_iff)
  show "apply_commit db c d = None \<longleftrightarrow> \<not> well_formed c"
    by (auto simp: apply_commit_def well_formed_def kCommitSet_def)
  show "apply_commit db c d = Some d' \<Longrightarrow> view d' = commit_view c (view d)"
    by (auto simp: apply_commit_def commit_view_def del database_okD(2) [OF assms]
        split: if_splits Option.bind_splits)
qed

lemma finish_request_db [simp]:
  "st_db (finish_request i st s) = st_db s" "st_node (finish_request i st s) = st_node s"
  "st_next_id (finish_request i st s) = st_next_id s"
  by (auto simp: finish_request_def answer_to_def split: option.splits)

lemma read_commit_view:
  assumes "database_ok db view" "entry_well_formed c data"
  shows "\<exists>s'. read_commit db c data s = Some s' \<and> view (st_db s') = entry_view c data (view (st_db s)) \<and>
    st_node s' = st_node s"
proof (cases "up_commit c data")
  case (Some cm)
  then have "well_formed (cm_data cm)" using assms(2) by (simp add: entry_well_formed_def)
  then obtain d where d: "apply_commit db (cm_data cm) (st_db s) = Some d"
    using apply_commit_view(1) [OF assms(1), of "cm_data cm" "st_db s"] by auto
  then show ?thesis
    using Some apply_commit_view(2) [OF assms(1) d] by (simp add: read_commit_def entry_view_def Let_def)
qed (simp add: read_commit_def entry_view_def)

lemma recover_view:
  assumes "database_ok db view" "kv_codec_ok c"
  shows "\<exists>t'. recover_from_snapshot db c (get_snapshot db c s) t = Some (StatusOk, t') \<and>
    view (st_db t') = (if view (st_db s) = Map.empty then view (st_db t) else view (st_db s))"
proof -
  let ?kvs = "db_scan db (st_db s)"
  have "?kvs = [] \<longleftrightarrow> view (st_db s) = Map.empty"
    by (metis database_okD(5) [OF assms(1)] map_of_eq_empty_iff)
  moreover have "map_of (rev ?kvs) = view (st_db s)"
    using database_okD(5,6) [OF assms(1)] map_of_inject_set [of "rev ?kvs" ?kvs] by (simp add: rev_map [symmetric])
  ultimately show ?thesis
    using load_kv_view [OF assms(1), of ?kvs "st_db t"] assms(2)
    by (simp add: recover_from_snapshot_def get_snapshot_def kv_codec_ok_def)
qed

lemma run_commits:
  assumes "database_ok db view" "\<forall>data \<in> set datas. entry_well_formed c data"
  shows "\<exists>s'. each (read_commit db c) datas s = Some s' \<and>
    view (st_db s') = fold (entry_view c) datas (view (st_db s)) \<and> st_node s' = st_node s"
  using assms(2)
proof (induction datas arbitrary: s)
  case (Cons data datas)
  obtain s1 where s1: "read_commit db c data s = Some s1"
    "view (st_db s1) = entry_view c data (view (st_db s))" "st_node s1 = st_node s"
    using read_commit_view [OF assms(1)] Cons.prems by fastforce
  then show ?case using Cons.IH [of s1] Cons.prems by auto
qed simp

section \<open>Replay over what is already there\<close>

text \<open>What an entry does to a key: nothing, or a new value or none in place of the old one.\<close>

definition entry_effect :: "kv_codec \<Rightarrow> string \<Rightarrow> string \<Rightarrow> string option option" where
  "entry_effect c data k =
     (case up_commit c data of
        None \<Rightarrow> None
      | Some cm \<Rightarrow>
          if rc_type (cm_data cm) = kCommitSet then
            (if k = rc_strs (cm_data cm) ! 0 then Some (Some (rc_strs (cm_data cm) ! 1)) else None)
          else if rc_type (cm_data cm) = kCommitDel \<and> k \<in> set (rc_strs (cm_data cm)) then Some None
          else None)"

primrec log_effect :: "kv_codec \<Rightarrow> string list \<Rightarrow> string \<Rightarrow> string option option" where
  "log_effect c [] k = None"
| "log_effect c (data # datas) k =
     (case log_effect c datas k of Some x \<Rightarrow> Some x | None \<Rightarrow> entry_effect c data k)"

lemma entry_view_effect: "entry_view c data m k = (case entry_effect c data k of Some x \<Rightarrow> x | None \<Rightarrow> m k)"
  by (auto simp: entry_view_def entry_effect_def commit_view_def restrict_map_def split: option.splits)

lemma log_view_effect:
  "fold (entry_view c) datas m k = (case log_effect c datas k of Some x \<Rightarrow> x | None \<Rightarrow> m k)"
  by (induction datas arbitrary: m) (auto simp: entry_view_effect split: option.splits)

lemma log_effect_append:
  "log_effect c (xs @ ys) k = (case log_effect c ys k of Some x \<Rightarrow> Some x | None \<Rightarrow> log_effect c xs k)"
  by (induction xs) (auto split: option.splits)

lemma replay_over_prefix:
  "fold (entry_view c) datas (fold (entry_view c) (take n datas) m) = fold (entry_view c) datas m"
proof
  fix k
  have "log_effect c datas k = None \<Longrightarrow> log_effect c (take n datas) k = None"
    using log_effect_append [of c "take n datas" "drop n datas" k] by (auto split: option.splits)
  then show "fold (entry_view c) datas (fold (entry_view c) (take n datas) m) k = fold (entry_view c) datas m k"
    by (auto simp: log_view_effect split: option.splits)
qed

section \<open>Requests and answers\<close>

datatype input =
    SetRequest string string nat
  | DelRequest "string list" nat
  | SetProposed nat status
  | DelProposed nat status
  | Committed string
  | Restored string

definition store_step :: "'d database \<Rightarrow> kv_codec \<Rightarrow> input \<Rightarrow> 'd store \<Rightarrow> 'd store option" where
  "store_step db c i s =
     (case i of
        SetRequest k v client \<Rightarrow> Some (snd (store_set c k v client s))
      | DelRequest ks client \<Rightarrow> Some (snd (store_del c ks client s))
      | SetProposed n st \<Rightarrow> Some (set_proposed n st s)
      | DelProposed n st \<Rightarrow> Some (del_proposed n st s)
      | Committed data \<Rightarrow> read_commit db c data s
      | Restored snap \<Rightarrow> map_option snd (recover_from_snapshot db c snap s))"

definition requesters :: "input list \<Rightarrow> nat list" where
  "requesters is = concat (map (\<lambda>i. case i of SetRequest k v client \<Rightarrow> [client] | DelRequest ks client \<Rightarrow> [client] | _ \<Rightarrow> []) is)"

lemma requesters_simps:
  "requesters [] = []"
  "requesters (i # is) = requesters [i] @ requesters is"
  by (simp_all add: requesters_def)

text \<open>The clients that were answered or still wait.\<close>

definition served :: "'d store \<Rightarrow> nat multiset" where
  "served s = mset (map fst (st_answers s)) + mset (map snd (st_pending s))"

definition pending_ok :: "'d store \<Rightarrow> bool" where
  "pending_ok s \<longleftrightarrow> distinct (map fst (st_pending s)) \<and> (\<forall>i \<in> set (map fst (st_pending s)). i < st_next_id s)"

lemma mset_delete:
  "distinct (map fst al) \<Longrightarrow> map_of al k = Some v \<Longrightarrow>
     mset (map snd al) = add_mset v (mset (map snd (AList.delete k al)))"
proof (induction al)
  case (Cons x al)
  show ?case
  proof (cases "fst x = k")
    case True
    then have "AList.delete k al = al"
      using Cons.prems(1) by (intro delete_id) auto
    then show ?thesis using True Cons.prems by (cases x) simp
  next
    case False
    then show ?thesis using Cons by (cases x) auto
  qed
qed simp

lemma finish_request_served:
  assumes "pending_ok s"
  shows "pending_ok (finish_request i st s)" "served (finish_request i st s) = served s"
  using assms mset_delete [of "st_pending s" i]
  by (auto simp: finish_request_def answer_to_def pending_ok_def served_def
      AList.delete_eq intro!: AList.distinct_delete [unfolded AList.delete_eq]
      split: option.splits)

lemma update_fresh: "k \<notin> fst ` set al \<Longrightarrow> AList.update k v al = al @ [(k, v)]"
  by (induction al) auto

lemma request_served:
  assumes "pending_ok s" "st_next_id s + 1 < W32"
  shows "pending_ok (snd (request c d client s))" "served (snd (request c d client s)) = add_mset client (served s)"
    "st_next_id (snd (request c d client s)) = st_next_id s + 1"
proof -
  have "st_next_id s \<notin> fst ` set (st_pending s)" using assms(1) by (auto simp: pending_ok_def)
  then have "AList.update (st_next_id s) client (st_pending s) = st_pending s @ [(st_next_id s, client)]"
    by (rule update_fresh)
  then show "pending_ok (snd (request c d client s))"
    "served (snd (request c d client s)) = add_mset client (served s)"
    "st_next_id (snd (request c d client s)) = st_next_id s + 1"
    using assms by (auto simp: request_def pending_ok_def served_def add32_exact less_SucI)
qed

lemma store_step_served:
  assumes "store_step db c i s = Some s'" "pending_ok s" "st_next_id s + 1 < W32"
  shows "pending_ok s' \<and> served s' = mset (requesters [i]) + served s \<and> st_next_id s' \<le> st_next_id s + 1"
proof -
  have db: "pending_ok (s\<lparr>st_db := d\<rparr>) = pending_ok s" "served (s\<lparr>st_db := d\<rparr>) = served s" for d
    by (simp_all add: pending_ok_def served_def)
  show ?thesis
    using assms request_served [OF assms(2,3)] finish_request_served [OF assms(2)]
      finish_request_served [of "s\<lparr>st_db := d\<rparr>" for d]
    by (cases i)
       (auto simp: store_step_def store_set_def store_del_def set_proposed_def del_proposed_def requesters_def
          read_commit_def recover_from_snapshot_def db Let_def
          split: if_splits option.splits unpacked.splits Option.bind_splits)
qed

lemma run_served:
  assumes "each (store_step db c) is s = Some s'" "pending_ok s" "st_next_id s + length is < W32"
  shows "pending_ok s' \<and> served s' = mset (requesters is) + served s"
  using assms
proof (induction "is" arbitrary: s)
  case (Cons i "is")
  obtain s1 where s1: "store_step db c i s = Some s1" "each (store_step db c) is s1 = Some s'"
    using Cons.prems(1) by (auto split: Option.bind_splits)
  have st: "pending_ok s1" "served s1 = mset (requesters [i]) + served s" "st_next_id s1 \<le> st_next_id s + 1"
    using store_step_served [OF s1(1) Cons.prems(2)] Cons.prems(3) by auto
  have "st_next_id s1 + length is < W32" using st(3) Cons.prems(3) by simp
  from Cons.IH [OF s1(2) st(1) this] show ?case
    using st(2) by (simp add: requesters_simps(2) [of i "is"])
qed (simp add: requesters_simps)

end
