(* ===== verification/Session_Correct.thy ===== *)
theory Session_Correct
  imports Redis_Session Store_Correct
begin

text \<open>
  The session against the protocol: replies read back by a reader of the RESP format, replies of a
  batch in the order of its commands, and what becomes of an incomplete line.
\<close>

section \<open>Numbers\<close>

definition digit :: "char \<Rightarrow> bool" where
  "digit ch \<longleftrightarrow> 48 \<le> (of_char ch :: nat) \<and> (of_char ch :: nat) \<le> 57"

definition undec :: "string \<Rightarrow> nat" where
  "undec s = foldl (\<lambda>n ch. 10 * n + (of_char ch - 48)) 0 s"

lemma dec_digits: "\<forall>ch \<in> set (dec n). digit ch"
proof (induction n rule: dec.induct)
  case (1 n)
  then show ?case by (subst dec.simps) (auto simp: digit_def)
qed

lemma undec_dec: "undec (dec n) = n"
proof (induction n rule: dec.induct)
  case (1 n)
  have "undec (xs @ [ch]) = 10 * undec xs + (of_char ch - 48)" for xs ch by (simp add: undec_def)
  then show ?case
    using 1 by (subst dec.simps) (auto simp: undec_def)
qed

lemma takeWhile_digits:
  assumes "\<not> digit ch"
  shows "takeWhile digit (dec n @ ch # s) = dec n" "dropWhile digit (dec n @ ch # s) = ch # s"
  using dec_digits [of n] assms by (simp_all add: takeWhile_append2 dropWhile_append2)

section \<open>Reading replies\<close>

text \<open>A reader of bulk strings and of arrays of them, after the RESP format.\<close>

definition read_count :: "char \<Rightarrow> string \<Rightarrow> (nat \<times> string) option" where
  "read_count mark s =
     (if s = '''' \<or> hd s \<noteq> mark then None
      else
        let rest = dropWhile digit (tl s)
        in if take 2 rest = crlf then Some (undec (takeWhile digit (tl s)), drop 2 rest) else None)"

definition read_bulk :: "string \<Rightarrow> (string \<times> string) option" where
  "read_bulk s = do {
     (n, rest) \<leftarrow> read_count (CHR ''$'') s;
     if take 2 (drop n rest) = crlf \<and> n \<le> length rest then Some (take n rest, drop (n + 2) rest) else None
   }"

primrec read_bulks :: "nat \<Rightarrow> string \<Rightarrow> (string list \<times> string) option" where
  "read_bulks 0 s = Some ([], s)"
| "read_bulks (Suc n) s = do {
     (x, s) \<leftarrow> read_bulk s;
     (xs, s) \<leftarrow> read_bulks n s;
     Some (x # xs, s)
   }"

definition read_array :: "string \<Rightarrow> (string list \<times> string) option" where
  "read_array s = do {
     (n, rest) \<leftarrow> read_count (CHR ''*'') s;
     read_bulks n rest
   }"

lemma read_count_dec: "read_count mark (mark # dec n @ crlf @ s) = Some (n, s)"
  using takeWhile_digits [of "CHR 0x0D" n "CHR 0x0A # s"]
  by (simp add: read_count_def crlf_def undec_dec digit_def Let_def)

lemma length_crlf [simp]: "length crlf = 2"
  by (simp add: crlf_def)

lemma read_bulk_reply: "read_bulk (''$'' @ dec (length x) @ crlf @ x @ crlf @ s) = Some (x, s)"
  using read_count_dec [of "CHR ''$''" "length x" "x @ crlf @ s"] by (simp add: read_bulk_def)

lemma c_str_same: "c_str val = val \<longleftrightarrow> CHR 0x00 \<notin> set val"
  by (auto simp: c_str_def takeWhile_eq_all_conv)

lemma c_str_shorter: "CHR 0x00 \<in> set val \<Longrightarrow> length (c_str val) < length val"
  by (metis c_str_def c_str_same length_takeWhile_le le_neq_implies_less takeWhile_eq_take take_all order_refl)

lemma bulk_reply_reads: "read_bulk (bulk_reply val) = (if CHR 0x00 \<in> set val then None else Some (val, ''''))"
proof (cases "CHR 0x00 \<in> set val")
  case False
  then show ?thesis using read_bulk_reply [of val "''''"] c_str_same [of val] by (simp add: bulk_reply_def)
next
  case True
  have "take 2 (drop (length val) (c_str val @ crlf)) \<noteq> crlf"
  proof
    assume "take 2 (drop (length val) (c_str val @ crlf)) = crlf"
    from arg_cong [OF this, of length] show False using c_str_shorter [OF True] by simp
  qed
  then show ?thesis
    using read_count_dec [of "CHR ''$''" "length val" "c_str val @ crlf"] True
    by (simp add: read_bulk_def bulk_reply_def)
qed

lemma array_reply_reads:
  assumes "'''' \<notin> set strs"
  shows "read_array (build_redis_string_array_reply strs) = Some (strs, '''')"
proof -
  let ?items = "\<lambda>strs. concat (map (\<lambda>str. ''$'' @ dec (length str) @ crlf @ (if str = '''' then '''' else str @ crlf)) strs)"
  have "read_bulks (length strs) (?items strs) = Some (strs, '''')"
    using assms
  proof (induction strs)
    case (Cons x strs)
    then have "x \<noteq> ''''" "'''' \<notin> set strs" by auto
    then show ?case using Cons.IH read_bulk_reply [of x "?items strs"] by simp
  qed simp
  then show ?thesis
    using read_count_dec [of "CHR ''*''" "length strs" "?items strs"]
    by (simp add: read_array_def build_redis_string_array_reply_def)
qed

section \<open>An incomplete line\<close>

lemma read_lines_tail:
  assumes "data = '''' \<or> last data = CHR 0x0A" "CHR 0x0A \<notin> set tail" "tail \<noteq> ''''" "\<not> ss_quit s"
    and "read_lines rd data s = (fine, s', rs)"
  shows "read_lines rd (data @ tail) s = (fine, if fine then session_start s' else s', rs) \<and> (fine \<longrightarrow> \<not> ss_quit s')"
  using assms
proof (induction rd data s arbitrary: fine s' rs rule: read_lines.induct)
  case (1 rd data s)
  show ?case
  proof (cases "data = ''''")
    case True
    have "read_lines rd tail s = (True, session_start s, [])" "read_lines rd '''' s = (True, s, [])"
      using 1(3-5) by (simp_all add: read_lines.simps [of rd _ s])
    then show ?thesis using True 1(5,6) by auto
  next
    case False
    then have nl: "CHR 0x0A \<in> set data" using 1(2) by (metis last_in_set)
    define line where "line = takeWhile (\<lambda>ch. ch \<noteq> CHR 0x0A) data @ [CHR 0x0A]"
    have line: "takeWhile (\<lambda>ch. ch \<noteq> CHR 0x0A) (data @ tail) @ [CHR 0x0A] = line"
      "drop (length line) (data @ tail) = drop (length line) data @ tail"
    proof -
      show "takeWhile (\<lambda>ch. ch \<noteq> CHR 0x0A) (data @ tail) @ [CHR 0x0A] = line"
        using nl by (auto simp: line_def takeWhile_append1)
      obtain a b where ab: "data = a @ CHR 0x0A # b" "CHR 0x0A \<notin> set a"
        using split_list_first [OF nl] by blast
      from ab(2) have "takeWhile (\<lambda>ch. ch \<noteq> CHR 0x0A) (a @ CHR 0x0A # b) = a" by (induction a) auto
      then have "length line \<le> length data" by (simp add: line_def ab(1))
      then show "drop (length line) (data @ tail) = drop (length line) data @ tail" by simp
    qed
    have rest: "drop (length line) data = '''' \<or> last (drop (length line) data) = CHR 0x0A"
      using 1(2) False by (metis last_drop linorder_not_less drop_all)
    obtain ok r where feed: "reader_feed rd (ss_reader s) line = (ok, r)" by fastforce
    obtain ok2 reply r2 where get: "reader_get rd r = (ok2, reply, r2)" by (metis prod_cases3)
    have step: "read_lines rd d s =
        (if \<not> ok then (False, s\<lparr>ss_reader := r, ss_quit := True\<rparr>, [])
         else if \<not> ok2 then (False, s\<lparr>ss_reader := r2, ss_quit := True\<rparr>, [])
         else case read_lines rd (drop (length line) d) (s\<lparr>ss_reader := r2\<rparr>) of
                (fine, s, replies) \<Rightarrow> (fine, s, (case reply of Some x \<Rightarrow> [x] | None \<Rightarrow> []) @ replies))"
      if "CHR 0x0A \<in> set d" "takeWhile (\<lambda>ch. ch \<noteq> CHR 0x0A) d @ [CHR 0x0A] = line" for d
      using that 1(5) feed get by (subst read_lines.simps) (auto simp: Let_def)
    show ?thesis
    proof (cases "ok \<and> ok2")
      case False
      have both: "read_lines rd data s = (False, s\<lparr>ss_reader := if ok then r2 else r, ss_quit := True\<rparr>, [])"
        "read_lines rd (data @ tail) s = (False, s\<lparr>ss_reader := if ok then r2 else r, ss_quit := True\<rparr>, [])"
        using step [of data] step [of "data @ tail"] nl line(1) False by (simp_all add: line_def)
      show ?thesis using 1(6) unfolding both by auto
    next
      case True
      obtain f s2 rs2 where rec: "read_lines rd (drop (length line) data) (s\<lparr>ss_reader := r2\<rparr>) = (f, s2, rs2)"
        by (metis prod_cases3)
      have IH: "read_lines rd (drop (length line) data @ tail) (s\<lparr>ss_reader := r2\<rparr>) =
          (f, if f then session_start s2 else s2, rs2) \<and> (f \<longrightarrow> \<not> ss_quit s2)"
        using 1(1) [OF _ _ line_def refl feed [symmetric] _ refl get [symmetric] refl _ rest 1(3,4) _ rec] 1(5) False nl True by auto
      show ?thesis
        using step [of data] step [of "data @ tail"] nl line 1(6) rec IH True by (auto simp: line_def)
    qed
  qed
qed

section \<open>Replies in order\<close>

text \<open>What a batch of commands answers at once, the store and the proposals it leaves.\<close>

primrec answers ::
  "'d database \<Rightarrow> kv_codec \<Rightarrow> nat \<Rightarrow> redis_reply list \<Rightarrow> 'd store \<Rightarrow> string \<times> 'd store \<times> proposal list" where
  "answers db c client [] st = ('''', st, [])"
| "answers db c client (r # rs) st =
     (case run_command db c client st r of
        Ask p st' \<Rightarrow> (case answers db c client rs st' of (out, st, ps) \<Rightarrow> (out, st, p # ps))
      | ReplyNow x \<Rightarrow> (case answers db c client rs st of (out, st, ps) \<Rightarrow> (x @ out, st, ps))
      | ReplyFormatted x \<Rightarrow> (case answers db c client rs st of (out, st, ps) \<Rightarrow> (x @ out, st, ps)))"

text \<open>No name of a command is so long that its error message overflows the array of 256 bytes.\<close>

fun short_command :: "redis_reply \<Rightarrow> bool" where
  "short_command (RArray (RString cmd # es)) = (length cmd < 200)"
| "short_command r = True"

text \<open>The replies are a stream, of which a part is in the buffer.\<close>

definition reply_inv :: "string \<Rightarrow> 'r session \<Rightarrow> bool" where
  "reply_inv stream s \<longleftrightarrow>
     buffer_within (length stream) (ss_send s) \<and> sending stream (ss_send s) (ss_writes s) (ss_wire s)"

lemma length_c_str: "length (c_str s) \<le> length s"
  by (simp add: c_str_def length_takeWhile_le)

lemma command_formatted:
  "get_command db st es = ReplyFormatted out \<Longrightarrow> out = wrong_number_arguments ''get''"
  "set_command c client st es = ReplyFormatted out \<Longrightarrow> out = wrong_number_arguments ''set''"
  "del_command c client st es = ReplyFormatted out \<Longrightarrow> out = wrong_number_arguments ''del''"
  "keys_command db st es = ReplyFormatted out \<Longrightarrow> out = wrong_number_arguments ''keys''"
  by (auto simp: get_command_def set_command_def del_command_def keys_command_def
      split: redis_reply.splits if_splits option.splits prod.splits)

lemma command_now:
  "get_command db st es = ReplyNow out \<Longrightarrow> out \<noteq> ''''"
  "set_command c client st es = ReplyNow out \<Longrightarrow> out \<noteq> ''''"
  "del_command c client st es = ReplyNow out \<Longrightarrow> out \<noteq> ''''"
  "keys_command db st es = ReplyNow out \<Longrightarrow> out \<noteq> ''''"
  by (auto simp: get_command_def set_command_def del_command_def keys_command_def wrong_type_def
      null_reply_def bulk_reply_def build_redis_string_array_reply_def
      split: redis_reply.splits if_splits option.splits prod.splits)

lemma run_command_cases:
  obtains "run_command db c client st r = ReplyNow wrong_type"
  | "run_command db c client st r = ReplyNow pong_reply"
  | "run_command db c client st r = ReplyFormatted (wrong_number_arguments '''')"
  | cmd es where "r = RArray (RString cmd # es)" "run_command db c client st r = ReplyFormatted (unknown_command cmd)"
  | es where "run_command db c client st r = get_command db st es"
  | es where "run_command db c client st r = set_command c client st es"
  | es where "run_command db c client st r = del_command c client st es"
  | es where "run_command db c client st r = keys_command db st es"
proof (cases r)
  case (RArray es)
  show thesis
  proof (cases es)
    case (Cons e es')
    show thesis
    proof (cases e)
      case (RString cmd)
      have r: "r = RArray (RString cmd # es')" using RArray Cons RString by simp
      have "run_command db c client st r \<in> {ReplyNow pong_reply, get_command db st es, set_command c client st es,
          del_command c client st es, keys_command db st es, ReplyFormatted (unknown_command cmd)}"
        using Cons RString unfolding r by (simp add: run_command_def ping_command_def)
      then show thesis using that(2,5-8) that(4) [OF r] by blast
    qed (use that(1) RArray Cons in \<open>simp_all add: run_command_def\<close>)
  qed (use that(3) RArray in \<open>simp add: run_command_def\<close>)
qed (use that(1) in \<open>simp_all add: run_command_def\<close>)

lemma formatted_short:
  assumes "run_command db c client st r = ReplyFormatted out" "short_command r"
  shows "snprintf256 out = Some out" "out \<noteq> ''''"
proof -
  have "length (wrong_number_arguments x) < 256 \<and> wrong_number_arguments x \<noteq> ''''" if "length x < 5" for x
    using that by (simp add: wrong_number_arguments_def)
  moreover have "length (unknown_command x) < 256 \<and> unknown_command x \<noteq> ''''" if "length x < 200" for x
    using that length_c_str [of x] by (simp add: unknown_command_def)
  ultimately have "length out < 256 \<and> out \<noteq> ''''"
    using assms by (cases rule: run_command_cases [of db c client st r]) (auto dest!: command_formatted)
  then show "snprintf256 out = Some out" "out \<noteq> ''''" by (simp_all add: snprintf256_def)
qed

lemma reply_not_empty: "run_command db c client st r = ReplyNow out \<Longrightarrow> out \<noteq> ''''"
  by (cases rule: run_command_cases [of db c client st r])
     (auto simp: wrong_type_def pong_reply_def dest: command_now)

lemma start_send_view:
  assumes "buffer_ok (ss_send s)" "stream = ss_wire s @ buffer_view (ss_send s)" "ss_writes s = []"
  shows "\<exists>s'. start_send s = Some s' \<and> sending stream (ss_send s') (ss_writes s') (ss_wire s') \<and>
    \<not> overtaken (ss_send s') (ss_writes s') \<and> ss_send s' = ss_send s \<and> ss_client s' = ss_client s"
proof (cases "buffer_view (ss_send s) = ''''")
  case True
  then show ?thesis
    using assms buffer_readable_view [OF assms(1)] by (auto simp: start_send_def sending_def overtaken_def)
next
  case False
  then show ?thesis
    using sending_begin [OF assms(1) False assms(2)] buffer_readable_view [OF assms(1)] assms(3)
    by (auto simp: start_send_def)
qed

lemma send_reply_inv:
  assumes inv: "reply_inv stream s" and room: "roomy (length stream + length out)" and ne: "out \<noteq> ''''"
  shows "\<exists>s'. send_reply out s = Some s' \<and> reply_inv (stream @ out) s' \<and> ss_client s' = ss_client s"
proof -
  have b: "buffer_within (length stream) (ss_send s)" and i: "sending stream (ss_send s) (ss_writes s) (ss_wire s)"
    using inv by (simp_all add: reply_inv_def)
  note ok = buffer_within_ok [OF b]
  obtain b' where b': "buffer_put (ss_send s) out = Some b'" "buffer_within (length stream + length out) b'"
      "buffer_view b' = buffer_view (ss_send s) @ out" "bb_reader b' = bb_reader (ss_send s)"
    using buffer_put_within [OF b room] by blast
  let ?s = "s\<lparr>ss_send := b'\<rparr>"
  have send: "send_reply out s = (if buffer_view (ss_send s) = '''' then start_send ?s else Some ?s)"
    using b'(1) readable_bytes_eq [OF ok] by (simp add: send_reply_def Let_def)
  show ?thesis
  proof (cases "buffer_view (ss_send s) = ''''")
    case True
    then have "stream @ out = ss_wire ?s @ buffer_view (ss_send ?s)" "ss_writes ?s = []"
      using sending_idle [OF i True] b'(3) by simp_all
    from start_send_view [OF _ this] show ?thesis
      using send True b'(2) buffer_within_ok [OF b'(2)] by (auto simp: reply_inv_def)
  next
    case False
    then show ?thesis using send sending_put [OF i False b'(3,4)] b'(2) by (simp add: reply_inv_def)
  qed
qed

text \<open>
  The socket keeps the invariant: it sends a piece of the write that is under way, which is fatal only
  when a reply has moved the vector, and when the write is complete its handler begins the next.
\<close>

lemma reply_socket_inv:
  assumes inv: "reply_inv stream s" and w: "ss_writes s = [w]"
  shows "wr_sent w + k \<le> wr_len w \<Longrightarrow> write_some k (ss_send s) w = Some (d, w') \<Longrightarrow>
      reply_inv stream (s\<lparr>ss_writes := [w'], ss_wire := ss_wire s @ d\<rparr>)"
    and "wr_sent w = wr_len w \<Longrightarrow> \<exists>s'. send_done False (wr_len w) (s\<lparr>ss_writes := []\<rparr>) = Some s' \<and>
      reply_inv stream s' \<and> \<not> overtaken (ss_send s') (ss_writes s')"
proof -
  have b: "buffer_within (length stream) (ss_send s)" and i: "sending stream (ss_send s) (ss_writes s) (ss_wire s)"
    using inv by (simp_all add: reply_inv_def)
  show "reply_inv stream (s\<lparr>ss_writes := [w'], ss_wire := ss_wire s @ d\<rparr>)"
    if "wr_sent w + k \<le> wr_len w" "write_some k (ss_send s) w = Some (d, w')"
    using sending_write [OF i, of 0 k d w'] that w b by (simp add: reply_inv_def)
  assume "wr_sent w = wr_len w"
  from sending_done [OF _ this b, of stream "[]" "[]" "ss_wire s"] i w obtain b' where b':
    "0 < wr_len w" "read_bytes (ss_send s) (wr_len w) = Some b'" "buffer_within (length stream) b'"
    "stream = ss_wire s @ buffer_view b'" by auto
  from start_send_view [of "s\<lparr>ss_writes := [], ss_send := b'\<rparr>" stream] b' buffer_within_ok [OF b'(3)]
  show "\<exists>s'. send_done False (wr_len w) (s\<lparr>ss_writes := []\<rparr>) = Some s' \<and>
      reply_inv stream s' \<and> \<not> overtaken (ss_send s') (ss_writes s')"
    by (auto simp: send_done_def reply_inv_def)
qed

lemma batch_answers:
  assumes "reply_inv stream s" "\<forall>r \<in> set rs. short_command r"
    and "answers db c (ss_client s) rs st = (out, st', ps')" "roomy (length stream + length out)"
  shows "\<exists>s'. each (on_redis_reply db c) rs (s, st, ps) = Some (s', st', ps @ ps') \<and> reply_inv (stream @ out) s'"
  using assms
proof (induction rs arbitrary: stream s st out ps ps')
  case (Cons r rs)
  show ?case
  proof (cases "run_command db c (ss_client s) st r")
    case (Ask p st1)
    then obtain ps1 where a: "answers db c (ss_client s) rs st1 = (out, st', ps1)" "ps' = p # ps1"
      using Cons.prems(3) by (auto split: prod.splits)
    have "on_redis_reply db c r (s, st, ps) = Some (s, st1, ps @ [p])" using Ask by (simp add: on_redis_reply_def)
    then show ?thesis
      using Cons.IH [OF Cons.prems(1) _ a(1) Cons.prems(4), of "ps @ [p]"] Cons.prems(2) a(2) by auto
  next
    case (ReplyNow x)
    then obtain out1 where a: "answers db c (ss_client s) rs st = (out1, st', ps')" "out = x @ out1"
      using Cons.prems(3) by (auto split: prod.splits)
    have "roomy (length stream + length x)" using Cons.prems(4) a(2) by (auto intro: roomy_mono)
    then obtain s1 where s1: "send_reply x s = Some s1" "reply_inv (stream @ x) s1" "ss_client s1 = ss_client s"
      using send_reply_inv [OF Cons.prems(1) _ reply_not_empty [OF ReplyNow]] by blast
    then have "on_redis_reply db c r (s, st, ps) = Some (s1, st, ps)" using ReplyNow by (simp add: on_redis_reply_def)
    then show ?thesis
      using Cons.IH [OF s1(2) _ a(1) [folded s1(3)], of ps] Cons.prems(2,4) a(2) by (auto simp: add.assoc)
  next
    case (ReplyFormatted x)
    then obtain out1 where a: "answers db c (ss_client s) rs st = (out1, st', ps')" "out = x @ out1"
      using Cons.prems(3) by (auto split: prod.splits)
    have sh: "short_command r" using Cons.prems(2) by simp
    have "roomy (length stream + length x)" using Cons.prems(4) a(2) by (auto intro: roomy_mono)
    then obtain s1 where s1: "send_reply x s = Some s1" "reply_inv (stream @ x) s1" "ss_client s1 = ss_client s"
      using send_reply_inv [OF Cons.prems(1) _ formatted_short(2) [OF ReplyFormatted sh]] by blast
    then have "on_redis_reply db c r (s, st, ps) = Some (s1, st, ps)"
      using ReplyFormatted formatted_short(1) [OF ReplyFormatted sh] by (simp add: on_redis_reply_def)
    then show ?thesis
      using Cons.IH [OF s1(2) _ a(1) [folded s1(3)], of ps] Cons.prems(2,4) a(2) by (auto simp: add.assoc)
  qed
qed simp

end
