(* ===== verification/Server_Store.thy ===== *)
theory Server_Store
  imports Server_Loop Session_Correct
begin

text \<open>
  The server together with its store: the store works off, on its own thread and in order, the events
  the server hands it.
\<close>

section \<open>Events\<close>

text \<open>A snapshot the store cannot read is fatal in the callback of the server.\<close>

definition store_event :: "'d database \<Rightarrow> kv_codec \<Rightarrow> event \<Rightarrow> 'd store \<Rightarrow> 'd store option" where
  "store_event db c ev s =
     (case ev of
        Commit e \<Rightarrow> read_commit db c (e_data e) s
      | Recover data \<Rightarrow> do {
          (st, s) \<leftarrow> recover_from_snapshot db c data s;
          check (is_ok st);
          Some s
        }
      | StartStore data \<Rightarrow> new_store db c (st_node s) (st_db s) data
      | _ \<Rightarrow> Some s)"

abbreviation run_store :: "'d database \<Rightarrow> kv_codec \<Rightarrow> event list \<Rightarrow> 'd store \<Rightarrow> 'd store option" where
  "run_store db c \<equiv> each (store_event db c)"

text \<open>The server whose snapshots are what this store answers, from a database as it was at the start.\<close>

definition kv_env :: "'d database \<Rightarrow> kv_codec \<Rightarrow> 'd store \<Rightarrow> env \<Rightarrow> env" where
  "kv_env db c s0 env = env\<lparr>kv_data := (\<lambda>evs. case run_store db c evs s0 of Some s \<Rightarrow> get_snapshot db c s | None \<Rightarrow> '''')\<rparr>"

section \<open>What the store makes of committed entries\<close>

lemma each_append: "each f (xs @ ys) s = do { s' \<leftarrow> each f xs s; each f ys s' }"
  by (induction xs arbitrary: s) simp_all

definition requests :: "entry list \<Rightarrow> string list" where
  "requests es = filter (\<lambda>d. d \<noteq> '''') (map e_data (filter (\<lambda>e. e_type e = EntryNormal) es))"

lemma run_store_effects: "run_store db c (effects env es) s = each (read_commit db c) (requests es) s"
  by (induction es arbitrary: s)
     (auto simp: entry_events_def requests_def store_event_def each_append split: option.splits)

lemma run_store_sends [simp]: "run_store db c (sends ms @ evs) s = run_store db c evs s"
  by (simp add: sends_def store_event_def)

lemma run_store_plain:
  assumes "database_ok db view" "\<forall>d \<in> set (requests es). entry_well_formed c d"
  shows "\<exists>s'. run_store db c (sends ms @ effects env es) s = Some s' \<and>
    view (st_db s') = fold (entry_view c) (requests es) (view (st_db s))"
  using run_commits [OF assms] by (auto simp: run_store_effects)

text \<open>A server that has drained its log, and its store.\<close>

lemma drained_store:
  assumes "server_ok s" "plain env (waiting (sv_log s))" "database_ok db view"
    and "\<forall>d \<in> set (requests (waiting (sv_log s))). entry_well_formed c d"
    and "run_store db c (sv_events s) s0 = Some st"
  shows "\<exists>s' st'. pull_ready_events env s = Some s' \<and> drained env s s' \<and>
    run_store db c (sv_events s') s0 = Some st' \<and>
    view (st_db st') = fold (entry_view c) (requests (waiting (sv_log s))) (view (st_db st))"
proof -
  obtain s' where s': "pull_ready_events env s = Some s'" "drained env s s'"
    using pull_ready_applies_all [OF assms(1,2)] by blast
  obtain st' where "run_store db c (sends (r_msgs (n_raft (sv_node s))) @ effects env (waiting (sv_log s))) st = Some st'"
      "view (st_db st') = fold (entry_view c) (requests (waiting (sv_log s))) (view (st_db st))"
    using run_store_plain [OF assms(3,4)] by blast
  then show ?thesis using s' assms(5) installs_none [OF assms(1)] by (auto simp: drained_def each_append)
qed

text \<open>A server that installs a snapshot another store has made, and its store.\<close>

lemma installed_store:
  assumes ok: "installing snap s" and pl: "plain env (waiting (sv_log s))" and db: "database_ok db view" "kv_codec_ok c"
    and snap: "s_data snap = get_snapshot db c s1"
    and wf: "\<forall>d \<in> set (requests (waiting (sv_log s))). entry_well_formed c d"
    and st: "run_store db c (sv_events s) s0 = Some st"
  shows "\<exists>s' st'. pull_ready_events env s = Some s' \<and> drained env s s' \<and>
    run_store db c (sv_events s') s0 = Some st' \<and>
    view (st_db st') = fold (entry_view c) (requests (waiting (sv_log s)))
      (if view (st_db s1) = Map.empty then view (st_db st) else view (st_db s1))"
proof -
  obtain s' where s': "pull_ready_events env s = Some s'" "drained env s s'"
    using pull_ready_installs [OF ok pl] by blast
  obtain st1 where st1: "recover_from_snapshot db c (s_data snap) st = Some (StatusOk, st1)"
      "view (st_db st1) = (if view (st_db s1) = Map.empty then view (st_db st) else view (st_db s1))"
    using recover_view [OF db] unfolding snap by blast
  obtain st' where "run_store db c (sends (r_msgs (n_raft (sv_node s))) @ effects env (waiting (sv_log s))) st1 = Some st'"
      "view (st_db st') = fold (entry_view c) (requests (waiting (sv_log s))) (view (st_db st1))"
    using run_store_plain [OF db(1) wf] by blast
  moreover have "installs (sv_log s) = [Recover (s_data snap)]"
    using ok by (simp add: installs_def installing_def)
  ultimately show ?thesis
    using s' st st1 by (auto simp: drained_def each_append store_event_def)
qed

section \<open>A write, from the request to the read\<close>

text \<open>The command arrays as the parser delivers them.\<close>

abbreviation set_cmd :: "string \<Rightarrow> string \<Rightarrow> redis_reply" where
  "set_cmd k v \<equiv> RArray [RString ''SET'', RString k, RString v]"

abbreviation get_cmd :: "string \<Rightarrow> redis_reply" where
  "get_cmd k \<equiv> RArray [RString ''GET'', RString k]"

lemma run_set:
  "run_command db c client st (set_cmd k v) =
     Ask (ProposeSet (st_next_id st) (fst (store_set c k v client st))) (snd (store_set c k v client st))"
  by (simp add: run_command_def set_command_def split: prod.splits)

lemma run_get:
  assumes "database_ok db view" "view (st_db st) k = Some v"
  shows "run_command db c client st (get_cmd k) = ReplyNow (bulk_reply v)"
  using assms by (simp add: run_command_def get_command_def store_get_def database_okD(1))

lemma set_committed:
  assumes db: "database_ok db view" and c: "kv_codec_ok c" and p: "pending_ok st" "st_node st < W32"
    and st1: "store_set c k v client st = (data, st1)"
  shows "\<exists>st2. read_commit db c data st1 = Some st2 \<and> view (st_db st2) = (view (st_db st))(k \<mapsto> v) \<and>
    st_answers st2 = st_answers st @ [(client, StatusOk)] \<and> st_pending st2 = st_pending st"
proof -
  have up: "up_commit c data = Some \<lparr>cm_node = st_node st, cm_id = st_next_id st,
      cm_data = \<lparr>rc_type = kCommitSet, rc_strs = [k, v]\<rparr>\<rparr>"
    using st1 c p(2) by (auto simp: store_set_def request_def kv_codec_ok_def)
  have fresh: "st_next_id st \<notin> fst ` set (st_pending st)" using p(1) by (auto simp: pending_ok_def)
  have st1': "st1 = st\<lparr>st_next_id := add32 (st_next_id st) 1, st_pending := st_pending st @ [(st_next_id st, client)]\<rparr>"
    using st1 update_fresh [OF fresh] by (auto simp: store_set_def request_def)
  have "AList.delete (st_next_id st) (st_pending st @ [(st_next_id st, client)]) = st_pending st"
    using fresh by (simp add: AList.delete_eq filter_id_conv) force
  moreover have "map_of (st_pending st @ [(st_next_id st, client)]) (st_next_id st) = Some client"
    using fresh map_of_some_in [of "st_pending st" "st_next_id st"]
    by (auto simp: map_add_def split: option.splits)
  ultimately show ?thesis
    using up by (simp add: read_commit_def apply_commit_def finish_request_def answer_to_def st1'
        database_okD(2) [OF db] Let_def kCommitSet_def)
qed

section \<open>Requests are numbered from 0 after every start\<close>

text \<open>
  An entry of an earlier run that carries the same number answers a new request, before the new
  request is applied.
\<close>

lemma replay_answers:
  assumes db: "database_ok db view" and c: "kv_codec_ok c" and node: "node < W32"
    and start: "new_store db c node d '''' = Some st" and ask: "store_set c k v client st = (data, st1)"
    and old: "old = pk_commit c \<lparr>cm_node = node, cm_id = 0, cm_data = \<lparr>rc_type = kCommitSet, rc_strs = [k', v']\<rparr>\<rparr>"
    and other: "k' \<noteq> k"
  shows "\<exists>st2. read_commit db c old st1 = Some st2 \<and> st_answers st2 = [(client, StatusOk)] \<and>
    st_pending st2 = [] \<and> view (st_db st2) k = view d k"
proof -
  have st: "st = \<lparr>st_node = node, st_db = d, st_next_id = 0, st_pending = [], st_answers = []\<rparr>"
    using start by (simp add: new_store_def)
  have "st1 = st\<lparr>st_next_id := 1, st_pending := [(0, client)]\<rparr>"
    using ask st by (auto simp: store_set_def request_def add32_def W32_def)
  moreover have "up_commit c old = Some \<lparr>cm_node = node, cm_id = 0, cm_data = \<lparr>rc_type = kCommitSet, rc_strs = [k', v']\<rparr>\<rparr>"
    using c old by (simp add: kv_codec_ok_def)
  ultimately show ?thesis
    using other st by (simp add: read_commit_def apply_commit_def finish_request_def answer_to_def
        database_okD(2) [OF db] Let_def kCommitSet_def)
qed

end
