(* ===== verification/Server_Inputs.thy ===== *)
theory Server_Inputs
  imports Server_Loop Raft_Logs
begin

text \<open>
  The inputs of the server: the clock, proposals and messages.  Whatever the node makes of an input, the
  loop that follows applies all that is committed and leaves the server well formed; so the server is
  well formed after every sequence of inputs.
\<close>

section \<open>Inputs of the node\<close>

lemma clock_step_log:
  assumes "raft_step r m = Some (st, r')" "m_term m = 0" "m_type m \<in> {MsgCheckQuorum, MsgBeat}"
  shows "r_log r' = r_log r"
proof -
  have "step_term r m = Some (False, r)" using assms(2) by (simp add: step_term_def)
  then have "r' = r \<or> bcast_heartbeat r = Some r' \<or> become_follower r (r_term r) 0 = Some r'"
    using assms by (auto simp: raft_step_def step_follower_def step_candidate_def step_leader_def
        split: step_fn.splits if_splits)
  then show ?thesis
    by (auto simp: bcast_heartbeat_def dest!: bcast_heartbeat_with_ctx_sends sends_only_sel(6) become_follower_log)
qed

lemma new_message_sane: "m_type m = MsgHup \<Longrightarrow> msg_sane m"
  by (simp add: msg_sane_def)

lemma raft_tick_keeps:
  assumes ok: "raft_ok r" and room: "room 1 r" and t: "raft_tick r = Some r'"
  shows "keeps r r'"
proof (cases "r_tick_fn r")
  case TickElection
  then have e: "tick_election r = Some r'" using t by (simp add: raft_tick_def)
  let ?r1 = "r\<lparr>r_election_elapsed := 0\<rparr>" and ?m = "new_message\<lparr>m_from := r_id r, m_type := MsgHup\<rparr>"
  have "r_log r' = r_log r \<or> (\<exists>st. raft_step ?r1 ?m = Some (st, r'))"
    using e by (auto simp: tick_election_def Let_def bind_eq_Some_conv split: if_splits)
  moreover have "keeps ?r1 r'" if "raft_step ?r1 ?m = Some (st, r')" for st
    using raft_step_keeps [OF _ _ _ that] ok room by (simp add: room_def msg_sane_def new_message_def)
  ultimately show ?thesis using ok by (auto intro: keeps_same keeps_from [of ?r1])
next
  case TickHeartbeat
  then have h: "tick_heartbeat r = Some r'" using t by (simp add: raft_tick_def)
  have cq: "r_log b = r_log a" if "tick_check_quorum a = Some b" for a b
    using that clock_step_log
    by (fastforce simp: tick_check_quorum_def abort_leader_transfer_def Let_def bind_eq_Some_conv new_message_def
        split: if_splits)
  have "r_log r' = r_log r"
    using h cq clock_step_log
    by (fastforce simp: tick_heartbeat_def Let_def bind_eq_Some_conv new_message_def split: if_splits)
  then show ?thesis using ok by (rule keeps_same [rotated])
qed

section \<open>Inputs of the server\<close>

datatype input =
    Timer
  | Propose string
  | Process message

text \<open>What the node makes of an input; a proposal or a message is answered with a status.\<close>

definition node_takes :: "input \<Rightarrow> raw_node \<Rightarrow> (event list \<times> raw_node) option" where
  "node_takes i n =
     (case i of
        Timer \<Rightarrow> map_option (\<lambda>n'. ([], n')) (node_tick n)
      | Propose d \<Rightarrow> map_option (\<lambda>(st, n'). ([Reply st], n')) (node_propose n d)
      | Process m \<Rightarrow> map_option (\<lambda>(st, n'). ([Reply st], n')) (node_step n m))"

definition server_takes :: "env \<Rightarrow> input \<Rightarrow> server \<Rightarrow> server option" where
  "server_takes env i s =
     (case i of
        Timer \<Rightarrow> on_timer env s
      | Propose d \<Rightarrow> server_propose env d s
      | Process m \<Rightarrow> server_process env m s)"

text \<open>An input whose entries still fit below the greatest index, and whose indices are consistent.\<close>

definition sane_input :: "input \<Rightarrow> server \<Rightarrow> bool" where
  "sane_input i s \<longleftrightarrow>
     (case i of
        Timer \<Rightarrow> room 1 (n_raft (sv_node s))
      | Propose d \<Rightarrow> room 2 (n_raft (sv_node s))
      | Process m \<Rightarrow> msg_sane m \<and> room (length (m_entries m) + 1) (n_raft (sv_node s)))"

lemma keeps_receptive:
  assumes ok: "server_ok s" and k: "keeps (n_raft (sv_node s)) (n_raft n)"
  shows "receptive (s\<lparr>sv_node := n\<rparr>)"
proof -
  note l = server_okD [OF ok]
  have sn: "log_base (sv_log s) \<le> sv_snapshot_index s"
    "s_index (ms_snapshot (l_storage (sv_log s))) \<le> sv_snapshot_index s"
    "sv_snapshot_index s \<le> l_applied (sv_log s)" "sv_snap_count s = defaultSnapCount"
    using ok by (auto simp: server_ok_def)
  let ?l = "r_log (n_raft n)"
  have k': "log_ok ?l" "l_committed (sv_log s) \<le> l_committed ?l" "l_applied ?l = l_applied (sv_log s)"
    "l_storage ?l = l_storage (sv_log s)"
    using k by (auto simp: keeps_def log_keeps_def)
  consider "log_base ?l = log_base (sv_log s)" "u_snapshot (l_unstable ?l) = None"
    | snap where "u_snapshot (l_unstable ?l) = Some snap" "l_committed (sv_log s) < s_index snap"
    using k l(2) by (auto simp: keeps_def log_keeps_def)
  then show ?thesis
  proof cases
    case 1
    then have "server_ok (s\<lparr>sv_node := n\<rparr>)" using k' sn l(4-6) by (simp add: server_ok_def)
    then show ?thesis by (simp add: receptive_def)
  next
    case 2
    then have "installing snap (s\<lparr>sv_node := n\<rparr>)" using k' sn l(4-6) by (simp add: installing_def)
    then show ?thesis by (auto simp: receptive_def)
  qed
qed

lemma node_input_keeps:
  assumes "raft_ok (n_raft n)" "room (length (m_entries m) + 1) (n_raft n)" "msg_sane m"
    and "node_input n m = Some (st, n')"
  shows "keeps (n_raft n) (n_raft n')"
  using raft_step_keeps [OF assms(1-3)] assms(4) by (auto simp: node_input_def bind_eq_Some_conv)

lemma node_step_keeps:
  assumes "raft_ok (n_raft n)" "room (length (m_entries m) + 1) (n_raft n)" "msg_sane m"
    and "node_step n m = Some (st, n')"
  shows "keeps (n_raft n) (n_raft n')"
  using node_input_keeps [OF assms(1-3)] assms(1,4)
  by (auto simp: node_step_def intro: keeps_same split: if_splits)

lemma node_propose_keeps:
  assumes "raft_ok (n_raft n)" "room 2 (n_raft n)" "node_propose n d = Some (st, n')"
  shows "keeps (n_raft n) (n_raft n')"
  using node_input_keeps [OF assms(1) _ _ assms(3) [unfolded node_propose_def]] assms(2)
  by (simp add: msg_sane_def numeral_2_eq_2)

lemma node_takes_keeps:
  assumes "server_ok s" "sane_input i s" "node_takes i (sv_node s) = Some (evs, n)"
  shows "keeps (n_raft (sv_node s)) (n_raft n)"
proof -
  have ok: "raft_ok (n_raft (sv_node s))" using server_okD(1) [OF assms(1)] .
  show ?thesis
  proof (cases i)
    case Timer
    then show ?thesis
      using assms(2,3) raft_tick_keeps [OF ok]
      by (auto simp: node_takes_def sane_input_def node_tick_def bind_eq_Some_conv)
  next
    case (Propose d)
    then show ?thesis
      using assms(2,3) node_propose_keeps [OF ok] by (auto simp: node_takes_def sane_input_def)
  next
    case (Process m)
    then show ?thesis
      using assms(2,3) node_step_keeps [OF ok] by (auto simp: node_takes_def sane_input_def)
  qed
qed

lemma server_takes_pull:
  "server_takes env i s = do {
     (evs, n) \<leftarrow> node_takes i (sv_node s);
     pull_ready_events env (s\<lparr>sv_node := n, sv_events := sv_events s @ evs\<rparr>)
   }"
  by (cases i)
     (auto simp: server_takes_def node_takes_def on_timer_def server_propose_def server_process_def emit_def
        split: Option.bind_split)

text \<open>One input.\<close>

theorem server_takes_drains:
  assumes ok: "server_ok s" and i: "sane_input i s" and t: "node_takes i (sv_node s) = Some (evs, n)"
    and plain: "plain env (waiting (r_log (n_raft n)))"
  shows "\<exists>s'. server_takes env i s = Some s' \<and>
    drained env (s\<lparr>sv_node := n, sv_events := sv_events s @ evs\<rparr>) s'"
proof -
  have "receptive (s\<lparr>sv_node := n\<rparr>)"
    by (rule keeps_receptive [OF ok node_takes_keeps [OF ok i t]])
  then have "receptive (s\<lparr>sv_node := n, sv_events := sv_events s @ evs\<rparr>)"
    by (simp add: receptive_def server_ok_def installing_def)
  from pull_ready_drains [OF this, of env] plain show ?thesis
    by (auto simp: server_takes_pull t)
qed

section \<open>Runs of the server\<close>

text \<open>
  The sequences of inputs on which the node survives and commits ordinary entries, and membership
  changes that unpack and remove nobody.
\<close>

inductive server_run :: "env \<Rightarrow> server \<Rightarrow> server \<Rightarrow> bool" for env s0 where
  start: "server_run env s0 s0"
| take: "server_run env s0 s \<Longrightarrow> sane_input i s \<Longrightarrow> node_takes i (sv_node s) = Some (evs, n) \<Longrightarrow>
    plain env (waiting (r_log (n_raft n))) \<Longrightarrow> server_takes env i s = Some s' \<Longrightarrow> server_run env s0 s'"

text \<open>The indices of the entries the store was told to apply.\<close>

fun told :: "event \<Rightarrow> nat list" where
  "told (Commit e) = [e_index e]"
| "told _ = []"

definition applied_indices :: "event list \<Rightarrow> nat list" where
  "applied_indices evs = concat (map told evs)"

lemma applied_indices_simps [simp]:
  "applied_indices [] = []" "applied_indices (xs @ ys) = applied_indices xs @ applied_indices ys"
  "applied_indices (e # xs) = told e @ applied_indices xs"
  "applied_indices (sends ms) = []" "applied_indices (installs l) = []"
  by (auto simp: applied_indices_def sends_def installs_def split: option.split)

lemma applied_indices_effects:
  "consec k es \<Longrightarrow> sorted_wrt (<) (applied_indices (effects env es)) \<and>
     set (applied_indices (effects env es)) \<subseteq> {k ..< k + length es}"
proof (induction es arbitrary: k)
  case (Cons e es)
  have e: "e_index e = k" "consec (Suc k) es" using Cons.prems by auto
  have "applied_indices (entry_events env e) = [] \<or> applied_indices (entry_events env e) = [k]"
    using e(1) by (auto simp: entry_events_def split: option.split)
  then show ?case using Cons.IH [OF e(2)] by fastforce
qed simp

text \<open>No entry is applied twice, and none before one with a lower index.\<close>

definition orderly :: "server \<Rightarrow> bool" where
  "orderly s \<longleftrightarrow> server_ok s \<and> sorted_wrt (<) (applied_indices (sv_events s)) \<and>
     (\<forall>i \<in> set (applied_indices (sv_events s)). i \<le> sv_applied_index s)"

lemma take_orderly:
  assumes o: "orderly s" and i: "sane_input i s" and t: "node_takes i (sv_node s) = Some (evs, n)"
    and plain: "plain env (waiting (r_log (n_raft n)))" and s': "server_takes env i s = Some s'"
  shows "orderly s' \<and> sv_applied_index s' = l_committed (sv_log s') \<and> sv_applied_index s \<le> sv_applied_index s'"
proof -
  have ok: "server_ok s" using o by (simp add: orderly_def)
  let ?l = "r_log (n_raft n)"
  have d: "drained env (s\<lparr>sv_node := n, sv_events := sv_events s @ evs\<rparr>) s'"
    using server_takes_drains [OF ok i t plain] s' by auto
  have k: "log_ok ?l" "l_applied ?l = l_applied (sv_log s)" "l_committed (sv_log s) \<le> l_committed ?l"
    using node_takes_keeps [OF ok i t] by (auto simp: keeps_def log_keeps_def)
  then have le: "l_applied ?l \<le> l_committed ?l" using server_okD(4) [OF ok] by simp
  have replies: "applied_indices evs = []"
    using t by (cases i) (auto simp: node_takes_def)
  note w = waiting_facts [OF k(1) le]
  have new: "sorted_wrt (<) (applied_indices (effects env (waiting ?l)))"
    "\<forall>j \<in> set (applied_indices (effects env (waiting ?l))). sv_applied_index s < j \<and> j \<le> l_committed ?l"
  proof -
    have "max (l_applied ?l) (log_base ?l) + 1 + length (waiting ?l) = l_committed ?l + 1"
      using w(1) le k(1) by (simp add: log_ok_def)
    with applied_indices_effects [OF w(2), of env] k(2) server_okD(5) [OF ok]
    show "sorted_wrt (<) (applied_indices (effects env (waiting ?l)))"
      "\<forall>j \<in> set (applied_indices (effects env (waiting ?l))). sv_applied_index s < j \<and> j \<le> l_committed ?l"
      by fastforce+
  qed
  have ev: "applied_indices (sv_events s') = applied_indices (sv_events s) @ applied_indices (effects env (waiting ?l))"
    using d replies by (simp add: drained_def)
  have "sv_applied_index s' = l_committed ?l" "server_ok s'" "l_committed (sv_log s') = l_committed ?l"
    using d by (simp_all add: drained_def)
  moreover have "sv_applied_index s \<le> l_committed ?l" using le k(2) server_okD(5) [OF ok] by simp
  moreover have "\<forall>j \<in> set (applied_indices (sv_events s)). j \<le> sv_applied_index s"
    "sorted_wrt (<) (applied_indices (sv_events s))"
    using o by (simp_all add: orderly_def)
  ultimately show ?thesis
    using new ev by (fastforce simp: orderly_def sorted_wrt_append)
qed

theorem server_run_orderly:
  assumes "orderly s0" "server_run env s0 s"
  shows "orderly s \<and> (s = s0 \<or> sv_applied_index s = l_committed (sv_log s))"
  using assms(2) by induction (use assms(1) take_orderly in blast)+

end
