(* ===== verification/Server_Boot.thy ===== *)
theory Server_Boot
  imports Server_Inputs Node_Boot
begin

text \<open>
  The start of the server: what it reads from its disk and the node it builds from it are well formed,
  on a new disk with the membership of the cluster as its first committed entries.
\<close>

section \<open>A new server\<close>

lemma first_entries_plain:
  assumes "\<forall>cc. en_conf env (en_ser env cc) = Some cc"
  shows "plain env (first_entries (en_ser env) peers)"
  using assms
  by (auto simp: plain_def plain_entry_def first_entries_def bootstrap_entry_def split: option.split)

text \<open>What a start reads from its disk, if the disk is in order.\<close>

definition good_replay :: "memory_storage \<Rightarrow> wal \<Rightarrow> bool" where
  "good_replay st w \<longleftrightarrow>
     storage_ok st \<and> storage_base st = s_index (ms_snapshot st) \<and> w_files w \<noteq> []"


abbreviation addresses :: "nat \<Rightarrow> (nat \<times> string) list" where
  "addresses n \<equiv> map (\<lambda>j. (j + 1, '''')) [0..<n]"

lemma server_config_kept:
  assumes "config_validate (server_config i st) = (x, c)"
  shows "c_storage c = Some st" "c_applied c = 0"
  using assms by (auto simp: config_validate_def server_config_def new_config_def Let_def split: if_splits)

text \<open>
  \<open>schedule\<close> leaves the log as it is, but the snapshot that the node would send to a follower, the one
  of the storage, has lost its data.
\<close>

lemma take_snap_data_storage [simp]:
  "storage_ok (take_snap_data st) = storage_ok st" "storage_base (take_snap_data st) = storage_base st"
  "storage_bterm (take_snap_data st) = storage_bterm st" "storage_ents (take_snap_data st) = storage_ents st"
  "storage_end (take_snap_data st) = storage_end st" "s_index (ms_snapshot (take_snap_data st)) = s_index (ms_snapshot st)"
  by (simp_all add: take_snap_data_def storage_ok_def storage_base_def storage_bterm_def storage_ents_def storage_end_def)

lemma take_snap_data_log [simp]:
  "log_ok (l\<lparr>l_storage := take_snap_data st\<rparr>) = log_ok (l\<lparr>l_storage := st\<rparr>)"
  "log_base (l\<lparr>l_storage := take_snap_data st\<rparr>) = log_base (l\<lparr>l_storage := st\<rparr>)"
  "log_ents (l\<lparr>l_storage := take_snap_data st\<rparr>) = log_ents (l\<lparr>l_storage := st\<rparr>)"
proof -
  show b: "log_base (l\<lparr>l_storage := take_snap_data st\<rparr>) = log_base (l\<lparr>l_storage := st\<rparr>)"
    and e: "log_ents (l\<lparr>l_storage := take_snap_data st\<rparr>) = log_ents (l\<lparr>l_storage := st\<rparr>)"
    by (simp_all add: log_view_defs cong: option.case_cong)
  show "log_ok (l\<lparr>l_storage := take_snap_data st\<rparr>) = log_ok (l\<lparr>l_storage := st\<rparr>)"
    by (simp only: log_ok_def b e) (simp add: log_shape_def cong: option.case_cong)
qed

lemma schedule_empties_snapshot:
  "u_snapshot (l_unstable (sv_log s)) = None \<Longrightarrow> s_data (log_snapshot (sv_log (schedule s))) = '''' \<and>
   s_index (log_snapshot (sv_log (schedule s))) = s_index (log_snapshot (sv_log s))"
  by (simp add: schedule_def put_storage_def emit_def log_snapshot_def storage_snapshot_def take_snap_data_def Let_def)

text \<open>The server behind \<open>schedule\<close>; on an empty log its first committed entries are the membership.\<close>

lemma server_built:
  assumes r: "replay_WAL env tell dk = Some (st, w, lst, data, snaps)" and good: "good_replay st w"
    and n: "new_server env tell rnd i peers dk = Some s" and p: "0 < peers" "peers + 1 < W64"
  shows "orderly (schedule s) \<and> sv_events s = [] \<and>
    (if storage_base st + length (storage_ents st) = 0
     then waiting (sv_log s) = first_entries (en_ser env) (addresses peers)
     else log_ents (sv_log s) = storage_ents st)"
proof -
  have st: "storage_ok st" "storage_base st = s_index (ms_snapshot st)" "w_files w \<noteq> []"
    using good by (simp_all add: good_replay_def)
  obtain x c where c: "config_validate (server_config i st) = (x, c)" by fastforce
  obtain nd where nd: "new_raw_node (en_ser env) c rnd (addresses peers) = Some nd"
    and s: "s = \<lparr>sv_id = i, sv_last_index = lst, sv_conf_state = empty_conf_state, sv_snapshot_index = 0,
       sv_applied_index = 0, sv_node = nd, sv_snap_data = data, sv_snap_count = defaultSnapCount,
       sv_snaps = snaps, sv_wal = w, sv_events = []\<rparr>"
    using n r c by (auto simp: new_server_def bind_eq_Some_conv Let_def)
  note cf = server_config_kept [OF c]
  obtain r0 where r0: "new_raft c rnd = Some r0"
    and r1: "(if storage_base st + length (storage_ents st) = 0 then bootstrap (en_ser env) r0 (addresses peers)
        else Some r0) = Some (n_raft nd)"
    using nd cf(1) stor.view_last [OF st(1)] by (auto simp: new_raw_node_def bind_eq_Some_conv split: if_splits)
  have fr: "fresh_log st (r_log r0)" by (rule new_raft_fresh [OF cf(1) st(1) cf(2) r0])
  have l: "log_ok (sv_log s) \<and> l_storage (sv_log s) = st \<and> u_snapshot (l_unstable (sv_log s)) = None \<and>
      l_applied (sv_log s) = storage_base st \<and>
      (if storage_base st + length (storage_ents st) = 0
       then waiting (sv_log s) = first_entries (en_ser env) (addresses peers)
       else log_ents (sv_log s) = storage_ents st)"
  proof (cases "storage_base st + length (storage_ents st) = 0")
    case True
    then have b: "bootstrap (en_ser env) r0 (addresses peers) = Some (n_raft nd)" using r1 by simp
    have ne: "addresses peers \<noteq> []" "length (addresses peers) + 1 < W64" using p by simp_all
    from bootstrap_log [OF fr _ _ ne b] True show ?thesis
      by (simp add: s waiting_def first_entries_facts)
  next
    case False
    then have "r_log (n_raft nd) = r_log r0" using r1 by (simp only: if_False option.inject)
    then show ?thesis
      using fr False by (auto simp: s fresh_log_def log_view_defs log_ok_def log_shape_def storage_end_def)
  qed
  have le: "log_base (sv_log s) \<le> l_committed (sv_log s)" "log_base (sv_log s) = storage_base st"
    using l by (auto simp: log_ok_def) (simp add: log_base_def)
  have "server_ok (schedule s)"
    using l le st by (auto simp: server_ok_def schedule_def put_storage_def emit_def storage_snapshot_def s Let_def)
  then have "orderly (schedule s)"
    by (simp add: orderly_def schedule_def put_storage_def emit_def Let_def s)
  moreover have "sv_events s = []" by (simp add: s)
  ultimately show ?thesis using l by blast
qed

section \<open>What a start reads\<close>

lemma all_some_map [simp]: "all_some (map Some es) = Some es"
  by (induction es) simp_all

lemma replay_read:
  assumes l: "snapper_load (en_codec env) (en_snaps env) empty_snapshot (dk_snap dk) = Some (NotFound e, n, d)"
    and o: "open_WAL env tell n (dk_wal dk) = Some w0" "wal_read_all (en_codec env) w0 = Some (hs, map Some es, w)"
    and es: "consec 1 es" "1 + length es < W64" and f: "w_files w \<noteq> []"
  shows "\<exists>st lst data. replay_WAL env tell dk = Some (st, w, lst, data, d) \<and> good_replay st w \<and>
    storage_base st = 0 \<and> storage_ents st = es \<and> ms_hard_state st = hs"
proof -
  let ?s0 = "storage_set_hard_state new_memory_storage hs"
  have s0: "storage_ok ?s0" "storage_base ?s0 = 0" "storage_ents ?s0 = []" "s_index (ms_snapshot ?s0) = 0"
    "ms_hard_state ?s0 = hs"
    by (simp_all add: storage_set_hard_state_def new_memory_storage_def storage_ok_def storage_base_def
        storage_ents_def new_entry_def empty_snapshot_def W64_def)
  obtain st where st: "storage_append ?s0 es = Some st" "storage_ok st" "storage_base st = 0" "storage_ents st = es"
  proof (cases "es = []")
    case True
    then show thesis using that [of ?s0] s0 by (simp add: storage_append_def)
  next
    case False
    then show thesis
      using stor.append_view [OF s0(1), of 1 es] s0(2,3) es that by (auto simp: splice_def)
  qed
  have "ms_snapshot st = ms_snapshot ?s0" "ms_hard_state st = hs"
    using storage_append_frame [OF st(1)] s0(5) by simp_all
  then show ?thesis
    using l o st s0(4) f by (simp add: replay_WAL_def good_replay_def Let_def)
qed

lemma no_snapshots: "snapper_load c k snap [] = Some (NotFound ''snap not found in Snapshooter::load()'', snap, [])"
  by (simp add: snapper_load_def get_snap_names_def)

text \<open>A start on a new disk.\<close>

lemma replay_new_disk:
  assumes "codec_ok (en_codec env)" "item_fits (en_codec env) (ItemSnap snap0)"
  shows "\<exists>st w lst data. replay_WAL env tell \<lparr>dk_wal = None, dk_snap = []\<rparr> = Some (st, w, lst, data, []) \<and>
    good_replay st w \<and> storage_base st + length (storage_ents st) = 0"
proof -
  obtain w0 w where w: "wal_open tell (wal_create (en_codec env) []) snap0 = Some w0"
    "wal_read_all (en_codec env) w0 = Some (empty_hard_state, [], w)" "holds (en_codec env) [ItemSnap snap0] w"
    using wal_new_log [OF assms] by blast
  have "open_WAL env tell empty_snapshot (dk_wal \<lparr>dk_wal = None, dk_snap = []\<rparr>) = Some w0"
    using w(1) by (simp add: open_WAL_def snap0_def empty_snapshot_def)
  moreover have "w_files w \<noteq> []" using w(3) by (auto simp: holds_def)
  ultimately show ?thesis
    using replay_read [OF _ _ _ _ _ , of env "\<lparr>dk_wal = None, dk_snap = []\<rparr>" _ empty_snapshot "[]" tell w0 empty_hard_state "[]" w]
      no_snapshots w(2) by fastforce
qed

section \<open>A start after a crash\<close>

text \<open>
  The records that a crash leaves of a sequence of saves are those of saves, the last of them perhaps
  with fewer entries.
\<close>

lemma cut_save:
  assumes m: "mirrors d log s" and e: "storage_exec op s = Some s'" "batch_ok op" and n: "n < length (op_items op)"
  shows "\<exists>ops s''. take n (op_items op) = concat (map op_items ops) \<and> list_all batch_ok ops \<and>
    each storage_exec ops s = Some s''"
proof (cases op)
  case (Save hs es)
  let ?es = "take n es"
  have le: "n \<le> length es" using n Save by (auto split: if_splits)
  then have items: "take n (op_items op) = concat (map op_items [Save empty_hard_state ?es])"
    using Save by (simp add: take_map hs_is_empty_def empty_hard_state_def)
  show ?thesis
  proof (cases "?es = []")
    case True
    then show ?thesis using items by (intro exI [of _ "[]"] exI [of _ s]) (simp add: hs_is_empty_def empty_hard_state_def)
  next
    case False
    then have ne: "es \<noteq> []" "hd ?es = hd es" by (auto simp: hd_take)
    then have es: "consec (e_index (hd es)) es" "e_index (hd es) + length es < W64"
      using e(2) Save by (auto simp: batch_ok_def)
    then have gap: "e_index (hd es) \<le> e_index d + length log + 1"
      using storage_append_gap [OF m es(1) _ es(2) ne(1)] e(1) Save by force
    have c: "consec (e_index (hd es)) ?es" "e_index (hd es) + length ?es < W64"
      using es by (auto intro: consec_take)
    obtain s'' where "storage_append s ?es = Some s''"
      using storage_append_mirrors [OF m c(1) gap c(2)] by blast
    then show ?thesis
      using items c False ne(2)
      by (intro exI [of _ "[Save empty_hard_state ?es]"] exI [of _ s'']) (simp add: batch_ok_def)
  qed
next
  case (SaveSnapshot snap)
  then show ?thesis using n by (intro exI [of _ "[]"]) simp
qed

lemma cut_saves:
  assumes "mirrors d log s" "each storage_exec ops s = Some s'" "list_all batch_ok ops"
  shows "\<exists>ops' s''. take n (concat (map op_items ops)) = concat (map op_items ops') \<and> list_all batch_ok ops' \<and>
    each storage_exec ops' s = Some s''"
  using assms
proof (induction ops arbitrary: log s n)
  case (Cons op ops)
  then obtain s1 where s1: "storage_exec op s = Some s1" "each storage_exec ops s1 = Some s'"
    by (auto split: Option.bind_splits)
  have ok: "batch_ok op" "list_all batch_ok ops" using Cons.prems(3) by simp_all
  show ?case
  proof (cases "n < length (op_items op)")
    case True
    then show ?thesis using cut_save [OF Cons.prems(1) s1(1) ok(1) True] by simp
  next
    case False
    obtain ops' s'' where o: "take (n - length (op_items op)) (concat (map op_items ops)) = concat (map op_items ops')"
      "list_all batch_ok ops'" "each storage_exec ops' s1 = Some s''"
      using Cons.IH [OF storage_exec_mirrors [OF Cons.prems(1) s1(1) ok(1)] s1(2) ok(2)] by blast
    then show ?thesis using False ok(1) s1(1) by (intro exI [of _ "op # ops'"]) simp
  qed
next
  case Nil
  then show ?case by (intro exI [of _ "[]"]) simp
qed

lemma surviving_entries:
  assumes "each storage_exec ops new_memory_storage = Some s'" "list_all batch_ok ops"
  shows "\<exists>es. put_items 0 (take n (ItemSnap snap0 # concat (map op_items ops))) [] = map Some es \<and>
    consec 1 es \<and> 1 + length es < W64"
proof (cases n)
  case (Suc k)
  have m: "mirrors new_entry [] new_memory_storage"
    by (simp add: mirrors_def new_memory_storage_def new_entry_def W64_def)
  obtain ops' s'' where o: "take k (concat (map op_items ops)) = concat (map op_items ops')" "list_all batch_ok ops'"
    "each storage_exec ops' new_memory_storage = Some s''"
    using cut_saves [OF m assms] by blast
  have "mirrors new_entry (put_items 0 (concat (map op_items ops')) []) s''"
    using storage_run_mirrors [OF m o(3,2)] by (simp add: new_entry_def)
  then show ?thesis using Suc o(1) by (auto simp: mirrors_def new_entry_def)
qed (simp add: W64_def)

text \<open>
  The disk of a server that has run on it since it was new and was stopped at any moment: of its log the
  first \<open>k\<close> bytes are there, among them the first record.
\<close>

definition crashed_disk :: "codec \<Rightarrow> wal_op list \<Rightarrow> nat \<Rightarrow> disk" where
  "crashed_disk c ops k = \<lparr>dk_wal = Some [(wal_name 0 0,
     take k (frames c (map (item_record c) (ItemSnap snap0 # concat (map op_items ops)))))], dk_snap = []\<rparr>"

lemma replay_crashed:
  assumes c: "codec_ok (en_codec env)" and run: "each storage_exec ops new_memory_storage = Some s'" "list_all batch_ok ops"
    and its: "its = surviving (en_codec env) k (ItemSnap snap0 # concat (map op_items ops))"
    and fits: "list_all (item_fits (en_codec env)) (ItemSnap snap0 # concat (map op_items ops))"
    and k: "its \<noteq> []" "\<not> snap_clash snap0 its"
  shows "\<exists>st w lst data es. replay_WAL env tell (crashed_disk (en_codec env) ops k) = Some (st, w, lst, data, []) \<and>
    good_replay st w \<and> storage_base st = 0 \<and> storage_ents st = es \<and>
    ms_hard_state st = last_state empty_hard_state its \<and> put_items 0 its [] = map Some es"
proof -
  let ?c = "en_codec env" and ?all = "ItemSnap snap0 # concat (map op_items ops)"
  obtain n where n: "its = take n ?all" using its surviving_prefix by blast
  obtain es where es: "put_items 0 its [] = map Some es" "consec 1 es" "1 + length es < W64"
    using surviving_entries [OF run] n by blast
  have "has_snap its" using n k(1) by (cases n) auto
  then obtain w where w: "wal_read_all ?c (reopened tell 0 snap0 (take k (frames ?c (map (item_record ?c) ?all)))) =
      Some (last_state empty_hard_state its, put_items (ws_index snap0) its [], w)" "holds ?c its w"
    using read_torn_log [OF c fits, of k snap0 tell 0] k(2) its by auto
  let ?dk = "crashed_disk ?c ops k"
  have o: "open_WAL env tell empty_snapshot (dk_wal ?dk) =
      Some (reopened tell 0 snap0 (take k (frames ?c (map (item_record ?c) ?all))))"
    by (simp add: open_WAL_def crashed_disk_def wal_open_one snap0_def empty_snapshot_def)
  have s: "snapper_load ?c (en_snaps env) empty_snapshot (dk_snap ?dk) =
      Some (NotFound ''snap not found in Snapshooter::load()'', empty_snapshot, [])"
    by (simp add: crashed_disk_def no_snapshots)
  have r: "wal_read_all ?c (reopened tell 0 snap0 (take k (frames ?c (map (item_record ?c) ?all)))) =
      Some (last_state empty_hard_state its, map Some es, w)"
    using w(1) es(1) by (simp add: snap0_def)
  have "w_files w \<noteq> []" using w(2) by (auto simp: holds_def)
  from replay_read [OF s o r es(2,3) this] show ?thesis using es(1) by blast
qed

end
