(* ===== verification/Transport.thy ===== *)
theory Transport
  imports Wal_Frames Byte_Buffer
begin

text \<open>
  \<open>transport/proto.h\<close>, \<open>transport/peer.cpp\<close>, \<open>transport/raft_server.cpp\<close> and \<open>transport/transport.cpp\<close>:
  messages between nodes as frames on a TCP stream.  The sockets are asynchronous; a step of the model
  is a call or the completion of an asynchronous operation, and what is handed to the socket is a
  pointer into the send buffer.  The msgpack encoding of a message is a parameter; addresses are not modelled.
\<close>

section \<open>Frames\<close>

definition TransportTypeStream :: nat where
  "TransportTypeStream = 1"

definition TransportTypePipeline :: nat where
  "TransportTypePipeline = 3"

definition TransportTypeDebug :: nat where
  "TransportTypeDebug = 5"

record msg_codec =
  pk_msg :: "message \<Rightarrow> string"
  up_msg :: "string \<Rightarrow> message option"

text \<open>A 32-bit number in network byte order, and as it lies in the memory of a little-endian machine.\<close>

definition htonl :: "nat \<Rightarrow> string" where
  "htonl n = rev (le_bytes 4 n)"

definition ntohl :: "string \<Rightarrow> nat" where
  "ntohl s = of_le (rev s)"

definition transport_meta :: "nat \<Rightarrow> nat \<Rightarrow> string" where
  "transport_meta type len = char_of type # htonl len"

definition debug_message :: "nat \<Rightarrow> nat \<Rightarrow> string" where
  "debug_message a b = le_bytes 4 a @ le_bytes 4 b"

section \<open>Sending: \<open>ClientSession\<close> and \<open>PeerImpl\<close>\<close>

text \<open>The socket: the writes that are under way, and the bytes that have been sent to the other side.\<close>

record client_session =
  cs_buffer :: byte_buffer
  cs_connected :: bool
  cs_writes :: "async_write list"
  cs_wire :: string

definition new_client_session :: client_session where
  "new_client_session = \<lparr>cs_buffer = new_byte_buffer, cs_connected = False, cs_writes = [],
     cs_wire = ''''\<rparr>"

text \<open>The socket is given a pointer to all readable bytes.\<close>

definition start_write :: "client_session \<Rightarrow> client_session option" where
  "start_write s =
     (if \<not> buffer_readable (cs_buffer s) then Some s
      else do {
        w \<leftarrow> begin_write (cs_buffer s);
        Some (s\<lparr>cs_writes := cs_writes s @ [w]\<rparr>)
      })"

text \<open>The length is passed as a 32-bit number.\<close>

definition session_send :: "nat \<Rightarrow> string \<Rightarrow> client_session \<Rightarrow> client_session option" where
  "session_send type data s = do {
     let len = length data mod W32;
     remaining \<leftarrow> readable_bytes (cs_buffer s);
     b \<leftarrow> buffer_put (cs_buffer s) (transport_meta type len);
     b \<leftarrow> buffer_put b (take len data);
     n \<leftarrow> readable_bytes b;
     check (remaining + 5 + len = n);
     let s = s\<lparr>cs_buffer := b\<rparr>;
     if cs_connected s \<and> remaining = 0 then start_write s else Some s
   }"

text \<open>
  The handlers of the connection and of a write that is no longer under way.  A session that is closed is \<open>None\<close> in its peer.
\<close>

definition connect_done :: "bool \<Rightarrow> client_session \<Rightarrow> client_session option option" where
  "connect_done err s =
     (if err then Some None
      else let s = s\<lparr>cs_connected := True\<rparr>
           in map_option Some (if buffer_readable (cs_buffer s) then start_write s else Some s))"

definition write_done :: "bool \<Rightarrow> nat \<Rightarrow> client_session \<Rightarrow> client_session option option" where
  "write_done err bytes s =
     (if err \<or> bytes = 0 then Some None
      else do {
        b \<leftarrow> read_bytes (cs_buffer s) bytes;
        map_option Some (start_write (s\<lparr>cs_buffer := b\<rparr>))
      })"

text \<open>\<open>do_send_data\<close> makes a session if there is none; its connection is started after the send.\<close>

definition do_send_data :: "nat \<Rightarrow> string \<Rightarrow> client_session option \<Rightarrow> client_session option option" where
  "do_send_data type data p =
     (case p of
        None \<Rightarrow> map_option Some (session_send type data new_client_session)
      | Some s \<Rightarrow> map_option Some (session_send type data s))"

definition peer_send :: "msg_codec \<Rightarrow> message \<Rightarrow> client_session option \<Rightarrow> client_session option option" where
  "peer_send c m p = do_send_data TransportTypeStream (pk_msg c m) p"

text \<open>The counter is shared by all peers; its two increments are two atomic steps.\<close>

definition start_timer :: "nat \<Rightarrow> client_session option \<Rightarrow> (nat \<times> client_session option) option" where
  "start_timer tick p = do {
     let a = tick;
     let tick = add32 tick 1;
     let b = tick;
     let tick = add32 tick 1;
     p \<leftarrow> do_send_data TransportTypeDebug (debug_message a b) p;
     Some (tick, p)
   }"

section \<open>\<open>TransportImpl\<close>\<close>

record transport =
  tr_peers :: "(nat \<times> client_session option) list"
  tr_tick :: nat

definition add_peer :: "nat \<Rightarrow> transport \<Rightarrow> transport option" where
  "add_peer i t =
     (case map_of (tr_peers t) i of
        Some p \<Rightarrow> Some t
      | None \<Rightarrow> do {
          (tick, p) \<leftarrow> start_timer (tr_tick t) None;
          Some (t\<lparr>tr_peers := AList.update i p (tr_peers t), tr_tick := tick\<rparr>)
        })"

text \<open>\<open>RaftNode::main\<close> adds every other node of the cluster, in the order of the addresses.\<close>

definition add_cluster :: "nat \<Rightarrow> nat \<Rightarrow> transport \<Rightarrow> transport option" where
  "add_cluster self n = each (\<lambda>i t. if i + 1 = self then Some t else add_peer (i + 1) t) [0..<n]"

definition remove_peer :: "nat \<Rightarrow> transport \<Rightarrow> transport" where
  "remove_peer i t = t"

definition send_one :: "msg_codec \<Rightarrow> message \<Rightarrow> transport \<Rightarrow> transport option" where
  "send_one c m t =
     (if m_to m = 0 then Some t
      else case map_of (tr_peers t) (m_to m) of
             None \<Rightarrow> Some t
           | Some p \<Rightarrow> do {
               p \<leftarrow> peer_send c m p;
               Some (t\<lparr>tr_peers := AList.update (m_to m) p (tr_peers t)\<rparr>)
             })"

definition transport_send :: "msg_codec \<Rightarrow> message list \<Rightarrow> transport \<Rightarrow> transport option" where
  "transport_send c = each (send_one c)"

section \<open>Receiving: \<open>ServerSession\<close>\<close>

text \<open>
  One frame: \<open>None\<close> is a failed assertion, \<open>Some None\<close> the end of the session.
\<close>

definition decode_message :: "msg_codec \<Rightarrow> nat \<Rightarrow> string \<Rightarrow> message list option option" where
  "decode_message c type data =
     (if type = TransportTypeDebug then do {
        check (length data = 8);
        check (add32 (of_le (take 4 data)) 1 = of_le (drop 4 data));
        Some (Some [])
      }
      else if type = TransportTypeStream then
        Some (case up_msg c data of None \<Rightarrow> None | Some m \<Rightarrow> Some [m])
      else Some None)"

text \<open>
  The messages a session passes on, from the bytes that arrive.  A read of no bytes counts as the end
  of the stream, so an empty frame ends the session too.
\<close>

function session_read :: "msg_codec \<Rightarrow> string \<Rightarrow> message list option" where
  "session_read c stream =
     (if length stream < 5 then Some []
      else
        let len = ntohl (take 4 (tl stream)); rest = drop 5 stream
        in if len = 0 \<or> length rest < len then Some []
           else do {
             r \<leftarrow> decode_message c (of_char (hd stream)) (take len rest);
             case r of
               None \<Rightarrow> Some []
             | Some ms \<Rightarrow> do {
                 ms' \<leftarrow> session_read c (drop len rest);
                 Some (ms @ ms')
               }
           })"
  by pat_completeness auto
termination
  by (relation "measure (\<lambda>(c, s). length s)") auto

declare session_read.simps [simp del]

section \<open>Frames are read back\<close>

definition frame_of :: "nat \<Rightarrow> string \<Rightarrow> string" where
  "frame_of type data = transport_meta type (length data) @ data"

definition msg_codec_ok :: "msg_codec \<Rightarrow> bool" where
  "msg_codec_ok c \<longleftrightarrow> (\<forall>m. up_msg c (pk_msg c m) = Some m \<and> pk_msg c m \<noteq> '''')"

lemma length_htonl [simp]: "length (htonl n) = 4"
  by (simp add: htonl_def)

lemma ntohl_htonl: "n < W32 \<Longrightarrow> ntohl (htonl n) = n"
  by (simp add: ntohl_def htonl_def of_le_le_bytes W32_def)

lemma length_transport_meta [simp]: "length (transport_meta type n) = 5"
  by (simp add: transport_meta_def)

lemma session_read_step:
  assumes "5 \<le> length s" "hd s = char_of type" "take 4 (tl s) = htonl (length data)" "drop 5 s = data @ stream"
    and "type < 256" "0 < length data" "length data < W32" "decode_message c type data = Some (Some ms)"
  shows "session_read c s = map_option ((@) ms) (session_read c stream)"
  using assms
  by (subst session_read.simps, cases "session_read c stream")
     (simp_all add: ntohl_htonl Let_def not_less flip: drop_drop)

lemma session_read_frame:
  assumes "type < 256" "0 < length data" "length data < W32" "decode_message c type data = Some (Some ms)"
  shows "session_read c (frame_of type data @ stream) = map_option ((@) ms) (session_read c stream)"
  by (rule session_read_step [OF _ _ _ _ assms]) (simp_all add: frame_of_def transport_meta_def)

text \<open>What a peer sends: messages, and the debug messages of its timer.\<close>

datatype sent = Message message | Tick nat

definition sent_data :: "msg_codec \<Rightarrow> sent \<Rightarrow> nat \<times> string" where
  "sent_data c x =
     (case x of
        Message m \<Rightarrow> (TransportTypeStream, pk_msg c m)
      | Tick n \<Rightarrow> (TransportTypeDebug, debug_message (n mod W32) (add32 n 1)))"

definition sent_frame :: "msg_codec \<Rightarrow> sent \<Rightarrow> string" where
  "sent_frame c x = (case sent_data c x of (type, data) \<Rightarrow> frame_of type data)"

definition messages_of :: "sent list \<Rightarrow> message list" where
  "messages_of xs = concat (map (\<lambda>x. case x of Message m \<Rightarrow> [m] | Tick n \<Rightarrow> []) xs)"

lemma decode_sent:
  assumes ok: "msg_codec_ok c" and d: "sent_data c x = (type, data)"
  shows "decode_message c type data = Some (Some (messages_of [x]))" "type < 256" "0 < length data"
proof -
  have "decode_message c type data = Some (Some (messages_of [x])) \<and> type < 256 \<and> 0 < length data"
  proof (cases x)
    case (Message m)
    then show ?thesis
      using assms by (auto simp: sent_data_def decode_message_def messages_of_def msg_codec_ok_def
          TransportTypeStream_def TransportTypeDebug_def)
  next
    case (Tick n)
    have "add32 (n mod W32) 1 = add32 n 1" by (simp add: add32_def mod_Suc_eq)
    moreover have "le_bytes 4 k \<noteq> []" for k
      using length_le_bytes [of 4 k] by (auto simp del: length_le_bytes)
    ultimately show ?thesis
      using d Tick by (auto simp: sent_data_def decode_message_def messages_of_def debug_message_def
          TransportTypeDebug_def of_le_4)
  qed
  then show "decode_message c type data = Some (Some (messages_of [x]))" "type < 256" "0 < length data"
    by blast+
qed

end
