(* ===== verification/Transport_Stream.thy ===== *)
theory Transport_Stream
  imports Transport
begin

text \<open>
  A connection as a whole: the steps of a client session while nothing fails, the invariant that ties
  what was handed to the socket and what is buffered to what was sent, and what the other side reads.
\<close>

section \<open>Steps\<close>

text \<open>
  The socket connects, sends a piece of a write, which it reads through the pointer it was given, or
  completes a write of which it has sent all bytes and calls the handler.
\<close>

definition socket_writes :: "nat \<Rightarrow> nat \<Rightarrow> client_session \<Rightarrow> client_session option" where
  "socket_writes i k s = do {
     w \<leftarrow> vec_at (cs_writes s) i;
     (data, w) \<leftarrow> write_some k (cs_buffer s) w;
     Some (s\<lparr>cs_writes := (cs_writes s)[i := w], cs_wire := cs_wire s @ data\<rparr>)
   }"

inductive socket_step :: "client_session \<Rightarrow> client_session \<Rightarrow> bool" where
  connected: "\<not> cs_connected s \<Longrightarrow> connect_done False s = Some (Some s') \<Longrightarrow> socket_step s s'"
| writes: "i < length (cs_writes s) \<Longrightarrow> 0 < k \<Longrightarrow> wr_sent (cs_writes s ! i) + k \<le> wr_len (cs_writes s ! i) \<Longrightarrow>
    socket_writes i k s = Some s' \<Longrightarrow> socket_step s s'"
| written: "cs_writes s = ws @ w # ws' \<Longrightarrow> wr_sent w = wr_len w \<Longrightarrow>
    write_done False (wr_len w) (s\<lparr>cs_writes := ws @ ws'\<rparr>) = Some (Some s') \<Longrightarrow> socket_step s s'"

text \<open>\<open>xs\<close> is the history of what was sent.\<close>

inductive net_run :: "msg_codec \<Rightarrow> sent list \<Rightarrow> client_session \<Rightarrow> bool" for c where
  fresh: "net_run c [] new_client_session"
| send: "net_run c xs s \<Longrightarrow> sent_data c x = (type, data) \<Longrightarrow> session_send type data s = Some s' \<Longrightarrow>
    net_run c (xs @ [x]) s'"
| socket: "net_run c xs s \<Longrightarrow> socket_step s s' \<Longrightarrow> net_run c xs s'"

definition stream_of :: "msg_codec \<Rightarrow> sent list \<Rightarrow> string" where
  "stream_of c xs = concat (map (sent_frame c) xs)"

lemma stream_of_simps [simp]:
  "stream_of c [] = ''''" "stream_of c (xs @ ys) = stream_of c xs @ stream_of c ys" "stream_of c [x] = sent_frame c x"
  by (simp_all add: stream_of_def)

definition session_inv :: "string \<Rightarrow> client_session \<Rightarrow> bool" where
  "session_inv stream s \<longleftrightarrow>
     buffer_within (length stream) (cs_buffer s) \<and>
     (if cs_connected s then sending stream (cs_buffer s) (cs_writes s) (cs_wire s)
      else cs_writes s = [] \<and> cs_wire s = '''' \<and> buffer_view (cs_buffer s) = stream)"

lemma session_inv_new: "session_inv '''' new_client_session"
  by (simp add: session_inv_def) (simp add: new_client_session_def)

lemma start_write_view:
  assumes "buffer_ok (cs_buffer s)" "stream = cs_wire s @ buffer_view (cs_buffer s)" "cs_writes s = []"
  shows "\<exists>s'. start_write s = Some s' \<and> sending stream (cs_buffer s') (cs_writes s') (cs_wire s') \<and>
    \<not> overtaken (cs_buffer s') (cs_writes s') \<and> (\<forall>w \<in> set (cs_writes s'). wr_sent w = 0) \<and>
    cs_buffer s' = cs_buffer s \<and> cs_connected s' = cs_connected s"
proof (cases "buffer_view (cs_buffer s) = ''''")
  case True
  then show ?thesis
    using assms buffer_readable_view [OF assms(1)] by (auto simp: start_write_def sending_def overtaken_def)
next
  case False
  then show ?thesis
    using sending_begin [OF assms(1) False assms(2)] buffer_readable_view [OF assms(1)] assms(3)
    by (auto simp: start_write_def)
qed

lemma sent_dataD:
  assumes "sent_data c x = (type, data)" "length data < W32"
  shows "transport_meta type (length data) @ take (length data) data = sent_frame c x"
  using assms by (simp add: sent_frame_def frame_of_def)

text \<open>
  A send appends a frame.  A write that is under way is overtaken if the frame does not fit into the
  vector.
\<close>

lemma session_send_inv:
  assumes inv: "session_inv stream s" and x: "sent_data c x = (type, data)"
    and room: "roomy (length stream + length (sent_frame c x))"
  shows "\<exists>s'. session_send type data s = Some s' \<and> session_inv (stream @ sent_frame c x) s' \<and>
    cs_connected s' = cs_connected s \<and>
    (cs_connected s \<and> buffer_view (cs_buffer s) \<noteq> '''' \<longrightarrow> cs_writes s' = cs_writes s \<and>
      (bb_block (cs_buffer s') \<noteq> bb_block (cs_buffer s) \<longleftrightarrow>
        length (bb_buff (cs_buffer s)) < bb_writer (cs_buffer s) + length (sent_frame c x)))"
proof -
  let ?b = "cs_buffer s"
  have b: "buffer_within (length stream) ?b" using inv by (simp add: session_inv_def)
  have len: "length (sent_frame c x) = 5 + length data" "sent_frame c x = transport_meta type (length data) @ data"
    using x by (simp_all add: sent_frame_def frame_of_def)
  have small: "length data < W32" using room len by (simp add: roomy_def)
  have r1: "roomy (length stream + length (transport_meta type (length data)))" using room len by (simp add: roomy_def)
  from buffer_put_within [OF b r1] obtain b1 where b1: "buffer_put ?b (transport_meta type (length data)) = Some b1"
      "buffer_within (length stream + 5) b1" "buffer_view b1 = buffer_view ?b @ transport_meta type (length data)"
      "bb_reader b1 = bb_reader ?b" "bb_writer b1 = bb_writer ?b + 5"
      "if length (bb_buff ?b) < bb_writer ?b + 5 then length (bb_buff b1) = length (bb_buff ?b) * 2 + 5 \<and>
        bb_block b1 = bb_block ?b + 1 else length (bb_buff b1) = length (bb_buff ?b) \<and> bb_block b1 = bb_block ?b"
    by auto
  have r2: "roomy (length stream + 5 + length data)" using room len by (simp add: add.assoc)
  from buffer_put_within [OF b1(2) r2] obtain b2 where b2: "buffer_put b1 data = Some b2"
      "buffer_within (length stream + 5 + length data) b2" "buffer_view b2 = buffer_view ?b @ sent_frame c x"
      "bb_reader b2 = bb_reader ?b"
      "bb_block b2 = (if length (bb_buff b1) < bb_writer b1 + length data then bb_block b1 + 1 else bb_block b1)"
    using b1(3,4) len(2) by (auto split: if_splits)
  have ok: "buffer_ok ?b" "buffer_ok b2" using b b2(2) by (simp_all add: buffer_within_def)
  let ?s = "s\<lparr>cs_buffer := b2\<rparr>"
  have send: "session_send type data s = (if cs_connected s \<and> buffer_view ?b = '''' then start_write ?s else Some ?s)"
    using b1(1,3) b2(1,3) small len readable_bytes_eq [OF ok(1)] readable_bytes_eq [OF ok(2)]
    by (simp add: session_send_def Let_def)
  have within: "buffer_within (length (stream @ sent_frame c x)) b2" using b2(2) len(1) by (simp add: add.assoc)
  have block: "bb_block b2 \<noteq> bb_block ?b \<longleftrightarrow> length (bb_buff ?b) < bb_writer ?b + length (sent_frame c x)"
    using b1(5,6) b2(5) len(1) by (auto split: if_splits)
  show ?thesis
  proof (cases "cs_connected s \<and> buffer_view ?b = ''''")
    case True
    then have i: "sending stream ?b (cs_writes s) (cs_wire s)" using inv by (simp add: session_inv_def)
    have "stream @ sent_frame c x = cs_wire ?s @ buffer_view (cs_buffer ?s)" "cs_writes ?s = []"
      using sending_idle [OF i] True b2(3) by simp_all
    from start_write_view [OF _ this] show ?thesis
      using send True within ok(2) by (auto simp: session_inv_def)
  next
    case False
    then show ?thesis
      using send inv within b2(3,4) block sending_put [of stream ?b "cs_writes s" "cs_wire s" b2 "sent_frame c x"]
      by (auto simp: session_inv_def split: if_splits)
  qed
qed

lemma connect_done_inv:
  assumes inv: "session_inv stream s" and "\<not> cs_connected s"
  shows "\<exists>s'. connect_done False s = Some (Some s') \<and> session_inv stream s' \<and> cs_connected s' \<and>
    \<not> overtaken (cs_buffer s') (cs_writes s') \<and> (\<forall>w \<in> set (cs_writes s'). wr_sent w = 0) \<and>
    cs_buffer s' = cs_buffer s"
proof -
  let ?s = "s\<lparr>cs_connected := True\<rparr>"
  have b: "buffer_within (length stream) (cs_buffer s)" and w: "cs_writes s = []" "cs_wire s = ''''"
    and v: "buffer_view (cs_buffer s) = stream"
    using assms by (simp_all add: session_inv_def)
  note ok = buffer_within_ok [OF b]
  have "connect_done False s = map_option Some (start_write ?s)"
    by (simp add: connect_done_def Let_def start_write_def)
  moreover obtain s' where "start_write ?s = Some s'" "sending stream (cs_buffer s') (cs_writes s') (cs_wire s')"
      "\<not> overtaken (cs_buffer s') (cs_writes s')" "\<forall>w \<in> set (cs_writes s'). wr_sent w = 0"
      "cs_buffer s' = cs_buffer s" "cs_connected s'"
    using start_write_view [of ?s stream] ok w v by auto
  ultimately show ?thesis using b by (auto simp: session_inv_def)
qed

lemma session_inv_connected: "session_inv stream s \<Longrightarrow> cs_writes s \<noteq> [] \<Longrightarrow> cs_connected s"
  by (auto simp: session_inv_def split: if_splits)

lemma socket_writes_inv:
  assumes inv: "session_inv stream s" and i: "i < length (cs_writes s)"
    and k: "wr_sent (cs_writes s ! i) + k \<le> wr_len (cs_writes s ! i)" and w: "socket_writes i k s = Some s'"
  shows "session_inv stream s' \<and> cs_connected s' \<and> cs_buffer s' = cs_buffer s"
proof -
  have "cs_connected s" using session_inv_connected [OF inv] i by fastforce
  then have c: "sending stream (cs_buffer s) (cs_writes s) (cs_wire s)" "buffer_within (length stream) (cs_buffer s)"
    using inv by (simp_all add: session_inv_def)
  show ?thesis
    using w sending_write [OF c(1) i k] c(2) i \<open>cs_connected s\<close>
    by (auto simp: socket_writes_def session_inv_def vec_at_def split: Option.bind_splits)
qed

lemma write_done_inv:
  assumes inv: "session_inv stream s" and w: "cs_writes s = ws @ w # ws'" "wr_sent w = wr_len w"
  shows "\<exists>s'. write_done False (wr_len w) (s\<lparr>cs_writes := ws @ ws'\<rparr>) = Some (Some s') \<and> session_inv stream s' \<and>
    cs_connected s' \<and> \<not> overtaken (cs_buffer s') (cs_writes s') \<and>
    length (buffer_view (cs_buffer s')) < length (buffer_view (cs_buffer s))"
proof -
  have c: "cs_connected s" using session_inv_connected [OF inv] w by simp
  then have i: "sending stream (cs_buffer s) (ws @ w # ws') (cs_wire s)" "buffer_within (length stream) (cs_buffer s)"
    using inv w(1) by (simp_all add: session_inv_def)
  obtain b' where b': "ws = []" "ws' = []" "0 < wr_len w" "read_bytes (cs_buffer s) (wr_len w) = Some b'"
      "buffer_within (length stream) b'" "stream = cs_wire s @ buffer_view b'"
      "length (buffer_view b') < length (buffer_view (cs_buffer s))"
    using sending_done [OF i(1) w(2) i(2)] by blast
  from start_write_view [of "s\<lparr>cs_writes := [], cs_buffer := b'\<rparr>" stream] b' buffer_within_ok [OF b'(5)] c
  show ?thesis by (auto simp: write_done_def session_inv_def)
qed

lemma socket_step_inv: "socket_step s s' \<Longrightarrow> session_inv stream s \<Longrightarrow> session_inv stream s'"
proof (induction rule: socket_step.induct)
  case (connected s s')
  then show ?case using connect_done_inv by fastforce
next
  case (writes i s k s')
  then show ?case using socket_writes_inv by blast
next
  case (written s ws w ws' s')
  then show ?case using write_done_inv [OF written.prems written.hyps(1,2)] by auto
qed

lemma net_run_inv:
  assumes "net_run c xs s" "roomy (length (stream_of c xs))"
  shows "session_inv (stream_of c xs) s"
  using assms
proof (induction rule: net_run.induct)
  case fresh
  show ?case by (simp add: session_inv_new)
next
  case (send xs s x type data s')
  have room: "roomy (length (stream_of c xs) + length (sent_frame c x))" using send.prems by simp
  have "session_inv (stream_of c xs) s" using send.IH roomy_mono [OF room] by simp
  from session_send_inv [OF this send.hyps(2) room] show ?case using send.hyps(3) by auto
next
  case (socket xs s s')
  then show ?case using socket_step_inv by blast
qed

section \<open>What the socket still sends\<close>

text \<open>A write that is not overtaken is completed, and after it the rest of the buffer is written.\<close>

lemma socket_drains:
  assumes "session_inv stream s" "\<not> overtaken (cs_buffer s) (cs_writes s)"
  shows "\<exists>s'. socket_step\<^sup>*\<^sup>* s s' \<and> session_inv stream s' \<and> cs_wire s' = stream"
proof -
  have conn: "\<exists>s'. socket_step\<^sup>*\<^sup>* s s' \<and> session_inv stream s' \<and> cs_wire s' = stream"
    if "session_inv stream s" "\<not> overtaken (cs_buffer s) (cs_writes s)" "cs_connected s" for s
    using that
  proof (induction "length (buffer_view (cs_buffer s))" arbitrary: s rule: less_induct)
    case less
    have i: "sending stream (cs_buffer s) (cs_writes s) (cs_wire s)" using less.prems by (simp add: session_inv_def)
    show ?case
    proof (cases "buffer_view (cs_buffer s) = ''''")
      case True
      then show ?thesis using sending_idle [OF i True] less.prems(1) by blast
    next
      case False
      then obtain w where w: "cs_writes s = [w]" "wr_sent w \<le> wr_len w" using i by (auto simp: sending_def)
      have "\<exists>s1 w1. socket_step\<^sup>*\<^sup>* s s1 \<and> session_inv stream s1 \<and> cs_buffer s1 = cs_buffer s \<and> cs_writes s1 = [w1] \<and>
          wr_sent w1 = wr_len w1"
      proof (cases "wr_sent w = wr_len w")
        case True
        then show ?thesis using w(1) less.prems(1) by blast
      next
        case open': False
        let ?k = "wr_len w - wr_sent w"
        have "wr_block w = bb_block (cs_buffer s)" using less.prems(2) w open' by (auto simp: overtaken_def)
        then obtain s1 where s1: "socket_writes 0 ?k s = Some s1" "cs_writes s1 = [w\<lparr>wr_sent := wr_len w\<rparr>]"
          using w by (auto simp: socket_writes_def write_some_def vec_at_def)
        then have "socket_step s s1" by (intro socket_step.writes [of 0 s ?k]) (use w open' in auto)
        moreover have "session_inv stream s1 \<and> cs_buffer s1 = cs_buffer s"
          using socket_writes_inv [OF less.prems(1) _ _ s1(1)] w by simp
        ultimately show ?thesis
          using s1(2) by (intro exI [of _ s1] exI [of _ "w\<lparr>wr_sent := wr_len w\<rparr>"]) simp
      qed
      then obtain s1 w1 where s1: "socket_step\<^sup>*\<^sup>* s s1" "session_inv stream s1" "cs_buffer s1 = cs_buffer s"
          "cs_writes s1 = [] @ w1 # []" "wr_sent w1 = wr_len w1" by auto
      obtain s2 where s2: "write_done False (wr_len w1) (s1\<lparr>cs_writes := [] @ []\<rparr>) = Some (Some s2)" "session_inv stream s2"
          "cs_connected s2" "\<not> overtaken (cs_buffer s2) (cs_writes s2)"
          "length (buffer_view (cs_buffer s2)) < length (buffer_view (cs_buffer s))"
        using write_done_inv [OF s1(2,4,5)] s1(3) by auto
      have "socket_step s1 s2" by (rule socket_step.written [OF s1(4,5) s2(1)])
      then have s: "socket_step\<^sup>*\<^sup>* s s2" using s1(1) by simp
      obtain s' where s': "socket_step\<^sup>*\<^sup>* s2 s'" "session_inv stream s'" "cs_wire s' = stream"
        using less.hyps [OF s2(5,2,4,3)] by blast
      show ?thesis using rtranclp_trans [OF s s'(1)] s'(2,3) by blast
    qed
  qed
  show ?thesis
  proof (cases "cs_connected s")
    case False
    then obtain s1 where s1: "connect_done False s = Some (Some s1)" "session_inv stream s1" "cs_connected s1"
        "\<not> overtaken (cs_buffer s1) (cs_writes s1)"
      using connect_done_inv [OF assms(1)] by blast
    then have step: "socket_step s s1" using False by (simp add: socket_step.connected)
    obtain s' where s': "socket_step\<^sup>*\<^sup>* s1 s'" "session_inv stream s'" "cs_wire s' = stream"
      using conn [OF s1(2,4,3)] by blast
    show ?thesis using converse_rtranclp_into_rtranclp [of socket_step, OF step s'(1)] s'(2,3) by blast
  qed (use conn assms in blast)
qed

text \<open>An overtaken write is the end: the next byte is read from memory that was freed.\<close>

lemma overtaken_faults:
  assumes inv: "session_inv stream s" and o: "overtaken (cs_buffer s) (cs_writes s)"
  shows "socket_writes i k s = None" "\<not> socket_step s s'" "cs_wire s \<noteq> stream"
proof -
  have "cs_connected s" using session_inv_connected [OF inv] o by (cases "cs_writes s = []") (auto simp: overtaken_def)
  then obtain w gone where w: "cs_writes s = [w]" "wr_block w \<noteq> bb_block (cs_buffer s)" "wr_sent w < wr_len w"
      "stream = gone @ buffer_view (cs_buffer s)" "wr_len w \<le> length (buffer_view (cs_buffer s))"
      "cs_wire s = gone @ take (wr_sent w) (buffer_view (cs_buffer s))"
    using inv o by (auto simp: session_inv_def sending_def overtaken_def split: if_splits)
  show f: "socket_writes i k s = None" for i k
    using w(1,2) by (cases i) (simp_all add: socket_writes_def write_some_def vec_at_def)
  show "\<not> socket_step s s'"
  proof
    assume "socket_step s s'"
    then show False using \<open>cs_connected s\<close> w(1,3) f by cases (auto simp: append_eq_Cons_conv)
  qed
  show "cs_wire s \<noteq> stream"
  proof
    assume "cs_wire s = stream"
    from arg_cong [OF this, of length] show False using w(3-6) by simp
  qed
qed

text \<open>A session with a write under way, and the next send: whether it overtakes the write.\<close>

lemma started_session:
  obtains s w where "net_run c [Tick 0] s" "session_inv (sent_frame c (Tick 0)) s" "cs_connected s"
    "buffer_view (cs_buffer s) \<noteq> ''''" "cs_writes s = [w]" "wr_sent w < wr_len w" "wr_block w = bb_block (cs_buffer s)"
proof -
  obtain type data where d: "sent_data c (Tick 0) = (type, data)" by fastforce
  have len: "length (sent_frame c (Tick 0)) = 13"
    by (simp add: sent_frame_def sent_data_def frame_of_def debug_message_def)
  have "roomy (length ('''' :: string) + length (sent_frame c (Tick 0)))"
    by (simp add: len roomy_def MIN_BUFFERING_def W32_def)
  from session_send_inv [OF session_inv_new d this] obtain s1 where s1: "session_send type data new_client_session = Some s1"
    "session_inv (sent_frame c (Tick 0)) s1" "\<not> cs_connected s1"
    by (auto simp: new_client_session_def)
  from connect_done_inv [OF s1(2,3)] obtain s where s: "connect_done False s1 = Some (Some s)"
    "session_inv (sent_frame c (Tick 0)) s" "cs_connected s" "\<not> overtaken (cs_buffer s) (cs_writes s)"
    "\<forall>w \<in> set (cs_writes s). wr_sent w = 0" "cs_buffer s = cs_buffer s1" by blast
  have v: "buffer_view (cs_buffer s) \<noteq> ''''"
    using s1(2,3) s(6) len by (auto simp: session_inv_def)
  then obtain w where w: "cs_writes s = [w]" "0 < wr_len w"
    using s(2,3) by (auto simp: session_inv_def sending_def)
  have "net_run c ([] @ [Tick 0]) s1" by (rule net_run.send [OF net_run.fresh d s1(1)])
  then have "net_run c [Tick 0] s" using net_run.socket socket_step.connected [OF s1(3) s(1)] by force
  then show thesis by (rule that) (use s v w in \<open>auto simp: overtaken_def\<close>)
qed

lemma send_during_write:
  assumes "roomy (length (stream_of c [Tick 0, x]))"
  obtains s where "net_run c [Tick 0, x] s" "cs_connected s" "cs_writes s \<noteq> []"
    "length (sent_frame c x) \<le> 4083 \<Longrightarrow> \<not> overtaken (cs_buffer s) (cs_writes s)"
    "4136 \<le> length (sent_frame c x) \<Longrightarrow> overtaken (cs_buffer s) (cs_writes s)"
proof -
  obtain s w where s: "net_run c [Tick 0] s" "session_inv (sent_frame c (Tick 0)) s" "cs_connected s"
    "buffer_view (cs_buffer s) \<noteq> ''''" "cs_writes s = [w]" "wr_sent w < wr_len w" "wr_block w = bb_block (cs_buffer s)"
    by (rule started_session)
  obtain type data where d: "sent_data c x = (type, data)" by fastforce
  have len: "length (sent_frame c (Tick 0)) = 13"
    by (simp add: sent_frame_def sent_data_def frame_of_def debug_message_def)
  have room: "roomy (length (sent_frame c (Tick 0)) + length (sent_frame c x))"
    using assms by (simp add: stream_of_def)
  from session_send_inv [OF s(2) d room] s(3,4,5) obtain s' where s': "session_send type data s = Some s'"
    "cs_connected s'" "cs_writes s' = [w]" "bb_block (cs_buffer s') \<noteq> bb_block (cs_buffer s) \<longleftrightarrow>
      length (bb_buff (cs_buffer s)) < bb_writer (cs_buffer s) + length (sent_frame c x)"
    by auto
  have b: "MIN_BUFFERING \<le> length (bb_buff (cs_buffer s))" "length (bb_buff (cs_buffer s)) \<le> 4096 + 39"
    "bb_writer (cs_buffer s) \<le> 13"
    using s(2) by (simp_all add: session_inv_def buffer_within_def len MIN_BUFFERING_def)
  have "net_run c ([Tick 0] @ [x]) s'" by (rule net_run.send [OF s(1) d s'(1)])
  then show thesis
    by (intro that [of s']) (use s' s(6,7) b in \<open>auto simp: overtaken_def MIN_BUFFERING_def\<close>)
qed

section \<open>What the other side reads\<close>

lemma session_read_torn:
  assumes "0 < length data" "length data < W32" "n < length (frame_of type data)"
  shows "session_read c (take n (frame_of type data)) = Some []"
proof (cases "n < 5")
  case True
  then show ?thesis by (subst session_read.simps) (simp add: min_less_iff_disj)
next
  case False
  then obtain k where k: "n = 5 + k" using le_Suc_ex not_less by blast
  let ?s = "take n (frame_of type data)"
  have s: "?s = char_of type # htonl (length data) @ take k data" "k < length data"
    using assms(3) take_Suc_Cons [where 'a = char, of "4 + k"] by (simp_all add: frame_of_def transport_meta_def k)
  have "take 4 (tl ?s) = htonl (length data)" "length (drop 5 ?s) < length data"
    using s by simp_all
  then show ?thesis
    using assms(2) by (subst session_read.simps) (simp add: ntohl_htonl Let_def)
qed

text \<open>Of a stream that is cut off, the messages in its complete frames.\<close>

lemma read_prefix:
  assumes ok: "msg_codec_ok c" and "stream @ rest = stream_of c xs"
    and "\<forall>x \<in> set xs. length (sent_frame c x) < W32"
  shows "\<exists>k. session_read c stream = Some (messages_of (take k xs))"
  using assms(2,3)
proof (induction xs arbitrary: stream)
  case Nil
  then show ?case by (subst session_read.simps) (simp add: messages_of_def)
next
  case (Cons x xs)
  obtain type data where d: "sent_data c x = (type, data)" by fastforce
  have "length data < W32" using Cons.prems(2) d by (simp add: sent_frame_def frame_of_def)
  note dec = decode_sent [OF ok d] this
  have split: "stream @ rest = frame_of type data @ stream_of c xs"
    using Cons.prems(1) d by (simp add: stream_of_def sent_frame_def)
  show ?case
  proof (cases "length stream < length (frame_of type data)")
    case True
    then have "stream = take (length stream) (frame_of type data)"
      using split by (metis append_eq_append_conv_if append_take_drop_id linorder_not_le take_all order_less_imp_le)
    then have "session_read c stream = Some []"
      using session_read_torn [OF dec(3,4) True, of c] by simp
    then show ?thesis by (intro exI [of _ 0]) (simp add: messages_of_def)
  next
    case False
    let ?n = "length (frame_of type data)"
    have "take ?n stream = frame_of type data" "drop ?n stream @ rest = stream_of c xs"
      using False arg_cong [OF split, of "take ?n"] arg_cong [OF split, of "drop ?n"] by simp_all
    then obtain s where s: "stream = frame_of type data @ s" "s @ rest = stream_of c xs"
      by (metis append_take_drop_id)
    obtain k where "session_read c s = Some (messages_of (take k xs))"
      using Cons.IH [OF s(2)] Cons.prems(2) by auto
    then show ?thesis
      using session_read_frame [OF dec(2-4,1), of s] s(1)
      by (intro exI [of _ "Suc k"]) (simp add: messages_of_def)
  qed
qed

lemma read_all_sent:
  assumes ok: "msg_codec_ok c" and "\<forall>x \<in> set xs. length (sent_frame c x) < W32"
  shows "session_read c (stream_of c xs) = Some (messages_of xs)"
  using assms(2)
proof (induction xs)
  case Nil
  then show ?case by (subst session_read.simps) (simp add: messages_of_def)
next
  case (Cons x xs)
  obtain type data where d: "sent_data c x = (type, data)" by fastforce
  have "length data < W32" using Cons.prems d by (simp add: sent_frame_def frame_of_def)
  from session_read_frame [OF decode_sent(2,3) [OF ok d] this decode_sent(1) [OF ok d]] show ?case
    using Cons by (simp add: sent_frame_def stream_of_def d) (simp add: messages_of_def)
qed

text \<open>What has been sent so far, read by the other side.\<close>

lemma net_run_read:
  assumes ok: "msg_codec_ok c" and run: "net_run c xs s" and room: "roomy (length (stream_of c xs))"
  shows "\<exists>k. session_read c (cs_wire s) = Some (messages_of (take k xs))"
    and "session_read c (stream_of c xs) = Some (messages_of xs)"
proof -
  have inv: "session_inv (stream_of c xs) s" using net_run_inv [OF run room] .
  have small: "\<forall>x \<in> set xs. length (sent_frame c x) < W32"
  proof
    fix x assume "x \<in> set xs"
    then have "length (sent_frame c x) \<le> length (stream_of c xs)"
      by (auto simp: stream_of_def length_concat intro: member_le_sum_list)
    then show "length (sent_frame c x) < W32" using room by (simp add: roomy_def)
  qed
  have "\<exists>rest. cs_wire s @ rest = stream_of c xs"
    using inv sending_wire by (auto simp: session_inv_def split: if_splits)
  then show "\<exists>k. session_read c (cs_wire s) = Some (messages_of (take k xs))"
    using read_prefix [OF ok _ small] by blast
  show "session_read c (stream_of c xs) = Some (messages_of xs)" by (rule read_all_sent [OF ok small])
qed

section \<open>Routing\<close>

text \<open>The messages of a batch that a peer gets; the receiver 0 stands for none.\<close>

definition addressed :: "nat \<Rightarrow> message list \<Rightarrow> sent list" where
  "addressed i ms = map Message (filter (\<lambda>m. m_to m = i \<and> i \<noteq> 0) ms)"

definition peers_inv :: "(nat \<Rightarrow> string) \<Rightarrow> transport \<Rightarrow> bool" where
  "peers_inv stream t \<longleftrightarrow>
     (\<forall>i p. map_of (tr_peers t) i = Some p \<longrightarrow> (\<exists>s. p = Some s \<and> session_inv (stream i) s))"

lemma transport_send_inv:
  assumes "peers_inv stream t"
    and "\<forall>i \<in> dom (map_of (tr_peers t)). roomy (length (stream i) + length (stream_of c (addressed i ms)))"
  shows "\<exists>t'. transport_send c ms t = Some t' \<and> dom (map_of (tr_peers t')) = dom (map_of (tr_peers t)) \<and>
    peers_inv (\<lambda>i. stream i @ stream_of c (addressed i ms)) t'"
  using assms
proof (induction ms arbitrary: stream t)
  case Nil
  then show ?case by (simp add: transport_send_def addressed_def)
next
  case (Cons m ms)
  have split: "addressed i (m # ms) = addressed i [m] @ addressed i ms" for i
    by (simp add: addressed_def)
  have "\<exists>t1. send_one c m t = Some t1 \<and> dom (map_of (tr_peers t1)) = dom (map_of (tr_peers t)) \<and>
      peers_inv (\<lambda>i. stream i @ stream_of c (addressed i [m])) t1"
  proof (cases "m_to m = 0 \<or> map_of (tr_peers t) (m_to m) = None")
    case True
    then have "send_one c m t = Some t" by (auto simp: send_one_def)
    moreover have "peers_inv (\<lambda>i. stream i @ stream_of c (addressed i [m])) t"
      using Cons.prems(1) True unfolding peers_inv_def by (auto simp: addressed_def)
    ultimately show ?thesis by blast
  next
    case False
    then obtain s where s: "map_of (tr_peers t) (m_to m) = Some (Some s)" "session_inv (stream (m_to m)) s"
      using Cons.prems(1) unfolding peers_inv_def by fastforce
    have x: "sent_data c (Message m) = (TransportTypeStream, pk_msg c m)" by (simp add: sent_data_def)
    have "roomy (length (stream (m_to m)) + length (sent_frame c (Message m)))"
      using Cons.prems(2) s(1) False by (intro roomy_mono [OF bspec [OF Cons.prems(2), of "m_to m"]])
        (auto simp: addressed_def stream_of_def)
    then obtain s' where s': "session_send TransportTypeStream (pk_msg c m) s = Some s'"
        "session_inv (stream (m_to m) @ sent_frame c (Message m)) s'"
      using session_send_inv [OF s(2) x] by blast
    let ?t = "t\<lparr>tr_peers := AList.update (m_to m) (Some s') (tr_peers t)\<rparr>"
    have "send_one c m t = Some ?t" using False s(1) s'(1) by (simp add: send_one_def peer_send_def do_send_data_def)
    moreover have "peers_inv (\<lambda>i. stream i @ stream_of c (addressed i [m])) ?t"
      using Cons.prems(1) s'(2) False unfolding peers_inv_def by (auto simp: addressed_def)
    ultimately show ?thesis using s(1) by auto
  qed
  then obtain t1 where t1: "send_one c m t = Some t1" "dom (map_of (tr_peers t1)) = dom (map_of (tr_peers t))"
      "peers_inv (\<lambda>i. stream i @ stream_of c (addressed i [m])) t1"
    by blast
  have "\<forall>i \<in> dom (map_of (tr_peers t1)).
      roomy (length (stream i @ stream_of c (addressed i [m])) + length (stream_of c (addressed i ms)))"
    using Cons.prems(2) t1(2) unfolding split by (simp add: add.assoc)
  from Cons.IH [OF t1(3) this] show ?case
    using t1(1,2) unfolding split by (simp add: transport_send_def)
qed

end
