(* ===== verification/Encodings.thy ===== *)
theory Encodings
  imports Wal_Sample Server_Store Server_Boot Transport_Stream
begin

text \<open>
  Encodings, a database and a server that satisfy the hypotheses of the properties, for their
  witnesses.  Numbers are in unary; strings and lists carry their length.
\<close>

section \<open>Building blocks\<close>

definition put_str :: "string \<Rightarrow> string" where
  "put_str s = put_num (length s) @ s"

definition get_str :: "string \<Rightarrow> string \<times> string" where
  "get_str s = (case get_num s of (n, r) \<Rightarrow> (take n r, drop n r))"

definition put_list :: "('a \<Rightarrow> string) \<Rightarrow> 'a list \<Rightarrow> string" where
  "put_list put xs = put_num (length xs) @ concat (map put xs)"

primrec get_many :: "nat \<Rightarrow> (string \<Rightarrow> 'a \<times> string) \<Rightarrow> string \<Rightarrow> 'a list \<times> string" where
  "get_many 0 get s = ([], s)"
| "get_many (Suc n) get s =
     (case get s of (x, s) \<Rightarrow> case get_many n get s of (xs, s) \<Rightarrow> (x # xs, s))"

definition get_list :: "(string \<Rightarrow> 'a \<times> string) \<Rightarrow> string \<Rightarrow> 'a list \<times> string" where
  "get_list get s = (case get_num s of (n, r) \<Rightarrow> get_many n get r)"

lemma get_put_str [simp]: "get_str (put_str x @ s) = (x, s)"
  by (simp add: get_str_def put_str_def)

lemma get_put_list [simp]:
  assumes "\<And>x s. get (put x @ s) = (x, s)"
  shows "get_list get (put_list put xs @ s) = (xs, s)"
proof -
  have "get_many (length xs) get (concat (map put xs) @ s) = (xs, s)"
    by (induction xs) (simp_all add: assms)
  then show ?thesis by (simp add: get_list_def put_list_def)
qed

section \<open>Messages\<close>

fun put_type :: "msg_type \<Rightarrow> nat" where
  "put_type MsgHup = 0" | "put_type MsgBeat = 1" | "put_type MsgProp = 2" | "put_type MsgApp = 3"
| "put_type MsgAppResp = 4" | "put_type MsgVote = 5" | "put_type MsgVoteResp = 6" | "put_type MsgSnap = 7"
| "put_type MsgHeartbeat = 8" | "put_type MsgHeartbeatResp = 9" | "put_type MsgUnreachable = 10"
| "put_type MsgSnapStatus = 11" | "put_type MsgCheckQuorum = 12" | "put_type MsgTransferLeader = 13"
| "put_type MsgTimeoutNow = 14" | "put_type MsgReadIndex = 15" | "put_type MsgReadIndexResp = 16"
| "put_type MsgPreVote = 17" | "put_type MsgPreVoteResp = 18" | "put_type (MsgUnknown b) = 19 + b"

definition get_type :: "nat \<Rightarrow> msg_type" where
  "get_type n =
     (if n < 19 then [MsgHup, MsgBeat, MsgProp, MsgApp, MsgAppResp, MsgVote, MsgVoteResp, MsgSnap,
        MsgHeartbeat, MsgHeartbeatResp, MsgUnreachable, MsgSnapStatus, MsgCheckQuorum,
        MsgTransferLeader, MsgTimeoutNow, MsgReadIndex, MsgReadIndexResp, MsgPreVote, MsgPreVoteResp] ! n
      else MsgUnknown (n - 19))"

lemma get_put_type [simp]: "get_type (put_type t) = t"
  by (cases t) (simp_all add: get_type_def)

definition put_entry :: "entry \<Rightarrow> string" where
  "put_entry e = put_num (e_type e) @ put_num (e_term e) @ put_num (e_index e) @ put_str (e_data e)"

definition get_entry :: "string \<Rightarrow> entry \<times> string" where
  "get_entry s = (let (t, s) = get_num s; (tm, s) = get_num s; (i, s) = get_num s; (d, s) = get_str s in
     (\<lparr>e_type = t, e_term = tm, e_index = i, e_data = d\<rparr>, s))"

lemma get_put_entry [simp]: "get_entry (put_entry e @ s) = (e, s)"
  by (simp add: get_entry_def put_entry_def)

definition put_snapshot :: "snapshot \<Rightarrow> string" where
  "put_snapshot x = put_list put_num (cs_nodes (s_conf x)) @ put_list put_num (cs_learners (s_conf x)) @
     put_num (s_index x) @ put_num (s_term x) @ put_str (s_data x)"

definition get_snapshot_enc :: "string \<Rightarrow> snapshot \<times> string" where
  "get_snapshot_enc s = (let (ns, s) = get_list get_num s; (ls, s) = get_list get_num s;
       (i, s) = get_num s; (t, s) = get_num s; (d, s) = get_str s in
     (\<lparr>s_data = d, s_metadata = \<lparr>sm_conf_state = \<lparr>cs_nodes = ns, cs_learners = ls\<rparr>, sm_index = i, sm_term = t\<rparr>\<rparr>, s))"

lemma get_put_snapshot [simp]: "get_snapshot_enc (put_snapshot x @ s) = (x, s)"
  by (simp add: get_snapshot_enc_def put_snapshot_def)

definition put_message :: "message \<Rightarrow> string" where
  "put_message m = put_num (put_type (m_type m)) @ put_num (m_to m) @ put_num (m_from m) @ put_num (m_term m) @
     put_num (m_log_term m) @ put_num (m_index m) @ put_list put_entry (m_entries m) @ put_num (m_commit m) @
     put_snapshot (m_snapshot m) @ put_num (if m_reject m then 1 else 0) @ put_num (m_reject_hint m) @
     put_str (m_context m)"

definition get_message :: "string \<Rightarrow> message" where
  "get_message s = (let (t, s) = get_num s; (to, s) = get_num s; (fr, s) = get_num s; (tm, s) = get_num s;
       (lt, s) = get_num s; (i, s) = get_num s; (es, s) = get_list get_entry s; (c, s) = get_num s;
       (sn, s) = get_snapshot_enc s; (r, s) = get_num s; (h, s) = get_num s; (ctx, s) = get_str s in
     \<lparr>m_type = get_type t, m_to = to, m_from = fr, m_term = tm, m_log_term = lt, m_index = i, m_entries = es,
      m_commit = c, m_snapshot = sn, m_reject = (r = 1), m_reject_hint = h, m_context = ctx\<rparr>)"

definition sample_msgs :: msg_codec where
  "sample_msgs = \<lparr>pk_msg = put_message, up_msg = (\<lambda>s. Some (get_message s))\<rparr>"

lemma put_num_ne [simp]: "put_num n \<noteq> ''''"
  by (simp add: put_num_def)

lemma sample_msgs_ok: "msg_codec_ok sample_msgs"
proof -
  have "get_message (put_message m) = m" for m
    using get_put_str [of "m_context m" "''''"] by (simp add: get_message_def put_message_def)
  then show ?thesis by (simp add: msg_codec_ok_def sample_msgs_def) (simp add: put_message_def)
qed

section \<open>Snapshot files\<close>

definition sample_snaps :: snap_codec where
  "sample_snaps = \<lparr>pk_snapshot = put_snapshot, up_snapshot = (\<lambda>s old. (True, fst (get_snapshot_enc s)))\<rparr>"

lemma sample_snaps_ok: "snap_codec_ok sample_snaps"
  using get_put_snapshot [of _ "''''"] by (simp add: snap_codec_ok_def sample_snaps_def)

section \<open>The key-value store\<close>

definition sample_kv :: kv_codec where
  "sample_kv = \<lparr>
     pk_commit = (\<lambda>c. put_num (cm_node c) @ put_num (cm_id c) @ put_num (rc_type (cm_data c)) @
       put_list put_str (rc_strs (cm_data c))),
     up_commit = (\<lambda>s. let (n, s) = get_num s; (i, s) = get_num s; (t, s) = get_num s;
         (xs, s) = get_list get_str (s @ '''') in
       Some \<lparr>cm_node = n, cm_id = i, cm_data = \<lparr>rc_type = t, rc_strs = xs\<rparr>\<rparr>),
     pk_kvs = put_list (\<lambda>(k, v). put_str k @ put_str v),
     up_kvs = (\<lambda>s. Pairs (fst (get_list (\<lambda>s. let (k, s) = get_str s; (v, s) = get_str s in ((k, v), s)) (s @ ''''))))\<rparr>"

lemma sample_kv_ok: "kv_codec_ok sample_kv"
proof -
  let ?put = "\<lambda>(k, v). put_str k @ put_str v"
    and ?get = "\<lambda>s. let (k, s) = get_str s; (v, s) = get_str s in ((k, v), s)"
  have "get_list ?get (put_list ?put kvs @ '''') = (kvs, '''')" for kvs
    by (rule get_put_list) (simp add: split_def)
  then show ?thesis
    by (simp add: kv_codec_ok_def sample_kv_def del: append_Nil2)
qed

definition sample_db :: "kvs database" where
  "sample_db = \<lparr>
     db_get = (\<lambda>d k. case map_of d k of Some v \<Rightarrow> Got v | None \<Rightarrow> Absent),
     db_put = (\<lambda>d k v. (True, AList.update k v d)),
     db_delete = (\<lambda>d k. (True, AList.delete k d)),
     db_write = (\<lambda>d ops. (True, fold (\<lambda>op d. case op of Put k v \<Rightarrow> AList.update k v d | Delete k \<Rightarrow> AList.delete k d) ops d)),
     db_scan = AList.clearjunk\<rparr>"

lemma sample_db_ok: "database_ok sample_db map_of"
proof -
  let ?f = "\<lambda>op d. case op of Put k v \<Rightarrow> AList.update k v d | Delete k \<Rightarrow> AList.delete k d"
  have step: "map_of (?f op d) = batch_view op (map_of d)" for op d
    by (cases op) simp_all
  have "map_of (fold ?f ops d) = fold batch_view ops (map_of d)" for ops d
    by (induction ops arbitrary: d) (simp_all add: step)
  then show ?thesis
    by (simp add: database_ok_def sample_db_def map_of_clearjunk distinct_clearjunk)
qed

definition sample_store :: "kvs store" where
  "sample_store = \<lparr>st_node = 1, st_db = [(''a'', ''1''), (''b'', ''2'')], st_next_id = 0, st_pending = [], st_answers = []\<rparr>"

section \<open>A server\<close>

definition sample_env :: env where
  "sample_env = \<lparr>en_codec = sample_codec, en_snaps = sample_snaps, en_ser = text_of,
     en_conf = (\<lambda>s. None), kv_data = (\<lambda>es. '''')\<rparr>"

text \<open>A leader with two entries to save, a message to send and one entry to apply, a request of its own.\<close>

definition sample_commit :: raft_commit where
  "sample_commit = \<lparr>cm_node = 1, cm_id = 0, cm_data = \<lparr>rc_type = kCommitSet, rc_strs = [''a'', ''9'']\<rparr>\<rparr>"

definition sample_request :: string where
  "sample_request = pk_commit sample_kv sample_commit"

definition server_log :: raft_log where
  "server_log = sample_log\<lparr>l_storage := sample_storage\<lparr>ms_entries :=
     [mk_entry 1 2 '''', mk_entry 1 3 ''a'', mk_entry 2 4 sample_request]\<rparr>\<rparr>"

definition sample_server :: server where
  "sample_server = \<lparr>sv_id = 1, sv_last_index = 0, sv_conf_state = empty_conf_state, sv_snapshot_index = 2,
     sv_applied_index = 3,
     sv_node = \<lparr>n_raft = sample_leader\<lparr>r_log := server_log, r_msgs := [sample_append]\<rparr>,
       n_prev_soft = \<lparr>ss_lead = 0, ss_state = Follower\<rparr>, n_prev_hard = empty_hard_state\<rparr>,
     sv_snap_data = '''', sv_snap_count = defaultSnapCount, sv_snaps = [], sv_wal = sample_wal, sv_events = []\<rparr>"

lemma server_log_view:
  "log_ok server_log" "log_base server_log = 2" "l_committed server_log = 4" "l_applied server_log = 3"
  "waiting server_log = [mk_entry 2 4 sample_request]"
  by code_simp+

lemma sample_server_parts:
  "sv_log sample_server = server_log" "r_msgs (n_raft (sv_node sample_server)) = [sample_append]"
  "sv_events sample_server = []"
  by (simp_all add: sample_server_def)

lemma sample_server_ok: "server_ok sample_server"
proof -
  have "w_files sample_wal \<noteq> []" by (simp add: sample_wal_def)
  then show ?thesis
    using server_log_view sample_server_parts(1)
    by (simp add: server_ok_def) (simp add: sample_server_def server_log_def sample_log_def sample_storage_def
        new_memory_storage_def empty_snapshot_def)
qed

lemma up_sample_request: "up_commit sample_kv sample_request = Some sample_commit"
  using sample_kv_ok by (simp add: kv_codec_ok_def sample_request_def)

lemma sample_waiting:
  "plain sample_env (waiting (sv_log sample_server))" "effects sample_env (waiting (sv_log sample_server)) = [Commit (mk_entry 2 4 sample_request)]"
  "requests (waiting (sv_log sample_server)) = [sample_request]" "entry_well_formed sample_kv sample_request"
  "entry_view sample_kv sample_request m = m(''a'' \<mapsto> ''9'')"
proof -
  have ne: "sample_request \<noteq> ''''" by (simp add: sample_request_def sample_kv_def)
  show "plain sample_env (waiting (sv_log sample_server))" "effects sample_env (waiting (sv_log sample_server)) = [Commit (mk_entry 2 4 sample_request)]"
    "requests (waiting (sv_log sample_server)) = [sample_request]"
    using ne by (simp_all add: sample_server_parts server_log_view mk_entry_def plain_entry_def entry_events_def requests_def)
  show "entry_well_formed sample_kv sample_request" "entry_view sample_kv sample_request m = m(''a'' \<mapsto> ''9'')"
    by (simp_all add: entry_well_formed_def entry_view_def up_sample_request)
       (simp_all add: sample_commit_def well_formed_def commit_view_def)
qed

text \<open>A server that has applied \<open>n\<close> entries since it started.\<close>

definition long_log :: "nat \<Rightarrow> raft_log" where
  "long_log n = \<lparr>l_storage = new_memory_storage\<lparr>ms_entries := map (\<lambda>i. mk_entry 1 i '''') [0..<Suc n]\<rparr>,
     l_unstable = \<lparr>u_snapshot = None, u_entries = [], u_offset = n + 1\<rparr>,
     l_committed = n, l_applied = n, l_max_next_ents_size = 1000\<rparr>"

definition busy_server :: "nat \<Rightarrow> server" where
  "busy_server n = sample_server\<lparr>sv_node := (sv_node sample_server)\<lparr>n_raft := sample_leader\<lparr>r_log := long_log n\<rparr>\<rparr>,
     sv_snapshot_index := 0, sv_applied_index := n\<rparr>"

lemma busy_server_ok:
  assumes "n + 1 < W64"
  shows "server_ok (busy_server n)" "u_entries (l_unstable (sv_log (busy_server n))) = []"
    "storage_base (l_storage (sv_log (busy_server n))) = 0"
proof -
  have [simp]: "hd (map f [0..<Suc n]) = f 0" for f :: "nat \<Rightarrow> entry"
    by (simp add: upt_conv_Cons del: upt_Suc)
  have st: "storage_ok (l_storage (long_log n))" "storage_base (l_storage (long_log n)) = 0"
      "length (storage_ents (l_storage (long_log n))) = n"
    using assms by (simp_all add: storage_ok_def storage_base_def storage_ents_def long_log_def consec_def
        mk_entry_def comp_def del: upt_Suc)
  moreover have "storage_end (l_storage (long_log n)) = n" using st by (simp add: storage_end_def)
  moreover have u: "l_unstable (long_log n) = \<lparr>u_snapshot = None, u_entries = [], u_offset = n + 1\<rparr>"
    "l_committed (long_log n) = n"
    by (simp_all add: long_log_def)
  ultimately have "log_ok (long_log n)" "log_base (long_log n) = 0"
    using assms by (simp_all add: log_ok_def log_shape_def log_view_defs unstable_ok_def)
  moreover note st u
  moreover have "w_files sample_wal \<noteq> []" by (simp add: sample_wal_def)
  ultimately show "server_ok (busy_server n)" "u_entries (l_unstable (sv_log (busy_server n))) = []"
    "storage_base (l_storage (sv_log (busy_server n))) = 0"
    by (simp_all add: server_ok_def busy_server_def sample_server_def)
       (simp_all add: long_log_def new_memory_storage_def empty_snapshot_def)
qed

text \<open>A server of a cluster of its own, on a new disk.\<close>

definition put_conf :: "conf_change \<Rightarrow> string" where
  "put_conf cc = put_num (cc_id cc) @ put_num (cc_type cc) @ put_num (cc_node_id cc) @ cc_context cc"

definition get_conf :: "string \<Rightarrow> conf_change option" where
  "get_conf s =
     (let (i, s1) = get_num s; (t, s2) = get_num s1; (n, s3) = get_num s2
      in Some \<lparr>cc_id = i, cc_type = t, cc_node_id = n, cc_context = s3\<rparr>)"

lemma get_put_conf [simp]: "get_conf (put_conf cc) = Some cc"
  by (simp add: get_conf_def put_conf_def)

definition boot_env :: env where
  "boot_env = sample_env\<lparr>en_ser := put_conf, en_conf := get_conf\<rparr>"

definition new_disk :: disk where
  "new_disk = \<lparr>dk_wal = None, dk_snap = []\<rparr>"

definition booted_server :: "server option" where
  "booted_server = new_server boot_env length (\<lambda>_. 0) 1 1 new_disk"

lemma booted: "booted_server \<noteq> None"
  by code_simp

definition restarted_server :: "server option" where
  "restarted_server = new_server boot_env length (\<lambda>_. 0) 1 1 (crashed_disk (en_codec boot_env) sample_ops 60)"

text \<open>A server whose node has just received a snapshot of another store.\<close>

definition store_snapshot :: snapshot where
  "store_snapshot = sample_snapshot\<lparr>s_data := get_snapshot sample_db sample_kv sample_store\<rparr>"

definition lagging_server :: server where
  "lagging_server = sample_server\<lparr>sv_node := (sv_node sample_server)\<lparr>n_raft :=
     sample_follower\<lparr>r_log := log_restore sample_log store_snapshot\<rparr>\<rparr>\<rparr>"

lemma lagging_server_ok: "installing store_snapshot lagging_server"
proof -
  have l: "log_ok (log_restore sample_log store_snapshot)"
    "sv_log lagging_server = log_restore sample_log store_snapshot"
    "s_index (ms_snapshot (l_storage (sv_log lagging_server))) = 0" "l_applied (sv_log lagging_server) = 3"
    "u_snapshot (l_unstable (sv_log lagging_server)) = Some store_snapshot" "s_index store_snapshot = 9"
    by code_simp+
  then show ?thesis
    by (simp add: installing_def) (simp add: lagging_server_def sample_server_def sample_wal_def)
qed

end
