(* ===== verification/Spec2Isabelle.thy ===== *)
theory Spec2Isabelle
  imports Raft_Logs Wal_Sample Server_Store Encodings
begin

text \<open>
  A verification development for the key-value server under \<open>src/raft-kv\<close>: a C++ port of the etcd raft
  library, a write-ahead log and snapshot files, a store on RocksDB, and a front end that speaks the Redis
  protocol.

  \<^bold>\<open>The program.\<close>  A client's command arrives on a Redis session (\<open>server/redis_session.cpp\<close>).  Reads are
  answered from the store (\<open>server/redis_store.cpp\<close>) at once; a write becomes a proposal of the raft
  node.  The server around the node (\<open>server/raft_node.cpp\<close>) feeds it ticks, proposals and messages, and
  works off the batches it hands out (the ready loop): it saves entries and hard state to the log on disk
  (\<open>wal/wal.cpp\<close>), installs snapshots (\<open>snap/snapshotter.cpp\<close>), appends to the in-memory storage
  (\<open>raft/storage.cpp\<close>), gives messages to the transport (\<open>transport\<close>) and committed entries to the
  store, and takes snapshots and compacts the log.  The node (\<open>raft/raft.cpp\<close>, \<open>raft/node.cpp\<close>) keeps the
  protocol state: the log over stable and unstable part (\<open>raft/raft_log.cpp\<close>, \<open>raft/unstable.cpp\<close>), the
  leader's view of its followers (\<open>raft/progress.cpp\<close>) and pending reads (\<open>raft/readonly.cpp\<close>).

  \<^bold>\<open>Conventions.\<close>  A function that may kill the process (a failed \<open>LOG_FATAL\<close> or \<open>assert\<close>, an exception that
  nobody catches, an access out of range, a null pointer) returns an option, \<open>None\<close> being death; a
  \<open>Status\<close> is a value.  Unsigned integers of 64 and 32 bits are natural numbers with wrapping \<open>add64\<close>,
  \<open>sub64\<close>, \<open>add32\<close>, \<open>sub32\<close> (\<open>Prelude\<close>).  Objects are records that are passed along, C++ maps are
  association lists, shared pointers are the values they point to, where the code does not write
  through two of them; the storage that the log and the server share is a field of the log, and the move
  that empties the snapshot it shares with the server is written out (\<open>schedule\<close>).  A socket that writes
  has a pointer into the send buffer: an allocation and an offset, read when the bytes are sent.  A null
  entry in a vector of shared pointers is \<open>None\<close>, and reading through it is death in the model at the
  place where the vector is consumed.  Loops are \<open>each\<close>, recursion, or \<open>partial_function\<close> where they may
  not end.

  \<^bold>\<open>Parameters.\<close>  Code outside \<open>src\<close> is a parameter: msgpack and the CRC of the logs (\<open>codec\<close>, with the
  hypothesis \<open>codec_ok\<close>: what was packed unpacks), of snapshots (\<open>snap_codec\<close>), of messages
  (\<open>msg_codec\<close>) and of the store (\<open>kv_codec\<close>); RocksDB as a map with an ordered scan (\<open>database\<close>,
  \<open>database_ok\<close>); the hiredis reader (\<open>redis_reader\<close>); the random device as a sequence of numbers; the
  file size \<open>ftell\<close> reports.  \<open>Wal_Sample\<close> and \<open>Encodings\<close> give concrete instances, which the witnesses use.

  \<^bold>\<open>Theories and code.\<close>
  \<^item> \<open>Proto\<close>: \<open>raft/proto.h\<close>, \<open>proto.cpp\<close>, \<open>common/status.h\<close>.  \<open>Config\<close>: \<open>raft/config.h\<close>, \<open>config.cpp\<close>.
  \<^item> \<open>Unstable\<close>, \<open>Storage\<close>, \<open>Raft_Log\<close>: the files of the same names and parts of \<open>raft/util.cpp\<close>; \<open>Log_View\<close>
    has the locales of a log that is read and appended to, with the storage as an instance, \<open>Log_Correct\<close>
    the log of the node as another, \<open>Log_Spec\<close> and \<open>Log_Persist\<close> what its operations do to the abstract
    log: a base, the term there, and the entries behind it.
  \<^item> \<open>Progress\<close>, \<open>Readonly\<close>: the files of the same names, with the ring buffer of in-flight messages as a
    bounded queue.
  \<^item> \<open>Raft_State\<close>, \<open>Raft_Send\<close>, \<open>Raft_Step\<close>: \<open>raft/raft.h\<close> and \<open>raft/raft.cpp\<close>, in the order state,
    sending and role changes, handlers and clock.  \<open>Node\<close>: \<open>raft/ready\<close>, \<open>raft/node\<close>.
  \<^item> \<open>Quorum\<close>, \<open>Raft_Frame\<close>, \<open>Raft_Stays\<close>, \<open>Raft_Vote\<close>, \<open>Raft_Elect\<close>, \<open>Raft_Safe\<close>, \<open>Cluster\<close>: what one node
    guarantees about elections whatever it receives, and a cluster with a network that loses, delays,
    repeats and reorders, in which at most one node leads in a term.  The calls a server makes on its node
    are \<open>input_call\<close>, a round of its ready loop is \<open>pull_ready\<close>, compaction is \<open>take_snapshot\<close>.
    \<open>Raft_Logs\<close>: what every step does to the log of a node.  \<open>Raft_Replicate\<close>: the commit rule.
  \<^item> \<open>Node_Boot\<close>: the log of a node that was just built.  \<open>Replica_History\<close>, \<open>Replica_Growth\<close>: a history of
    the logs of leaders and candidates, the votes and the acknowledgements of a run, what makes it
    consistent, and how one step may extend it.  \<open>Replica_Log\<close>, \<open>Replica_Node\<close>: the log, a node and a message
    against the history.  \<open>Replica_Send\<close>, \<open>Replica_Follow\<close>, \<open>Replica_Lead\<close>, \<open>Replica_Elect\<close>, \<open>Replica_Step\<close>:
    every function of \<open>raft.cpp\<close> that a step or a tick calls extends the history.  \<open>Replica_Ready\<close>,
    \<open>Replica_Cluster\<close>: the ready loop, the cluster (\<open>replica_step\<close>) and its invariant.  \<open>Replica_Safety\<close>: two
    nodes at two moments of a run.  \<open>Runs\<close>, \<open>Samples\<close>: concrete runs and states, by evaluation.
  \<^item> \<open>Wal\<close>, \<open>Wal_Names\<close>: \<open>wal/wal.h\<close>, \<open>wal/wal.cpp\<close>.  \<open>Wal_Frames\<close>, \<open>Wal_Replay\<close>, \<open>Wal_Restart\<close>, \<open>Wal_Dir\<close>:
    records read back, also from a torn file; the log on disk and the storage agree.
  \<^item> \<open>Snapshotter\<close>: \<open>snap/snapshotter.cpp\<close>.  \<open>Server\<close>: \<open>server/raft_node.cpp\<close>.  \<open>Server_Rounds\<close>,
    \<open>Server_Loop\<close>: one round of the ready loop, with and without a snapshot to install, and the loop.
    \<open>Server_Inputs\<close>: runs of the server.  \<open>Server_Boot\<close>: its start, on a new disk and on what a crash left.
  \<^item> \<open>Glob\<close>, \<open>Redis_Store\<close>: \<open>server/redis_store.cpp\<close>, the pattern matcher apart.  \<open>Store_Correct\<close>: the store
    against its content.  \<open>Server_Store\<close>: the server and its store together.
  \<^item> \<open>Redis_Session\<close>, \<open>Session_Correct\<close>: \<open>server/redis_session.cpp\<close>.  \<open>Byte_Buffer\<close>: \<open>common/bytebuffer\<close>,
    and the asynchronous writes that read from it.
  \<^item> \<open>Transport\<close>, \<open>Transport_Stream\<close>: \<open>transport\<close>, without its sockets.

  \<^bold>\<open>Results.\<close>  The properties below are grouped by component.  The first are the safety properties of
  raft, of the code's own steps: election safety, state machine safety, leader completeness and log
  matching hold in a cluster of any size that is booted without pre-vote and whose membership stays that of
  its first start; leaders only append (C8).  Most others say that the code does what it is for; some state
  a flaw, as the development found it (an election with pre-vote, a tail that comes back after a restart, a
  configuration change that is skipped, a false answer after a restart, a lost line, a write that reads
  freed memory).

  \<^bold>\<open>Bounds.\<close>  Indices and terms stay below \<open>2^64\<close>: a step of the cluster is taken while the term can still
  be increased (\<open>can_step\<close>) and, where logs are compared, while the last index leaves room for the entries
  of the step (\<open>has_room\<close>).  A node of that cluster compacts what it has applied, as the server does, while no
  received snapshot waits to be installed.  Other theorems about logs ask for room for the entries of a
  step.  A buffer holds less than 680 MB (\<open>roomy\<close>), which keeps the product that sizes it below \<open>2^32\<close>.  Request numbers of the store
  are counted below \<open>2^32\<close>.  A record of the log is at most 16 MiB (\<open>item_fits\<close>).  No loop of
  the model has fuel: \<open>pull_ready_events\<close> and \<open>send_all\<close> are partial functions, which C23 and
  \<open>send_all_returns\<close> (\<open>Raft_Frame\<close>) show to end.  The prefix \<open>k\<close> of a torn file is universally quantified.

  \<^bold>\<open>Not modelled.\<close>  Sockets, threads and the event loop (a callback is one atomic step; the writes that are
  under way are a state of the session, and a socket sends their bytes in pieces of any size),
  addresses, signals, the command line (\<open>raft-kv.cpp\<close>), printing and logging other than fatal, \<open>raft_status\<close> (an empty stub), errors of the operating system, checkpoints of
  RocksDB (one call), and \<open>src/raft-kv-master\<close>, an older copy of the same program that is kept in the
  repository, and the tests.
\<close>

section \<open>Safety of the cluster\<close>

text \<open>
  C1. Election safety.  In a cluster that is booted without pre-vote, however its messages are
  delayed, repeated, reordered or lost and whenever its clocks tick, two nodes that lead in the same
  term, at any two moments of a run, are one node.
\<close>

theorem election_safety:
  assumes "cluster_boot False ser peers cl0"
    and "(cluster_step ser (fst ` set peers))\<^sup>*\<^sup>* cl0 cl"
    and "(cluster_step ser (fst ` set peers))\<^sup>*\<^sup>* cl cl'"
    and "i \<in> fst ` set peers" "r_state (cl_raft cl i) = Leader"
    and "j \<in> fst ` set peers" "r_state (cl_raft cl' j) = Leader"
    and "r_term (cl_raft cl i) = r_term (cl_raft cl' j)"
  shows "i = j"
  using one_leader [OF cluster_inv_reachable [OF assms(1,2)] assms(3)] assms(4-8) by blast

theorem election_safety_witness:
  "\<exists>cl0 cl i j. cluster_boot False text_of trio cl0 \<and>
     (cluster_step text_of (fst ` set trio))\<^sup>*\<^sup>* cl0 cl \<and> r_state (cl_raft cl i) = Leader \<and>
     r_term (cl_raft cl i) = 2 \<and> r_state (cl_raft cl j) = Leader \<and> i = j"
proof -
  obtain cl0 cl where cl: "cluster_boot False text_of trio cl0"
    "(cluster_step text_of (fst ` set trio))\<^sup>*\<^sup>* cl0 cl"
    "r_state (cl_raft cl 1) = Leader" "r_term (cl_raft cl 1) = 2"
    using outcome_cluster [OF replicate_outcome] by blast
  have "(1::nat) = 1"
    using election_safety [OF cl(1,2) rtranclp.rtrancl_refl _ cl(3) _ cl(3) refl] trio_ids by simp
  then show ?thesis using cl by blast
qed

text \<open>
  C2. State machine safety.  In a cluster that is booted without pre-vote, two nodes, at any two
  moments of a run, never hand their applications different entries for the same index.
\<close>

theorem state_machine_safety:
  assumes "cluster_boot False ser peers cl0"
    and "(replica_step ser (fst ` set peers))\<^sup>*\<^sup>* cl0 cl"
    and "(replica_step ser (fst ` set peers))\<^sup>*\<^sup>* cl cl'"
    and "i \<in> fst ` set peers" "node_ready (cl_nodes cl i) = Some (rd, n)" "e \<in> set (rd_committed rd)"
    and "j \<in> fst ` set peers" "node_ready (cl_nodes cl' j) = Some (rd', n')" "e' \<in> set (rd_committed rd')"
    and "e_index e = e_index e'"
  shows "e = e'"
proof -
  obtain h X Y where h: "history_ok (fst ` set peers) h"
    "stands_for (fst ` set peers) h X (cl_raft cl i)" "stands_for (fst ` set peers) h Y (cl_raft cl' j)"
    by (rule two_moments [OF assms(1-3,4,7)])
  then show ?thesis
    using handed_out [OF h(1) _ assms(5,6)] handed_out [OF h(1) _ assms(8,9)] committed_same [OF h] assms(10)
    by (simp add: cl_raft_def)
qed

theorem state_machine_safety_witness:
  "\<exists>cl0 cl rd n rd' n'. cluster_boot False text_of trio cl0 \<and>
     (replica_step text_of (fst ` set trio))\<^sup>*\<^sup>* cl0 cl \<and>
     node_ready (cl_nodes cl 2) = Some (rd, n) \<and> rd_committed rd = [entry_x] \<and>
     node_ready (cl_nodes cl 3) = Some (rd', n') \<and> hd (rd_committed rd') = entry_x"
proof -
  obtain cl0 cl where cl: "cluster_boot False text_of trio cl0"
    "(replica_step text_of (fst ` set trio))\<^sup>*\<^sup>* cl0 cl"
    "shown (cl_nodes cl 2) = (Some [entry_x], (Follower, 2, 5), Some entry_blank, Some entry_x)"
    "shown (cl_nodes cl 3) = (Some [entry_x], (Follower, 2, 5), Some entry_blank, Some entry_x)"
    using observe_cluster [OF replicate_shown] by blast
  obtain rd n rd' n' where r: "node_ready (cl_nodes cl 2) = Some (rd, n)" "rd_committed rd = [entry_x]"
    "node_ready (cl_nodes cl 3) = Some (rd', n')" "rd_committed rd' = [entry_x]"
    using cl(3,4) by (auto simp: shown_def)
  have "hd (rd_committed rd') = entry_x"
    by (rule state_machine_safety [OF cl(1,2) rtranclp.rtrancl_refl _ r(3) _ _ r(1)])
      (use r(2,4) trio_ids in auto)
  then show ?thesis using cl(1,2) r(1-3) by blast
qed

text \<open>
  C3. Leader completeness.  An entry that a node has committed in some term is in the log of every
  node that leads in that term or a later one: reading it there gives the entry, unless the leader has
  compacted it away.
\<close>

theorem leader_completeness:
  assumes "cluster_boot False ser peers cl0"
    and "(replica_step ser (fst ` set peers))\<^sup>*\<^sup>* cl0 cl"
    and "(replica_step ser (fst ` set peers))\<^sup>*\<^sup>* cl cl'"
    and "i \<in> fst ` set peers" "entry_at (r_log (cl_raft cl i)) k = Some e" "k \<le> l_committed (r_log (cl_raft cl i))"
    and "j \<in> fst ` set peers" "r_state (cl_raft cl' j) = Leader" "r_term (cl_raft cl i) \<le> r_term (cl_raft cl' j)"
  shows "entry_at (r_log (cl_raft cl' j)) k = Some e \<or>
    log_slice (r_log (cl_raft cl' j)) k (k + 1) unlimited = Some (Inl compacted)"
proof -
  obtain h X Y where h: "history_ok (fst ` set peers) h"
    "stands_for (fst ` set peers) h X (cl_raft cl i)" "stands_for (fst ` set peers) h Y (cl_raft cl' j)"
    "r_state (cl_raft cl' j) = Leader \<Longrightarrow> h_lead_log h (r_term (cl_raft cl' j)) = Some Y"
    by (rule two_moments [OF assms(1-3,4,7)]) (rule that; blast)
  show ?thesis by (rule leader_has [OF h(1-3) h(4) [OF assms(8)] assms(9,6,5)])
qed

theorem leader_completeness_witness:
  "\<exists>cl0 cl. cluster_boot False text_of trio cl0 \<and>
     (replica_step text_of (fst ` set trio))\<^sup>*\<^sup>* cl0 cl \<and>
     r_state (cl_raft cl 1) = Leader \<and> l_committed (r_log (cl_raft cl 2)) = 5 \<and>
     entry_at (r_log (cl_raft cl 2)) 5 = Some entry_x \<and>
     (entry_at (r_log (cl_raft cl 1)) 5 = Some entry_x \<or>
      log_slice (r_log (cl_raft cl 1)) 5 (5 + 1) unlimited = Some (Inl compacted))"
proof -
  obtain cl0 cl where cl: "cluster_boot False text_of trio cl0"
    "(replica_step text_of (fst ` set trio))\<^sup>*\<^sup>* cl0 cl"
    "shown (cl_nodes cl 1) = (Some [], (Leader, 2, 5), Some entry_blank, Some entry_x)"
    "shown (cl_nodes cl 2) = (Some [entry_x], (Follower, 2, 5), Some entry_blank, Some entry_x)"
    using observe_cluster [OF replicate_shown] by blast
  then have r: "r_state (cl_raft cl 1) = Leader" "r_term (cl_raft cl 1) = 2" "r_term (cl_raft cl 2) = 2"
    "l_committed (r_log (cl_raft cl 2)) = 5" "entry_at (r_log (cl_raft cl 2)) 5 = Some entry_x"
    by (simp_all add: shown_def cl_raft_def)
  have "entry_at (r_log (cl_raft cl 1)) 5 = Some entry_x \<or>
      log_slice (r_log (cl_raft cl 1)) 5 (5 + 1) unlimited = Some (Inl compacted)"
    by (rule leader_completeness [OF cl(1,2) rtranclp.rtrancl_refl _ r(5) _ _ r(1)])
      (use r(2-4) trio_ids in auto)
  then show ?thesis using cl(1,2) r(1,4,5) by blast
qed

text \<open>
  C4. Log matching.  If two logs, at any two moments of a run, have an entry of the same term at the
  same index, they have the same entries at all indices before it that both still hold.
\<close>

theorem log_matching:
  assumes "cluster_boot False ser peers cl0"
    and "(replica_step ser (fst ` set peers))\<^sup>*\<^sup>* cl0 cl"
    and "(replica_step ser (fst ` set peers))\<^sup>*\<^sup>* cl cl'"
    and "i \<in> fst ` set peers" "log_term (r_log (cl_raft cl i)) k = Some (Inr t)"
    and "j \<in> fst ` set peers" "log_term (r_log (cl_raft cl' j)) k = Some (Inr t)" "t \<noteq> 0"
    and "p \<le> k" "entry_at (r_log (cl_raft cl i)) p = Some e" "entry_at (r_log (cl_raft cl' j)) p = Some e'"
  shows "e = e'"
proof -
  obtain h X Y where "stands_for (fst ` set peers) h X (cl_raft cl i)"
    "stands_for (fst ` set peers) h Y (cl_raft cl' j)"
    by (rule two_moments [OF assms(1-3,4,6)])
  then show ?thesis by (rule matching_same [OF _ _ assms(5,7-11)])
qed

theorem log_matching_witness:
  "\<exists>cl0 cl. cluster_boot False text_of trio cl0 \<and>
     (replica_step text_of (fst ` set trio))\<^sup>*\<^sup>* cl0 cl \<and>
     log_term (r_log (cl_raft cl 1)) 5 = Some (Inr 2) \<and> log_term (r_log (cl_raft cl 3)) 5 = Some (Inr 2) \<and>
     entry_at (r_log (cl_raft cl 1)) 4 = Some entry_blank \<and>
     the (entry_at (r_log (cl_raft cl 3)) 4) = entry_blank"
proof -
  obtain cl0 cl where cl: "cluster_boot False text_of trio cl0"
    "(replica_step text_of (fst ` set trio))\<^sup>*\<^sup>* cl0 cl"
    "last_terms (cl_nodes cl 1) = (Some (Inr 2), Some entry_blank)"
    "last_terms (cl_nodes cl 3) = (Some (Inr 2), Some entry_blank)"
    using observe_cluster [OF replicate_terms] by blast
  then have r: "log_term (r_log (cl_raft cl 1)) 5 = Some (Inr 2)" "log_term (r_log (cl_raft cl 3)) 5 = Some (Inr 2)"
    "entry_at (r_log (cl_raft cl 1)) 4 = Some entry_blank"
    "entry_at (r_log (cl_raft cl 3)) 4 = Some (the (entry_at (r_log (cl_raft cl 3)) 4))"
    by (simp_all add: last_terms_def cl_raft_def)
  have "the (entry_at (r_log (cl_raft cl 3)) 4) = entry_blank"
    by (rule log_matching [OF cl(1,2) rtranclp.rtrancl_refl _ r(1) _ r(2) _ _ r(3,4), symmetric])
      (use trio_ids in auto)
  then show ?thesis using cl(1,2) r(1-3) by blast
qed

text \<open>
  C5. With pre-vote on, which is how the server configures its nodes, election safety fails: a
  candidate counts the pre-votes that are still on their way to it as votes, and a run of three nodes
  that lose no message ends with two leaders of term 2.
\<close>

theorem pre_vote_two_leaders:
  "\<exists>cl0 cl. cluster_boot True text_of trio cl0 \<and>
     (cluster_step text_of (fst ` set trio))\<^sup>*\<^sup>* cl0 cl \<and>
     r_state (cl_raft cl 1) = Leader \<and> r_state (cl_raft cl 2) = Leader \<and>
     r_term (cl_raft cl 1) = 2 \<and> r_term (cl_raft cl 2) = 2"
  using outcome_cluster [OF prevote_outcome] by blast

section \<open>Replication in one node\<close>

text \<open>
  C6. The commit rule of a leader: \<open>maybe_commit\<close> looks at the greatest index that a majority of the
  voters holds, and commits it exactly if it is new, in the log, and of the leader's own term.
\<close>

theorem leader_commits_by_majority:
  assumes "log_ok (r_log r)" "distinct (map fst (r_prs r))" "r_prs r \<noteq> []"
    "length (r_prs r) < W32" "r_term r \<noteq> 0"
  shows "\<exists>n. card (voters r) < 2 * card (replicas r n) \<and>
    (\<forall>i. card (voters r) < 2 * card (replicas r i) \<longrightarrow> i \<le> n) \<and>
    raft_maybe_commit r =
      (if l_committed (r_log r) < n \<and> n \<le> log_end (r_log r) \<and>
          log_term (r_log r) n = Some (Inr (r_term r))
       then Some (True, r\<lparr>r_log := (r_log r)\<lparr>l_committed := n\<rparr>\<rparr>) else Some (False, r))"
  by (rule raft_maybe_commit_spec) (use assms in auto)

theorem leader_commits_by_majority_witness:
  "\<exists>n. card (voters sample_leader) < 2 * card (replicas sample_leader n) \<and>
    raft_maybe_commit sample_leader =
      (if l_committed (r_log sample_leader) < n \<and> n \<le> log_end (r_log sample_leader) \<and>
          log_term (r_log sample_leader) n = Some (Inr (r_term sample_leader))
       then Some (True, sample_leader\<lparr>r_log := (r_log sample_leader)\<lparr>l_committed := n\<rparr>\<rparr>)
       else Some (False, sample_leader))"
proof -
  have "log_ok (r_log sample_leader)" "distinct (map fst (r_prs sample_leader))"
    "r_prs sample_leader \<noteq> []" "length (r_prs sample_leader) < W32" "r_term sample_leader \<noteq> 0"
    by code_simp+
  from leader_commits_by_majority [OF this] show ?thesis by (elim exE conjE) (intro exI conjI)
qed

text \<open>
  C7. No step rewrites the committed part of a log.  Whatever message a node handles, in any role, the
  entries up to its old commit index stay in their places, or a snapshot beyond that index has
  replaced them; the commit index never moves back.
\<close>

theorem committed_entries_stay:
  assumes "raft_ok r" "room (length (m_entries m) + 1) r" "msg_sane m" "raft_step r m = Some (st, r')"
  shows "l_committed (r_log r) \<le> l_committed (r_log r') \<and>
    (log_base (r_log r') = log_base (r_log r) \<and>
     take (l_committed (r_log r) - log_base (r_log r)) (log_ents (r_log r')) =
       take (l_committed (r_log r) - log_base (r_log r)) (log_ents (r_log r))
     \<or> l_committed (r_log r) < log_base (r_log r'))"
  using raft_step_keeps [OF assms] by (auto simp: keeps_def log_keeps_def)

theorem committed_entries_stay_witness:
  "\<exists>st r'. raft_step sample_follower sample_append = Some (st, r') \<and>
    l_committed (r_log sample_follower) \<le> l_committed (r_log r') \<and>
    (log_base (r_log r') = log_base (r_log sample_follower) \<and>
     take (l_committed (r_log sample_follower) - log_base (r_log sample_follower)) (log_ents (r_log r')) =
       take (l_committed (r_log sample_follower) - log_base (r_log sample_follower))
         (log_ents (r_log sample_follower))
     \<or> l_committed (r_log sample_follower) < log_base (r_log r'))"
proof -
  have "raft_step sample_follower sample_append \<noteq> None" by code_simp
  then obtain st r' where s: "raft_step sample_follower sample_append = Some (st, r')" by auto
  have "raft_ok sample_follower" "room (length (m_entries sample_append) + 1) sample_follower"
    "msg_sane sample_append" by code_simp+
  from committed_entries_stay [OF this s] s show ?thesis by blast
qed

text \<open>
  C8. A leader only appends.  A step of a leader on a message of its term or an older one leaves every
  entry of its log where it is and adds entries behind them.
\<close>

theorem leader_only_appends:
  assumes "raft_ok r" "room (length (m_entries m) + 1) r" "r_step_fn r = StepLeader"
    "m_term m \<le> r_term r" "raft_step r m = Some (st, r')"
  shows "log_base (r_log r') = log_base (r_log r) \<and>
    (\<exists>xs. log_ents (r_log r') = log_ents (r_log r) @ xs)"
  using raft_step_leader_grows [OF assms] by (auto simp: grows_def log_grows_def)

theorem leader_only_appends_witness:
  "\<exists>st r' xs. raft_step sample_leader sample_proposal = Some (st, r') \<and>
    log_base (r_log r') = log_base (r_log sample_leader) \<and>
    log_ents (r_log r') = log_ents (r_log sample_leader) @ xs"
proof -
  have "raft_step sample_leader sample_proposal \<noteq> None" by code_simp
  then obtain st r' where s: "raft_step sample_leader sample_proposal = Some (st, r')" by auto
  have "raft_ok sample_leader" "room (length (m_entries sample_proposal) + 1) sample_leader"
    "r_step_fn sample_leader = StepLeader" "m_term sample_proposal \<le> r_term sample_leader"
    by code_simp+
  from leader_only_appends [OF this s] s show ?thesis by blast
qed

section \<open>The log\<close>

text \<open>
  C9. A follower that accepts the leader's entries holds afterwards its own log up to the first entry
  it did not have, and the leader's entries from there on; its committed entries are untouched, every
  offered entry is in the log, and the commit index is the leader's, capped by the last new index.
\<close>

theorem append_accepted:
  assumes "log_ok l" "offer_ok index es" "log_base l \<le> index" "index \<le> log_end l"
    "log_match_term l index lt = Some True"
    "known l es = length es \<or> l_committed l < index + 1 + known l es"
  shows "\<exists>l'. log_maybe_append l index lt committed es = Some (Some (index + length es), l') \<and>
    log_ok l' \<and> log_base l' = log_base l \<and> log_ents l' = merged l index es \<and>
    take (l_committed l - log_base l) (log_ents l') = take (l_committed l - log_base l) (log_ents l) \<and>
    (\<forall>k \<in> {..< length es}. e_term (log_ents l' ! (index + k - log_base l)) = e_term (es ! k)) \<and>
    l_committed l' = max (l_committed l) (min committed (index + length es))"
  using log_maybe_append_accept [OF assms, of committed] merged_committed [OF assms(1,6)]
    merged_has [OF assms(1-4)] by auto

theorem append_accepted_witness:
  "\<exists>l'. log_maybe_append sample_log 5 2 6 (m_entries sample_append) = Some (Some 7, l') \<and>
    log_ok l' \<and> log_ents l' = merged sample_log 5 (m_entries sample_append) \<and> l_committed l' = 6"
proof -
  have "log_ok sample_log" "offer_ok 5 (m_entries sample_append)" "log_base sample_log \<le> 5"
    "5 \<le> log_end sample_log" "log_match_term sample_log 5 2 = Some True"
    "known sample_log (m_entries sample_append) = length (m_entries sample_append) \<or>
     l_committed sample_log < 5 + 1 + known sample_log (m_entries sample_append)"
    by code_simp+
  moreover have "length (m_entries sample_append) = 2" by code_simp
  ultimately show ?thesis
    using append_accepted [of sample_log 5 "m_entries sample_append" 2 6]
    by (auto simp: sample_log_view)
qed

text \<open>
  C10. Entries that contradict a committed entry are fatal: \<open>maybe_append\<close> does not return.
\<close>

theorem append_conflict_fatal:
  assumes "log_ok l" "offer_ok index es" "log_match_term l index lt = Some True"
    "known l es < length es" "index + 1 + known l es \<le> l_committed l"
  shows "log_maybe_append l index lt committed es = None"
  by (rule log_maybe_append_conflict [OF assms])

theorem append_conflict_fatal_witness:
  "log_maybe_append sample_log 3 1 9 [mk_entry 3 4 ''z''] = None"
proof -
  have "log_ok sample_log" "offer_ok 3 [mk_entry 3 4 ''z'']" "log_match_term sample_log 3 1 = Some True"
    "known sample_log [mk_entry 3 4 ''z''] < length [mk_entry 3 4 ''z'']"
    "3 + 1 + known sample_log [mk_entry 3 4 ''z''] \<le> l_committed sample_log"
    by code_simp+
  then show ?thesis by (rule append_conflict_fatal)
qed

text \<open>
  C11. Reading a range of the log that spans the stable and the unstable part gives the range of the
  abstract log, cut by the size limit: of the entries in the range the longest prefix whose serialized
  sizes add up to at most the limit, and at least the first.  (The sizes are added up in 64 bits.)
\<close>

theorem slice_reads_range:
  assumes "log_ok l" "log_base l < low" "low \<le> high" "high \<le> log_end l + 1"
    and "total_size (log_range l low high) < W64"
  shows "\<exists>n \<le> high - low. log_slice l low high m = Some (Inr (take n (log_range l low high))) \<and>
    (low < high \<longrightarrow> 0 < n) \<and> (1 < n \<longrightarrow> total_size (take n (log_range l low high)) \<le> m) \<and>
    (n < high - low \<longrightarrow> m < total_size (take (n + 1) (log_range l low high)))"
proof -
  have len: "length (log_range l low high) = high - low" using assms(2-4) by (simp add: log_range_def)
  then have "log_range l low high \<noteq> [] \<longleftrightarrow> low < high"
    using length_greater_0_conv [of "log_range l low high"] by simp
  then show ?thesis
    using log_slice_eq [OF assms(1-4), of m] entry_limit_size_longest [OF assms(5), of m] len by auto
qed

theorem slice_reads_range_witness:
  "\<exists>n \<le> 3. log_slice sample_log 4 7 20 = Some (Inr (take n (log_range sample_log 4 7))) \<and> 0 < n \<and>
    (1 < n \<longrightarrow> total_size (take n (log_range sample_log 4 7)) \<le> 20) \<and>
    (n < 3 \<longrightarrow> 20 < total_size (take (n + 1) (log_range sample_log 4 7)))"
proof -
  have "log_ok sample_log" "log_base sample_log < 4" "(4::nat) \<le> 7" "7 \<le> log_end sample_log + 1"
    "total_size (log_range sample_log 4 7) < W64"
    by code_simp+
  from slice_reads_range [OF this, of 20] show ?thesis by simp
qed

text \<open>
  The entries a node hands out to be applied are consecutive, start right behind the last applied
  one, and do not go beyond the commit index.
\<close>

lemma next_entries_window:
  assumes "log_ok l" "l_applied l \<le> l_committed l" "log_base l \<le> l_applied l"
  shows "\<exists>es. log_next_entries l = Some es \<and> consec (l_applied l + 1) es \<and>
    l_applied l + length es \<le> l_committed l \<and>
    es = take (length es) (drop (l_applied l - log_base l) (log_ents l))"
proof -
  let ?r = "log_range l (Suc (l_applied l)) (Suc (l_committed l))"
  obtain n where n: "entry_limit_size (l_max_next_ents_size l) ?r = take n ?r"
    using entry_limit_size_prefix [of _ ?r] by auto
  have es: "log_next_entries l = Some (take n ?r)"
    using log_next_entries_eq [OF assms(1,2)] assms(3) n by (simp add: max_def)
  have r: "?r = take (l_committed l - l_applied l) (drop (l_applied l - log_base l) (log_ents l))"
    by (simp add: log_range_def)
  have "consec (log_base l + 1) (log_ents l)" using rlog.view_consec [OF assms(1)] by simp
  from consec_take [OF consec_drop [OF this, of "l_applied l - log_base l"]]
  have "consec (l_applied l + 1) (take n ?r)" unfolding r using assms(3) by (simp add: consec_take)
  moreover have "length (take n ?r) \<le> l_committed l - l_applied l" unfolding r by simp
  moreover have "take n ?r = take (length (take n ?r)) (drop (l_applied l - log_base l) (log_ents l))"
    by (simp only: r take_take take_length_take)
  ultimately show ?thesis
    using es assms(2) by (intro exI [of _ "take n ?r"] conjI) linarith+
qed

lemma next_entries_window_witness:
  "\<exists>es. log_next_entries sample_log = Some es \<and> consec 4 es \<and> 3 + length es \<le> 4"
proof -
  have "log_ok sample_log" "l_applied sample_log \<le> l_committed sample_log"
    "log_base sample_log \<le> l_applied sample_log" by code_simp+
  from next_entries_window [OF this] show ?thesis by (auto simp: sample_log_view)
qed

section \<open>Persistence\<close>

text \<open>
  C12. Saving the unstable entries to the storage and confirming them changes where the entries are, not
  which they are: the log as a whole is the same, all of it is in the storage, nothing is unstable.
\<close>

theorem persist_keeps_log:
  assumes "log_ok l" "u_snapshot (l_unstable l) = None"
  shows "\<exists>l'. log_persist l = Some l' \<and> log_ok l' \<and> log_base l' = log_base l \<and>
    log_ents l' = log_ents l \<and> storage_ents (l_storage l') = log_ents l \<and>
    u_entries (l_unstable l') = [] \<and> l_committed l' = l_committed l \<and> l_applied l' = l_applied l"
  using log_persist_plain [OF assms] by blast

theorem persist_keeps_log_witness:
  "\<exists>l'. log_persist sample_log = Some l' \<and> storage_ents (l_storage l') = log_ents sample_log"
proof -
  have "log_ok sample_log" "u_snapshot (l_unstable sample_log) = None" by code_simp+
  from persist_keeps_log [OF this] show ?thesis by blast
qed

text \<open>
  C13. Compaction drops exactly the entries up to the given index and remembers the term of the last of
  them, so that the log can still be matched there.
\<close>

theorem compact_drops_prefix:
  assumes "log_ok l" "u_snapshot (l_unstable l) = None" "log_base l < i" "i \<le> l_committed l"
    "i < u_offset (l_unstable l)"
  shows "\<exists>s. storage_compact (l_storage l) i = Some (StatusOk, s) \<and> log_ok (l\<lparr>l_storage := s\<rparr>) \<and>
    log_base (l\<lparr>l_storage := s\<rparr>) = i \<and>
    log_term (l\<lparr>l_storage := s\<rparr>) i = log_term l i \<and>
    log_ents (l\<lparr>l_storage := s\<rparr>) = drop (i - log_base l) (log_ents l)"
proof -
  obtain s where s: "storage_compact (l_storage l) i = Some (StatusOk, s)" "log_ok (l\<lparr>l_storage := s\<rparr>)"
    "log_base (l\<lparr>l_storage := s\<rparr>) = i"
    "log_bterm (l\<lparr>l_storage := s\<rparr>) = term_at (log_base l) (log_bterm l) (log_ents l) i"
    "log_ents (l\<lparr>l_storage := s\<rparr>) = drop (i - log_base l) (log_ents l)"
    using log_compact_view [OF assms] by blast
  have "log_term l i = Some (Inr (term_at (log_base l) (log_bterm l) (log_ents l) i))"
    using assms(1,3,4) by (intro rlog.view_term) (auto simp: log_ok_def)
  moreover have "log_term (l\<lparr>l_storage := s\<rparr>) i = Some (Inr (log_bterm (l\<lparr>l_storage := s\<rparr>)))"
    using rlog.term_of_base [OF s(2)] s(3) by simp
  ultimately show ?thesis using s by auto
qed

theorem compact_drops_prefix_witness:
  "\<exists>s. storage_compact (l_storage sample_log) 3 = Some (StatusOk, s) \<and>
    log_base (sample_log\<lparr>l_storage := s\<rparr>) = 3 \<and>
    log_ents (sample_log\<lparr>l_storage := s\<rparr>) = drop 1 (log_ents sample_log)"
proof -
  have "log_ok sample_log" "u_snapshot (l_unstable sample_log) = None" "log_base sample_log < 3"
    "3 \<le> l_committed sample_log" "3 < u_offset (l_unstable sample_log)" by code_simp+
  from compact_drops_prefix [OF this] show ?thesis by (auto simp: sample_log_view)
qed

section \<open>Write-ahead log\<close>

text \<open>
  C14. Torn writes.  Of a log file that was written record by record and of which a crash has left the
  first \<open>k\<close> bytes, \<open>read_all\<close> returns what the records say that lie within these bytes: the last hard
  state, and the entries with each overwritten suffix dropped.  It cuts the file behind them, so that
  the next record is appended where the torn one began.  (The record of a snapshot must be among them, and
  none may give the index of the start snapshot another term; else \<open>read_all\<close> is fatal.)
\<close>

theorem torn_log_recovers:
  assumes "codec_ok c" "list_all (item_fits c) its"
    "has_snap (surviving c k its)" "\<not> snap_clash start (surviving c k its)"
  shows "\<exists>w. wal_read_all c (reopened tell seq start (take k (frames c (map (item_record c) its)))) =
      Some (last_state empty_hard_state (surviving c k its),
            put_items (ws_index start) (surviving c k its) [], w) \<and>
    holds c (surviving c k its) w"
  using read_torn_log [OF assms] by blast

theorem torn_log_recovers_witness:
  "\<exists>w. wal_read_all sample_codec (reopened length 0 snap0 (take 60 (frames sample_codec
        (map (item_record sample_codec) (ItemSnap snap0 # concat (map op_items sample_ops)))))) =
      Some (\<lparr>hs_term = 1, hs_vote = 2, hs_commit = 0\<rparr>,
            [Some (mk_entry 1 1 ''x''), Some (mk_entry 1 2 ''y'')], w)"
proof -
  let ?its = "ItemSnap snap0 # concat (map op_items sample_ops)"
  have sv: "surviving sample_codec 60 ?its = [ItemSnap snap0, ItemEntry (mk_entry 1 1 ''x''),
      ItemEntry (mk_entry 1 2 ''y''), ItemState \<lparr>hs_term = 1, hs_vote = 2, hs_commit = 0\<rparr>]"
    by code_simp
  have "list_all (item_fits sample_codec) ?its" by code_simp
  moreover have "has_snap (surviving sample_codec 60 ?its)" "\<not> snap_clash snap0 (surviving sample_codec 60 ?its)"
    unfolding sv by simp_all
  moreover have "put_items 0 (surviving sample_codec 60 ?its) [] =
      [Some (mk_entry 1 1 ''x''), Some (mk_entry 1 2 ''y'')]"
    "last_state empty_hard_state (surviving sample_codec 60 ?its) =
      \<lparr>hs_term = 1, hs_vote = 2, hs_commit = 0\<rparr>"
    unfolding sv by code_simp+
  ultimately show ?thesis
    using torn_log_recovers [OF sample_codec_ok, of ?its 60 snap0 length 0] by (auto simp: snap0_def)
qed

text \<open>
  C15. Restart.  A node boots on a log that holds its start snapshot and on a storage that is empty
  behind it, and saves batches of entries and hard states to both.  If nothing is left in the buffer
  of the log when it stops, then reading the log and appending what was read to the storage it booted
  on gives the entries the storage had.
\<close>

theorem restart_restores_storage:
  assumes "codec_ok c" "holds c [ItemSnap start] w" "e_index d = ws_index start"
    "ws_index start + 1 < W64" "ms_entries s = [d]" "list_all batch_ok ops"
    "list_all (item_fits c) (ItemSnap start # concat (map op_items ops))"
    "\<not> snap_clash start (concat (map op_items ops))"
    "each storage_exec ops s = Some s'" "each (wal_exec c) ops w = Some w1"
    "wf_buffer (last (w_files w1)) = ''''"
  shows "\<exists>es w2 s2. wal_read_all c (reopened tell seq start (wf_stream (last (w_files w1)))) =
      Some (last_state empty_hard_state (concat (map op_items ops)), map Some es, w2) \<and>
    storage_append s es = Some s2 \<and> ms_entries s2 = ms_entries s'"
  using restart_log [OF assms(1-9)] assms(10,11) by auto

theorem restart_restores_storage_witness:
  "\<exists>es w1 w2 s2. each (wal_exec sample_codec) sample_ops sample_wal = Some w1 \<and>
    wal_read_all sample_codec (reopened length 0 snap0 (wf_stream (last (w_files w1)))) =
      Some (\<lparr>hs_term = 2, hs_vote = 2, hs_commit = 1\<rparr>, map Some es, w2) \<and>
    storage_append new_memory_storage es = Some s2 \<and>
    ms_entries s2 = [new_entry, mk_entry 1 1 ''x'', mk_entry 2 2 ''z'']"
proof -
  let ?its = "concat (map op_items sample_ops)"
  have "map_option (\<lambda>w. wf_buffer (last (w_files w))) (each (wal_exec sample_codec) sample_ops sample_wal)
      = Some ''''" by code_simp
  then obtain w1 where w1: "each (wal_exec sample_codec) sample_ops sample_wal = Some w1"
      "wf_buffer (last (w_files w1)) = ''''" by auto
  have run: "each storage_exec sample_ops new_memory_storage =
      Some (new_memory_storage\<lparr>ms_entries := [new_entry, mk_entry 1 1 ''x'', mk_entry 2 2 ''z'']\<rparr>)"
    by code_simp
  have hyps: "e_index new_entry = ws_index snap0" "ws_index snap0 + 1 < W64"
    "ms_entries new_memory_storage = [new_entry]" "list_all batch_ok sample_ops"
    "list_all (item_fits sample_codec) (ItemSnap snap0 # ?its)"
    by code_simp+
  have clash: "\<not> snap_clash snap0 ?its" by (simp add: sample_ops_def hs_is_empty_def)
  have st: "last_state empty_hard_state ?its = \<lparr>hs_term = 2, hs_vote = 2, hs_commit = 1\<rparr>"
    by code_simp
  from restart_restores_storage [OF sample_codec_ok sample_wal_holds hyps clash run w1, of length 0] w1(1)
  show ?thesis unfolding st by auto
qed

text \<open>
  A save that carries entries, a new term or a new vote leaves nothing in the buffer.
\<close>

lemma save_is_written:
  assumes "holds c its w" "is_must_sync hs (w_state w) (length es)" "\<not> (hs_is_empty hs \<and> es = [])"
  shows "\<exists>w'. wal_save c hs es w = Some w' \<and> wf_buffer (last (w_files w')) = '''' \<and>
    wf_stream (last (w_files w')) = frames c (map (item_record c) (its @ op_items (Save hs es)))"
  using wal_save_holds [OF assms(1), of hs es] assms(2,3) by (auto simp: holds_def)

lemma save_is_written_witness:
  "\<exists>w'. wal_save sample_codec \<lparr>hs_term = 1, hs_vote = 2, hs_commit = 0\<rparr> [mk_entry 1 1 ''x''] sample_wal = Some w' \<and>
    wf_buffer (last (w_files w')) = ''''"
proof -
  have "is_must_sync \<lparr>hs_term = 1, hs_vote = 2, hs_commit = 0\<rparr> (w_state sample_wal) (length [mk_entry 1 1 ''x''])"
    "\<not> (hs_is_empty \<lparr>hs_term = 1, hs_vote = 2, hs_commit = 0\<rparr> \<and> [mk_entry 1 1 ''x''] = [])"
    by code_simp+
  from save_is_written [OF sample_wal_holds this] show ?thesis by blast
qed

text \<open>
  C16. Stale entries.  If a batch that overwrote a tail of the log lies at or below the snapshot a replay
  starts from, the overwritten tail is back after the restart: the replay from the beginning ends with
  the new entry, the replay from the snapshot returns the old ones behind it.
\<close>

theorem overwritten_tail_returns:
  assumes "codec_ok c" "consec 1 es" "e_index e = k" "1 \<le> k" "k < length es"
    and "its = ItemSnap snap0 # map ItemEntry (es @ [e]) @ [ItemSnap start]" "ws_index start = k"
    and "list_all (item_fits c) its"
  shows "\<exists>w w'. wal_read_all c (reopened tell seq snap0 (frames c (map (item_record c) its))) =
      Some (empty_hard_state, map Some (take (k - 1) es @ [e]), w) \<and>
    wal_read_all c (reopened tell seq start (frames c (map (item_record c) its))) =
      Some (empty_hard_state, map Some (drop k es), w')"
  using overwritten_read_back [OF assms] by blast

theorem overwritten_tail_returns_witness:
  "\<exists>its w. wal_read_all sample_codec (reopened length 0 \<lparr>ws_index = 2, ws_term = 2\<rparr>
      (frames sample_codec (map (item_record sample_codec) its))) =
      Some (empty_hard_state, [Some (mk_entry 1 3 ''c'')], w) \<and> ItemEntry (mk_entry 2 2 ''d'') \<in> set its"
proof -
  let ?es = "[mk_entry 1 1 ''a'', mk_entry 1 2 ''b'', mk_entry 1 3 ''c'']" and ?e = "mk_entry 2 2 ''d''"
  let ?its = "ItemSnap snap0 # map ItemEntry (?es @ [?e]) @ [ItemSnap \<lparr>ws_index = 2, ws_term = 2\<rparr>]"
  have "consec 1 ?es" "e_index ?e = 2" "1 \<le> (2::nat)" "2 < length ?es"
    by (simp_all add: mk_entry_def)
  moreover have "list_all (item_fits sample_codec) ?its" by code_simp
  ultimately show ?thesis
    using overwritten_tail_returns [OF sample_codec_ok, of ?es ?e 2 ?its] by (intro exI [of _ ?its]) auto
qed

text \<open>
  Names of log files: a name reads back as its sequence number and index, and names sort like
  these pairs.
\<close>

lemma wal_names:
  assumes "s < W64" "i < W64" "s' < W64" "i' < W64"
  shows "parse_wal_name (wal_name s i) = (True, s, i) \<and>
    (wal_name s i < wal_name s' i') = (s < s' \<or> s = s' \<and> i < i')"
  using parse_wal_name_wal_name [OF assms(1,2)] wal_name_less [OF assms] by blast

lemma wal_names_witness:
  "parse_wal_name (wal_name 3 500) = (True, 3, 500) \<and> wal_name 3 500 < wal_name 4 7"
  using wal_names [of 3 500 4 7] by (simp add: W64_def)

section \<open>Parts of the protocol state\<close>

text \<open>
  C17. The window of unconfirmed append messages, a ring buffer that grows up to its capacity, is a
  bounded queue: adding to a window that is not full appends, \<open>free_to\<close> drops every index up to the one
  confirmed when the indices increase, and neither touches an entry outside the buffer.
\<close>

theorem inflights_is_queue:
  assumes "inflights_ok w" "\<not> inflights_is_full w" "sorted (inflights_queue w @ [x])"
  shows "\<exists>w1 w2. inflights_add w x = Some w1 \<and> inflights_queue w1 = inflights_queue w @ [x] \<and>
    inflights_free_to w1 y = Some w2 \<and> inflights_ok w2 \<and>
    inflights_queue w2 = filter (\<lambda>v. y < v) (inflights_queue w @ [x])"
proof -
  obtain w1 where w1: "inflights_add w x = Some w1" "inflights_ok w1"
    "inflights_queue w1 = inflights_queue w @ [x]"
    using ring.add_queue [OF assms(1,2), of x] by blast
  obtain w2 where w2: "inflights_free_to w1 y = Some w2" "inflights_ok w2"
    using ring.free_queue [OF w1(2), of y] by blast
  show ?thesis using ring.free_sorted [OF w1(2) _ w2(1)] w1 w2 assms(3) by auto
qed

theorem inflights_is_queue_witness:
  "\<exists>w1 w2. inflights_add sample_window 9 = Some w1 \<and> inflights_queue w1 = [6, 7, 9] \<and>
    inflights_free_to w1 6 = Some w2 \<and> inflights_queue w2 = [7, 9]"
proof -
  have q: "inflights_queue sample_window = [6, 7]" by code_simp
  have "inflights_ok sample_window" "\<not> inflights_is_full sample_window"
    "sorted (inflights_queue sample_window @ [9])" by code_simp+
  from inflights_is_queue [OF this, of 6] show ?thesis by (simp add: q) blast
qed

text \<open>
  C18. When a quorum has confirmed a read request, \<open>advance\<close> releases it and every request that arrived
  before it, in the order of arrival, and forgets exactly these.
\<close>

theorem reads_released_in_order:
  assumes "readonly_ok ro" "map_of (ro_pending ro) (m_context m) \<noteq> None"
  shows "\<exists>pre post ro'. ro_queue ro = pre @ m_context m # post \<and>
    readonly_advance ro m =
      Some (map (\<lambda>ctx. the (map_of (ro_pending ro) ctx)) (pre @ [m_context m]), ro') \<and>
    ro_queue ro' = post \<and> readonly_ok ro'"
  using readonly_advance_found [OF assms] by blast

theorem reads_released_in_order_witness:
  "\<exists>rss ro'. readonly_advance sample_reads (read_msg ''b'') = Some (rss, ro') \<and> ro_queue ro' = []"
proof -
  have ok: "readonly_ok sample_reads"
    by (auto simp: readonly_ok_def sample_reads_def request_key_def read_msg_def split: if_splits)
  have "map_of (ro_pending sample_reads) (m_context (read_msg ''b'')) \<noteq> None" by code_simp
  from reads_released_in_order [OF ok this] show ?thesis
    by (auto simp: sample_reads_def read_msg_def append_eq_Cons_conv Cons_eq_append_conv)
qed

section \<open>The server\<close>

text \<open>
  C19. The life of a server.  A server that starts on a new disk is well formed after every sequence of
  ticks, proposals and messages (with consistent indices, below the greatest index) on which its node
  survives and commits ordinary entries or membership changes that unpack and remove nobody: its
  counters agree with its log, everything committed is applied, and no entry was applied twice or
  behind one with a greater index.
\<close>

theorem server_life:
  assumes "codec_ok (en_codec env)" "item_fits (en_codec env) (ItemSnap snap0)"
    and "new_server env tell rnd i peers \<lparr>dk_wal = None, dk_snap = []\<rparr> = Some s" "0 < peers" "peers + 1 < W64"
    and "server_run env (schedule s) t"
  shows "server_ok t \<and> sorted_wrt (<) (applied_indices (sv_events t)) \<and>
    (t = schedule s \<or> sv_applied_index t = l_committed (sv_log t))"
proof -
  obtain st w lst data where r: "replay_WAL env tell \<lparr>dk_wal = None, dk_snap = []\<rparr> = Some (st, w, lst, data, [])"
    "good_replay st w" using replay_new_disk [OF assms(1,2)] by blast
  have "orderly (schedule s)" using server_built [OF r assms(3-5)] by blast
  then show ?thesis using server_run_orderly [OF _ assms(6)] by (auto simp: orderly_def)
qed

theorem server_life_witness:
  "\<exists>s t. booted_server = Some s \<and> server_takes boot_env Timer (schedule s) = Some t \<and>
    server_ok t \<and> sv_applied_index (schedule s) = 0 \<and> sv_applied_index t = 1 \<and>
    (t = schedule s \<or> sv_applied_index t = l_committed (sv_log t))"
proof -
  obtain s where s: "booted_server = Some s" using booted by auto
  have "case booted_server of None \<Rightarrow> False | Some s \<Rightarrow>
      sane_input Timer (schedule s) \<and> sv_applied_index (schedule s) = 0 \<and>
      (case node_takes Timer (sv_node (schedule s)) of None \<Rightarrow> False
       | Some (evs, n) \<Rightarrow> plain boot_env (waiting (r_log (n_raft n)))) \<and>
      map_option sv_applied_index (server_takes boot_env Timer (schedule s)) = Some 1"
    by code_simp
  then obtain evs n t where n: "sane_input Timer (schedule s)" "node_takes Timer (sv_node (schedule s)) = Some (evs, n)"
    "plain boot_env (waiting (r_log (n_raft n)))" "server_takes boot_env Timer (schedule s) = Some t"
    and a: "sv_applied_index (schedule s) = 0" "sv_applied_index t = 1"
    unfolding s option.case by (auto split: option.splits)
  have run: "server_run boot_env (schedule s) t" by (rule server_run.take [OF server_run.start n])
  have c: "codec_ok (en_codec boot_env)" "item_fits (en_codec boot_env) (ItemSnap snap0)"
    using sample_codec_ok by (simp add: boot_env_def sample_env_def) code_simp
  have "(0::nat) < 1" "1 + 1 < W64" by (simp_all add: W64_def)
  from server_life [OF c s [unfolded booted_server_def new_disk_def] this run]
  show ?thesis using s n(4) a by blast
qed

text \<open>
  C20. One input.  After a tick, a proposal or a message that the node handles without dying, and if the
  committed entries that then wait to be applied are ordinary ones or changes of the membership that
  unpack and remove nobody, the server works off all that the node made of it: it returns well formed,
  with everything applied that is committed by then, and with nothing left to save or to send.  The caller
  has its status first, then a received snapshot went to the store, the messages to the transport, and the
  committed entries to the store.  (The input is one whose entries are consecutive and leave room below
  the greatest index.  A change that does not unpack is the matter of C26; a removal may let the node
  commit more entries.)
\<close>

theorem input_drains:
  assumes "server_ok s" "sane_input i s" "node_takes i (sv_node s) = Some (evs, n)"
    and "plain env (waiting (r_log (n_raft n)))"
  shows "\<exists>s'. server_takes env i s = Some s' \<and> server_ok s' \<and>
    sv_applied_index s' = l_committed (r_log (n_raft n)) \<and>
    r_msgs (n_raft (sv_node s')) = [] \<and> u_entries (l_unstable (sv_log s')) = [] \<and>
    sv_events s' = sv_events s @ evs @ installs (r_log (n_raft n)) @ sends (r_msgs (n_raft n)) @
      effects env (waiting (r_log (n_raft n)))"
  using server_takes_drains [OF assms] by (auto simp: drained_def)

theorem input_drains_witness:
  "\<exists>evs n s'. node_takes (Propose ''v'') (sv_node sample_server) = Some (evs, n) \<and>
    server_takes sample_env (Propose ''v'') sample_server = Some s' \<and> server_ok s' \<and>
    sv_applied_index s' = 5 \<and> u_entries (l_unstable (sv_log s')) = []"
proof -
  have "case node_takes (Propose ''v'') (sv_node sample_server) of None \<Rightarrow> False
      | Some (evs, n) \<Rightarrow> plain sample_env (waiting (r_log (n_raft n))) \<and> l_committed (r_log (n_raft n)) = 5"
    by code_simp
  then obtain evs n where n: "node_takes (Propose ''v'') (sv_node sample_server) = Some (evs, n)"
    "plain sample_env (waiting (r_log (n_raft n)))" "l_committed (r_log (n_raft n)) = 5"
    by (auto split: option.splits)
  have "sane_input (Propose ''v'') sample_server" by code_simp
  from input_drains [OF sample_server_ok this n(1,2)] n(1,3) show ?thesis by auto
qed

text \<open>
  C21. Installing a snapshot.  A server whose node has received a snapshot that another store made hands
  it to its store before anything else; the content of its database is then that of the other store with
  the committed entries behind the snapshot applied to it, if these are well-formed requests of the store
  or changes of the membership that remove nobody.  (A snapshot without pairs changes nothing.)
\<close>

theorem snapshot_installs:
  assumes "installing snap s" "plain env (waiting (sv_log s))" "database_ok db view" "kv_codec_ok c"
    and "s_data snap = get_snapshot db c other"
    and "\<forall>d \<in> set (requests (waiting (sv_log s))). entry_well_formed c d"
    and "run_store db c (sv_events s) s0 = Some st"
  shows "\<exists>s' st'. pull_ready_events env s = Some s' \<and> server_ok s' \<and>
    sv_applied_index s' = l_committed (sv_log s) \<and> run_store db c (sv_events s') s0 = Some st' \<and>
    view (st_db st') = fold (entry_view c) (requests (waiting (sv_log s)))
      (if view (st_db other) = Map.empty then view (st_db st) else view (st_db other))"
  using installed_store [OF assms] by (auto simp: drained_def)

theorem snapshot_installs_witness:
  "\<exists>s' st'. pull_ready_events sample_env lagging_server = Some s' \<and> sv_applied_index s' = 9 \<and>
    run_store sample_db sample_kv (sv_events s') (sample_store\<lparr>st_db := [(''z'', ''3'')]\<rparr>) = Some st' \<and>
    map_of (st_db st') = map_of (st_db sample_store)"
proof -
  have w: "waiting (sv_log lagging_server) = []" by code_simp
  have p: "plain sample_env (waiting (sv_log lagging_server))"
    "\<forall>d \<in> set (requests (waiting (sv_log lagging_server))). entry_well_formed sample_kv d"
    by (simp_all add: w requests_def)
  have d: "s_data store_snapshot = get_snapshot sample_db sample_kv sample_store"
    by (simp add: store_snapshot_def)
  have r: "run_store sample_db sample_kv (sv_events lagging_server) (sample_store\<lparr>st_db := [(''z'', ''3'')]\<rparr>) =
      Some (sample_store\<lparr>st_db := [(''z'', ''3'')]\<rparr>)" by (simp add: lagging_server_def sample_server_def)
  have "map_of (st_db sample_store) ''a'' = Some ''1''" by code_simp
  then have "map_of (st_db sample_store) \<noteq> Map.empty" by auto
  moreover have "l_committed (sv_log lagging_server) = 9" by code_simp
  ultimately show ?thesis
    using snapshot_installs [OF lagging_server_ok p(1) sample_db_ok sample_kv_ok d p(2) r]
    by (auto simp: w requests_def)
qed

text \<open>
  C22. Restart of the server.  Of the log of a server that saved batches of entries and hard states a crash
  leaves the first \<open>k\<close> bytes.  A server that starts on them is well formed, and its log has exactly the
  entries that the complete records say; if there are none, its committed entries are the membership of
  a first start.
\<close>

theorem server_restarts:
  assumes "codec_ok (en_codec env)" "each storage_exec ops new_memory_storage = Some s'" "list_all batch_ok ops"
    and "its = surviving (en_codec env) k (ItemSnap snap0 # concat (map op_items ops))"
    and "list_all (item_fits (en_codec env)) (ItemSnap snap0 # concat (map op_items ops))"
    and "its \<noteq> []" "\<not> snap_clash snap0 its"
    and "new_server env tell rnd i peers (crashed_disk (en_codec env) ops k) = Some s" "0 < peers" "peers + 1 < W64"
  shows "\<exists>es. put_items 0 its [] = map Some es \<and> server_ok (schedule s) \<and>
    (if es = [] then waiting (sv_log s) = first_entries (en_ser env) (addresses peers)
     else log_ents (sv_log s) = es)"
proof -
  obtain st w lst data es where r: "replay_WAL env tell (crashed_disk (en_codec env) ops k) = Some (st, w, lst, data, [])"
    "good_replay st w" and st: "storage_base st = 0" "storage_ents st = es" "put_items 0 its [] = map Some es"
    using replay_crashed [OF assms(1-7)] by blast
  show ?thesis using server_built [OF r assms(8-10)] st by (auto simp: orderly_def)
qed

theorem server_restarts_witness:
  "\<exists>s. restarted_server = Some s \<and> server_ok (schedule s) \<and>
    log_ents (sv_log s) = [mk_entry 1 1 ''x'', mk_entry 1 2 ''y'']"
proof -
  let ?c = "en_codec boot_env" and ?all = "ItemSnap snap0 # concat (map op_items sample_ops)"
  have c: "codec_ok ?c" using sample_codec_ok by (simp add: boot_env_def sample_env_def)
  have "restarted_server \<noteq> None" by code_simp
  then obtain s where s: "restarted_server = Some s" by auto
  have sv: "surviving ?c 60 ?all = [ItemSnap snap0, ItemEntry (mk_entry 1 1 ''x''),
      ItemEntry (mk_entry 1 2 ''y''), ItemState \<lparr>hs_term = 1, hs_vote = 2, hs_commit = 0\<rparr>]"
    by code_simp
  have run: "each storage_exec sample_ops new_memory_storage =
      Some (new_memory_storage\<lparr>ms_entries := [new_entry, mk_entry 1 1 ''x'', mk_entry 2 2 ''z'']\<rparr>)"
    by code_simp
  have o: "list_all batch_ok sample_ops" "list_all (item_fits ?c) ?all" by code_simp+
  have k: "surviving ?c 60 ?all \<noteq> []" "\<not> snap_clash snap0 (surviving ?c 60 ?all)" unfolding sv by simp_all
  have "put_items 0 (surviving ?c 60 ?all) [] = map Some [mk_entry 1 1 ''x'', mk_entry 1 2 ''y'']"
    unfolding sv by code_simp
  moreover have "(0::nat) < 1" "1 + 1 < W64" by (simp_all add: W64_def)
  moreover note server_restarts [OF c run o(1) refl o(2) k s [unfolded restarted_server_def]]
  ultimately show ?thesis using s by (auto simp: inj_map_eq_map inj_def split: if_splits)
qed

text \<open>
  C23. The ready loop returns.  Of a server whose waiting entries are ordinary ones or membership
  changes that unpack and remove nobody, it ends with all committed entries applied: the messages were
  sent first, and then each entry that carries data was handed to the store and each added node to the
  transport, once and in the order of the log.
\<close>

theorem ready_loop_applies_all:
  assumes "server_ok s" "plain env (waiting (sv_log s))"
  shows "\<exists>s'. pull_ready_events env s = Some s' \<and> server_ok s' \<and>
    sv_applied_index s' = l_committed (sv_log s) \<and> u_entries (l_unstable (sv_log s')) = [] \<and>
    sv_events s' = sv_events s @ sends (r_msgs (n_raft (sv_node s))) @ effects env (waiting (sv_log s))"
  using pull_ready_applies_all [OF assms] installs_none [OF assms(1)] by (auto simp: drained_def)

theorem ready_loop_applies_all_witness:
  "\<exists>s'. pull_ready_events sample_env sample_server = Some s' \<and> sv_applied_index s' = 4 \<and>
    sv_events s' = [Send [sample_append], Commit (mk_entry 2 4 sample_request)]"
  using ready_loop_applies_all [OF sample_server_ok sample_waiting(1)]
  unfolding sample_waiting(2)
  by (auto simp: sample_server_parts server_log_view sends_def)



text \<open>
  C25. Of a batch of committed entries that starts at most one behind the applied index,
  \<open>entries_to_apply\<close> keeps exactly those beyond it; a batch that starts later is fatal.
\<close>

theorem applies_each_once:
  assumes "consec i es" "es \<noteq> []" "0 < i" "a + 1 < W64" "i + length es < W64"
  shows "entries_to_apply es a = (if i \<le> a + 1 then Some (drop (a + 1 - i) es) else None)"
proof (cases "i \<le> a + 1")
  case True
  then show ?thesis using entries_to_apply_eq [OF assms(1) _ assms(3-5)] by simp
next
  case False
  then show ?thesis using assms entries_to_apply_gap by (cases es) auto
qed

theorem applies_each_once_witness:
  "entries_to_apply [mk_entry 1 3 ''a'', mk_entry 2 4 ''b''] 3 = Some [mk_entry 2 4 ''b''] \<and>
   entries_to_apply [mk_entry 1 3 ''a'', mk_entry 2 4 ''b''] 1 = None"
  using applies_each_once [of 3 "[mk_entry 1 3 ''a'', mk_entry 2 4 ''b'']" 3]
    applies_each_once [of 3 "[mk_entry 1 3 ''a'', mk_entry 2 4 ''b'']" 1]
  by (simp add: mk_entry_def W64_def)

text \<open>
  C26. A configuration change that does not unpack is skipped without moving the applied index, so that
  the batch behind it is fatal.
\<close>

theorem skipped_change_fatal:
  assumes "e_type e = EntryConfChange" "en_conf env (e_data e) = None"
    and "sv_applied_index s + 1 = e_index e" "e_index e + 1 < W64" "e_index e' = e_index e + 1"
  shows "\<exists>s'. publish_entries env [e] s = Some (True, s') \<and>
    entries_to_apply (e' # es) (sv_applied_index s') = None"
  by (rule malformed_conf_change_fatal [OF assms])

theorem skipped_change_fatal_witness:
  "\<exists>s'. publish_entries sample_env [(mk_entry 2 4 ''?'')\<lparr>e_type := EntryConfChange\<rparr>] sample_server = Some (True, s') \<and>
    entries_to_apply [mk_entry 2 5 ''c''] (sv_applied_index s') = None"
  by (rule skipped_change_fatal) (simp_all add: sample_env_def sample_server_def mk_entry_def W64_def)

text \<open>
  C27. Snapshots of the server.  With all entries persisted, and once more than \<open>defaultSnapCount\<close>
  entries were applied since the last snapshot, \<open>maybe_trigger_snapshot\<close> succeeds with a snapshot of the
  applied index and of the data the store answers, and compacts the log to \<open>snapshotCatchUpEntriesN\<close>
  entries before it; otherwise nothing changes.
\<close>

theorem snapshot_triggered:
  assumes "server_ok s" "u_entries (l_unstable (sv_log s)) = []"
  shows "\<exists>st w d i. maybe_trigger_snapshot env s =
      Some ((put_storage st s)\<lparr>sv_wal := w, sv_snaps := d, sv_snapshot_index := i\<rparr>) \<and>
    (if sv_applied_index s - sv_snapshot_index s \<le> defaultSnapCount
     then st = l_storage (sv_log s) \<and> w = sv_wal s \<and> d = sv_snaps s \<and> i = sv_snapshot_index s
     else i = sv_applied_index s \<and> s_index (ms_snapshot st) = i \<and>
       s_data (ms_snapshot st) = kv_data env (sv_events s) \<and> s_conf (ms_snapshot st) = sv_conf_state s \<and>
       compacted_to (sv_applied_index s - snapshotCatchUpEntriesN) (l_storage (sv_log s)) st)"
proof -
  note l = server_okD [OF assms(1)]
  have st: "storage_ok (l_storage (sv_log s))" "storage_base (l_storage (sv_log s)) = log_base (sv_log s)"
    "storage_ents (l_storage (sv_log s)) = log_ents (sv_log s)"
    using stable_log_storage [OF l(1,2) assms(2)] by blast+
  have "sv_applied_index s \<le> log_base (sv_log s) + length (log_ents (sv_log s))"
    using l(1,4,5) by (simp add: log_ok_def)
  then obtain st w d i where "maybe_trigger_snapshot env s =
      Some ((put_storage st s)\<lparr>sv_wal := w, sv_snaps := d, sv_snapshot_index := i\<rparr>) \<and>
    (if sv_applied_index s - sv_snapshot_index s \<le> defaultSnapCount
     then st = l_storage (sv_log s) \<and> w = sv_wal s \<and> d = sv_snaps s \<and> i = sv_snapshot_index s
     else i = sv_applied_index s \<and> s_index (ms_snapshot st) = i \<and>
       s_data (ms_snapshot st) = kv_data env (sv_events s) \<and> s_conf (ms_snapshot st) = sv_conf_state s \<and>
       compacted_to (sv_applied_index s - snapshotCatchUpEntriesN) (l_storage (sv_log s)) st)"
    using trigger_snapshot [OF refl st(1), of env] assms(1) st l(6) unfolding server_ok_def by metis
  then show ?thesis by (intro exI)
qed

theorem snapshot_triggered_witness:
  "\<exists>st w d i. maybe_trigger_snapshot sample_env (busy_server 150000) =
      Some ((put_storage st (busy_server 150000))\<lparr>sv_wal := w, sv_snaps := d, sv_snapshot_index := i\<rparr>) \<and>
    s_index (ms_snapshot st) = 150000 \<and> storage_base st = 50000"
proof -
  have w: "(150000::nat) + 1 < W64" by (simp add: W64_def)
  have "sv_applied_index (busy_server 150000) = 150000" "sv_snapshot_index (busy_server 150000) = 0"
    by (simp_all add: busy_server_def)
  then show ?thesis
    using snapshot_triggered [OF busy_server_ok(1,2) [OF w], of sample_env]
    by (auto simp: defaultSnapCount_def snapshotCatchUpEntriesN_def compacted_to_def)
qed

section \<open>Snapshot files\<close>

text \<open>
  C28. A snapshot that was saved under the greatest name is the one that is loaded.
\<close>

theorem saved_snapshot_loads:
  assumes "snap_codec_ok k" "snap_fits c k snap"
    and "\<forall>n \<in> set (map fst d). path_extension n = ''.snap'' \<longrightarrow> n \<le> snap_name (s_term snap) (s_index snap)"
  shows "snapper_load c k old (snd (snapper_save c k snap d)) =
    Some (StatusOk, snap, snd (snapper_save c k snap d))"
  by (rule snapshot_saved_loads [OF assms])

theorem saved_snapshot_loads_witness:
  "snapper_load sample_codec sample_snaps empty_snapshot (snd (snapper_save sample_codec sample_snaps sample_snapshot [])) =
    Some (StatusOk, sample_snapshot, snd (snapper_save sample_codec sample_snaps sample_snapshot []))"
proof -
  have "snap_fits sample_codec sample_snaps sample_snapshot" by code_simp
  from saved_snapshot_loads [OF sample_snaps_ok this, of "[]"] show ?thesis by simp
qed

text \<open>
  C29. If a crash has torn the newest snapshot file, the one before it is loaded.  The torn file is set
  aside: it is renamed, with the suffix \<open>.broken\<close>, and no other file changes.
\<close>

theorem torn_snapshot_skipped:
  assumes "snap_codec_ok k" "snap_fits c k snap" "snap_fits c k prev"
    and "n < length (snap_bytes c k snap)"
    and "get_snap_names d = snap_name (s_term snap) (s_index snap) # snap_name (s_term prev) (s_index prev) # ns"
    and "snap_name (s_term snap) (s_index snap) \<noteq> snap_name (s_term prev) (s_index prev)"
    and "map_of d (snap_name (s_term snap) (s_index snap)) = Some (take n (snap_bytes c k snap))"
    and "map_of d (snap_name (s_term prev) (s_index prev)) = Some (snap_bytes c k prev)"
  shows "\<exists>d'. snapper_load c k old d = Some (StatusOk, prev, d') \<and>
    map_of d' = (map_of d)(snap_name (s_term snap) (s_index snap) := None,
      snap_name (s_term snap) (s_index snap) @ ''.broken'' := Some (take n (snap_bytes c k snap)))"
  using torn_snapshot_falls_back [OF assms, of old] by (auto simp: update_conv' delete_conv')

theorem torn_snapshot_skipped_witness:
  "\<exists>d'. snapper_load sample_codec sample_snaps empty_snapshot
     [(snap_name 3 9, take 10 (snap_bytes sample_codec sample_snaps sample_snapshot)),
      (snap_name 0 0, snap_bytes sample_codec sample_snaps empty_snapshot)] = Some (StatusOk, empty_snapshot, d') \<and>
    map_of d' (snap_name 3 9) = None \<and>
    map_of d' (snap_name 3 9 @ ''.broken'') = Some (take 10 (snap_bytes sample_codec sample_snaps sample_snapshot))"
proof -
  let ?d = "[(snap_name 3 9, take 10 (snap_bytes sample_codec sample_snaps sample_snapshot)),
      (snap_name 0 0, snap_bytes sample_codec sample_snaps empty_snapshot)]"
  have i: "s_term sample_snapshot = 3" "s_index sample_snapshot = 9" "s_term empty_snapshot = 0" "s_index empty_snapshot = 0"
    by (simp_all add: sample_snapshot_def empty_snapshot_def)
  have f: "snap_fits sample_codec sample_snaps sample_snapshot" "snap_fits sample_codec sample_snaps empty_snapshot"
    "10 < length (snap_bytes sample_codec sample_snaps sample_snapshot)"
    "get_snap_names ?d = [snap_name 3 9, snap_name 0 0]" "snap_name 3 9 \<noteq> snap_name 0 0"
    by code_simp+
  have "\<exists>d'. snapper_load sample_codec sample_snaps empty_snapshot ?d = Some (StatusOk, empty_snapshot, d') \<and>
    map_of d' = (map_of ?d)(snap_name (s_term sample_snapshot) (s_index sample_snapshot) := None,
      snap_name (s_term sample_snapshot) (s_index sample_snapshot) @ ''.broken'' :=
        Some (take 10 (snap_bytes sample_codec sample_snaps sample_snapshot)))"
    by (rule torn_snapshot_skipped [OF sample_snaps_ok f(1-3), where ns = "[]"]) (simp_all add: i f not_sym [OF f(5)])
  then show ?thesis by (auto simp: i)
qed

section \<open>Connections\<close>

text \<open>
  C30. The send buffer is a queue of bytes: what is put while a write of the first \<open>n\<close> bytes is under way
  follows what the write leaves.
\<close>

theorem buffer_is_queue:
  assumes "buffer_ok b" "buffer_fits b (length d)" "n \<le> length (buffer_view b)"
  shows "\<exists>b1 b2. buffer_put b d = Some b1 \<and> buffer_slice b1 = Some (buffer_view b @ d) \<and>
    read_bytes b1 n = Some b2 \<and> buffer_ok b2 \<and> buffer_view b2 = drop n (buffer_view b) @ d"
proof -
  obtain b1 where b1: "buffer_put b d = Some b1" "buffer_ok b1" "buffer_view b1 = buffer_view b @ d"
    using bb.put_view [OF assms(1,2)] by blast
  then show ?thesis
    using bb.put_then_consume [OF assms(1,2) b1(1) assms(3)] bb.slice_view [OF b1(2)] by auto
qed

theorem buffer_is_queue_witness:
  "\<exists>b1 b2. buffer_put \<lparr>bb_reader = 1, bb_writer = 3, bb_buff = ''abcd'', bb_block = 0\<rparr> ''efg'' = Some b1 \<and>
    buffer_slice b1 = Some ''bcefg'' \<and> read_bytes b1 2 = Some b2 \<and> buffer_view b2 = ''efg''"
proof -
  let ?b = "\<lparr>bb_reader = 1, bb_writer = 3, bb_buff = ''abcd'', bb_block = 0\<rparr>"
  have "buffer_ok ?b" "buffer_fits ?b (length ''efg'')" "2 \<le> length (buffer_view ?b)" by code_simp+
  moreover have "buffer_view ?b = ''bc''" by code_simp
  ultimately show ?thesis using buffer_is_queue [of ?b "''efg''" 2] by auto
qed

text \<open>
  C31. Delivery in order.  While nothing fails, and however sends, the connection and the socket
  interleave, what has been sent reads at the other side as the first of the messages, each once and in
  order.  The socket can go on to deliver all of them, unless a send has moved the vector of the send
  buffer before a write was complete: then some bytes are missing, and the next thing that happens on
  the connection is that the socket reads memory that was freed.
\<close>

theorem stream_delivers:
  assumes "msg_codec_ok c" "net_run c xs s" "roomy (length (stream_of c xs))"
  shows "(\<exists>k. session_read c (cs_wire s) = Some (messages_of (take k xs))) \<and>
    (if overtaken (cs_buffer s) (cs_writes s)
     then cs_wire s \<noteq> stream_of c xs \<and> (\<forall>i k. socket_writes i k s = None) \<and> (\<nexists>s'. socket_step s s')
     else \<exists>s'. socket_step\<^sup>*\<^sup>* s s' \<and> session_read c (cs_wire s') = Some (messages_of xs))"
proof -
  have inv: "session_inv (stream_of c xs) s" by (rule net_run_inv [OF assms(2,3)])
  show ?thesis
  proof (cases "overtaken (cs_buffer s) (cs_writes s)")
    case True
    then show ?thesis using net_run_read(1) [OF assms] overtaken_faults [OF inv True] by simp
  next
    case False
    then obtain s' where s': "socket_step\<^sup>*\<^sup>* s s'" "cs_wire s' = stream_of c xs" using socket_drains [OF inv] by blast
    then have "session_read c (cs_wire s') = Some (messages_of xs)" using net_run_read(2) [OF assms] by (simp only:)
    then show ?thesis using net_run_read(1) [OF assms] s'(1) False by auto
  qed
qed

theorem stream_delivers_witness:
  "\<exists>s s'. net_run sample_msgs [Tick 0, Message new_message] s \<and> cs_connected s \<and> cs_writes s \<noteq> [] \<and>
    socket_step\<^sup>*\<^sup>* s s' \<and> session_read sample_msgs (cs_wire s') = Some [new_message]"
proof -
  let ?xs = "[Tick 0, Message new_message]"
  have room: "roomy (length (stream_of sample_msgs ?xs))" "length (sent_frame sample_msgs (Message new_message)) \<le> 4083"
    by code_simp+
  obtain s where s: "net_run sample_msgs ?xs s" "cs_connected s" "cs_writes s \<noteq> []"
    "\<not> overtaken (cs_buffer s) (cs_writes s)"
    by (rule send_during_write [OF room(1)]) (use room(2) in blast)
  from stream_delivers [OF sample_msgs_ok s(1) room(1)] s show ?thesis by (auto simp: messages_of_def)
qed

text \<open>A message of five thousand bytes that is sent while a write is under way is such a send.\<close>

lemma large_message_overtakes:
  assumes "5000 \<le> length (pk_msg c m)" "roomy (length (stream_of c [Tick 0, Message m]))"
  shows "\<exists>s. net_run c [Tick 0, Message m] s \<and> overtaken (cs_buffer s) (cs_writes s)"
proof -
  have "4136 \<le> length (sent_frame c (Message m))"
    using assms(1) by (simp add: sent_frame_def sent_data_def frame_of_def)
  then show ?thesis by (blast intro: send_during_write [OF assms(2)])
qed

text \<open>
  C32. Routing.  A batch of messages reaches the sessions of the peers it names, each in the order of the
  batch; a message to nobody or to an unknown peer is dropped.
\<close>

theorem batch_is_routed:
  assumes "peers_inv stream t"
    and "\<forall>i \<in> dom (map_of (tr_peers t)). roomy (length (stream i) + length (stream_of c (addressed i ms)))"
  shows "\<exists>t'. transport_send c ms t = Some t' \<and> dom (map_of (tr_peers t')) = dom (map_of (tr_peers t)) \<and>
    peers_inv (\<lambda>i. stream i @ stream_of c (addressed i ms)) t'"
  by (rule transport_send_inv [OF assms])

theorem batch_is_routed_witness:
  "\<exists>t'. transport_send sample_msgs [new_message\<lparr>m_to := 2\<rparr>, new_message\<lparr>m_to := 3\<rparr>]
      \<lparr>tr_peers = [(2, Some new_client_session)], tr_tick = 0\<rparr> = Some t' \<and>
    peers_inv (\<lambda>i. stream_of sample_msgs (addressed i [new_message\<lparr>m_to := 2\<rparr>, new_message\<lparr>m_to := 3\<rparr>])) t'"
proof -
  let ?t = "\<lparr>tr_peers = [(2, Some new_client_session)], tr_tick = 0\<rparr>"
    and ?ms = "[new_message\<lparr>m_to := 2\<rparr>, new_message\<lparr>m_to := 3\<rparr>]"
  have p: "peers_inv (\<lambda>i. '''') ?t" by (simp add: peers_inv_def session_inv_new)
  have "roomy (length (stream_of sample_msgs (addressed 2 ?ms)))" by code_simp
  then have "\<forall>i \<in> dom (map_of (tr_peers ?t)). roomy (length ('''' :: string) + length (stream_of sample_msgs (addressed i ?ms)))"
    by simp
  from batch_is_routed [OF p this] show ?thesis by auto
qed

section \<open>The key-value store\<close>

text \<open>
  C33. KEYS.  The keys a pattern gives are those of the database that match it token by token, each once;
  the empty key is given by the empty pattern only, although a star matches any string.
\<close>

theorem keys_are_matches:
  assumes "database_ok db view"
  shows "distinct (store_keys db pattern s) \<and> set (store_keys db pattern s) =
    {key \<in> dom (view (st_db s)). if key = '''' then pattern = '''' else matches False (tokens pattern) key}"
proof -
  have "set (map fst (db_scan db (st_db s))) = dom (view (st_db s))"
    by (simp add: dom_map_of_conv_image_fst flip: database_okD(5) [OF assms])
  then show ?thesis
    using database_okD(6) [OF assms] glob_star_matches(1) glob_empty_key
    by (auto simp: store_keys_def simp del: set_map)
qed

theorem keys_are_matches_witness:
  "set (store_keys sample_db ''?'' sample_store) = {''a'', ''b''} \<and> matches False (tokens ''?'') ''a''"
proof -
  have "matches False (tokens ''?'') ''a''" by code_simp
  moreover have "''a'' \<in> set (store_keys sample_db ''?'' sample_store) \<longleftrightarrow>
      ''a'' \<in> dom (map_of (st_db sample_store)) \<and> matches False (tokens ''?'') ''a''"
    using keys_are_matches [OF sample_db_ok, of "''?''" sample_store] by simp
  moreover have "set (store_keys sample_db ''?'' sample_store) = {''a'', ''b''}" by code_simp
  ultimately show ?thesis by blast
qed

text \<open>
  C34. Snapshots of the store.  Recovering from the snapshot of another store gives its content, except
  that a snapshot without pairs deletes nothing.
\<close>

theorem snapshot_transfers:
  assumes "database_ok db view" "kv_codec_ok c"
  shows "\<exists>t'. recover_from_snapshot db c (get_snapshot db c s) t = Some (StatusOk, t') \<and>
    view (st_db t') = (if view (st_db s) = Map.empty then view (st_db t) else view (st_db s))"
  by (rule recover_view [OF assms])

theorem snapshot_transfers_witness:
  "(\<exists>t. recover_from_snapshot sample_db sample_kv (get_snapshot sample_db sample_kv sample_store)
      (sample_store\<lparr>st_db := [(''z'', ''3'')]\<rparr>) = Some (StatusOk, t) \<and> map_of (st_db t) = map_of (st_db sample_store)) \<and>
   (\<exists>t. recover_from_snapshot sample_db sample_kv (get_snapshot sample_db sample_kv (sample_store\<lparr>st_db := []\<rparr>))
      sample_store = Some (StatusOk, t) \<and> map_of (st_db t) = map_of (st_db sample_store))"
proof -
  have "map_of (st_db sample_store) ''a'' = Some ''1''" by code_simp
  then have "map_of (st_db sample_store) \<noteq> Map.empty" by auto
  then show ?thesis
    using snapshot_transfers [OF sample_db_ok sample_kv_ok, of sample_store "sample_store\<lparr>st_db := [(''z'', ''3'')]\<rparr>"]
      snapshot_transfers [OF sample_db_ok sample_kv_ok, of "sample_store\<lparr>st_db := []\<rparr>" sample_store]
    by simp
qed

text \<open>
  C35. Restart of the store.  The database survives a crash with a part of the entries applied; applying
  all of them again ends in the content they would have given to the database as it was before any.
\<close>

theorem replay_converges:
  assumes "database_ok db view" "\<forall>data \<in> set datas. entry_well_formed c data"
    and "view (st_db s) = fold (entry_view c) (take n datas) m"
  shows "\<exists>s'. each (read_commit db c) datas s = Some s' \<and> view (st_db s') = fold (entry_view c) datas m"
  using run_commits [OF assms(1,2)] replay_over_prefix [of c datas n m] assms(3) by metis

theorem replay_converges_witness:
  "\<exists>s'. each (read_commit sample_db sample_kv) [sample_request] (sample_store\<lparr>st_db := [(''a'', ''9'')]\<rparr>) = Some s' \<and>
    map_of (st_db s') ''a'' = Some ''9''"
proof -
  have w: "\<forall>data \<in> set [sample_request]. entry_well_formed sample_kv data" by (simp add: sample_waiting)
  have v: "map_of (st_db (sample_store\<lparr>st_db := [(''a'', ''9'')]\<rparr>)) =
      fold (entry_view sample_kv) (take 1 [sample_request]) Map.empty"
    by (simp add: sample_waiting)
  show ?thesis using replay_converges [OF sample_db_ok w v] by (auto simp: sample_waiting)
qed

text \<open>
  C36. Requests and answers balance.  Whatever is committed, refused or restored, of the clients that
  asked each one was answered once or still waits: nobody is answered twice or forgotten (as long as
  the 32-bit request numbers do not wrap).
\<close>

theorem requests_balance:
  assumes "new_store db c node d snap = Some s" "each (store_step db c) is s = Some s'" "length is < W32"
  shows "mset (requesters is) = mset (map fst (st_answers s')) + mset (map snd (st_pending s'))"
proof -
  have "pending_ok s" "served s = {#}" "st_next_id s = 0"
    using assms(1) by (auto simp: new_store_def pending_ok_def served_def)
  then show ?thesis using run_served [OF assms(2)] assms(3) by (simp add: served_def)
qed

theorem requests_balance_witness:
  "\<exists>s s'. new_store sample_db sample_kv 1 [] '''' = Some s \<and>
    each (store_step sample_db sample_kv) [SetRequest ''a'' ''9'' 7, SetProposed 0 StatusOk, Committed sample_request] s = Some s' \<and>
    {#7#} = mset (map fst (st_answers s')) + mset (map snd (st_pending s'))"
proof -
  let ?is = "[SetRequest ''a'' ''9'' 7, SetProposed 0 StatusOk, Committed sample_request]"
  obtain s where s: "new_store sample_db sample_kv 1 [] '''' = Some s" by (simp add: new_store_def)
  have "(case new_store sample_db sample_kv 1 [] '''' of Some s \<Rightarrow> each (store_step sample_db sample_kv) ?is s | None \<Rightarrow> None) \<noteq> None"
    by code_simp
  then obtain s' where s': "each (store_step sample_db sample_kv) ?is s = Some s'" using s by auto
  have "length ?is < W32" "requesters ?is = [7]" by (simp_all add: W32_def requesters_def)
  then show ?thesis using requests_balance [OF s s'] s s' by auto
qed

text \<open>
  C37. A write and a read.  The proposal of a SET, once committed, updates the database and answers its
  client OK; a GET after it replies a bulk string that reads back as the value, unless the value has a
  NUL in it, at which the reply breaks off.
\<close>

theorem set_then_get:
  assumes "database_ok db view" "kv_codec_ok c" "pending_ok st" "st_node st < W32"
  shows "\<exists>data st1 st2. run_command db c client st (set_cmd k v) = Ask (ProposeSet (st_next_id st) data) st1 \<and>
    read_commit db c data st1 = Some st2 \<and> st_answers st2 = st_answers st @ [(client, StatusOk)] \<and>
    view (st_db st2) = (view (st_db st))(k \<mapsto> v) \<and>
    run_command db c client' st2 (get_cmd k) = ReplyNow (bulk_reply v) \<and>
    read_bulk (bulk_reply v) = (if CHR 0x00 \<in> set v then None else Some (v, ''''))"
proof -
  obtain data st1 where st1: "store_set c k v client st = (data, st1)" by fastforce
  obtain st2 where st2: "read_commit db c data st1 = Some st2" "view (st_db st2) = (view (st_db st))(k \<mapsto> v)"
    "st_answers st2 = st_answers st @ [(client, StatusOk)]"
    using set_committed [OF assms st1] by blast
  have "view (st_db st2) k = Some v" using st2(2) by simp
  from run_get [OF assms(1) this] show ?thesis
    using run_set [of db c client st k v] st1 st2 bulk_reply_reads [of v] by simp
qed

theorem set_then_get_witness:
  "\<exists>data st1 st2. run_command sample_db sample_kv 7 sample_store (set_cmd ''x'' ''42'') = Ask (ProposeSet 0 data) st1 \<and>
    read_commit sample_db sample_kv data st1 = Some st2 \<and> st_answers st2 = [(7, StatusOk)] \<and>
    run_command sample_db sample_kv 8 st2 (get_cmd ''x'') = ReplyNow (bulk_reply ''42'')"
proof -
  have "pending_ok sample_store" "st_node sample_store < W32" by (simp_all add: pending_ok_def sample_store_def W32_def)
  moreover have "st_next_id sample_store = 0" "st_answers sample_store = []" by (simp_all add: sample_store_def)
  ultimately show ?thesis
    using set_then_get [OF sample_db_ok sample_kv_ok, of sample_store 7 "''x''" "''42''" 8] by auto
qed

text \<open>
  C38. A false answer after a restart.  Requests are numbered from 0 again, so that an entry of an earlier
  run that is applied after the restart answers the first new SET with OK: its key still has the value it
  had, and the request is forgotten.
\<close>

theorem old_entry_answers:
  assumes "database_ok db view" "kv_codec_ok c" "node < W32"
    and "new_store db c node d '''' = Some st" "store_set c k v client st = (data, st1)"
    and "old = pk_commit c \<lparr>cm_node = node, cm_id = 0, cm_data = \<lparr>rc_type = kCommitSet, rc_strs = [k', v']\<rparr>\<rparr>"
    and "k' \<noteq> k"
  shows "\<exists>st2. read_commit db c old st1 = Some st2 \<and> st_answers st2 = [(client, StatusOk)] \<and>
    st_pending st2 = [] \<and> view (st_db st2) k = view d k"
  by (rule replay_answers [OF assms])

theorem old_entry_answers_witness:
  "\<exists>st data st1 st2. new_store sample_db sample_kv 1 [] '''' = Some st \<and>
    store_set sample_kv ''new'' ''1'' 7 st = (data, st1) \<and>
    read_commit sample_db sample_kv sample_request st1 = Some st2 \<and>
    st_answers st2 = [(7, StatusOk)] \<and> map_of (st_db st2) ''new'' = None"
proof -
  obtain st where st: "new_store sample_db sample_kv 1 [] '''' = Some st" by (simp add: new_store_def)
  obtain data st1 where st1: "store_set sample_kv ''new'' ''1'' 7 st = (data, st1)" by fastforce
  have r: "sample_request = pk_commit sample_kv
      \<lparr>cm_node = 1, cm_id = 0, cm_data = \<lparr>rc_type = kCommitSet, rc_strs = [''a'', ''9'']\<rparr>\<rparr>"
    by (simp add: sample_request_def sample_commit_def)
  have "(1::nat) < W32" "''a'' \<noteq> ''new''" by (simp_all add: W32_def)
  from old_entry_answers [OF sample_db_ok sample_kv_ok this(1) st st1 r this(2)] show ?thesis
    using st st1 by auto
qed

text \<open>
  C39. A split command is lost.  Bytes behind the last newline of a read never reach the parser: it ends in
  the same state, with the same commands, as if they had not arrived, and another read is begun.
\<close>

theorem partial_line_lost:
  assumes "data = '''' \<or> last data = CHR 0x0A" "CHR 0x0A \<notin> set tail" "tail \<noteq> ''''" "\<not> ss_quit s"
    and "read_lines rd data s = (True, s', rs)"
  shows "read_lines rd (data @ tail) s = (True, session_start s', rs)"
  using read_lines_tail [OF assms] by simp

theorem partial_line_lost_witness:
  "read_lines \<lparr>reader_feed = (\<lambda>r line. (True, r @ line)), reader_get = (\<lambda>r. (True, None, r))\<rparr> ''*1''
     \<lparr>ss_client = 7, ss_quit = False, ss_reader = '''', ss_send = new_byte_buffer, ss_reads = 0, ss_writes = [], ss_wire = ''''\<rparr> =
   (True, \<lparr>ss_client = 7, ss_quit = False, ss_reader = '''', ss_send = new_byte_buffer, ss_reads = 1, ss_writes = [], ss_wire = ''''\<rparr>, [])"
proof -
  let ?rd = "\<lparr>reader_feed = (\<lambda>r line. (True, r @ line)), reader_get = (\<lambda>r. (True, None, r))\<rparr>"
    and ?s = "\<lparr>ss_client = 7, ss_quit = False, ss_reader = '''', ss_send = new_byte_buffer, ss_reads = 0, ss_writes = [], ss_wire = ''''\<rparr>"
  have "read_lines ?rd '''' ?s = (True, ?s, [])" by (subst read_lines.simps) simp
  from partial_line_lost [OF _ _ _ _ this, of "''*1''"] show ?thesis by (simp add: session_start_def)
qed

text \<open>
  C40. Pipelining.  The commands of a batch, none with a name of 200 bytes or more, are answered in their
  order: their replies follow what was queued before, with one write under way of the front of the queue,
  the proposals of writes are made in order, and reads see the store as it is.
\<close>

theorem batch_in_order:
  assumes "reply_inv stream s" "\<forall>r \<in> set rs. short_command r"
    and "answers db c (ss_client s) rs st = (out, st', ps')" "roomy (length stream + length out)"
  shows "\<exists>s'. each (on_redis_reply db c) rs (s, st, ps) = Some (s', st', ps @ ps') \<and> reply_inv (stream @ out) s'"
  by (rule batch_answers [OF assms])

theorem batch_in_order_witness:
  "\<exists>s'. each (on_redis_reply sample_db sample_kv) [RArray [RString ''ping''], get_cmd ''a'']
      (\<lparr>ss_client = 7, ss_quit = False, ss_reader = '''', ss_send = new_byte_buffer, ss_reads = 0, ss_writes = [], ss_wire = ''''\<rparr>,
       sample_store, []) = Some (s', sample_store, []) \<and>
    reply_inv (pong_reply @ bulk_reply ''1'') s'"
proof -
  let ?s = "\<lparr>ss_client = 7, ss_quit = False, ss_reader = '''', ss_send = new_byte_buffer, ss_reads = 0, ss_writes = [], ss_wire = ''''\<rparr>"
  have i: "reply_inv '''' ?s" by (simp add: reply_inv_def)
  have "map_of (st_db sample_store) ''a'' = Some ''1''" by code_simp
  from run_get [OF sample_db_ok this] have
    a: "answers sample_db sample_kv (ss_client ?s) [RArray [RString ''ping''], get_cmd ''a''] sample_store =
      (pong_reply @ bulk_reply ''1'', sample_store, [])"
    by (simp add: run_command_def [of _ _ _ _ "RArray [RString ''ping'']"] ping_command_def)
  have r: "roomy (length ('''' :: string) + length (pong_reply @ bulk_reply ''1''))" by code_simp
  show ?thesis using batch_in_order [OF i _ a r, of "[]"] by simp
qed

end
